(* ===== verification/Prelude.thy ===== *)
theory Prelude
  imports Main "HOL-Library.Word" "HOL-Library.Monad_Syntax" "HOL-Library.Multiset"
begin

text \<open>
  What every component of the development shares: the names of the machine types, the
  reading of \<^typ>\<open>'a option\<close> as "the C or C++ code has undefined behaviour here", and the
  generic facts on lists, options and words.

  Conventions of the whole development:
  \<^item> a function of the source that can reach undefined behaviour (an access outside a block,
    a use after free, the unlock of a mutex that is not locked, a failing \<^verbatim>\<open>assert\<close>) returns
    \<^typ>\<open>'a option\<close>, and \<^term>\<open>None\<close> is that undefined behaviour; such functions are composed
    with the \<open>do\<close> notation of the option monad;
  \<^item> an error code of the library is a value of the type \<open>HT_ErrorCode\<close>, never \<^term>\<open>None\<close>;
  \<^item> \<^verbatim>\<open>size_t\<close> is \<^typ>\<open>nat\<close>; where the wrap-around of \<^verbatim>\<open>size_t\<close> can be reached it is written
    out (\<open>size_mul\<close> below, or an explicit case);
  \<^item> identifiers, timestamps and hashes, which do wrap around, are \<^typ>\<open>32 word\<close> and
    \<^typ>\<open>64 word\<close>.
\<close>

named_theorems ub_simps "facts that evaluate a computation that may be undefined"
named_theorems inv_simps "invariants of the components, as rewrite rules"

type_synonym byte = "8 word"
type_synonym u8 = "8 word"
type_synonym u16 = "16 word"
type_synonym u32 = "32 word"
type_synonym u64 = "64 word"

section \<open>The widths of \<^verbatim>\<open>size_t\<close>\<close>

text \<open>A 64-bit target: \<^verbatim>\<open>sizeof(size_t) = sizeof(void*) = 8\<close>.\<close>

definition SIZE_MODULUS :: nat where
  "SIZE_MODULUS = 2 ^ 64"

definition PTRDIFF_MAX :: nat where
  "PTRDIFF_MAX = 2 ^ 63 - 1"

definition sizeof_void_ptr :: nat where
  "sizeof_void_ptr = 8"

text \<open>The product of two values of type \<^verbatim>\<open>size_t\<close>.\<close>

definition size_mul :: "nat \<Rightarrow> nat \<Rightarrow> nat" where
  "size_mul a b = (a * b) mod SIZE_MODULUS"

lemma size_mul_id [simp]: "a * b < SIZE_MODULUS \<Longrightarrow> size_mul a b = a * b"
  by (simp add: size_mul_def)

section \<open>Arrays of cells\<close>

text \<open>
  The contents of a block that holds an array are a list of cells, \<^term>\<open>None\<close> for a cell that
  was never written. \<open>resize_cells n\<close> is what \<^verbatim>\<open>realloc\<close> does to them: the common prefix
  stays, new cells are uninitialised.
\<close>

definition resize_cells :: "nat \<Rightarrow> 'a option list \<Rightarrow> 'a option list" where
  "resize_cells n xs = take n xs @ replicate (n - length xs) None"

lemma length_resize_cells [simp]: "length (resize_cells n xs) = n"
  by (simp add: resize_cells_def)

lemma nth_resize_cells:
  "i < n \<Longrightarrow> i < length xs \<Longrightarrow> resize_cells n xs ! i = xs ! i"
  by (simp add: resize_cells_def nth_append)

lemma take_resize_cells:
  "k \<le> n \<Longrightarrow> k \<le> length xs \<Longrightarrow> take k (resize_cells n xs) = take k xs"
  by (simp add: resize_cells_def)

definition filled :: "nat \<Rightarrow> 'a option list \<Rightarrow> bool" where
  "filled k xs \<longleftrightarrow> k \<le> length xs \<and> (\<forall>i<k. xs ! i \<noteq> None)"

definition contents :: "nat \<Rightarrow> 'a option list \<Rightarrow> 'a list" where
  "contents k xs = map the (take k xs)"

lemma filled_0 [simp]: "filled 0 xs"
  by (simp add: filled_def)

lemma contents_0 [simp]: "contents 0 xs = []"
  by (simp add: contents_def)

lemma length_contents [simp]: "filled k xs \<Longrightarrow> length (contents k xs) = k"
  by (simp add: contents_def filled_def)

lemma filled_nth: "filled k xs \<Longrightarrow> i < k \<Longrightarrow> xs ! i = Some (contents k xs ! i)"
  by (auto simp: filled_def contents_def)

lemma filled_resize: "filled k xs \<Longrightarrow> k \<le> n \<Longrightarrow> filled k (resize_cells n xs)"
  by (auto simp: filled_def nth_resize_cells)

lemma contents_resize:
  "filled k xs \<Longrightarrow> k \<le> n \<Longrightarrow> contents k (resize_cells n xs) = contents k xs"
  by (simp add: filled_def contents_def take_resize_cells)

lemma filled_mono: "filled k xs \<Longrightarrow> j \<le> k \<Longrightarrow> filled j xs"
  by (simp add: filled_def)

lemma contents_take: "j \<le> k \<Longrightarrow> contents j xs = take j (contents k xs)"
  by (simp add: contents_def take_map)

lemma filled_update: "filled k xs \<Longrightarrow> filled k (xs[i := Some v])"
  by (auto simp: filled_def) (metis length_list_update nth_list_update_eq nth_list_update_neq
        order_less_le_trans)

lemma contents_update: "contents k (xs[i := Some v]) = (contents k xs)[i := v]"
  by (simp add: contents_def take_update_swap map_update)

lemma filled_snoc: "filled k xs \<Longrightarrow> k < length xs \<Longrightarrow> filled (Suc k) (xs[k := Some v])"
  by (simp add: filled_def nth_list_update)

lemma contents_snoc:
  "filled k xs \<Longrightarrow> k < length xs \<Longrightarrow> contents (Suc k) (xs[k := Some v]) = contents k xs @ [v]"
  by (simp add: contents_def take_Suc_conv_app_nth)

text \<open>\<^verbatim>\<open>memcpy\<close> of the elements \<open>bs\<close> to position \<open>off\<close> of a block.\<close>

definition write_cells :: "nat \<Rightarrow> 'a list \<Rightarrow> 'a option list \<Rightarrow> 'a option list" where
  "write_cells off bs xs = take off xs @ map Some bs @ drop (off + length bs) xs"

lemma length_write_cells [simp]:
  "off + length bs \<le> length xs \<Longrightarrow> length (write_cells off bs xs) = length xs"
  by (simp add: write_cells_def)

lemma filled_iff_contents: "filled k xs \<longleftrightarrow> k \<le> length xs \<and> take k xs = map Some (contents k xs)"
  by (fastforce simp: filled_def contents_def list_eq_iff_nth_eq)

lemma write_cells_append:
  assumes "filled k xs" and "k + length bs \<le> length xs"
  shows "filled (k + length bs) (write_cells k bs xs)"
    and "contents (k + length bs) (write_cells k bs xs) = contents k xs @ bs"
proof -
  have "take (k + length bs) (write_cells k bs xs) = map Some (contents k xs @ bs)"
    using assms by (simp add: filled_iff_contents write_cells_def)
  with assms(2) show "filled (k + length bs) (write_cells k bs xs)"
    and "contents (k + length bs) (write_cells k bs xs) = contents k xs @ bs"
    by (simp_all add: filled_iff_contents) (simp_all add: contents_def)
qed

text \<open>The difference of two values of type \<^verbatim>\<open>size_t\<close>.\<close>

definition size_sub :: "nat \<Rightarrow> nat \<Rightarrow> nat" where
  "size_sub a b = (a + (SIZE_MODULUS - b)) mod SIZE_MODULUS"

lemma size_sub_le: "b \<le> a \<Longrightarrow> a < SIZE_MODULUS \<Longrightarrow> size_sub a b = a - b"
proof -
  assume "b \<le> a" and "a < SIZE_MODULUS"
  then have "a + (SIZE_MODULUS - b) = (a - b) + SIZE_MODULUS" and "a - b < SIZE_MODULUS" by simp_all
  then show ?thesis by (simp only: size_sub_def mod_add_self2 mod_less)
qed

section \<open>Removal by swapping with the last element\<close>

text \<open>
  The order-destroying removal the library uses: the last element takes the place of the
  removed one.
\<close>

definition swap_remove :: "nat \<Rightarrow> 'a list \<Rightarrow> 'a list" where
  "swap_remove n xs = (if n < length xs - 1 then butlast (xs[n := last xs]) else butlast xs)"

lemma length_swap_remove [simp]: "length (swap_remove n xs) = length xs - 1"
  by (simp add: swap_remove_def)

lemma swap_remove_last [simp]: "swap_remove (length xs - 1) xs = butlast xs"
  by (simp add: swap_remove_def)

lemma swap_remove_alt: "swap_remove n xs = (take (length xs - 1) xs)[n := last xs]"
proof (cases "n < length xs - 1")
  case True
  then show ?thesis
    by (simp add: swap_remove_def butlast_conv_take take_update_swap)
next
  case False
  then show ?thesis
    by (simp add: swap_remove_def butlast_conv_take list_update_beyond)
qed

lemma mset_swap_remove:
  assumes "n < length xs"
  shows "mset (swap_remove n xs) = mset xs - {#xs ! n#}"
proof -
  from assms obtain ys y where xs: "xs = ys @ [y]"
    by (cases xs rule: rev_cases) auto
  show ?thesis
  proof (cases "n < length ys")
    case True
    then have "mset (ys[n := y]) = add_mset y (mset ys - {#ys ! n#})"
      by (rule mset_update)
    moreover from True have "ys ! n \<in># mset ys" by simp
    ultimately show ?thesis
      using True by (simp add: swap_remove_def xs nth_append list_update_append)
  next
    case False
    with assms xs show ?thesis by (simp add: swap_remove_def nth_append)
  qed
qed

text \<open>Two capacities with the same minimum: the larger one is at least twice the smaller.\<close>

lemma pow2_multiple_less:
  fixes c :: nat
  assumes "c * 2 ^ i < c * 2 ^ j"
  shows "2 * (c * 2 ^ i) \<le> c * 2 ^ j"
proof -
  from assms have "(2::nat) ^ i < 2 ^ j" and "0 < c" by (cases "c = 0"; simp)+
  then have "Suc i \<le> j" by (simp add: Suc_le_eq)
  then have "(2::nat) ^ Suc i \<le> 2 ^ j" by (rule power_increasing) simp
  then have "c * 2 ^ Suc i \<le> c * 2 ^ j" by (rule mult_le_mono2)
  then show ?thesis by simp
qed

section \<open>Association lists\<close>

lemma map_of_zip_update:
  assumes "length ks = length vs" and "distinct ks" and "n < length ks"
  shows "map_of (zip ks (vs[n := v])) = (map_of (zip ks vs))(ks ! n \<mapsto> v)"
  using assms
proof (induction ks vs arbitrary: n rule: list_induct2)
  case (Cons k ks w vs)
  then show ?case by (cases n) (auto simp: fun_eq_iff)
qed simp

lemma map_of_zip_snoc:
  assumes "length ks = length vs" and "k \<notin> set ks"
  shows "map_of (zip (ks @ [k]) (vs @ [v])) = (map_of (zip ks vs))(k \<mapsto> v)"
  using assms by (induction ks vs rule: list_induct2) (auto simp: fun_eq_iff)

text \<open>Association lists one after the other, where the class \<open>f k\<close> of a key says in which one it is.\<close>

lemma map_of_concat_classes:
  assumes "\<And>i. i < length g \<Longrightarrow> \<forall>k\<in>fst ` set (g ! i). f k = n + i"
  shows "map_of (concat g) k =
           (if n \<le> f k \<and> f k < n + length g then map_of (g ! (f k - n)) k else None)"
  using assms
proof (induction g arbitrary: n)
  case (Cons xs g)
  have hd: "\<forall>k\<in>fst ` set xs. f k = n" using Cons.prems [of 0] by simp
  have IH: "map_of (concat g) k =
      (if Suc n \<le> f k \<and> f k < Suc n + length g then map_of (g ! (f k - Suc n)) k else None)"
    using Cons.prems [of "Suc _"] by (intro Cons.IH) auto
  show ?case
  proof (cases "f k = n")
    case True
    with IH have "map_of (concat g) k = None" by simp
    with True show ?thesis by (simp add: map_add_def split: option.splits)
  next
    case False
    with hd have "map_of xs k = None" by (auto simp: map_of_eq_None_iff)
    with False IH show ?thesis by (auto simp: map_add_def nth_Cons' split: option.splits)
  qed
qed auto

lemma distinct_concat_classes:
  assumes "\<And>i. i < length g \<Longrightarrow> (\<forall>k\<in>fst ` set (g ! i). f k = n + i) \<and> distinct (map fst (g ! i))"
  shows "distinct (map fst (concat g))"
  using assms
proof (induction g arbitrary: n)
  case (Cons xs g)
  have hd: "\<forall>k\<in>fst ` set xs. f k = n" "distinct (map fst xs)" using Cons.prems [of 0] by auto
  have tl: "f k \<noteq> n" if "ys \<in> set g" "k \<in> fst ` set ys" for ys k
  proof -
    from that obtain i where "i < length g" "ys = g ! i" by (auto simp: in_set_conv_nth)
    with Cons.prems [of "Suc i"] that show ?thesis by auto
  qed
  have "distinct (map fst (concat g))"
    using Cons.prems [of "Suc _"] by (intro Cons.IH [of "Suc n"]) auto
  with hd tl show ?case by (auto simp: image_iff)
qed simp

section \<open>Sequences of operations\<close>

fun repeat_op :: "nat \<Rightarrow> ('s \<Rightarrow> 's option) \<Rightarrow> 's \<Rightarrow> 's option" where
  "repeat_op 0 f s = Some s"
| "repeat_op (Suc n) f s = do { s \<leftarrow> f s; repeat_op n f s }"

lemma repeat_op_add: "repeat_op (m + n) f s = do { s \<leftarrow> repeat_op m f s; repeat_op n f s }"
proof (induction m arbitrary: s)
  case (Suc m)
  then show ?case by (cases "f s") simp_all
qed simp

fun run_ops :: "('a \<Rightarrow> 's \<Rightarrow> 's option) \<Rightarrow> 'a list \<Rightarrow> 's \<Rightarrow> 's option" where
  "run_ops f [] s = Some s"
| "run_ops f (a # as) s = do { s \<leftarrow> f a s; run_ops f as s }"

lemma run_ops_Nil [simp]: "run_ops f [] = Some"
  by (rule ext) simp

lemma run_ops_append: "run_ops f (as @ bs) s = do { s \<leftarrow> run_ops f as s; run_ops f bs s }"
proof (induction as arbitrary: s)
  case (Cons a as)
  then show ?case by (cases "f a s") simp_all
qed simp

end
