(* ===== verification/Base_Types.thy ===== *)
theory Base_Types
  imports Prelude
begin

text \<open>
  \<^verbatim>\<open>lib/include/hawktracer/base_types.h\<close>: the integer types, the error codes, the byte orders
  and the data types of event fields.
\<close>

type_synonym HT_EventKlassId = u32
type_synonym HT_TimestampNs = u64
type_synonym HT_EventId = u64
type_synonym HT_DurationNs = u64
type_synonym HT_ThreadId = u32
type_synonym HT_Byte = byte

definition HT_INVALID_KLASS_ID :: HT_EventKlassId where
  "HT_INVALID_KLASS_ID = - 1"

definition HT_INVALID_FEATURE_ID :: u32 where
  "HT_INVALID_FEATURE_ID = - 1"

datatype HT_ErrorCode =
    HT_ERR_OK
  | HT_ERR_UNKNOWN
  | HT_ERR_OUT_OF_MEMORY
  | HT_ERR_FEATURE_ALREADY_REGISTERED
  | HT_ERR_FEATURE_NOT_REGISTERED
  | HT_ERR_MAX_FEATURE_COUNT_REACHED
  | HT_ERR_LISTENER_CONTAINER_ALREADY_REGISTERED
  | HT_ERR_CANT_OPEN_FILE
  | HT_ERR_CANT_START_TCP_SERVER
  | HT_ERR_CANT_CREATE_LISTENER_CONTAINER
  | HT_ERR_INVALID_FORMAT
  | HT_ERR_INVALID_ARGUMENT
  | HT_ERR_OUT_OF_RANGE
  | HT_ERR_MISSING_ARGUMENT

datatype HT_Endianness = HT_ENDIANNESS_LITTLE | HT_ENDIANNESS_BIG

fun endianness_code :: "HT_Endianness \<Rightarrow> u8" where
  "endianness_code HT_ENDIANNESS_LITTLE = 0"
| "endianness_code HT_ENDIANNESS_BIG = 1"

text \<open>
  The data types of \<^verbatim>\<open>mkcreflect.h\<close> with their numeric codes, and the code
  \<^verbatim>\<open>HT_MKCREFLECT_TYPES_EXT_UNSIGNED_INTEGER\<close> that the stream format adds.
\<close>

datatype MKCREFLECT_Types =
    MKCREFLECT_TYPES_STRUCT
  | MKCREFLECT_TYPES_STRING
  | MKCREFLECT_TYPES_INTEGER
  | MKCREFLECT_TYPES_FLOAT
  | MKCREFLECT_TYPES_DOUBLE
  | MKCREFLECT_TYPES_POINTER

fun mkcreflect_code :: "MKCREFLECT_Types \<Rightarrow> u8" where
  "mkcreflect_code MKCREFLECT_TYPES_STRUCT = 1"
| "mkcreflect_code MKCREFLECT_TYPES_STRING = 2"
| "mkcreflect_code MKCREFLECT_TYPES_INTEGER = 3"
| "mkcreflect_code MKCREFLECT_TYPES_FLOAT = 4"
| "mkcreflect_code MKCREFLECT_TYPES_DOUBLE = 5"
| "mkcreflect_code MKCREFLECT_TYPES_POINTER = 6"

definition HT_MKCREFLECT_TYPES_EXT_UNSIGNED_INTEGER :: u8 where
  "HT_MKCREFLECT_TYPES_EXT_UNSIGNED_INTEGER = 99"

end
