(* ===== verification/Alloc.thy ===== *)
theory Alloc
  imports Base_Types
begin

text \<open>
  \<^verbatim>\<open>lib/alloc.c\<close>: the allocator of the library, over a model of the C heap.

  The heap records which blocks are live and how many bytes each has. What a block contains
  is kept with the structure that owns it (every block of this library has one owner), so the
  heap here decides liveness, sizes, leaks and double frees. Whether the C library can satisfy
  a request is an input of the model: \<open>refusals\<close> lists its answers to the coming requests
  (\<^term>\<open>True\<close> is "out of memory", and an exhausted list means no refusal), and every sequence
  of answers is possible. A request above \<^verbatim>\<open>PTRDIFF_MAX\<close> bytes is always refused.
\<close>

section \<open>The C heap\<close>

type_synonym addr = nat

record heap =
  blocks :: "addr \<rightharpoonup> nat"
  next_addr :: addr
  refusals :: "bool list"

definition libc_refuses :: "nat \<Rightarrow> heap \<Rightarrow> bool" where
  "libc_refuses n h \<longleftrightarrow> PTRDIFF_MAX < n \<or> (refusals h \<noteq> [] \<and> hd (refusals h))"

definition malloc :: "nat \<Rightarrow> heap \<Rightarrow> addr option \<times> heap" where
  "malloc n h =
     (if libc_refuses n h then (None, h\<lparr>refusals := tl (refusals h)\<rparr>)
      else (Some (next_addr h),
            h\<lparr>blocks := (blocks h)(next_addr h \<mapsto> n),
              next_addr := Suc (next_addr h),
              refusals := tl (refusals h)\<rparr>))"

definition free :: "addr option \<Rightarrow> heap \<Rightarrow> heap option" where
  "free p h =
     (case p of
        None \<Rightarrow> Some h
      | Some a \<Rightarrow> (if blocks h a = None then None
                  else Some (h\<lparr>blocks := (blocks h)(a := None)\<rparr>)))"

text \<open>\<^verbatim>\<open>realloc(p, 0)\<close> frees the block and returns the null pointer, as in glibc.\<close>

definition realloc :: "addr option \<Rightarrow> nat \<Rightarrow> heap \<Rightarrow> (addr option \<times> heap) option" where
  "realloc p n h =
     (case p of
        None \<Rightarrow> Some (malloc n h)
      | Some a \<Rightarrow>
          (if blocks h a = None then None
           else if n = 0 then do { h' \<leftarrow> free p h; Some (None, h') }
           else if libc_refuses n h then Some (None, h\<lparr>refusals := tl (refusals h)\<rparr>)
           else Some (Some (next_addr h),
                      h\<lparr>blocks := (blocks h)(a := None, next_addr h \<mapsto> n),
                        next_addr := Suc (next_addr h),
                        refusals := tl (refusals h)\<rparr>)))"

definition heap_ok :: "heap \<Rightarrow> bool" where
  "heap_ok h \<longleftrightarrow> (\<forall>a. blocks h a \<noteq> None \<longrightarrow> a < next_addr h)"

section \<open>The allocator of the library\<close>

text \<open>
  A custom allocator is one function that allocates (null pointer), reallocates, and frees
  (size 0). It is code of the user, so it is a value of the model's state.
\<close>

type_synonym realloc_function =
  "addr option \<Rightarrow> nat \<Rightarrow> nat \<Rightarrow> heap \<Rightarrow> (addr option \<times> heap) option"

record mem =
  heap_of :: heap
  realloc_fnc :: "realloc_function option"
  user_data :: nat

definition ht_allocator_set :: "realloc_function option \<Rightarrow> nat \<Rightarrow> mem \<Rightarrow> mem" where
  "ht_allocator_set func ud m = m\<lparr>realloc_fnc := func, user_data := ud\<rparr>"

definition ht_alloc :: "nat \<Rightarrow> mem \<Rightarrow> (addr option \<times> mem) option" where
  "ht_alloc n m =
     (case realloc_fnc m of
        None \<Rightarrow> (let (p, h) = malloc n (heap_of m) in Some (p, m\<lparr>heap_of := h\<rparr>))
      | Some f \<Rightarrow> do { (p, h) \<leftarrow> f None n (user_data m) (heap_of m);
                      Some (p, m\<lparr>heap_of := h\<rparr>) })"

definition ht_realloc :: "addr option \<Rightarrow> nat \<Rightarrow> mem \<Rightarrow> (addr option \<times> mem) option" where
  "ht_realloc ptr n m =
     do { (p, h) \<leftarrow> (case realloc_fnc m of
                       None \<Rightarrow> realloc ptr n (heap_of m)
                     | Some f \<Rightarrow> f ptr n (user_data m) (heap_of m));
          Some (p, m\<lparr>heap_of := h\<rparr>) }"

definition ht_free :: "addr option \<Rightarrow> mem \<Rightarrow> mem option" where
  "ht_free ptr m =
     (case realloc_fnc m of
        None \<Rightarrow> do { h \<leftarrow> free ptr (heap_of m); Some (m\<lparr>heap_of := h\<rparr>) }
      | Some f \<Rightarrow> do { (_, h) \<leftarrow> f ptr 0 (user_data m) (heap_of m);
                      Some (m\<lparr>heap_of := h\<rparr>) })"

definition live :: "mem \<Rightarrow> addr \<rightharpoonup> nat" where
  "live m = blocks (heap_of m)"

section \<open>What an allocator promises\<close>

text \<open>The outcome of a request for \<open>n\<close> bytes, and of the growth of the block \<open>a\<close> to \<open>n\<close> bytes.\<close>

definition alloc_post ::
  "nat \<Rightarrow> (addr \<rightharpoonup> nat) \<Rightarrow> addr option \<Rightarrow> (addr \<rightharpoonup> nat) \<Rightarrow> bool" where
  "alloc_post n B p B' =
     (case p of
        None \<Rightarrow> B' = B
      | Some a \<Rightarrow> B a = None \<and> B' = B(a \<mapsto> n) \<and> n \<le> PTRDIFF_MAX)"

definition realloc_post ::
  "addr \<Rightarrow> nat \<Rightarrow> (addr \<rightharpoonup> nat) \<Rightarrow> addr option \<Rightarrow> (addr \<rightharpoonup> nat) \<Rightarrow> bool" where
  "realloc_post a n B p B' =
     (case p of
        None \<Rightarrow> B' = B
      | Some b \<Rightarrow> (b = a \<or> B b = None) \<and> B' = B(a := None, b \<mapsto> n) \<and> n \<le> PTRDIFF_MAX)"

text \<open>The documented contract of a custom allocator (\<^verbatim>\<open>alloc.h\<close>).\<close>

definition realloc_fnc_ok :: "realloc_function \<Rightarrow> bool" where
  "realloc_fnc_ok f \<longleftrightarrow>
     (\<forall>n ud h. heap_ok h \<and> 0 < n \<longrightarrow>
        (\<exists>p h'. f None n ud h = Some (p, h') \<and> heap_ok h' \<and>
                alloc_post n (blocks h) p (blocks h'))) \<and>
     (\<forall>a n ud h. heap_ok h \<and> blocks h a \<noteq> None \<and> 0 < n \<longrightarrow>
        (\<exists>p h'. f (Some a) n ud h = Some (p, h') \<and> heap_ok h' \<and>
                realloc_post a n (blocks h) p (blocks h'))) \<and>
     (\<forall>a ud h. heap_ok h \<and> blocks h a \<noteq> None \<longrightarrow>
        (\<exists>p h'. f (Some a) 0 ud h = Some (p, h') \<and> heap_ok h' \<and>
                blocks h' = (blocks h)(a := None))) \<and>
     (\<forall>ud h. heap_ok h \<longrightarrow>
        (\<exists>h'. f None 0 ud h = Some (None, h') \<and> heap_ok h' \<and> blocks h' = blocks h))"

definition alloc_wf :: "mem \<Rightarrow> bool" where
  "alloc_wf m \<longleftrightarrow> heap_ok (heap_of m) \<and> (\<forall>f. realloc_fnc m = Some f \<longrightarrow> realloc_fnc_ok f)"

text \<open>The interface the containers of the library rely on.\<close>

locale allocator =
  fixes alloc :: "nat \<Rightarrow> 'm \<Rightarrow> (addr option \<times> 'm) option"
    and realloc :: "addr option \<Rightarrow> nat \<Rightarrow> 'm \<Rightarrow> (addr option \<times> 'm) option"
    and free :: "addr option \<Rightarrow> 'm \<Rightarrow> 'm option"
    and live :: "'m \<Rightarrow> addr \<rightharpoonup> nat"
    and wf :: "'m \<Rightarrow> bool"
  assumes alloc_law: "wf m \<Longrightarrow> \<exists>p m'. alloc n m = Some (p, m') \<and> wf m' \<and>
                        alloc_post n (live m) p (live m')"
    and realloc_law: "wf m \<Longrightarrow> live m a \<noteq> None \<Longrightarrow> 0 < n \<Longrightarrow>
                        \<exists>p m'. realloc (Some a) n m = Some (p, m') \<and> wf m' \<and>
                          realloc_post a n (live m) p (live m')"
    and free_law: "wf m \<Longrightarrow> live m a \<noteq> None \<Longrightarrow>
                        \<exists>m'. free (Some a) m = Some m' \<and> wf m' \<and> live m' = (live m)(a := None)"
    and free_null_law: "wf m \<Longrightarrow> \<exists>m'. free None m = Some m' \<and> wf m' \<and> live m' = live m"
begin

lemma alloc_cases:
  assumes "wf m"
  obtains (refused) m' where "alloc n m = Some (None, m')" and "wf m'" and "live m' = live m"
  | (granted) a m' where "alloc n m = Some (Some a, m')" and "wf m'" and "live m a = None"
      and "live m' = (live m)(a \<mapsto> n)" and "n \<le> PTRDIFF_MAX"
proof -
  from alloc_law [OF assms] obtain p m' where "alloc n m = Some (p, m')" and "wf m'"
    and "alloc_post n (live m) p (live m')" by blast
  then show thesis
    by (cases p) (auto simp: alloc_post_def intro: that)
qed

lemma realloc_cases:
  assumes "wf m" and "live m a \<noteq> None" and "0 < n"
  obtains (refused) m' where "realloc (Some a) n m = Some (None, m')" and "wf m'"
      and "live m' = live m"
  | (granted) b m' where "realloc (Some a) n m = Some (Some b, m')" and "wf m'"
      and "b = a \<or> live m b = None" and "live m' = (live m)(a := None, b \<mapsto> n)"
      and "n \<le> PTRDIFF_MAX"
proof -
  from realloc_law [OF assms] obtain p m' where "realloc (Some a) n m = Some (p, m')"
    and "wf m'" and "realloc_post a n (live m) p (live m')" by blast
  then show thesis
    by (cases p) (auto simp: realloc_post_def intro: that)
qed

lemma alloc_then_free:
  assumes "wf m" and "alloc n m = Some (Some a, m')"
  shows "\<exists>m''. free (Some a) m' = Some m'' \<and> wf m'' \<and> live m'' = live m"
proof -
  from alloc_law [OF assms(1), of n] assms(2)
  have m': "wf m'" and a: "live m a = None" and l: "live m' = (live m)(a \<mapsto> n)"
    by (auto simp: alloc_post_def)
  then have "live m' a \<noteq> None" by simp
  from free_law [OF m' this] obtain m'' where "free (Some a) m' = Some m''" and "wf m''"
    and "live m'' = (live m')(a := None)" by blast
  moreover from l a have "(live m')(a := None) = live m"
    by (simp add: fun_upd_idem)
  ultimately show ?thesis by simp
qed

end

section \<open>The library's allocator keeps the promise\<close>

lemma malloc_post:
  "heap_ok h \<Longrightarrow> malloc n h = (p, h') \<Longrightarrow>
     heap_ok h' \<and> alloc_post n (blocks h) p (blocks h')"
  by (auto simp: malloc_def libc_refuses_def heap_ok_def alloc_post_def less_Suc_eq
           split: if_splits)

lemma realloc_ok:
  assumes "heap_ok h" and "blocks h a \<noteq> None" and "0 < n"
  shows "\<exists>p h'. realloc (Some a) n h = Some (p, h') \<and> heap_ok h' \<and>
           realloc_post a n (blocks h) p (blocks h')"
  using assms
  by (auto simp: realloc_def libc_refuses_def heap_ok_def realloc_post_def less_Suc_eq)

lemma free_ok:
  assumes "heap_ok h" and "blocks h a \<noteq> None"
  shows "\<exists>h'. free (Some a) h = Some h' \<and> heap_ok h' \<and> blocks h' = (blocks h)(a := None)"
  using assms by (auto simp: free_def heap_ok_def)

lemma ht_alloc_law:
  assumes wf: "alloc_wf m"
  shows "\<exists>p m'. ht_alloc n m = Some (p, m') \<and> alloc_wf m' \<and> alloc_post n (live m) p (live m')"
proof (cases "realloc_fnc m")
  case None
  obtain p h where "malloc n (heap_of m) = (p, h)" by (cases "malloc n (heap_of m)")
  with None wf malloc_post show ?thesis
    by (fastforce simp: ht_alloc_def alloc_wf_def live_def)
next
  case (Some f)
  with wf have f: "realloc_fnc_ok f" and h: "heap_ok (heap_of m)"
    by (auto simp: alloc_wf_def)
  show ?thesis
  proof (cases "n = 0")
    case True
    from f h obtain h' where "f None 0 (user_data m) (heap_of m) = Some (None, h')"
      and "heap_ok h'" and "blocks h' = blocks (heap_of m)"
      unfolding realloc_fnc_ok_def by blast
    with True Some f show ?thesis
      by (simp add: ht_alloc_def alloc_wf_def live_def alloc_post_def)
  next
    case False
    then have "0 < n" by simp
    with f h obtain p h' where "f None n (user_data m) (heap_of m) = Some (p, h')"
      and "heap_ok h'" and "alloc_post n (blocks (heap_of m)) p (blocks h')"
      unfolding realloc_fnc_ok_def by blast
    with Some f show ?thesis
      by (simp add: ht_alloc_def alloc_wf_def live_def)
  qed
qed

lemma ht_realloc_law:
  assumes wf: "alloc_wf m" and a: "live m a \<noteq> None" and n: "0 < n"
  shows "\<exists>p m'. ht_realloc (Some a) n m = Some (p, m') \<and> alloc_wf m' \<and>
           realloc_post a n (live m) p (live m')"
proof (cases "realloc_fnc m")
  case None
  with wf a n realloc_ok [of "heap_of m" a n] show ?thesis
    by (auto simp: ht_realloc_def alloc_wf_def live_def)
next
  case (Some f)
  with wf have f: "realloc_fnc_ok f" and h: "heap_ok (heap_of m)"
    by (auto simp: alloc_wf_def)
  from a have "blocks (heap_of m) a \<noteq> None" by (simp add: live_def)
  with f h n obtain p h' where "f (Some a) n (user_data m) (heap_of m) = Some (p, h')"
    and "heap_ok h'" and "realloc_post a n (blocks (heap_of m)) p (blocks h')"
    unfolding realloc_fnc_ok_def by blast
  with Some f show ?thesis
    by (simp add: ht_realloc_def alloc_wf_def live_def)
qed

lemma ht_free_law:
  assumes wf: "alloc_wf m" and a: "live m a \<noteq> None"
  shows "\<exists>m'. ht_free (Some a) m = Some m' \<and> alloc_wf m' \<and> live m' = (live m)(a := None)"
proof (cases "realloc_fnc m")
  case None
  with wf a free_ok [of "heap_of m" a] show ?thesis
    by (auto simp: ht_free_def alloc_wf_def live_def)
next
  case (Some f)
  with wf have f: "realloc_fnc_ok f" and h: "heap_ok (heap_of m)"
    by (auto simp: alloc_wf_def)
  from a have "blocks (heap_of m) a \<noteq> None" by (simp add: live_def)
  with f h obtain p h' where "f (Some a) 0 (user_data m) (heap_of m) = Some (p, h')"
    and "heap_ok h'" and "blocks h' = (blocks (heap_of m))(a := None)"
    unfolding realloc_fnc_ok_def by blast
  with Some f show ?thesis
    by (simp add: ht_free_def alloc_wf_def live_def)
qed

lemma ht_free_null_law:
  assumes wf: "alloc_wf m"
  shows "\<exists>m'. ht_free None m = Some m' \<and> alloc_wf m' \<and> live m' = live m"
proof (cases "realloc_fnc m")
  case None
  with wf show ?thesis
    by (auto simp: ht_free_def free_def alloc_wf_def live_def)
next
  case (Some f)
  with wf have f: "realloc_fnc_ok f" and h: "heap_ok (heap_of m)"
    by (auto simp: alloc_wf_def)
  from f h obtain h' where "f None 0 (user_data m) (heap_of m) = Some (None, h')"
    and "heap_ok h'" and "blocks h' = blocks (heap_of m)"
    unfolding realloc_fnc_ok_def by blast
  with Some f show ?thesis
    by (simp add: ht_free_def alloc_wf_def live_def)
qed

interpretation ht: allocator ht_alloc ht_realloc ht_free live alloc_wf
  by unfold_locales
    (simp_all add: ht_alloc_law ht_realloc_law ht_free_law ht_free_null_law)

section \<open>Footprints\<close>

text \<open>
  \<open>footprint A m A' m'\<close>: going from \<open>m\<close> to \<open>m'\<close> only the blocks \<open>A\<close> were touched, and
  \<open>A'\<close> are the live blocks that took their place. Every other block is as it was, nothing of
  \<open>A\<close> outside \<open>A'\<close> is still live (no leak) and what is new in \<open>A'\<close> was free before.
\<close>

definition footprint :: "addr set \<Rightarrow> mem \<Rightarrow> addr set \<Rightarrow> mem \<Rightarrow> bool" where
  "footprint A m A' m' \<longleftrightarrow> live m' |` (- A') = live m |` (- A) \<and> A' \<subseteq> dom (live m')"

lemma footprint_empty [simp]: "footprint {} m {} m' \<longleftrightarrow> live m' = live m"
  by (auto simp: footprint_def restrict_map_def)

lemma footprint_trans [trans]:
  "footprint A m A' m' \<Longrightarrow> footprint A' m' A'' m'' \<Longrightarrow> footprint A m A'' m''"
  by (simp add: footprint_def)

lemma footprint_same: "live m' = live m \<Longrightarrow> A \<subseteq> dom (live m) \<Longrightarrow> footprint A m A m'"
  by (simp add: footprint_def)

lemma footprint_frame:
  assumes "footprint A m A' m'" and "q \<notin> A" and "live m q \<noteq> None"
  shows "live m' q = live m q" and "q \<notin> A'"
proof -
  have eq: "(live m' |` (- A')) q = (live m |` (- A)) q"
    using assms(1) by (simp add: footprint_def)
  with assms(2,3) show "q \<notin> A'" by (cases "q \<in> A'") (auto simp: restrict_map_def)
  with eq assms(2) show "live m' q = live m q" by (simp add: restrict_map_def)
qed

lemma footprint_extend:
  assumes "footprint A m A' m'" and "B \<subseteq> dom (live m)" and "A \<inter> B = {}"
  shows "footprint (A \<union> B) m (A' \<union> B) m'"
proof -
  have eq: "(live m' |` (- A')) q = (live m |` (- A)) q" for q
    using assms(1) by (simp add: footprint_def)
  have "(live m' |` (- (A' \<union> B))) q = (live m |` (- (A \<union> B))) q" for q
    using eq [of q] by (auto simp: restrict_map_def split: if_splits)
  moreover have "A' \<union> B \<subseteq> dom (live m')"
  proof -
    have "q \<in> dom (live m')" if "q \<in> B" for q
    proof -
      from that assms(2,3) have "q \<notin> A" and "live m q \<noteq> None" by auto
      with footprint_frame(1) [OF assms(1)] show ?thesis by auto
    qed
    with assms(1) show ?thesis by (auto simp: footprint_def)
  qed
  ultimately show ?thesis unfolding footprint_def by blast
qed

lemma footprint_alloc:
  "live m a = None \<Longrightarrow> live m' = (live m)(a \<mapsto> n) \<Longrightarrow> footprint {} m {a} m'"
  by (auto simp: footprint_def restrict_map_def fun_eq_iff)

lemma footprint_free:
  "live m' = (live m)(a := None) \<Longrightarrow> footprint {a} m {} m'"
  by (auto simp: footprint_def restrict_map_def fun_eq_iff)

lemma footprint_move:
  "b = a \<or> live m b = None \<Longrightarrow> live m' = (live m)(a := None, b \<mapsto> n) \<Longrightarrow> footprint {a} m {b} m'"
  by (auto simp: footprint_def restrict_map_def fun_eq_iff)

section \<open>Concrete states, for witnesses\<close>

text \<open>
  An empty heap whose C library answers the first requests as listed, with and without a
  custom allocator that forwards to the C library.
\<close>

definition mem_init :: "bool list \<Rightarrow> mem" where
  "mem_init rs = \<lparr>heap_of = \<lparr>blocks = Map.empty, next_addr = 1, refusals = rs\<rparr>,
                  realloc_fnc = None, user_data = 0\<rparr>"

definition forwarding_allocator :: realloc_function where
  "forwarding_allocator p n ud h =
     (if n = 0 then do { h' \<leftarrow> free p h; Some (None, h') } else realloc p n h)"

lemma alloc_wf_mem_init: "alloc_wf (mem_init rs)"
  by (simp add: alloc_wf_def mem_init_def heap_ok_def)

lemma forwarding_allocator_ok: "realloc_fnc_ok forwarding_allocator"
  unfolding realloc_fnc_ok_def
proof (intro conjI allI impI)
  fix n ud :: nat and h
  assume "heap_ok h \<and> 0 < n"
  then show "\<exists>p h'. forwarding_allocator None n ud h = Some (p, h') \<and> heap_ok h' \<and>
      alloc_post n (blocks h) p (blocks h')"
    using malloc_post [of h n] by (cases "malloc n h") (auto simp: forwarding_allocator_def realloc_def)
next
  fix a n ud :: nat and h
  assume "heap_ok h \<and> blocks h a \<noteq> None \<and> 0 < n"
  then show "\<exists>p h'. forwarding_allocator (Some a) n ud h = Some (p, h') \<and> heap_ok h' \<and>
      realloc_post a n (blocks h) p (blocks h')"
    using realloc_ok [of h a n] by (auto simp: forwarding_allocator_def)
next
  fix a ud :: nat and h
  assume "heap_ok h \<and> blocks h a \<noteq> None"
  then show "\<exists>p h'. forwarding_allocator (Some a) 0 ud h = Some (p, h') \<and> heap_ok h' \<and>
      blocks h' = (blocks h)(a := None)"
    using free_ok [of h a] by (auto simp: forwarding_allocator_def)
next
  fix ud :: nat and h
  assume "heap_ok h"
  then show "\<exists>h'. forwarding_allocator None 0 ud h = Some (None, h') \<and> heap_ok h' \<and>
      blocks h' = blocks h"
    by (simp add: forwarding_allocator_def free_def)
qed

lemma alloc_wf_allocator_set:
  "alloc_wf (ht_allocator_set (Some forwarding_allocator) ud (mem_init rs))"
  using alloc_wf_mem_init [of rs] forwarding_allocator_ok
  by (simp add: alloc_wf_def ht_allocator_set_def)

end
