(* ===== verification/Bag.thy ===== *)
theory Bag
  imports Alloc
begin

text \<open>
  \<^verbatim>\<open>lib/include/internal/bag.h\<close>: the growing array behind every collection of the library. The
  macro \<^verbatim>\<open>HT_DEFINE_BAG_TYPE\<close> is expanded for \<^verbatim>\<open>uint64_t\<close>, \<^verbatim>\<open>void*\<close>, \<^verbatim>\<open>int\<close> and
  \<^verbatim>\<open>HT_TimelineListenerEntry\<close>; the element type is the type parameter and
  its size in bytes the first argument \<open>es\<close> of the operations (\<^verbatim>\<open>sizeof(TYPE)\<close>).

  The cells of a bag are those that fit in the bytes of its block. A read of a cell that is
  outside the block, was never written, or lies in a block that is no longer live is undefined.
\<close>

section \<open>The structure and its operations\<close>

record 'a bag =
  bag_min_capacity :: nat
  bag_capacity :: nat
  bag_size :: nat
  bag_data :: "addr option"
  bag_cells :: "'a option list"

definition bag_live :: "'a bag \<Rightarrow> mem \<Rightarrow> bool" where
  "bag_live b m = (case bag_data b of None \<Rightarrow> False | Some p \<Rightarrow> live m p \<noteq> None)"

text \<open>\<^verbatim>\<open>ht_bag_nth\<close> as an expression and as the target of an assignment, and \<^verbatim>\<open>ht_bag_last\<close>.\<close>

definition ht_bag_nth :: "'a bag \<Rightarrow> nat \<Rightarrow> mem \<Rightarrow> 'a option" where
  "ht_bag_nth b n m = (if bag_live b m \<and> n < length (bag_cells b) then bag_cells b ! n else None)"

definition ht_bag_set :: "'a bag \<Rightarrow> nat \<Rightarrow> 'a \<Rightarrow> mem \<Rightarrow> 'a bag option" where
  "ht_bag_set b n v m =
     (if bag_live b m \<and> n < length (bag_cells b) then Some (b\<lparr>bag_cells := (bag_cells b)[n := Some v]\<rparr>)
      else None)"

definition ht_bag_last :: "'a bag \<Rightarrow> mem \<Rightarrow> 'a option" where
  "ht_bag_last b m = (if bag_size b = 0 then None else ht_bag_nth b (bag_size b - 1) m)"

text \<open>The byte count of a resize is \<^verbatim>\<open>new_capacity * sizeof(void*)\<close>, whatever the element is.\<close>

definition ht_bag_resize ::
  "nat \<Rightarrow> 'a bag \<Rightarrow> nat \<Rightarrow> mem \<Rightarrow> (bool \<times> 'a bag \<times> mem) option" where
  "ht_bag_resize es b new_capacity m =
     do { (ptr, m) \<leftarrow> ht_realloc (bag_data b) (size_mul new_capacity sizeof_void_ptr) m;
          case ptr of
            None \<Rightarrow> Some (False, b, m)
          | Some p \<Rightarrow>
              Some (True,
                b\<lparr>bag_data := Some p, bag_capacity := new_capacity,
                  bag_cells := resize_cells (size_mul new_capacity sizeof_void_ptr div es) (bag_cells b)\<rparr>,
                m) }"

text \<open>
  A failing \<^verbatim>\<open>ht_bag_init\<close> has set \<^verbatim>\<open>bag->data\<close> to the null pointer; the other fields keep
  the values the caller's structure had.
\<close>

definition ht_bag_init ::
  "nat \<Rightarrow> 'a bag \<Rightarrow> nat \<Rightarrow> mem \<Rightarrow> (HT_ErrorCode \<times> 'a bag \<times> mem) option" where
  "ht_bag_init es b min_cap m =
     do { (ptr, m) \<leftarrow> ht_alloc (size_mul min_cap es) m;
          case ptr of
            None \<Rightarrow> Some (HT_ERR_OUT_OF_MEMORY, b\<lparr>bag_data := None, bag_cells := []\<rparr>, m)
          | Some p \<Rightarrow>
              Some (HT_ERR_OK,
                \<lparr>bag_min_capacity = min_cap, bag_capacity = min_cap, bag_size = 0, bag_data = Some p,
                 bag_cells = replicate (size_mul min_cap es div es) None\<rparr>,
                m) }"

text \<open>
  On an empty bag \<^verbatim>\<open>bag->size--\<close> wraps to \<^verbatim>\<open>SIZE_MAX\<close>, and the read of \<^verbatim>\<open>bag->data[bag->size]\<close>
  that follows is far outside the block.
\<close>

definition ht_bag_remove_nth ::
  "nat \<Rightarrow> 'a bag \<Rightarrow> nat \<Rightarrow> mem \<Rightarrow> ('a bag \<times> mem) option" where
  "ht_bag_remove_nth es b n m =
     (if bag_size b = 0 then None
      else do {
        let b = b\<lparr>bag_size := bag_size b - 1\<rparr>;
        b \<leftarrow> (if bag_size b > 0
              then do { v \<leftarrow> ht_bag_nth b (bag_size b) m; ht_bag_set b n v m }
              else Some b);
        if bag_capacity b > bag_min_capacity b \<and> bag_size b < bag_capacity b div 4
        then do { (_, b, m) \<leftarrow> ht_bag_resize es b (bag_capacity b div 2) m; Some (b, m) }
        else Some (b, m) })"

definition ht_bag_add ::
  "nat \<Rightarrow> 'a bag \<Rightarrow> 'a \<Rightarrow> mem \<Rightarrow> (HT_ErrorCode \<times> 'a bag \<times> mem) option" where
  "ht_bag_add es b v m =
     do { (resized, b, m) \<leftarrow>
            (if bag_capacity b = bag_size b
             then ht_bag_resize es b (size_mul (bag_capacity b) 2) m
             else Some (True, b, m));
          if \<not> resized then Some (HT_ERR_OUT_OF_MEMORY, b, m)
          else do {
            b \<leftarrow> ht_bag_set b (bag_size b) v m;
            Some (HT_ERR_OK, b\<lparr>bag_size := bag_size b + 1\<rparr>, m) } }"

definition ht_bag_clear :: "nat \<Rightarrow> 'a bag \<Rightarrow> mem \<Rightarrow> ('a bag \<times> mem) option" where
  "ht_bag_clear es b m =
     do { (_, b, m) \<leftarrow> ht_bag_resize es b (bag_min_capacity b) m;
          Some (b\<lparr>bag_size := 0\<rparr>, m) }"

definition ht_bag_deinit :: "'a bag \<Rightarrow> mem \<Rightarrow> ('a bag \<times> mem) option" where
  "ht_bag_deinit b m =
     do { m \<leftarrow> ht_free (bag_data b) m;
          Some (b\<lparr>bag_data := None, bag_capacity := 0, bag_size := 0, bag_cells := []\<rparr>, m) }"

section \<open>The invariant\<close>

text \<open>
  A bag owns a live block with room for \<open>capacity\<close> elements. The capacity is always the
  minimal capacity doubled some number of times. The elements fit in a pointer: for larger
  ones the byte count of \<open>ht_bag_resize\<close> is too small.
\<close>

definition bag_inv :: "nat \<Rightarrow> 'a bag \<Rightarrow> mem \<Rightarrow> bool" where
  "bag_inv es b m \<longleftrightarrow>
     0 < es \<and> es \<le> sizeof_void_ptr \<and>
     (\<exists>p n. bag_data b = Some p \<and> live m p = Some n \<and>
        length (bag_cells b) = n div es \<and> bag_capacity b * es \<le> n) \<and>
     filled (bag_size b) (bag_cells b) \<and> bag_size b \<le> bag_capacity b \<and>
     0 < bag_min_capacity b \<and> (\<exists>k. bag_capacity b = bag_min_capacity b * 2 ^ k) \<and>
     bag_capacity b * sizeof_void_ptr \<le> PTRDIFF_MAX"

definition bag_list :: "'a bag \<Rightarrow> 'a list" where
  "bag_list b = contents (bag_size b) (bag_cells b)"

definition bag_block :: "'a bag \<Rightarrow> addr" where
  "bag_block b = (case bag_data b of None \<Rightarrow> 0 | Some p \<Rightarrow> p)"

text \<open>
  What an operation on one bag does to the heap: its block keeps its address or moves to an
  address that was free, and no other block is touched.
\<close>

definition moved :: "addr \<Rightarrow> mem \<Rightarrow> addr \<Rightarrow> mem \<Rightarrow> bool" where
  "moved p m p' m' \<longleftrightarrow>
     (p' = p \<or> live m p' = None) \<and> (\<exists>n. live m' = (live m)(p := None, p' \<mapsto> n))"

lemma moved_same: "live m p \<noteq> None \<Longrightarrow> live m' = live m \<Longrightarrow> moved p m p m'"
  by (auto simp: moved_def intro!: exI [of _ "the (live m p)"])

lemma moved_frame: "moved p m p' m' \<Longrightarrow> q \<noteq> p \<Longrightarrow> live m q \<noteq> None \<Longrightarrow> live m' q = live m q"
  by (auto simp: moved_def)

lemma moved_fresh: "moved p m p' m' \<Longrightarrow> q \<noteq> p \<Longrightarrow> live m q \<noteq> None \<Longrightarrow> p' \<noteq> q"
  by (auto simp: moved_def)

lemma moved_live: "moved p m p' m' \<Longrightarrow> live m' p' \<noteq> None"
  by (auto simp: moved_def)

lemma moved_trans:
  assumes "moved p m p' m'" and "moved p' m' p'' m''"
  shows "moved p m p'' m''"
proof -
  from assms obtain n k where p': "p' = p \<or> live m p' = None"
    and m': "live m' = (live m)(p := None, p' \<mapsto> n)"
    and p'': "p'' = p' \<or> live m' p'' = None"
    and m'': "live m'' = (live m')(p' := None, p'' \<mapsto> k)"
    unfolding moved_def by blast
  have "live m'' = (live m)(p := None, p'' \<mapsto> k)"
    using p' m' m'' by (auto simp: fun_eq_iff)
  moreover have "p'' = p \<or> live m p'' = None"
    using p' p'' m' by (auto split: if_splits)
  ultimately show ?thesis by (auto simp: moved_def)
qed

lemma moved_footprint: "moved p m p' m' \<Longrightarrow> footprint {p} m {p'} m'"
  by (auto simp: moved_def intro: footprint_move)

lemma bag_inv_cells: "bag_inv es b m \<Longrightarrow> bag_capacity b \<le> length (bag_cells b)"
  by (auto simp: bag_inv_def less_eq_div_iff_mult_less_eq)

lemma bag_inv_live: "bag_inv es b m \<Longrightarrow> bag_live b m"
  by (auto simp: bag_inv_def bag_live_def)

lemma bag_inv_block: "bag_inv es b m \<Longrightarrow> bag_data b = Some (bag_block b) \<and> live m (bag_block b) \<noteq> None"
  by (auto simp: bag_inv_def bag_block_def)

lemma bag_inv_frame:
  "bag_inv es b m \<Longrightarrow> live m' (bag_block b) = live m (bag_block b) \<Longrightarrow> bag_inv es b m'"
  by (auto simp: bag_inv_def bag_block_def)

lemma bag_inv_same_live: "bag_inv es b m \<Longrightarrow> live m' = live m \<Longrightarrow> bag_inv es b m'"
  by (rule bag_inv_frame) simp_all

lemma length_bag_list: "bag_inv es b m \<Longrightarrow> length (bag_list b) = bag_size b"
  by (simp add: bag_inv_def bag_list_def)

lemma bag_nth_ok:
  "bag_inv es b m \<Longrightarrow> i < bag_size b \<Longrightarrow> ht_bag_nth b i m = Some (bag_list b ! i)"
  using bag_inv_cells [of es b m]
  by (auto simp: ht_bag_nth_def bag_inv_live bag_inv_def bag_list_def filled_nth)

lemma bag_set_ok:
  assumes "bag_inv es b m" and "i < bag_size b"
  shows "\<exists>b'. ht_bag_set b i v m = Some b' \<and> bag_inv es b' m \<and> bag_block b' = bag_block b \<and>
           bag_list b' = (bag_list b)[i := v]"
  using assms bag_inv_cells [OF assms(1)]
  by (auto simp: ht_bag_set_def bag_inv_live)
    (auto simp: bag_inv_def bag_list_def bag_block_def filled_update contents_update)

section \<open>Resizing\<close>

lemma bag_resize_cases:
  assumes inv: "bag_inv es b m" and wf: "alloc_wf m"
    and new: "0 < new" "new * sizeof_void_ptr < SIZE_MODULUS"
  obtains (refused) m' where "ht_bag_resize es b new m = Some (False, b, m')" and "alloc_wf m'"
      and "live m' = live m"
  | (granted) b' m' where "ht_bag_resize es b new m = Some (True, b', m')" and "alloc_wf m'"
      and "moved (bag_block b) m (bag_block b') m'"
      and "new * sizeof_void_ptr \<le> PTRDIFF_MAX"
      and "bag_data b' = Some (bag_block b')"
      and "live m' (bag_block b') = Some (new * sizeof_void_ptr)"
      and "b' = b\<lparr>bag_data := Some (bag_block b'), bag_capacity := new,
                  bag_cells := resize_cells (new * sizeof_void_ptr div es) (bag_cells b)\<rparr>"
proof -
  from inv have blk: "bag_data b = Some (bag_block b)" "live m (bag_block b) \<noteq> None"
    by (simp_all add: bag_inv_block)
  from new have pos: "0 < new * sizeof_void_ptr" by (simp add: sizeof_void_ptr_def)
  show thesis
  proof (cases rule: ht.realloc_cases [OF wf blk(2) pos])
    case (1 m')
    then show ?thesis
      using new blk by (intro refused [of m']) (simp_all add: ht_bag_resize_def)
  next
    case (2 p m')
    let ?b = "b\<lparr>bag_data := Some p, bag_capacity := new,
                 bag_cells := resize_cells (new * sizeof_void_ptr div es) (bag_cells b)\<rparr>"
    have "bag_block ?b = p" by (simp add: bag_block_def)
    with 2 new blk show ?thesis
      by (intro granted [of ?b m']) (auto simp: ht_bag_resize_def moved_def)
  qed
qed

lemma bag_inv_resized:
  assumes inv: "bag_inv es b m" and blk: "live m' p = Some (new * sizeof_void_ptr)"
    and new: "new * sizeof_void_ptr \<le> PTRDIFF_MAX" "bag_size b \<le> new"
      "\<exists>k. new = bag_min_capacity b * 2 ^ k"
  defines "b' \<equiv> b\<lparr>bag_data := Some p, bag_capacity := new,
                    bag_cells := resize_cells (new * sizeof_void_ptr div es) (bag_cells b)\<rparr>"
  shows "bag_inv es b' m'" and "bag_list b' = bag_list b"
proof -
  from inv have es: "0 < es" "es \<le> sizeof_void_ptr" by (simp_all add: bag_inv_def)
  then have room: "new * es \<le> new * sizeof_void_ptr" by simp
  with es(1) have "new \<le> new * sizeof_void_ptr div es"
    by (simp add: less_eq_div_iff_mult_less_eq)
  with new(2) have sz: "bag_size b \<le> new * sizeof_void_ptr div es" by simp
  from inv have "filled (bag_size b) (bag_cells b)" by (simp add: bag_inv_def)
  with sz show "bag_list b' = bag_list b"
    by (simp add: b'_def bag_list_def contents_resize)
  from inv blk new room sz show "bag_inv es b' m'"
    by (auto simp: b'_def bag_inv_def filled_resize)
qed

section \<open>The operations keep the invariant\<close>

lemma bag_init_cases:
  assumes wf: "alloc_wf m" and es: "0 < es" "es \<le> sizeof_void_ptr"
    and min_cap: "0 < min_cap" "min_cap * sizeof_void_ptr \<le> PTRDIFF_MAX"
  obtains (refused) b' m' where "ht_bag_init es b min_cap m = Some (HT_ERR_OUT_OF_MEMORY, b', m')"
      and "alloc_wf m'" and "live m' = live m"
  | (granted) b' m' where "ht_bag_init es b min_cap m = Some (HT_ERR_OK, b', m')"
      and "alloc_wf m'" and "bag_inv es b' m'" and "bag_list b' = []"
      and "bag_min_capacity b' = min_cap"
      and "live m (bag_block b') = None" and "live m' = (live m)(bag_block b' \<mapsto> min_cap * es)"
proof -
  have le: "min_cap * es \<le> min_cap * sizeof_void_ptr" using es by simp
  with min_cap have le': "min_cap * es \<le> PTRDIFF_MAX" by linarith
  then have fits: "min_cap * es < SIZE_MODULUS"
    by (simp add: PTRDIFF_MAX_def SIZE_MODULUS_def)
  show thesis
  proof (cases rule: ht.alloc_cases [OF wf, of "min_cap * es"])
    case (1 m')
    then show ?thesis
      using fits by (intro refused [of "b\<lparr>bag_data := None, bag_cells := []\<rparr>" m'])
        (simp_all add: ht_bag_init_def)
  next
    case (2 p m')
    let ?b = "\<lparr>bag_min_capacity = min_cap, bag_capacity = min_cap, bag_size = 0,
               bag_data = Some p, bag_cells = replicate min_cap None\<rparr>"
    have "\<exists>k. min_cap = min_cap * 2 ^ k" by (rule exI [of _ 0]) simp
    with 2 fits le' min_cap es show ?thesis
      by (intro granted [of ?b m'])
        (auto simp: ht_bag_init_def bag_inv_def bag_list_def bag_block_def)
  qed
qed

lemma bag_inv_snoc:
  assumes "bag_inv es b m" and "bag_size b < bag_capacity b"
  shows "ht_bag_set b (bag_size b) v m = Some (b\<lparr>bag_cells := (bag_cells b)[bag_size b := Some v]\<rparr>)"
    and "bag_inv es (b\<lparr>bag_cells := (bag_cells b)[bag_size b := Some v], bag_size := bag_size b + 1\<rparr>) m"
    and "bag_list (b\<lparr>bag_cells := (bag_cells b)[bag_size b := Some v], bag_size := bag_size b + 1\<rparr>) =
           bag_list b @ [v]"
proof -
  from assms bag_inv_cells have len: "bag_size b < length (bag_cells b)"
    by fastforce
  with assms show "ht_bag_set b (bag_size b) v m =
      Some (b\<lparr>bag_cells := (bag_cells b)[bag_size b := Some v]\<rparr>)"
    by (simp add: ht_bag_set_def bag_inv_live)
  from assms len show "bag_inv es (b\<lparr>bag_cells := (bag_cells b)[bag_size b := Some v],
      bag_size := bag_size b + 1\<rparr>) m"
    by (auto simp: bag_inv_def filled_snoc)
  from assms(1) len show "bag_list (b\<lparr>bag_cells := (bag_cells b)[bag_size b := Some v],
      bag_size := bag_size b + 1\<rparr>) = bag_list b @ [v]"
    by (simp add: bag_inv_def bag_list_def contents_snoc)
qed

lemma bag_capacity_double:
  assumes "bag_inv es b m"
  shows "size_mul (bag_capacity b) 2 = bag_capacity b * 2" and "0 < bag_capacity b"
    and "bag_capacity b * 2 * sizeof_void_ptr < SIZE_MODULUS"
    and "\<exists>k. bag_capacity b * 2 = bag_min_capacity b * 2 ^ k"
proof -
  from assms have cap: "bag_capacity b * 8 \<le> 2 ^ 63 - 1" and min: "0 < bag_min_capacity b"
    by (simp_all add: bag_inv_def sizeof_void_ptr_def PTRDIFF_MAX_def)
  from assms obtain k where k: "bag_capacity b = bag_min_capacity b * 2 ^ k"
    by (auto simp: bag_inv_def)
  with min show "0 < bag_capacity b" by simp
  from cap show "size_mul (bag_capacity b) 2 = bag_capacity b * 2"
    by (simp add: size_mul_def SIZE_MODULUS_def)
  from cap show "bag_capacity b * 2 * sizeof_void_ptr < SIZE_MODULUS"
    by (simp add: sizeof_void_ptr_def SIZE_MODULUS_def)
  from k have "bag_capacity b * 2 = bag_min_capacity b * 2 ^ Suc k" by simp
  then show "\<exists>k. bag_capacity b * 2 = bag_min_capacity b * 2 ^ k" ..
qed

lemma bag_add_cases:
  assumes inv: "bag_inv es b m" and wf: "alloc_wf m"
  obtains (refused) m' where "ht_bag_add es b v m = Some (HT_ERR_OUT_OF_MEMORY, b, m')"
      and "alloc_wf m'" and "live m' = live m" and "bag_capacity b = bag_size b"
  | (granted) b' m' where "ht_bag_add es b v m = Some (HT_ERR_OK, b', m')" and "alloc_wf m'"
      and "bag_inv es b' m'" and "bag_list b' = bag_list b @ [v]"
      and "bag_min_capacity b' = bag_min_capacity b"
      and "moved (bag_block b) m (bag_block b') m'"
      and "bag_capacity b' = (if bag_capacity b = bag_size b then bag_capacity b * 2 else bag_capacity b)"
proof (cases "bag_capacity b = bag_size b")
  case False
  with inv have lt: "bag_size b < bag_capacity b" by (simp add: bag_inv_def)
  let ?b = "b\<lparr>bag_cells := (bag_cells b)[bag_size b := Some v], bag_size := bag_size b + 1\<rparr>"
  from inv have "moved (bag_block b) m (bag_block ?b) m"
    using moved_same [of m "bag_block b" m] by (simp add: bag_block_def bag_inv_def) fastforce
  with False bag_inv_snoc [OF inv lt, of v] wf show ?thesis
    by (intro granted [of ?b m]) (simp_all add: ht_bag_add_def)
next
  case True
  note double = bag_capacity_double [OF inv]
  show ?thesis
  proof (cases rule: bag_resize_cases [OF inv wf _ double(3)])
    case 1
    from double(2) show ?case by simp
  next
    case (2 m')
    with True double(1) show ?thesis
      by (intro refused [of m']) (simp_all add: ht_bag_add_def)
  next
    case (3 b1 m')
    have size: "bag_size b \<le> bag_capacity b * 2" using inv by (simp add: bag_inv_def)
    have b1: "bag_inv es b1 m'" "bag_list b1 = bag_list b"
      using bag_inv_resized [OF inv 3(6) 3(4) size double(4)] 3(7) by metis+
    have sz: "bag_size b1 = bag_size b" "bag_min_capacity b1 = bag_min_capacity b"
      "bag_capacity b1 = bag_capacity b * 2"
      by (subst 3(7), simp)+
    with True double(2) have lt: "bag_size b1 < bag_capacity b1" by simp
    let ?b = "b1\<lparr>bag_cells := (bag_cells b1)[bag_size b1 := Some v], bag_size := bag_size b1 + 1\<rparr>"
    have "bag_block ?b = bag_block b1" by (simp add: bag_block_def)
    with 3(1-3) True double(1) bag_inv_snoc [OF b1(1) lt, of v] b1(2) sz(2,3) show ?thesis
      by (intro granted [of ?b m']) (simp_all add: ht_bag_add_def)
  qed
qed

lemma bag_remove_step:
  assumes inv: "bag_inv es b m" and n: "n < bag_capacity b" and ne: "0 < bag_size b"
  defines "b1 \<equiv> b\<lparr>bag_size := bag_size b - 1\<rparr>"
  shows "\<exists>b2. (if bag_size b1 > 0
               then do { v \<leftarrow> ht_bag_nth b1 (bag_size b1) m; ht_bag_set b1 n v m } else Some b1) = Some b2 \<and>
           bag_inv es b2 m \<and> bag_list b2 = swap_remove n (bag_list b) \<and>
           bag_block b2 = bag_block b \<and> bag_min_capacity b2 = bag_min_capacity b \<and>
           bag_capacity b2 = bag_capacity b \<and> bag_size b2 = bag_size b - 1"
proof -
  let ?s = "bag_size b - 1"
  from inv have fl: "filled (bag_size b) (bag_cells b)" by (simp add: bag_inv_def)
  with ne have fl1: "filled ?s (bag_cells b)" by (simp add: filled_mono)
  have inv1: "bag_inv es b1 m" using inv fl1 by (auto simp: b1_def bag_inv_def)
  have list1: "bag_list b1 = take ?s (bag_list b)"
    by (simp add: b1_def bag_list_def contents_take)
  show ?thesis
  proof (cases "?s > 0")
    case False
    then have "length (bag_list b) - 1 = 0"
      using inv by (simp add: length_bag_list)
    with False inv1 list1 show ?thesis
      by (simp add: b1_def swap_remove_alt bag_block_def)
  next
    case True
    from inv n have len: "n < length (bag_cells b)" "?s < length (bag_cells b)"
      using bag_inv_cells [OF inv] fl ne by (auto simp: filled_def)
    let ?v = "last (bag_list b)"
    from inv ne have "bag_list b \<noteq> []" by (auto dest: length_bag_list)
    with inv have last: "?v = bag_list b ! ?s"
      by (simp add: last_conv_nth length_bag_list)
    have rd: "ht_bag_nth b1 ?s m = Some ?v"
      using filled_nth [OF fl, of ?s] ne len inv1
      by (simp add: ht_bag_nth_def bag_inv_live last) (simp add: b1_def bag_list_def)
    let ?b2 = "b1\<lparr>bag_cells := (bag_cells b)[n := Some ?v]\<rparr>"
    have wr: "ht_bag_set b1 n ?v m = Some ?b2"
      using len inv1 by (simp add: ht_bag_set_def bag_inv_live) (simp add: b1_def)
    have "bag_inv es ?b2 m"
      using inv1 by (auto simp: bag_inv_def b1_def filled_update)
    moreover have "bag_list ?b2 = swap_remove n (bag_list b)"
      using inv list1 by (simp add: bag_list_def contents_update swap_remove_alt)
        (simp add: b1_def length_bag_list [unfolded bag_list_def])
    ultimately show ?thesis
      using True rd wr by (simp add: b1_def bag_block_def)
  qed
qed

lemma bag_capacity_half:
  assumes inv: "bag_inv es b m" and gt: "bag_capacity b > bag_min_capacity b"
  shows "0 < bag_capacity b div 2" and "bag_capacity b div 2 * sizeof_void_ptr < SIZE_MODULUS"
    and "\<exists>k. bag_capacity b div 2 = bag_min_capacity b * 2 ^ k"
proof -
  from inv obtain k where k: "bag_capacity b = bag_min_capacity b * 2 ^ k"
    and min: "0 < bag_min_capacity b" and cap: "bag_capacity b * 8 \<le> 2 ^ 63 - 1"
    by (auto simp: bag_inv_def sizeof_void_ptr_def PTRDIFF_MAX_def)
  from k gt obtain j where j: "k = Suc j" by (cases k) auto
  with k have "bag_capacity b div 2 = bag_min_capacity b * 2 ^ j" by simp
  then show "\<exists>k. bag_capacity b div 2 = bag_min_capacity b * 2 ^ k" ..
  from gt min show "0 < bag_capacity b div 2" by simp
  have "bag_capacity b div 2 * 8 \<le> bag_capacity b * 8" by simp
  also from cap have "bag_capacity b * 8 < 2 ^ 64" by simp
  finally show "bag_capacity b div 2 * sizeof_void_ptr < SIZE_MODULUS"
    by (simp add: sizeof_void_ptr_def SIZE_MODULUS_def)
qed

lemma bag_remove_ok:
  assumes inv: "bag_inv es b m" and wf: "alloc_wf m" and n: "n < bag_capacity b"
    and ne: "0 < bag_size b"
  shows "\<exists>b' m'. ht_bag_remove_nth es b n m = Some (b', m') \<and> alloc_wf m' \<and> bag_inv es b' m' \<and>
           bag_list b' = swap_remove n (bag_list b) \<and>
           bag_min_capacity b' = bag_min_capacity b \<and>
           moved (bag_block b) m (bag_block b') m' \<and>
           (bag_capacity b' = bag_capacity b \<or>
            bag_capacity b' = bag_capacity b div 2 \<and> bag_size b' < bag_capacity b div 4)"
proof -
  from bag_remove_step [OF inv n ne] obtain b2 where b2: "(if bag_size (b\<lparr>bag_size := bag_size b - 1\<rparr>) > 0
      then do { v \<leftarrow> ht_bag_nth (b\<lparr>bag_size := bag_size b - 1\<rparr>) (bag_size (b\<lparr>bag_size := bag_size b - 1\<rparr>)) m;
                ht_bag_set (b\<lparr>bag_size := bag_size b - 1\<rparr>) n v m }
      else Some (b\<lparr>bag_size := bag_size b - 1\<rparr>)) = Some b2"
    and inv2: "bag_inv es b2 m" and list2: "bag_list b2 = swap_remove n (bag_list b)"
    and blk2: "bag_block b2 = bag_block b" and min2: "bag_min_capacity b2 = bag_min_capacity b"
    and cap2: "bag_capacity b2 = bag_capacity b"
    by blast
  have run: "ht_bag_remove_nth es b n m =
      (if bag_capacity b2 > bag_min_capacity b2 \<and> bag_size b2 < bag_capacity b2 div 4
       then do { (_, b, m) \<leftarrow> ht_bag_resize es b2 (bag_capacity b2 div 2) m; Some (b, m) }
       else Some (b2, m))"
    using ne unfolding ht_bag_remove_nth_def Let_def b2 by simp
  have here: "moved (bag_block b) m (bag_block b2) m'" if "live m' = live m" for m'
    using inv blk2 that by (simp add: moved_same bag_inv_block)
  show ?thesis
  proof (cases "bag_capacity b2 > bag_min_capacity b2 \<and> bag_size b2 < bag_capacity b2 div 4")
    case False
    with run have "ht_bag_remove_nth es b n m = Some (b2, m)" by simp
    with wf inv2 list2 min2 cap2 here show ?thesis by blast
  next
    case True
    note half = bag_capacity_half [OF inv2 conjunct1 [OF True]]
    show ?thesis
    proof (cases rule: bag_resize_cases [OF inv2 wf half(1) half(2)])
      case (1 m')
      then have "bag_inv es b2 m'" using inv2 by (simp add: bag_inv_def)
      with 1 run True here list2 min2 cap2 show ?thesis by auto
    next
      case (2 b3 m')
      from True have sz: "bag_size b2 \<le> bag_capacity b2 div 2" by linarith
      have "bag_inv es b3 m'" "bag_list b3 = bag_list b2"
        using bag_inv_resized [OF inv2 2(6) 2(4) sz half(3)] 2(7) by metis+
      moreover have "bag_min_capacity b3 = bag_min_capacity b2" "bag_size b3 = bag_size b2"
        "bag_capacity b3 = bag_capacity b2 div 2"
        by (subst 2(7), simp)+
      ultimately show ?thesis using 2(1-3) run True blk2 list2 min2 cap2 by auto
    qed
  qed
qed

lemma bag_clear_ok:
  assumes inv: "bag_inv es b m" and wf: "alloc_wf m"
  shows "\<exists>b' m'. ht_bag_clear es b m = Some (b', m') \<and> alloc_wf m' \<and> bag_inv es b' m' \<and>
           bag_list b' = [] \<and> moved (bag_block b) m (bag_block b') m'"
proof -
  let ?n = "bag_min_capacity b"
  from inv obtain k where k: "bag_capacity b = ?n * 2 ^ k" and pos: "0 < ?n"
    and cap: "bag_capacity b * sizeof_void_ptr \<le> PTRDIFF_MAX"
    by (auto simp: bag_inv_def)
  have "?n \<le> bag_capacity b" by (simp add: k)
  then have "?n * sizeof_void_ptr \<le> bag_capacity b * sizeof_void_ptr" by (rule mult_le_mono1)
  with cap have le: "?n * sizeof_void_ptr \<le> PTRDIFF_MAX" by linarith
  then have fits: "?n * sizeof_void_ptr < SIZE_MODULUS"
    by (simp add: PTRDIFF_MAX_def SIZE_MODULUS_def)
  have inv0: "bag_inv es (b\<lparr>bag_size := 0\<rparr>) m"
    using inv by (auto simp: bag_inv_def)
  show ?thesis
  proof (cases rule: bag_resize_cases [OF inv wf pos fits])
    case (1 m')
    moreover from 1 inv0 have "bag_inv es (b\<lparr>bag_size := 0\<rparr>) m'" by (simp add: bag_inv_def)
    moreover have "moved (bag_block b) m (bag_block (b\<lparr>bag_size := 0\<rparr>)) m'"
      using 1 inv by (simp add: bag_block_def) (metis bag_block_def bag_inv_block moved_same)
    ultimately show ?thesis by (auto simp: ht_bag_clear_def bag_list_def)
  next
    case (2 b1 m')
    have ex: "\<exists>k. ?n = ?n * 2 ^ k" by (rule exI [of _ 0]) simp
    have "b1\<lparr>bag_size := 0\<rparr> = b\<lparr>bag_size := 0, bag_data := Some (bag_block b1), bag_capacity := ?n,
        bag_cells := resize_cells (?n * sizeof_void_ptr div es) (bag_cells b)\<rparr>"
      by (subst 2(7)) simp
    then have "bag_inv es (b1\<lparr>bag_size := 0\<rparr>) m'"
      using bag_inv_resized(1) [OF inv0, of m' "bag_block b1" ?n] 2(4,6) ex by simp
    moreover have "bag_block (b1\<lparr>bag_size := 0\<rparr>) = bag_block b1" by (simp add: bag_block_def)
    ultimately show ?thesis using 2(1-3) by (auto simp: ht_bag_clear_def bag_list_def)
  qed
qed

lemma bag_deinit_ok:
  assumes inv: "bag_inv es b m" and wf: "alloc_wf m"
  shows "\<exists>b' m'. ht_bag_deinit b m = Some (b', m') \<and> alloc_wf m' \<and>
           live m' = (live m)(bag_block b := None) \<and> bag_data b' = None"
  using bag_inv_block [OF inv] ht.free_law [OF wf, of "bag_block b"]
  by (auto simp: ht_bag_deinit_def)

section \<open>The interface the collections rely on\<close>

text \<open>
  What a client of a bag may rely on: the bag behaves as the list \<open>list b\<close>, a refused
  allocation leaves it as it was, and an operation touches no block but the bag's own.
\<close>

locale growing_array =
  fixes add :: "'b \<Rightarrow> 'a \<Rightarrow> mem \<Rightarrow> (HT_ErrorCode \<times> 'b \<times> mem) option"
    and remove_nth :: "'b \<Rightarrow> nat \<Rightarrow> mem \<Rightarrow> ('b \<times> mem) option"
    and nth :: "'b \<Rightarrow> nat \<Rightarrow> mem \<Rightarrow> 'a option"
    and deinit :: "'b \<Rightarrow> mem \<Rightarrow> ('b \<times> mem) option"
    and list :: "'b \<Rightarrow> 'a list"
    and block :: "'b \<Rightarrow> addr"
    and invar :: "'b \<Rightarrow> mem \<Rightarrow> bool"
  assumes add_law: "invar b m \<Longrightarrow> alloc_wf m \<Longrightarrow>
      \<exists>e b' m'. add b v m = Some (e, b', m') \<and> alloc_wf m' \<and> invar b' m' \<and>
        moved (block b) m (block b') m' \<and>
        (if e = HT_ERR_OK then list b' = list b @ [v]
         else e = HT_ERR_OUT_OF_MEMORY \<and> b' = b \<and> live m' = live m)"
    and remove_law: "invar b m \<Longrightarrow> alloc_wf m \<Longrightarrow> n < length (list b) \<Longrightarrow>
      \<exists>b' m'. remove_nth b n m = Some (b', m') \<and> alloc_wf m' \<and> invar b' m' \<and>
        moved (block b) m (block b') m' \<and> list b' = swap_remove n (list b)"
    and nth_law: "invar b m \<Longrightarrow> i < length (list b) \<Longrightarrow> nth b i m = Some (list b ! i)"
    and deinit_law: "invar b m \<Longrightarrow> alloc_wf m \<Longrightarrow>
      \<exists>b' m'. deinit b m = Some (b', m') \<and> alloc_wf m' \<and> live m' = (live m)(block b := None)"
    and invar_live: "invar b m \<Longrightarrow> live m (block b) \<noteq> None"
    and invar_frame: "invar b m \<Longrightarrow> live m' (block b) = live m (block b) \<Longrightarrow> invar b m'"
begin

lemma add_cases:
  assumes "invar b m" and "alloc_wf m"
  obtains (refused) m' where "add b v m = Some (HT_ERR_OUT_OF_MEMORY, b, m')" and "alloc_wf m'"
      and "live m' = live m"
  | (granted) b' m' where "add b v m = Some (HT_ERR_OK, b', m')" and "alloc_wf m'"
      and "invar b' m'" and "list b' = list b @ [v]" and "moved (block b) m (block b') m'"
proof -
  from add_law [OF assms, of v] obtain e b' m' where "add b v m = Some (e, b', m')"
    and "alloc_wf m'" and "invar b' m'" and "moved (block b) m (block b') m'"
    and "if e = HT_ERR_OK then list b' = list b @ [v]
         else e = HT_ERR_OUT_OF_MEMORY \<and> b' = b \<and> live m' = live m" by blast
  then show thesis
    by (cases "e = HT_ERR_OK") (auto intro: that)
qed

text \<open>Two bags with different blocks: an operation on one leaves the other as it was.\<close>

lemma other_invar:
  assumes "invar c m" and "moved p m p' m'" and "block c \<noteq> p"
  shows "invar c m'" and "block c \<noteq> p'"
proof -
  from assms(1) have live: "live m (block c) \<noteq> None" by (rule invar_live)
  with assms(2,3) have "live m' (block c) = live m (block c)" by (simp add: moved_frame)
  with assms(1) show "invar c m'" by (rule invar_frame)
  from assms(2,3) live show "block c \<noteq> p'" by (auto dest: moved_fresh)
qed

end

lemma bag_add_law:
  assumes "bag_inv es b m" and "alloc_wf m"
  shows "\<exists>e b' m'. ht_bag_add es b v m = Some (e, b', m') \<and> alloc_wf m' \<and> bag_inv es b' m' \<and>
        moved (bag_block b) m (bag_block b') m' \<and>
        (if e = HT_ERR_OK then bag_list b' = bag_list b @ [v]
         else e = HT_ERR_OUT_OF_MEMORY \<and> b' = b \<and> live m' = live m)"
proof (cases rule: bag_add_cases [OF assms, of v])
  case (1 m')
  moreover from 1 assms(1) have "bag_inv es b m'" by (simp add: bag_inv_def)
  moreover from 1 assms(1) have "moved (bag_block b) m (bag_block b) m'"
    by (simp add: moved_same bag_inv_block)
  ultimately show ?thesis by auto
qed auto

lemma bag_remove_law:
  assumes "bag_inv es b m" and "alloc_wf m" and "n < length (bag_list b)"
  shows "\<exists>b' m'. ht_bag_remove_nth es b n m = Some (b', m') \<and> alloc_wf m' \<and> bag_inv es b' m' \<and>
        moved (bag_block b) m (bag_block b') m' \<and> bag_list b' = swap_remove n (bag_list b)"
proof -
  from assms have "n < bag_size b" by (simp add: length_bag_list)
  moreover from assms(1) have "bag_size b \<le> bag_capacity b" by (simp add: bag_inv_def)
  ultimately have "n < bag_capacity b" and "0 < bag_size b" by simp_all
  with bag_remove_ok [OF assms(1,2)] show ?thesis by blast
qed

lemma bag_nth_law:
  "bag_inv es b m \<Longrightarrow> i < length (bag_list b) \<Longrightarrow> ht_bag_nth b i m = Some (bag_list b ! i)"
  by (simp add: length_bag_list bag_nth_ok)

text \<open>The bags of \<^verbatim>\<open>uint64_t\<close> and of pointers (8 bytes), and of \<^verbatim>\<open>int\<close> (4 bytes).\<close>

definition sizeof_int :: nat where
  "sizeof_int = 4"

lemma bag_growing_array:
  "growing_array (ht_bag_add es) (ht_bag_remove_nth es) ht_bag_nth ht_bag_deinit bag_list bag_block
     (bag_inv es)"
proof unfold_locales
  fix b :: "'a bag" and m
  assume inv: "bag_inv es b m"
  show "alloc_wf m \<Longrightarrow> \<exists>e b' m'. ht_bag_add es b v m = Some (e, b', m') \<and> alloc_wf m' \<and>
      bag_inv es b' m' \<and> moved (bag_block b) m (bag_block b') m' \<and>
      (if e = HT_ERR_OK then bag_list b' = bag_list b @ [v]
       else e = HT_ERR_OUT_OF_MEMORY \<and> b' = b \<and> live m' = live m)" for v
    using inv by (rule bag_add_law)
  show "alloc_wf m \<Longrightarrow> n < length (bag_list b) \<Longrightarrow> \<exists>b' m'. ht_bag_remove_nth es b n m = Some (b', m') \<and>
      alloc_wf m' \<and> bag_inv es b' m' \<and> moved (bag_block b) m (bag_block b') m' \<and>
      bag_list b' = swap_remove n (bag_list b)" for n
    using inv by (rule bag_remove_law)
  show "i < length (bag_list b) \<Longrightarrow> ht_bag_nth b i m = Some (bag_list b ! i)" for i
    using inv by (rule bag_nth_law)
  show "alloc_wf m \<Longrightarrow> \<exists>b' m'. ht_bag_deinit b m = Some (b', m') \<and> alloc_wf m' \<and>
      live m' = (live m)(bag_block b := None)"
    using bag_deinit_ok [OF inv] by blast
  show "live m (bag_block b) \<noteq> None"
    using bag_inv_block [OF inv] by simp
  show "live m' (bag_block b) = live m (bag_block b) \<Longrightarrow> bag_inv es b m'" for m'
    using inv by (rule bag_inv_frame)
qed

interpretation ptr_bag: growing_array "ht_bag_add sizeof_void_ptr"
    "ht_bag_remove_nth sizeof_void_ptr" ht_bag_nth ht_bag_deinit bag_list bag_block
    "bag_inv sizeof_void_ptr"
  by (rule bag_growing_array)

interpretation int_bag: growing_array "ht_bag_add sizeof_int" "ht_bag_remove_nth sizeof_int"
    ht_bag_nth ht_bag_deinit bag_list bag_block "bag_inv sizeof_int"
  by (rule bag_growing_array)

end
