(* ===== verification/Runtime.thy ===== *)
theory Runtime
  imports Alloc
begin

text \<open>
  The services of the platform that the library wraps: mutexes (\<^verbatim>\<open>mutex.cpp\<close>), event
  identifiers (\<^verbatim>\<open>event_id_provider.cpp\<close>), the monotonic clock (\<^verbatim>\<open>monotonic_clock.cpp\<close>) and
  thread identifiers (\<^verbatim>\<open>thread.c\<close>). The state is a record that the other components extend.

  A mutex is a block of the heap and a flag that says whether it is held. Locking a mutex that
  is held already (one thread at a time runs in the model, so it would wait for itself),
  unlocking one that is not held, and any use of a mutex that does not exist are undefined.
\<close>

record rt =
  rt_mem :: mem
  rt_locks :: "addr \<rightharpoonup> bool"
  rt_ids :: "addr option \<Rightarrow> HT_EventId"
  rt_clock :: "nat \<Rightarrow> HT_TimestampNs"
  rt_ticks :: nat
  rt_last_thread :: HT_ThreadId

definition sizeof_HT_Mutex :: nat where
  "sizeof_HT_Mutex = 40"

definition ht_mutex_create :: "'s rt_scheme \<Rightarrow> (addr option \<times> 's rt_scheme) option" where
  "ht_mutex_create s =
     do { (p, m) \<leftarrow> ht_alloc sizeof_HT_Mutex (rt_mem s);
          case p of
            None \<Rightarrow> Some (None, s\<lparr>rt_mem := m\<rparr>)
          | Some a \<Rightarrow> Some (Some a, s\<lparr>rt_mem := m, rt_locks := (rt_locks s)(a \<mapsto> False)\<rparr>) }"

definition ht_mutex_destroy :: "addr \<Rightarrow> 's rt_scheme \<Rightarrow> 's rt_scheme option" where
  "ht_mutex_destroy a s =
     (if rt_locks s a = Some False
      then do { m \<leftarrow> ht_free (Some a) (rt_mem s);
                Some (s\<lparr>rt_mem := m, rt_locks := (rt_locks s)(a := None)\<rparr>) }
      else None)"

definition ht_mutex_lock :: "addr \<Rightarrow> 's rt_scheme \<Rightarrow> 's rt_scheme option" where
  "ht_mutex_lock a s =
     (if rt_locks s a = Some False then Some (s\<lparr>rt_locks := (rt_locks s)(a \<mapsto> True)\<rparr>) else None)"

definition ht_mutex_unlock :: "addr \<Rightarrow> 's rt_scheme \<Rightarrow> 's rt_scheme option" where
  "ht_mutex_unlock a s =
     (if rt_locks s a = Some True then Some (s\<lparr>rt_locks := (rt_locks s)(a \<mapsto> False)\<rparr>) else None)"

text \<open>
  Event identifiers: the default provider is the static variable (\<^term>\<open>None\<close>), the others are
  blocks of the heap. \<^verbatim>\<open>ht_event_id_provider_create\<close> does not test the result of the allocation.
\<close>

definition ht_event_id_provider_get_default :: "addr option" where
  "ht_event_id_provider_get_default = None"

definition ht_event_id_provider_create :: "'s rt_scheme \<Rightarrow> (addr \<times> 's rt_scheme) option" where
  "ht_event_id_provider_create s =
     do { (p, m) \<leftarrow> ht_alloc 8 (rt_mem s);
          case p of
            None \<Rightarrow> None
          | Some a \<Rightarrow> Some (a, s\<lparr>rt_mem := m, rt_ids := (rt_ids s)(Some a := 0)\<rparr>) }"

definition ht_event_id_provider_destroy :: "addr \<Rightarrow> 's rt_scheme \<Rightarrow> 's rt_scheme option" where
  "ht_event_id_provider_destroy a s =
     do { m \<leftarrow> ht_free (Some a) (rt_mem s); Some (s\<lparr>rt_mem := m\<rparr>) }"

definition ht_event_id_provider_next :: "addr option \<Rightarrow> 's rt_scheme \<Rightarrow> HT_EventId \<times> 's rt_scheme" where
  "ht_event_id_provider_next p s = (rt_ids s p, s\<lparr>rt_ids := (rt_ids s)(p := rt_ids s p + 1)\<rparr>)"

text \<open>The clock: the platform's readings, one after the other.\<close>

definition ht_monotonic_clock_get_timestamp :: "'s rt_scheme \<Rightarrow> HT_TimestampNs \<times> 's rt_scheme" where
  "ht_monotonic_clock_get_timestamp s = (rt_clock s (rt_ticks s), s\<lparr>rt_ticks := rt_ticks s + 1\<rparr>)"

text \<open>The thread-local variable is an argument and a result; zero is its initial value.\<close>

definition ht_thread_get_current_thread_id ::
  "HT_ThreadId \<Rightarrow> 's rt_scheme \<Rightarrow> HT_ThreadId \<times> HT_ThreadId \<times> 's rt_scheme" where
  "ht_thread_get_current_thread_id tls s =
     (if tls = 0
      then let n = rt_last_thread s + 1 in (n, n, s\<lparr>rt_last_thread := n\<rparr>)
      else (tls, tls, s))"

section \<open>Lemmas\<close>

text \<open>A mutex of the state that nobody holds, in a live block.\<close>

definition mutex_free :: "addr \<Rightarrow> 's rt_scheme \<Rightarrow> bool" where
  "mutex_free a s \<longleftrightarrow> rt_locks s a = Some False \<and> live (rt_mem s) a \<noteq> None"

lemma mutex_lock_unlock:
  assumes "rt_locks s a = Some False"
  shows "ht_mutex_lock a s = Some (s\<lparr>rt_locks := (rt_locks s)(a \<mapsto> True)\<rparr>)"
    and "rt_locks s' = (rt_locks s)(a \<mapsto> True) \<Longrightarrow> ht_mutex_unlock a s' = Some (s'\<lparr>rt_locks := rt_locks s\<rparr>)"
  using assms by (simp_all add: ht_mutex_lock_def ht_mutex_unlock_def fun_upd_idem)

lemma mutex_create_cases:
  assumes "alloc_wf (rt_mem s)"
  obtains (refused) m where "ht_mutex_create s = Some (None, s\<lparr>rt_mem := m\<rparr>)" and "alloc_wf m"
      and "live m = live (rt_mem s)"
  | (created) a m where "ht_mutex_create s = Some (Some a, s\<lparr>rt_mem := m, rt_locks := (rt_locks s)(a \<mapsto> False)\<rparr>)"
      and "alloc_wf m" and "live (rt_mem s) a = None" and "live m = (live (rt_mem s))(a \<mapsto> sizeof_HT_Mutex)"
proof (cases rule: ht.alloc_cases [OF assms, of sizeof_HT_Mutex])
  case (1 m)
  then show ?thesis by (intro refused [of m]) (simp_all add: ht_mutex_create_def)
next
  case (2 a m)
  then show ?thesis by (intro created [of a m]) (simp_all add: ht_mutex_create_def)
qed

lemma mutex_destroy_ok:
  assumes "mutex_free a s" and "alloc_wf (rt_mem s)"
  obtains m where "ht_mutex_destroy a s = Some (s\<lparr>rt_mem := m, rt_locks := (rt_locks s)(a := None)\<rparr>)"
    and "alloc_wf m" and "live m = (live (rt_mem s))(a := None)"
proof -
  have "live (rt_mem s) a \<noteq> None" using assms(1) by (simp add: mutex_free_def)
  from ht.free_law [OF assms(2) this] obtain m where "ht_free (Some a) (rt_mem s) = Some m"
    and "alloc_wf m" and "live m = (live (rt_mem s))(a := None)" by blast
  with assms(1) that [of m] show thesis by (simp add: ht_mutex_destroy_def mutex_free_def)
qed

end
