(* ===== verification/Listener_Container.thy ===== *)
theory Listener_Container
  imports Bag Runtime
begin

text \<open>
  \<^verbatim>\<open>lib/timeline_listener.c\<close>: the reference-counted containers of listeners that timelines share.

  A listener is a callback with its user data and an optional destructor. The state the
  listeners work on is the component \<open>world\<close>, of any type: a callback gets the bytes it is called
  with, the flag that says whether they are serialized, and the user data, and changes the
  world; it does not call back into the library.
\<close>

section \<open>The structures\<close>

type_synonym 'w listener_callback = "byte list \<Rightarrow> bool \<Rightarrow> nat \<Rightarrow> 'w \<Rightarrow> 'w option"

record 'w listener_entry =
  le_callback :: "'w listener_callback"
  le_user_data :: nat
  le_destroy_cb :: "(nat \<Rightarrow> 'w \<Rightarrow> 'w option) option"

record 'w container =
  entries :: "'w listener_entry bag"
  c_mutex :: "addr option"
  c_id :: u32
  c_refcount :: u32

record 'w lrt = rt +
  containers :: "addr \<rightharpoonup> 'w container"
  world :: 'w

text \<open>Three pointers, and the size of the container: a bag, a pointer and two 32-bit integers.\<close>

definition sizeof_listener_entry :: nat where
  "sizeof_listener_entry = 24"

definition sizeof_container :: nat where
  "sizeof_container = 48"

text \<open>Access through a pointer to a container, which has to exist.\<close>

definition get_container :: "addr \<Rightarrow> ('w, 's) lrt_scheme \<Rightarrow> 'w container option" where
  "get_container c s = containers s c"

definition set_container :: "addr \<Rightarrow> 'w container \<Rightarrow> ('w, 's) lrt_scheme \<Rightarrow> ('w, 's) lrt_scheme" where
  "set_container c k s = s\<lparr>containers := (containers s)(c \<mapsto> k)\<rparr>"

section \<open>The operations\<close>

function destroy_entries_from :: "'w listener_entry bag \<Rightarrow> nat \<Rightarrow> mem \<Rightarrow> 'w \<Rightarrow> 'w option" where
  "destroy_entries_from b i m w =
     (if i < bag_size b
      then do { entry \<leftarrow> ht_bag_nth b i m;
                w \<leftarrow> (case le_destroy_cb entry of
                       None \<Rightarrow> Some w
                     | Some destroy_cb \<Rightarrow> destroy_cb (le_user_data entry) w);
                destroy_entries_from b (i + 1) m w }
      else Some w)"
  by pat_completeness auto
termination
  by (relation "measure (\<lambda>(b, i, m, w). bag_size b - i)") auto

declare destroy_entries_from.simps [simp del]

text \<open>The static function, on a container that is locked.\<close>

definition container_unregister_all :: "addr \<Rightarrow> ('w, 's) lrt_scheme \<Rightarrow> ('w, 's) lrt_scheme option" where
  "container_unregister_all c s =
     do { k \<leftarrow> get_container c s;
          w \<leftarrow> destroy_entries_from (entries k) 0 (rt_mem s) (world s);
          (b, m) \<leftarrow> ht_bag_clear sizeof_listener_entry (entries k) (rt_mem s);
          Some (set_container c (k\<lparr>entries := b\<rparr>) (s\<lparr>world := w, rt_mem := m\<rparr>)) }"

definition ht_timeline_listener_container_get_id :: "addr \<Rightarrow> ('w, 's) lrt_scheme \<Rightarrow> u32 option" where
  "ht_timeline_listener_container_get_id c s = do { k \<leftarrow> get_container c s; Some (c_id k) }"

definition ht_timeline_listener_container_set_id ::
  "addr \<Rightarrow> u32 \<Rightarrow> ('w, 's) lrt_scheme \<Rightarrow> ('w, 's) lrt_scheme option" where
  "ht_timeline_listener_container_set_id c i s =
     do { k \<leftarrow> get_container c s; Some (set_container c (k\<lparr>c_id := i\<rparr>) s) }"

function notify_from :: "'w listener_entry bag \<Rightarrow> nat \<Rightarrow> byte list \<Rightarrow> bool \<Rightarrow> mem \<Rightarrow> 'w \<Rightarrow> 'w option" where
  "notify_from b i events ser m w =
     (if i < bag_size b
      then do { entry \<leftarrow> ht_bag_nth b i m;
                w \<leftarrow> le_callback entry events ser (le_user_data entry) w;
                notify_from b (i + 1) events ser m w }
      else Some w)"
  by pat_completeness auto
termination
  by (relation "measure (\<lambda>(b, i, events, ser, m, w). bag_size b - i)") auto

declare notify_from.simps [simp del]

definition ht_timeline_listener_container_notify_listeners ::
  "addr \<Rightarrow> byte list \<Rightarrow> bool \<Rightarrow> ('w, 's) lrt_scheme \<Rightarrow> ('w, 's) lrt_scheme option" where
  "ht_timeline_listener_container_notify_listeners c events ser s =
     do { k \<leftarrow> get_container c s;
          w \<leftarrow> notify_from (entries k) 0 events ser (rt_mem s) (world s);
          Some (s\<lparr>world := w\<rparr>) }"

text \<open>The fields of a new structure are not initialized: the bag is the argument \<open>junk\<close>.\<close>

definition ht_timeline_listener_container_create ::
  "'w listener_entry bag \<Rightarrow> ('w, 's) lrt_scheme \<Rightarrow> (addr option \<times> ('w, 's) lrt_scheme) option" where
  "ht_timeline_listener_container_create junk s =
     do { (p, m) \<leftarrow> ht_alloc sizeof_container (rt_mem s);
          let s = s\<lparr>rt_mem := m\<rparr>;
          case p of
            None \<Rightarrow> Some (None, s)
          | Some c \<Rightarrow> do {
              (err, b, m) \<leftarrow> ht_bag_init sizeof_listener_entry junk 16 (rt_mem s);
              let s = s\<lparr>rt_mem := m\<rparr>;
              if err \<noteq> HT_ERR_OK
              then do { m \<leftarrow> ht_free (Some c) (rt_mem s); Some (None, s\<lparr>rt_mem := m\<rparr>) }
              else do {
                (mutex, s) \<leftarrow> ht_mutex_create s;
                case mutex of
                  None \<Rightarrow> do {
                    (b, m) \<leftarrow> ht_bag_deinit b (rt_mem s);
                    m \<leftarrow> ht_free (Some c) m;
                    Some (None, s\<lparr>rt_mem := m\<rparr>) }
                | Some a \<Rightarrow>
                    Some (Some c, set_container c
                      \<lparr>entries = b, c_mutex = Some a, c_id = 0, c_refcount = 1\<rparr> s) } } }"

definition ht_timeline_listener_container_ref :: "addr \<Rightarrow> ('w, 's) lrt_scheme \<Rightarrow> ('w, 's) lrt_scheme option" where
  "ht_timeline_listener_container_ref c s =
     do { k \<leftarrow> get_container c s;
          mtx \<leftarrow> c_mutex k;
          s \<leftarrow> ht_mutex_lock mtx s;
          let s = set_container c (k\<lparr>c_refcount := c_refcount k + 1\<rparr>) s;
          ht_mutex_unlock mtx s }"

definition ht_timeline_listener_container_unref :: "addr \<Rightarrow> ('w, 's) lrt_scheme \<Rightarrow> ('w, 's) lrt_scheme option" where
  "ht_timeline_listener_container_unref c s =
     do { k \<leftarrow> get_container c s;
          mtx \<leftarrow> c_mutex k;
          s \<leftarrow> ht_mutex_lock mtx s;
          let k = k\<lparr>c_refcount := c_refcount k - 1\<rparr>;
          let s = set_container c k s;
          if c_refcount k = 0
          then do {
            s \<leftarrow> container_unregister_all c s;
            k \<leftarrow> get_container c s;
            (b, m) \<leftarrow> ht_bag_deinit (entries k) (rt_mem s);
            let s = s\<lparr>rt_mem := m\<rparr>;
            s \<leftarrow> ht_mutex_unlock mtx s;
            s \<leftarrow> ht_mutex_destroy mtx s;
            m \<leftarrow> ht_free (Some c) (rt_mem s);
            Some (s\<lparr>rt_mem := m, containers := (containers s)(c := None)\<rparr>) }
          else ht_mutex_unlock mtx s }"

definition ht_timeline_listener_container_register_listener ::
  "addr \<Rightarrow> 'w listener_callback \<Rightarrow> nat \<Rightarrow> (nat \<Rightarrow> 'w \<Rightarrow> 'w option) option \<Rightarrow> ('w, 's) lrt_scheme \<Rightarrow>
   (HT_ErrorCode \<times> ('w, 's) lrt_scheme) option" where
  "ht_timeline_listener_container_register_listener c callback ud destroy_cb s =
     do { k \<leftarrow> get_container c s;
          let entry = \<lparr>le_callback = callback, le_user_data = ud, le_destroy_cb = destroy_cb\<rparr>;
          mtx \<leftarrow> c_mutex k;
          s \<leftarrow> ht_mutex_lock mtx s;
          (err, b, m) \<leftarrow> ht_bag_add sizeof_listener_entry (entries k) entry (rt_mem s);
          let s = set_container c (k\<lparr>entries := b\<rparr>) (s\<lparr>rt_mem := m\<rparr>);
          s \<leftarrow> ht_mutex_unlock mtx s;
          Some (err, s) }"

definition ht_timeline_listener_container_unregister_all_listeners ::
  "addr \<Rightarrow> ('w, 's) lrt_scheme \<Rightarrow> ('w, 's) lrt_scheme option" where
  "ht_timeline_listener_container_unregister_all_listeners c s =
     do { k \<leftarrow> get_container c s;
          mtx \<leftarrow> c_mutex k;
          s \<leftarrow> ht_mutex_lock mtx s;
          s \<leftarrow> container_unregister_all c s;
          ht_mutex_unlock mtx s }"

section \<open>The invariant\<close>

text \<open>
  The bag of listeners keeps its initial capacity of 16 entries. Its block has room for 16
  entries at first, and for five after the listeners were unregistered: the elements are
  larger than a pointer, so the general invariant of bags does not apply.
\<close>

definition listener_bag_inv :: "'w listener_entry bag \<Rightarrow> mem \<Rightarrow> bool" where
  "listener_bag_inv b m \<longleftrightarrow>
     bag_min_capacity b = 16 \<and> bag_capacity b = 16 \<and> bag_size b \<le> 16 \<and>
     filled (bag_size b) (bag_cells b) \<and>
     bag_data b = Some (bag_block b) \<and> live m (bag_block b) \<noteq> None"

definition container_blocks :: "'w container \<Rightarrow> addr \<Rightarrow> addr set" where
  "container_blocks k c = {c, bag_block (entries k), the (c_mutex k)}"

definition container_inv :: "addr \<Rightarrow> ('w, 's) lrt_scheme \<Rightarrow> bool" where
  "container_inv c s \<longleftrightarrow>
     alloc_wf (rt_mem s) \<and>
     (\<exists>k mtx. containers s c = Some k \<and> c_mutex k = Some mtx \<and> mutex_free mtx s \<and>
        listener_bag_inv (entries k) (rt_mem s) \<and> live (rt_mem s) c \<noteq> None \<and>
        c \<noteq> mtx \<and> c \<noteq> bag_block (entries k) \<and> mtx \<noteq> bag_block (entries k))"

definition listeners :: "'w container \<Rightarrow> 'w listener_entry list" where
  "listeners k = bag_list (entries k)"

text \<open>All listeners of a list are called, one after the other, and all are destroyed.\<close>

fun notify_all :: "'w listener_entry list \<Rightarrow> byte list \<Rightarrow> bool \<Rightarrow> 'w \<Rightarrow> 'w option" where
  "notify_all [] events ser w = Some w"
| "notify_all (l # ls) events ser w =
     do { w \<leftarrow> le_callback l events ser (le_user_data l) w; notify_all ls events ser w }"

fun destroy_all :: "'w listener_entry list \<Rightarrow> 'w \<Rightarrow> 'w option" where
  "destroy_all [] w = Some w"
| "destroy_all (l # ls) w =
     do { w \<leftarrow> (case le_destroy_cb l of None \<Rightarrow> Some w | Some f \<Rightarrow> f (le_user_data l) w);
          destroy_all ls w }"

lemma listener_bag_nth:
  "listener_bag_inv b m \<Longrightarrow> i < bag_size b \<Longrightarrow> ht_bag_nth b i m = Some (bag_list b ! i)"
  by (auto simp: listener_bag_inv_def ht_bag_nth_def bag_live_def bag_list_def filled_nth filled_def)

lemma listener_bag_length: "listener_bag_inv b m \<Longrightarrow> length (bag_list b) = bag_size b"
  by (simp add: listener_bag_inv_def bag_list_def)

lemma notify_from_ok:
  "listener_bag_inv b m \<Longrightarrow> notify_from b i events ser m w = notify_all (drop i (bag_list b)) events ser w"
proof (induction "bag_size b - i" arbitrary: i w)
  case 0
  then show ?case
    using listener_bag_length [of b m] by (subst notify_from.simps) simp
next
  case (Suc d)
  then have i: "i < bag_size b" "i < length (bag_list b)" using listener_bag_length [of b m] by simp_all
  then have "drop i (bag_list b) = bag_list b ! i # drop (Suc i) (bag_list b)"
    by (simp add: Cons_nth_drop_Suc)
  moreover have "notify_from b (Suc i) events ser m = notify_all (drop (Suc i) (bag_list b)) events ser"
    using Suc.hyps(1) [of "Suc i"] Suc.hyps(2) Suc.prems by (simp add: fun_eq_iff)
  ultimately show ?case
    using i listener_bag_nth [OF Suc.prems i(1)] by (subst notify_from.simps) simp
qed

lemma destroy_entries_from_ok:
  "listener_bag_inv b m \<Longrightarrow> destroy_entries_from b i m w = destroy_all (drop i (bag_list b)) w"
proof (induction "bag_size b - i" arbitrary: i w)
  case 0
  then show ?case
    using listener_bag_length [of b m] by (subst destroy_entries_from.simps) simp
next
  case (Suc d)
  then have i: "i < bag_size b" "i < length (bag_list b)" using listener_bag_length [of b m] by simp_all
  then have "drop i (bag_list b) = bag_list b ! i # drop (Suc i) (bag_list b)"
    by (simp add: Cons_nth_drop_Suc)
  moreover have "destroy_entries_from b (Suc i) m = destroy_all (drop (Suc i) (bag_list b))"
    using Suc.hyps(1) [of "Suc i"] Suc.hyps(2) Suc.prems by (simp add: fun_eq_iff)
  ultimately show ?case
    using i listener_bag_nth [OF Suc.prems i(1)] by (subst destroy_entries_from.simps) simp
qed

lemma container_notify_ok:
  assumes "containers s c = Some k" and "listener_bag_inv (entries k) (rt_mem s)"
  shows "ht_timeline_listener_container_notify_listeners c events ser s =
    map_option (\<lambda>w. s\<lparr>world := w\<rparr>) (notify_all (listeners k) events ser (world s))"
  using assms notify_from_ok [OF assms(2), of 0 events ser "world s"]
  by (cases "notify_all (listeners k) events ser (world s)")
    (simp_all add: ht_timeline_listener_container_notify_listeners_def get_container_def listeners_def)

text \<open>Adding a listener where the block has room, and where it has none.\<close>

lemma listener_bag_add:
  assumes inv: "listener_bag_inv b m" and lt: "bag_size b < 16"
  shows "bag_size b < length (bag_cells b) \<Longrightarrow>
      \<exists>b'. ht_bag_add sizeof_listener_entry b v m = Some (HT_ERR_OK, b', m) \<and> listener_bag_inv b' m \<and>
        bag_list b' = bag_list b @ [v] \<and> bag_block b' = bag_block b \<and>
        length (bag_cells b') = length (bag_cells b) \<and> bag_size b' = bag_size b + 1"
    and "bag_size b = length (bag_cells b) \<Longrightarrow> ht_bag_add sizeof_listener_entry b v m = None"
proof -
  from inv lt have fl: "filled (bag_size b) (bag_cells b)" and ne: "bag_capacity b \<noteq> bag_size b"
    and live: "bag_live b m"
    by (auto simp: listener_bag_inv_def bag_live_def)
  show "ht_bag_add sizeof_listener_entry b v m = None" if "bag_size b = length (bag_cells b)"
    using that ne by (simp add: ht_bag_add_def ht_bag_set_def)
  assume room: "bag_size b < length (bag_cells b)"
  let ?b = "b\<lparr>bag_cells := (bag_cells b)[bag_size b := Some v], bag_size := bag_size b + 1\<rparr>"
  have "ht_bag_add sizeof_listener_entry b v m = Some (HT_ERR_OK, ?b, m)"
    using room ne live by (simp add: ht_bag_add_def ht_bag_set_def)
  moreover have "listener_bag_inv ?b m"
    using inv lt filled_snoc [OF fl room] by (simp add: listener_bag_inv_def bag_block_def)
  moreover have "bag_list ?b = bag_list b @ [v]"
    using contents_snoc [OF fl room] by (simp add: bag_list_def)
  ultimately show "\<exists>b'. ht_bag_add sizeof_listener_entry b v m = Some (HT_ERR_OK, b', m) \<and> listener_bag_inv b' m \<and>
        bag_list b' = bag_list b @ [v] \<and> bag_block b' = bag_block b \<and>
        length (bag_cells b') = length (bag_cells b) \<and> bag_size b' = bag_size b + 1"
    by (intro exI [of _ ?b]) (simp add: bag_block_def)
qed

lemma listener_bag_clear:
  assumes inv: "listener_bag_inv b m" and wf: "alloc_wf m"
  obtains b' m' where "ht_bag_clear sizeof_listener_entry b m = Some (b', m')" and "alloc_wf m'"
    and "listener_bag_inv b' m'" and "bag_list b' = []" and "moved (bag_block b) m (bag_block b') m'"
    and "bag_size b' = 0" and "length (bag_cells b') = 5 \<or> ht_realloc (bag_data b) 128 m = Some (None, m')"
proof -
  from inv have p: "bag_data b = Some (bag_block b)" "live m (bag_block b) \<noteq> None"
    by (simp_all add: listener_bag_inv_def)
  have bytes: "size_mul (bag_min_capacity b) sizeof_void_ptr = 128"
    using inv by (simp add: listener_bag_inv_def size_mul_def sizeof_void_ptr_def SIZE_MODULUS_def)
  have "0 < (128::nat)" by simp
  show thesis
  proof (cases rule: ht.realloc_cases [OF wf p(2) \<open>0 < (128::nat)\<close>])
    case (1 m')
    let ?b = "b\<lparr>bag_size := 0\<rparr>"
    have "ht_bag_clear sizeof_listener_entry b m = Some (?b, m')"
      using 1 p bytes by (simp add: ht_bag_clear_def ht_bag_resize_def)
    moreover have "listener_bag_inv ?b m'" using inv 1 by (simp add: listener_bag_inv_def bag_block_def)
    moreover have "moved (bag_block b) m (bag_block ?b) m'"
      using moved_same [OF p(2) 1(3)] by (simp add: bag_block_def)
    ultimately show thesis using that 1 p by (simp add: bag_list_def)
  next
    case (2 q m')
    let ?b = "b\<lparr>bag_data := Some q, bag_capacity := bag_min_capacity b,
                bag_cells := resize_cells (128 div 24) (bag_cells b), bag_size := 0\<rparr>"
    have "ht_bag_clear sizeof_listener_entry b m = Some (?b, m')"
      using 2 p bytes by (simp add: ht_bag_clear_def ht_bag_resize_def sizeof_listener_entry_def)
    moreover have "listener_bag_inv ?b m'" using inv 2 by (simp add: listener_bag_inv_def bag_block_def)
    moreover have "moved (bag_block b) m (bag_block ?b) m'"
      using 2 by (auto simp: moved_def bag_block_def)
    ultimately show thesis using that 2 by (simp add: bag_list_def)
  qed
qed

section \<open>The operations on a container\<close>

lemma container_invE:
  assumes "container_inv c s"
  obtains k mtx where "containers s c = Some k" and "c_mutex k = Some mtx" and "mutex_free mtx s"
    and "listener_bag_inv (entries k) (rt_mem s)" and "live (rt_mem s) c \<noteq> None"
    and "c \<noteq> mtx" and "c \<noteq> bag_block (entries k)" and "mtx \<noteq> bag_block (entries k)"
    and "alloc_wf (rt_mem s)"
  using assms by (auto simp: container_inv_def)

lemma container_ref_ok:
  assumes "container_inv c s" and "containers s c = Some k"
  shows "ht_timeline_listener_container_ref c s =
    Some (set_container c (k\<lparr>c_refcount := c_refcount k + 1\<rparr>) s)"
  using assms
  by (auto elim!: container_invE simp: ht_timeline_listener_container_ref_def get_container_def
      set_container_def mutex_free_def ht_mutex_lock_def ht_mutex_unlock_def fun_upd_idem)

lemma container_inv_set_count:
  "container_inv c s \<Longrightarrow> containers s c = Some k \<Longrightarrow>
     container_inv c (set_container c (k\<lparr>c_refcount := n\<rparr>) s)"
  by (auto simp: container_inv_def set_container_def mutex_free_def)

lemma container_inv_set_id:
  "container_inv c s \<Longrightarrow> containers s c = Some k \<Longrightarrow>
     container_inv c (set_container c (k\<lparr>c_id := i\<rparr>) s)"
  by (auto simp: container_inv_def set_container_def mutex_free_def)

lemma container_unref_shared:
  assumes "container_inv c s" and "containers s c = Some k" and "c_refcount k \<noteq> 1"
  shows "ht_timeline_listener_container_unref c s =
    Some (set_container c (k\<lparr>c_refcount := c_refcount k - 1\<rparr>) s)"
  using assms
  by (auto elim!: container_invE simp: ht_timeline_listener_container_unref_def get_container_def
      set_container_def mutex_free_def ht_mutex_lock_def ht_mutex_unlock_def fun_upd_idem)

lemma container_unregister_all_ok:
  assumes k: "containers s c = Some k" and inv: "listener_bag_inv (entries k) (rt_mem s)"
    and wf: "alloc_wf (rt_mem s)" and d: "destroy_all (listeners k) (world s) = Some w"
  shows "\<exists>b m. container_unregister_all c s =
           Some (set_container c (k\<lparr>entries := b\<rparr>) (s\<lparr>world := w, rt_mem := m\<rparr>)) \<and>
         alloc_wf m \<and> listener_bag_inv b m \<and> bag_list b = [] \<and> bag_size b = 0 \<and>
         moved (bag_block (entries k)) (rt_mem s) (bag_block b) m \<and>
         (length (bag_cells b) = 5 \<or> ht_realloc (bag_data (entries k)) 128 (rt_mem s) = Some (None, m))"
proof -
  have "destroy_entries_from (entries k) 0 (rt_mem s) (world s) = Some w"
    using destroy_entries_from_ok [OF inv, of 0 "world s"] d by (simp add: listeners_def)
  moreover obtain b m where "ht_bag_clear sizeof_listener_entry (entries k) (rt_mem s) = Some (b, m)"
    and b: "alloc_wf m" "listener_bag_inv b m" "bag_list b = []" "bag_size b = 0"
      "moved (bag_block (entries k)) (rt_mem s) (bag_block b) m"
      "length (bag_cells b) = 5 \<or> ht_realloc (bag_data (entries k)) 128 (rt_mem s) = Some (None, m)"
    using listener_bag_clear [OF inv wf] by blast
  ultimately have "container_unregister_all c s =
      Some (set_container c (k\<lparr>entries := b\<rparr>) (s\<lparr>world := w, rt_mem := m\<rparr>))"
    using k by (simp add: container_unregister_all_def get_container_def)
  with b show ?thesis by blast
qed

lemma container_unref_last:
  assumes inv: "container_inv c s" and k: "containers s c = Some k" and one: "c_refcount k = 1"
    and d: "destroy_all (listeners k) (world s) = Some w"
  shows "\<exists>m mtx. ht_timeline_listener_container_unref c s =
           Some (s\<lparr>world := w, rt_mem := m, rt_locks := (rt_locks s)(mtx := None),
                  containers := (containers s)(c := None)\<rparr>) \<and>
           c_mutex k = Some mtx \<and> alloc_wf m \<and> footprint (container_blocks k c) (rt_mem s) {} m"
proof -
  from inv k obtain mtx where mtx: "c_mutex k = Some mtx" "mutex_free mtx s"
    and bag: "listener_bag_inv (entries k) (rt_mem s)" and lc: "live (rt_mem s) c \<noteq> None"
    and ne: "c \<noteq> mtx" "c \<noteq> bag_block (entries k)" "mtx \<noteq> bag_block (entries k)"
    and wf: "alloc_wf (rt_mem s)"
    by (auto elim!: container_invE)
  from mtx have lm: "live (rt_mem s) mtx \<noteq> None" and lk: "rt_locks s mtx = Some False"
    by (simp_all add: mutex_free_def)
  let ?k = "k\<lparr>c_refcount := 0\<rparr>"
  let ?s1 = "set_container c ?k (s\<lparr>rt_locks := (rt_locks s)(mtx \<mapsto> True)\<rparr>)"
  have "containers ?s1 c = Some ?k" "listener_bag_inv (entries ?k) (rt_mem ?s1)" "alloc_wf (rt_mem ?s1)"
    "destroy_all (listeners ?k) (world ?s1) = Some w"
    using bag wf d by (simp_all add: set_container_def listeners_def)
  from container_unregister_all_ok [OF this] obtain b m1 where
    clear: "container_unregister_all c ?s1 =
        Some (set_container c (?k\<lparr>entries := b\<rparr>) (?s1\<lparr>world := w, rt_mem := m1\<rparr>))"
    and wf1: "alloc_wf m1" and b: "listener_bag_inv b m1"
    and mv: "moved (bag_block (entries k)) (rt_mem s) (bag_block b) m1"
    by (auto simp: set_container_def)
  have ne1: "bag_block b \<noteq> c" "bag_block b \<noteq> mtx" and l1: "live m1 c \<noteq> None" "live m1 mtx \<noteq> None"
    using moved_frame [OF mv] moved_fresh [OF mv] ne lc lm by auto
  from b have "bag_data b = Some (bag_block b)" "live m1 (bag_block b) \<noteq> None"
    by (simp_all add: listener_bag_inv_def)
  with ht.free_law [OF wf1, of "bag_block b"] obtain m2 b2 where
    deinit: "ht_bag_deinit b m1 = Some (b2, m2)" and wf2: "alloc_wf m2"
    and live2: "live m2 = (live m1)(bag_block b := None)"
    by (auto simp: ht_bag_deinit_def)
  have "live m2 mtx \<noteq> None" using l1 ne1 live2 by simp
  from ht.free_law [OF wf2 this] obtain m3 where free3: "ht_free (Some mtx) m2 = Some m3"
    and wf3: "alloc_wf m3" and live3: "live m3 = (live m2)(mtx := None)" by blast
  have "live m3 c \<noteq> None" using l1 ne1 live2 live3 ne by simp
  from ht.free_law [OF wf3 this] obtain m4 where free4: "ht_free (Some c) m3 = Some m4"
    and wf4: "alloc_wf m4" and live4: "live m4 = (live m3)(c := None)" by blast
  have run: "ht_timeline_listener_container_unref c s =
      Some (s\<lparr>world := w, rt_mem := m4, rt_locks := (rt_locks s)(mtx := None),
             containers := (containers s)(c := None)\<rparr>)"
    unfolding ht_timeline_listener_container_unref_def
    using k mtx one lk clear deinit free3 free4
    by (simp add: get_container_def set_container_def ht_mutex_lock_def ht_mutex_unlock_def
        ht_mutex_destroy_def Let_def fun_upd_idem)
  have "footprint (container_blocks k c) (rt_mem s) {c, bag_block b, mtx} m1"
    using footprint_extend [OF moved_footprint [OF mv], of "{c, mtx}"] ne lc lm mtx
    by (auto simp: container_blocks_def insert_commute)
  moreover have "footprint {c, bag_block b, mtx} m1 {} m4"
    using live2 live3 live4 by (auto simp: footprint_def restrict_map_def fun_eq_iff)
  ultimately have "footprint (container_blocks k c) (rt_mem s) {} m4" by (rule footprint_trans)
  with run mtx wf4 show ?thesis by blast
qed

lemma container_ref_repeat:
  assumes "container_inv c s" and "containers s c = Some k"
  shows "repeat_op n (ht_timeline_listener_container_ref c) s =
    Some (set_container c (k\<lparr>c_refcount := c_refcount k + of_nat n\<rparr>) s)"
  using assms
proof (induction n arbitrary: s k)
  case 0
  then show ?case by (simp add: set_container_def fun_upd_idem)
next
  case (Suc n)
  let ?k = "k\<lparr>c_refcount := c_refcount k + 1\<rparr>"
  have "container_inv c (set_container c ?k s)"
    using Suc.prems by (rule container_inv_set_count)
  with Suc.IH [of "set_container c ?k s" ?k] Suc.prems show ?case
    by (simp add: container_ref_ok set_container_def ac_simps)
qed

lemma container_unref_repeat:
  assumes "container_inv c s" and "containers s c = Some k" and "c_refcount k = 1" and "n < 2 ^ 32 - 1"
  shows "repeat_op n (ht_timeline_listener_container_unref c)
           (set_container c (k\<lparr>c_refcount := 1 + of_nat n\<rparr>) s) = Some s"
  using assms(4)
proof (induction n)
  case 0
  have "k\<lparr>c_refcount := 1\<rparr> = k" using assms(3) by (metis container.surjective container.update_convs(4))
  then show ?case using assms(2) by (simp add: set_container_def fun_upd_idem)
next
  case (Suc n)
  let ?k = "k\<lparr>c_refcount := 1 + of_nat (Suc n)\<rparr>"
  let ?s = "set_container c ?k s"
  have inv: "container_inv c ?s"
    using assms(1,2) by (rule container_inv_set_count)
  have "(of_nat (Suc n) :: u32) \<noteq> 0"
    using Suc.prems by (simp only: word_of_nat_eq_0_iff) (auto dest: dvd_imp_le)
  then have "c_refcount ?k \<noteq> 1" by (simp add: add_eq_0_iff)
  with inv have "ht_timeline_listener_container_unref c ?s =
      Some (set_container c (k\<lparr>c_refcount := 1 + of_nat n\<rparr>) s)"
    by (subst container_unref_shared [of c ?s ?k]) (simp_all add: set_container_def)
  with Suc show ?case by simp
qed

text \<open>Registering a listener on a container whose array has room, and on one that has none.\<close>

lemma container_register_ok:
  fixes cb :: "'w listener_callback" and ud :: nat and d :: "(nat \<Rightarrow> 'w \<Rightarrow> 'w option) option"
  defines "l \<equiv> \<lparr>le_callback = cb, le_user_data = ud, le_destroy_cb = d\<rparr>"
  assumes inv: "container_inv c s" and k: "containers s c = Some k"
    and room: "bag_size (entries k) < 16" "bag_size (entries k) < length (bag_cells (entries k))"
  shows "\<exists>k'. ht_timeline_listener_container_register_listener c cb ud d s = Some (HT_ERR_OK, set_container c k' s) \<and>
           container_inv c (set_container c k' s) \<and> listeners k' = listeners k @ [l] \<and>
           bag_size (entries k') = bag_size (entries k) + 1 \<and>
           length (bag_cells (entries k')) = length (bag_cells (entries k)) \<and>
           c_refcount k' = c_refcount k \<and> c_id k' = c_id k"
proof -
  from inv k obtain mtx where mtx: "c_mutex k = Some mtx" "mutex_free mtx s"
    and bag: "listener_bag_inv (entries k) (rt_mem s)"
    by (auto elim!: container_invE)
  from listener_bag_add(1) [OF bag room, of l] obtain b where
    add: "ht_bag_add sizeof_listener_entry (entries k) l (rt_mem s) = Some (HT_ERR_OK, b, rt_mem s)"
    and b: "listener_bag_inv b (rt_mem s)" "bag_list b = bag_list (entries k) @ [l]"
      "bag_block b = bag_block (entries k)" "length (bag_cells b) = length (bag_cells (entries k))"
      "bag_size b = bag_size (entries k) + 1" by blast
  let ?k = "k\<lparr>entries := b\<rparr>"
  have "ht_timeline_listener_container_register_listener c cb ud d s = Some (HT_ERR_OK, set_container c ?k s)"
    using k mtx add
    by (simp add: ht_timeline_listener_container_register_listener_def get_container_def l_def
        set_container_def mutex_free_def ht_mutex_lock_def ht_mutex_unlock_def fun_upd_idem)
  moreover have "container_inv c (set_container c ?k s)"
    using inv k b mtx by (auto simp: container_inv_def set_container_def mutex_free_def)
  ultimately show ?thesis using b by (auto simp: listeners_def)
qed

lemma container_register_overflow:
  assumes inv: "container_inv c s" and k: "containers s c = Some k"
    and full: "bag_size (entries k) < 16" "bag_size (entries k) = length (bag_cells (entries k))"
  shows "ht_timeline_listener_container_register_listener c cb ud d s = None"
proof -
  from inv k obtain mtx where mtx: "c_mutex k = Some mtx" "mutex_free mtx s"
    and bag: "listener_bag_inv (entries k) (rt_mem s)"
    by (auto elim!: container_invE)
  with k listener_bag_add(2) [OF bag full] show ?thesis
    by (simp add: ht_timeline_listener_container_register_listener_def get_container_def
        mutex_free_def ht_mutex_lock_def)
qed

text \<open>Creation either gives back memory as it was, or a container with one reference and no listener.\<close>

lemma container_create_ok:
  assumes wf: "alloc_wf (rt_mem s)"
  obtains (refused) m where "ht_timeline_listener_container_create junk s = Some (None, s\<lparr>rt_mem := m\<rparr>)"
      and "alloc_wf m" and "live m = live (rt_mem s)"
  | (created) c k mtx m where "ht_timeline_listener_container_create junk s =
        Some (Some c, set_container c k (s\<lparr>rt_mem := m, rt_locks := (rt_locks s)(mtx \<mapsto> False)\<rparr>))"
      and "alloc_wf m" and "listener_bag_inv (entries k) m" and "listeners k = []" and "c_refcount k = 1"
      and "c_mutex k = Some mtx" and "c \<noteq> mtx" and "c \<noteq> bag_block (entries k)" and "mtx \<noteq> bag_block (entries k)"
      and "footprint {} (rt_mem s) (container_blocks k c) m" and "bag_size (entries k) = 0"
      and "length (bag_cells (entries k)) = 16"
proof (cases rule: ht.alloc_cases [OF wf, of sizeof_container])
  case (1 m)
  then show thesis by (intro refused [of m]) (simp_all add: ht_timeline_listener_container_create_def)
next
  case c: (2 c m1)
  have bytes: "size_mul 16 sizeof_listener_entry = 384"
    by (simp add: size_mul_def sizeof_listener_entry_def SIZE_MODULUS_def)
  show thesis
  proof (cases rule: ht.alloc_cases [OF c(2), of 384])
    case (1 m2)
    then have "live m2 c \<noteq> None" using c(4) by simp
    from ht.free_law [OF 1(2) this] obtain m3 where "ht_free (Some c) m2 = Some m3" "alloc_wf m3"
      "live m3 = (live m2)(c := None)" by blast
    with c 1 bytes show thesis
      by (intro refused [of m3])
        (simp_all add: ht_timeline_listener_container_create_def ht_bag_init_def fun_upd_idem)
  next
    case p: (2 p m2)
    let ?b = "\<lparr>bag_min_capacity = 16, bag_capacity = 16, bag_size = 0, bag_data = Some p,
               bag_cells = replicate 16 None\<rparr> :: 'a listener_entry bag"
    have init: "ht_bag_init sizeof_listener_entry junk 16 m1 = Some (HT_ERR_OK, ?b, m2)"
      using p(1) bytes by (simp add: ht_bag_init_def) (simp add: sizeof_listener_entry_def)
    have cp: "c \<noteq> p" using c(4) p(3) by auto
    have wf2: "alloc_wf (rt_mem (s\<lparr>rt_mem := m2\<rparr>))" using p(2) by simp
    show thesis
    proof (cases rule: mutex_create_cases [OF wf2])
      case (1 m3)
      then have l3: "live m3 = (live (rt_mem s))(c \<mapsto> sizeof_container, p \<mapsto> 384)" using c(4) p(4) by simp
      then have "live m3 p \<noteq> None" by simp
      from ht.free_law [OF 1(2) this] obtain m4 where f4: "ht_free (Some p) m3 = Some m4" "alloc_wf m4"
        "live m4 = (live m3)(p := None)" by blast
      then have "live m4 c \<noteq> None" using l3 cp by simp
      from ht.free_law [OF f4(2) this] obtain m5 where f5: "ht_free (Some c) m4 = Some m5" "alloc_wf m5"
        "live m5 = (live m4)(c := None)" by blast
      have "live m5 = live (rt_mem s)" using f5(3) f4(3) l3 c(3,4) p(3) cp by (auto simp: fun_eq_iff)
      with c(1) init 1(1) f4(1) f5(1,2) show thesis
        by (intro refused [of m5]) (simp_all add: ht_timeline_listener_container_create_def ht_bag_deinit_def)
    next
      case (2 a m3)
      let ?k = "\<lparr>entries = ?b, c_mutex = Some a, c_id = 0, c_refcount = 1\<rparr>"
      have ne: "a \<noteq> c" "a \<noteq> p" using 2(3) c(4) p(4) by (auto split: if_splits)
      have "footprint {} (rt_mem s) (container_blocks ?k c) m3"
      proof -
        have "footprint {} (rt_mem s) {c} m1" by (rule footprint_alloc [OF c(3,4)])
        also have "footprint {c} m1 {p, c} m2"
          using footprint_extend [OF footprint_alloc [OF p(3,4)], of "{c}"] c(4) by (simp add: insert_commute)
        also have "footprint {p, c} m2 {a, p, c} m3"
          using footprint_extend [OF footprint_alloc [of m2 a m3 sizeof_HT_Mutex], where B = "{p, c}"] 2(3,4) c(4) p(4) cp ne
          by (simp add: insert_commute)
        finally show ?thesis by (simp add: container_blocks_def bag_block_def insert_commute)
      qed
      moreover have "listener_bag_inv ?b m3"
        using 2(4) p(4) ne by (simp add: listener_bag_inv_def bag_block_def)
      ultimately show thesis
        using c(1) init 2(1,2) ne cp
        by (intro created [of c ?k a m3])
          (simp_all add: ht_timeline_listener_container_create_def listeners_def bag_list_def bag_block_def)
    qed
  qed
qed

text \<open>A sequence of registrations.\<close>

definition register_step :: "addr \<Rightarrow> 'w listener_entry \<Rightarrow> ('w, 's) lrt_scheme \<Rightarrow> ('w, 's) lrt_scheme option" where
  "register_step c l s =
     map_option snd (ht_timeline_listener_container_register_listener c (le_callback l) (le_user_data l)
       (le_destroy_cb l) s)"

lemma container_register_many:
  assumes "container_inv c s" and "containers s c = Some k"
    and "bag_size (entries k) + length ls \<le> length (bag_cells (entries k))"
    and "bag_size (entries k) + length ls \<le> 16"
  shows "\<exists>k'. run_ops (register_step c) ls s = Some (set_container c k' s) \<and>
           container_inv c (set_container c k' s) \<and> listeners k' = listeners k @ ls \<and>
           bag_size (entries k') = bag_size (entries k) + length ls \<and>
           length (bag_cells (entries k')) = length (bag_cells (entries k))"
  using assms
proof (induction ls arbitrary: s k)
  case Nil
  then show ?case by (intro exI [of _ k]) (simp add: set_container_def fun_upd_idem)
next
  case (Cons l ls)
  have room: "bag_size (entries k) < 16" "bag_size (entries k) < length (bag_cells (entries k))"
    using Cons.prems by simp_all
  from container_register_ok [OF Cons.prems(1,2) room, of "le_callback l" "le_user_data l" "le_destroy_cb l"]
  obtain k1 where k1: "register_step c l s = Some (set_container c k1 s)"
    "container_inv c (set_container c k1 s)" "listeners k1 = listeners k @ [l]"
    "bag_size (entries k1) = bag_size (entries k) + 1"
    "length (bag_cells (entries k1)) = length (bag_cells (entries k))"
    by (auto simp: register_step_def)
  have "containers (set_container c k1 s) c = Some k1" by (simp add: set_container_def)
  from Cons.IH [OF k1(2) this] Cons.prems k1 obtain k2 where
    "run_ops (register_step c) ls (set_container c k1 s) = Some (set_container c k2 (set_container c k1 s))"
    "container_inv c (set_container c k2 (set_container c k1 s))" "listeners k2 = listeners k1 @ ls"
    "bag_size (entries k2) = bag_size (entries k1) + length ls"
    "length (bag_cells (entries k2)) = length (bag_cells (entries k1))" by auto
  moreover have "set_container c k2 (set_container c k1 s) = set_container c k2 s"
    by (simp add: set_container_def)
  ultimately show ?case using k1 by (intro exI [of _ k2]) simp
qed

lemma container_unregister_shrinks:
  assumes inv: "container_inv c s" and k: "containers s c = Some k"
    and d: "destroy_all (listeners k) (world s) = Some w"
    and granted: "ht_realloc (bag_data (entries k)) 128 (rt_mem s) = Some (Some p, m)"
  shows "\<exists>s1 k1. ht_timeline_listener_container_unregister_all_listeners c s = Some s1 \<and> world s1 = w \<and>
           container_inv c s1 \<and> containers s1 c = Some k1 \<and> listeners k1 = [] \<and>
           bag_size (entries k1) = 0 \<and> length (bag_cells (entries k1)) = 5"
proof -
  from inv k obtain mtx where mtx: "c_mutex k = Some mtx" "mutex_free mtx s"
    and bag: "listener_bag_inv (entries k) (rt_mem s)" and lc: "live (rt_mem s) c \<noteq> None"
    and ne: "c \<noteq> mtx" "c \<noteq> bag_block (entries k)" "mtx \<noteq> bag_block (entries k)"
    and wf: "alloc_wf (rt_mem s)"
    by (auto elim!: container_invE)
  let ?s0 = "s\<lparr>rt_locks := (rt_locks s)(mtx \<mapsto> True)\<rparr>"
  have "containers ?s0 c = Some k" "listener_bag_inv (entries k) (rt_mem ?s0)" "alloc_wf (rt_mem ?s0)"
    "destroy_all (listeners k) (world ?s0) = Some w"
    using k bag wf d by simp_all
  from container_unregister_all_ok [OF this] obtain b m1 where
    clear: "container_unregister_all c ?s0 = Some (set_container c (k\<lparr>entries := b\<rparr>) (?s0\<lparr>world := w, rt_mem := m1\<rparr>))"
    and b: "alloc_wf m1" "listener_bag_inv b m1" "bag_list b = []" "bag_size b = 0"
      "moved (bag_block (entries k)) (rt_mem s) (bag_block b) m1"
    and cells: "length (bag_cells b) = 5"
    using granted by auto
  let ?s1 = "set_container c (k\<lparr>entries := b\<rparr>) (s\<lparr>world := w, rt_mem := m1\<rparr>)"
  have run: "ht_timeline_listener_container_unregister_all_listeners c s = Some ?s1"
    using k mtx clear
    by (simp add: ht_timeline_listener_container_unregister_all_listeners_def get_container_def
        ht_mutex_lock_def ht_mutex_unlock_def mutex_free_def set_container_def fun_upd_idem)
  have frame: "live m1 q \<noteq> None" "bag_block b \<noteq> q"
    if "live (rt_mem s) q \<noteq> None" "q \<noteq> bag_block (entries k)" for q
    using moved_frame [OF b(5) that(2,1)] moved_fresh [OF b(5) that(2,1)] that by auto
  have "container_inv c ?s1"
    using b mtx ne lc frame [of c] frame [of mtx]
    by (auto simp: container_inv_def set_container_def mutex_free_def)
  with run cells b show ?thesis
    by (intro exI [of _ ?s1] exI [of _ "k\<lparr>entries := b\<rparr>"]) (simp add: set_container_def listeners_def)
qed

section \<open>Properties\<close>

text \<open>
  C10. A container is destroyed by its last reference, and only by it: after \<open>n\<close> references were
  taken, \<open>n\<close> releases give back exactly the state before, and one more release calls the
  destructor of every listener, in order, and frees the container, its array of listeners and its
  mutex, and nothing else. No destructor is called before. The mutex is never left locked.
\<close>

theorem container_destroyed_by_last_unref:
  assumes "container_inv c s" and "containers s c = Some k" and "c_refcount k = 1"
    and "n < 2 ^ 32 - 1" and "destroy_all (listeners k) (world s) = Some w"
  shows "\<exists>s1 s2. repeat_op n (ht_timeline_listener_container_ref c) s = Some s1 \<and>
           repeat_op n (ht_timeline_listener_container_unref c) s1 = Some s \<and>
           ht_timeline_listener_container_unref c s = Some s2 \<and>
           containers s2 = (containers s)(c := None) \<and> world s2 = w \<and>
           footprint (container_blocks k c) (rt_mem s) {} (rt_mem s2)"
  using container_ref_repeat [OF assms(1,2), of n] container_unref_repeat [OF assms(1-4)]
    container_unref_last [OF assms(1-3,5)] assms(3)
  by auto

definition demo_rt :: "(string list, unit) lrt_scheme" where
  "demo_rt =
     \<lparr>rt_mem = \<lparr>heap_of = \<lparr>blocks = [1 \<mapsto> 48, 2 \<mapsto> 384, 3 \<mapsto> 40], next_addr = 4, refusals = []\<rparr>,
                realloc_fnc = None, user_data = 0\<rparr>,
      rt_locks = [3 \<mapsto> False], rt_ids = (\<lambda>_. 0), rt_clock = (\<lambda>_. 0), rt_ticks = 0, rt_last_thread = 0,
      containers = [1 \<mapsto> \<lparr>entries = \<lparr>bag_min_capacity = 16, bag_capacity = 16, bag_size = 1, bag_data = Some 2,
                                    bag_cells = Some \<lparr>le_callback = (\<lambda>bs ser ud w. Some (''called'' # w)),
                                                      le_user_data = 0,
                                                      le_destroy_cb = Some (\<lambda>ud w. Some (''destroyed'' # w))\<rparr>
                                                # replicate 15 None\<rparr>,
                          c_mutex = Some 3, c_id = 0, c_refcount = 1\<rparr>],
      world = []\<rparr>"

lemma demo_rt_inv: "container_inv 1 demo_rt" "c_refcount (the (containers demo_rt 1)) = 1"
  by (simp_all add: container_inv_def demo_rt_def alloc_wf_def heap_ok_def mutex_free_def live_def
      listener_bag_inv_def filled_def bag_block_def)

theorem container_destroyed_by_last_unref_witness:
  "\<exists>s1 s2. repeat_op 2 (ht_timeline_listener_container_ref 1) demo_rt = Some s1 \<and>
     repeat_op 2 (ht_timeline_listener_container_unref 1) s1 = Some demo_rt \<and>
     ht_timeline_listener_container_unref 1 demo_rt = Some s2 \<and>
     containers s2 1 = None \<and> world s2 = [''destroyed'']"
proof -
  let ?k = "the (containers demo_rt 1)"
  have k: "containers demo_rt 1 = Some ?k" by (simp add: demo_rt_def)
  have "destroy_all (listeners ?k) (world demo_rt) = Some [''destroyed'']"
    by (simp add: demo_rt_def listeners_def bag_list_def contents_def)
  from container_destroyed_by_last_unref [OF demo_rt_inv(1) k demo_rt_inv(2) _ this, of 2] show ?thesis
    by fastforce
qed

text \<open>
  After the listeners of a container were unregistered, at most five can be registered again:
  the array is shrunk to 16 pointers, which is room for five entries of three pointers, while
  the capacity stays 16. Five registrations succeed; a sixth writes beyond the end of the block.
\<close>

theorem sixth_listener_after_unregister_undefined:
  assumes "container_inv c s" and "containers s c = Some k"
    and "destroy_all (listeners k) (world s) = Some w"
    and "ht_realloc (bag_data (entries k)) 128 (rt_mem s) = Some (Some p, m)"
    and "length ls = 5"
  shows "\<exists>s1 s2. ht_timeline_listener_container_unregister_all_listeners c s = Some s1 \<and>
           run_ops (register_step c) ls s1 = Some s2 \<and>
           (\<forall>cb ud d. ht_timeline_listener_container_register_listener c cb ud d s2 = None)"
proof -
  from container_unregister_shrinks [OF assms(1-4)] obtain s1 k1 where
    s1: "ht_timeline_listener_container_unregister_all_listeners c s = Some s1" "container_inv c s1"
      "containers s1 c = Some k1" "bag_size (entries k1) = 0" "length (bag_cells (entries k1)) = 5" by blast
  with container_register_many [OF s1(2,3), of ls] assms(5) obtain k2 where
    k2: "run_ops (register_step c) ls s1 = Some (set_container c k2 s1)"
      "container_inv c (set_container c k2 s1)" "bag_size (entries k2) = 5"
      "length (bag_cells (entries k2)) = 5" by auto
  have "ht_timeline_listener_container_register_listener c cb ud d (set_container c k2 s1) = None" for cb ud d
    using k2 by (intro container_register_overflow) (auto simp: set_container_def)
  with s1 k2 show ?thesis by blast
qed

definition demo_listener :: "string list listener_entry" where
  "demo_listener = \<lparr>le_callback = (\<lambda>bs ser ud w. Some (''called'' # w)), le_user_data = 0, le_destroy_cb = None\<rparr>"

theorem sixth_listener_after_unregister_undefined_witness:
  "\<exists>s1 s2. ht_timeline_listener_container_unregister_all_listeners 1 demo_rt = Some s1 \<and>
     run_ops (register_step 1) (replicate 5 demo_listener) s1 = Some s2 \<and> register_step 1 demo_listener s2 = None"
proof -
  let ?k = "the (containers demo_rt 1)"
  have k: "containers demo_rt 1 = Some ?k" by (simp add: demo_rt_def)
  have d: "destroy_all (listeners ?k) (world demo_rt) = Some [''destroyed'']"
    by (simp add: demo_rt_def listeners_def bag_list_def contents_def)
  obtain m where r: "ht_realloc (bag_data (entries ?k)) 128 (rt_mem demo_rt) = Some (Some 4, m)"
    by (simp add: demo_rt_def ht_realloc_def realloc_def libc_refuses_def PTRDIFF_MAX_def)
  have "length (replicate 5 demo_listener) = 5" by simp
  from sixth_listener_after_unregister_undefined [OF demo_rt_inv(1) k d r this] show ?thesis
    by (auto simp: register_step_def)
qed

text \<open>
  C14. The seventeenth listener of a container overflows its array: the array of 16 entries of three
  pointers is reallocated to 32 pointers, which is less than it had, and the new entry is written
  behind the end of the block. Only a refused reallocation avoids it.
\<close>

theorem seventeenth_listener_undefined:
  assumes "container_inv c s" and "containers s c = Some k" and "bag_size (entries k) = 16"
    and "ht_realloc (bag_data (entries k)) 256 (rt_mem s) = Some (Some p, m)"
  shows "ht_timeline_listener_container_register_listener c cb ud d s = None"
proof -
  from assms(1,2) obtain mtx where mtx: "c_mutex k = Some mtx" "mutex_free mtx s"
    and bag: "listener_bag_inv (entries k) (rt_mem s)"
    by (auto elim!: container_invE)
  then have "bag_capacity (entries k) = 16" by (simp add: listener_bag_inv_def)
  with assms(3,4) have "ht_bag_add sizeof_listener_entry (entries k) v (rt_mem s) = None" for v
    by (simp add: ht_bag_add_def ht_bag_resize_def ht_bag_set_def size_mul_def SIZE_MODULUS_def
        sizeof_void_ptr_def sizeof_listener_entry_def)
  with assms(2) mtx show ?thesis
    by (simp add: ht_timeline_listener_container_register_listener_def get_container_def
        mutex_free_def ht_mutex_lock_def)
qed

theorem seventeenth_listener_undefined_witness:
  "\<exists>s. run_ops (register_step 1) (replicate 15 demo_listener) demo_rt = Some s \<and>
       ht_timeline_listener_container_register_listener 1 (\<lambda>bs ser ud w. Some w) 0 None s = None"
proof -
  let ?k = "the (containers demo_rt 1)"
  have k: "containers demo_rt 1 = Some ?k" by (simp add: demo_rt_def)
  have sz: "bag_size (entries ?k) + length (replicate 15 demo_listener) \<le> length (bag_cells (entries ?k))"
    "bag_size (entries ?k) + length (replicate 15 demo_listener) \<le> 16"
    by (simp_all add: demo_rt_def)
  from container_register_many [OF demo_rt_inv(1) k sz] obtain k2 where
    k2: "run_ops (register_step 1) (replicate 15 demo_listener) demo_rt = Some (set_container 1 k2 demo_rt)"
      "container_inv 1 (set_container 1 k2 demo_rt)" "bag_size (entries k2) = 16"
    by (auto simp: demo_rt_def)
  let ?s = "set_container 1 k2 demo_rt"
  have c2: "containers ?s 1 = Some k2" by (simp add: set_container_def)
  from k2(2) c2 have "listener_bag_inv (entries k2) (rt_mem ?s)" by (auto elim!: container_invE)
  then obtain q where q: "bag_data (entries k2) = Some q" "live (rt_mem demo_rt) q \<noteq> None"
    by (auto simp: listener_bag_inv_def set_container_def)
  then obtain m where "ht_realloc (bag_data (entries k2)) 256 (rt_mem ?s) = Some (Some 4, m)"
    by (auto simp: set_container_def demo_rt_def ht_realloc_def realloc_def libc_refuses_def PTRDIFF_MAX_def live_def)
  from seventeenth_listener_undefined [OF k2(2) c2 k2(3) this] k2(1) show ?thesis by blast
qed

end
