(* ===== verification/Events.thy ===== *)
theory Events
  imports Base_Types
begin

text \<open>
  Events and their reflection: \<^verbatim>\<open>mkcreflect.h\<close> (the description of a structure),
  \<^verbatim>\<open>event_macros.h\<close> (the size and the serialization of an event), \<^verbatim>\<open>events.h\<close>,
  \<^verbatim>\<open>events.c\<close>, \<^verbatim>\<open>core_events.h\<close> and \<^verbatim>\<open>event_utils.c\<close>.

  The macros generate one function per event class. The model has one function for all of
  them, by recursion over the value: an \<^verbatim>\<open>HT_Event\<close> or a base structure with further fields.
  A C string is a HOL string; its bytes end at the first zero character.
\<close>

section \<open>Object representations\<close>

definition byte_of_char :: "char \<Rightarrow> byte" where
  "byte_of_char c = word_of_nat (of_char c)"

definition char_of_byte :: "byte \<Rightarrow> char" where
  "char_of_byte b = char_of (unat b)"

lemma char_of_byte_of_char [simp]: "char_of_byte (byte_of_char c) = c"
proof -
  have "of_char c < (256::nat)" by (rule nat_of_char_less_256)
  then have "unat (word_of_nat (of_char c) :: byte) = of_char c"
    by (simp add: unat_of_nat)
  then show ?thesis by (simp add: byte_of_char_def char_of_byte_def)
qed

lemma byte_of_char_of_byte [simp]: "byte_of_char (char_of_byte b) = b"
proof -
  have "unat b < 256" using unsigned_less [of b] by simp
  then show ?thesis by (simp add: byte_of_char_def char_of_byte_def)
qed

text \<open>The bytes of an unsigned integer of \<open>w\<close> bytes in memory.\<close>

definition le_bytes :: "nat \<Rightarrow> nat \<Rightarrow> byte list" where
  "le_bytes w v = map (\<lambda>i. word_of_nat (v div 256 ^ i)) [0..<w]"

definition int_bytes :: "HT_Endianness \<Rightarrow> nat \<Rightarrow> nat \<Rightarrow> byte list" where
  "int_bytes e w v = (case e of HT_ENDIANNESS_LITTLE \<Rightarrow> le_bytes w v | HT_ENDIANNESS_BIG \<Rightarrow> rev (le_bytes w v))"

lemma length_int_bytes [simp]: "length (int_bytes e w v) = w"
  by (cases e) (simp_all add: int_bytes_def le_bytes_def)

text \<open>\<^verbatim>\<open>strlen\<close>, and the bytes of a string with its terminating zero.\<close>

definition strlen :: "string \<Rightarrow> nat" where
  "strlen s = length (takeWhile (\<lambda>c. c \<noteq> CHR 0x00) s)"

definition string_bytes :: "string \<Rightarrow> byte list" where
  "string_bytes s = map byte_of_char (takeWhile (\<lambda>c. c \<noteq> CHR 0x00) s) @ [0]"

lemma length_string_bytes [simp]: "length (string_bytes s) = strlen s + 1"
  by (simp add: string_bytes_def strlen_def)

section \<open>Reflection\<close>

record field_decl =
  fd_data_type :: MKCREFLECT_Types
  fd_c_type :: string
  fd_field_name :: string
  fd_sizeof :: nat
  fd_align :: nat
  fd_signed :: bool
  fd_array :: "nat option"

record MKCREFLECT_FieldInfo =
  fi_field_type :: string
  fi_field_name :: string
  fi_size :: nat
  fi_offset :: nat
  fi_is_signed :: bool
  fi_array_size :: int
  fi_data_type :: MKCREFLECT_Types

record MKCREFLECT_TypeInfo =
  ti_name :: string
  ti_fields_count :: nat
  ti_size :: nat
  ti_packed_size :: nat
  ti_fields :: "MKCREFLECT_FieldInfo list"

text \<open>The layout of a structure: every member at the next multiple of its alignment.\<close>

definition align_up :: "nat \<Rightarrow> nat \<Rightarrow> nat" where
  "align_up off a = (off + a - 1) div a * a"

definition member_size :: "field_decl \<Rightarrow> nat" where
  "member_size d = fd_sizeof d * (case fd_array d of None \<Rightarrow> 1 | Some n \<Rightarrow> n)"

fun member_offsets :: "nat \<Rightarrow> field_decl list \<Rightarrow> nat list" where
  "member_offsets off [] = []"
| "member_offsets off (d # ds) =
     (let o1 = align_up off (fd_align d) in o1 # member_offsets (o1 + member_size d) ds)"

fun members_end :: "nat \<Rightarrow> field_decl list \<Rightarrow> nat" where
  "members_end off [] = off"
| "members_end off (d # ds) = members_end (align_up off (fd_align d) + member_size d) ds"

definition struct_align :: "field_decl list \<Rightarrow> nat" where
  "struct_align ds = foldr (\<lambda>d a. max (fd_align d) a) ds 1"

definition struct_sizeof :: "field_decl list \<Rightarrow> nat" where
  "struct_sizeof ds = align_up (members_end 0 ds) (struct_align ds)"

text \<open>
  \<^verbatim>\<open>MKCREFLECT_IS_SIGNED_\<close>: a structure and a pointer are not signed; otherwise the test
  \<^verbatim>\<open>(C_TYPE)-1 < (C_TYPE)1\<close> on the type, which the declaration records.
\<close>

definition is_signed :: "field_decl \<Rightarrow> bool" where
  "is_signed d =
     (case fd_data_type d of
        MKCREFLECT_TYPES_STRUCT \<Rightarrow> False
      | MKCREFLECT_TYPES_POINTER \<Rightarrow> False
      | _ \<Rightarrow> fd_signed d)"

definition mkcreflect_field_info :: "field_decl \<Rightarrow> nat \<Rightarrow> MKCREFLECT_FieldInfo" where
  "mkcreflect_field_info d off =
     \<lparr>fi_field_type = fd_c_type d, fi_field_name = fd_field_name d, fi_size = member_size d,
      fi_offset = off, fi_is_signed = is_signed d,
      fi_array_size = (case fd_array d of None \<Rightarrow> -1 | Some n \<Rightarrow> int n),
      fi_data_type = fd_data_type d\<rparr>"

text \<open>\<^verbatim>\<open>mkcreflect_get_TYPE_type_info\<close>; the packed size does not count the length of an array.\<close>

definition mkcreflect_type_info :: "string \<Rightarrow> field_decl list \<Rightarrow> MKCREFLECT_TypeInfo" where
  "mkcreflect_type_info name ds =
     \<lparr>ti_name = name, ti_fields_count = length ds, ti_size = struct_sizeof ds,
      ti_packed_size = sum_list (map fd_sizeof ds),
      ti_fields = map2 mkcreflect_field_info ds (member_offsets 0 ds)\<rparr>"

lemma length_member_offsets [simp]: "length (member_offsets off ds) = length ds"
  by (induction off ds rule: member_offsets.induct) (simp_all add: Let_def)

lemma type_info_fields:
  "length (ti_fields (mkcreflect_type_info name ds)) = length ds"
  "fi \<in> set (ti_fields (mkcreflect_type_info name ds)) \<Longrightarrow>
     \<exists>d\<in>set ds. fi_field_type fi = fd_c_type d \<and> fi_field_name fi = fd_field_name d"
  by (auto simp: mkcreflect_type_info_def mkcreflect_field_info_def dest!: set_zip_leftD)

section \<open>The core event classes\<close>

definition integer_decl :: "string \<Rightarrow> nat \<Rightarrow> string \<Rightarrow> field_decl" where
  "integer_decl c_type w name =
     \<lparr>fd_data_type = MKCREFLECT_TYPES_INTEGER, fd_c_type = c_type, fd_field_name = name,
      fd_sizeof = w, fd_align = w, fd_signed = False, fd_array = None\<rparr>"

definition string_decl :: "string \<Rightarrow> field_decl" where
  "string_decl name =
     \<lparr>fd_data_type = MKCREFLECT_TYPES_STRING, fd_c_type = ''const char*'', fd_field_name = name,
      fd_sizeof = 8, fd_align = 8, fd_signed = False, fd_array = None\<rparr>"

definition base_decl :: "string \<Rightarrow> field_decl list \<Rightarrow> field_decl" where
  "base_decl c_type ds =
     \<lparr>fd_data_type = MKCREFLECT_TYPES_STRUCT, fd_c_type = c_type, fd_field_name = ''base'',
      fd_sizeof = struct_sizeof ds, fd_align = struct_align ds, fd_signed = False, fd_array = None\<rparr>"

definition HT_Event_decl :: "field_decl list" where
  "HT_Event_decl =
     [\<lparr>fd_data_type = MKCREFLECT_TYPES_POINTER, fd_c_type = ''HT_EventKlass*'', fd_field_name = ''klass'',
       fd_sizeof = 8, fd_align = 8, fd_signed = False, fd_array = None\<rparr>,
      integer_decl ''HT_TimestampNs'' 8 ''timestamp'',
      integer_decl ''HT_EventId'' 8 ''id'']"

definition HT_EndiannessInfoEvent_decl :: "field_decl list" where
  "HT_EndiannessInfoEvent_decl =
     [base_decl ''HT_Event'' HT_Event_decl, integer_decl ''uint8_t'' 1 ''endianness'']"

definition HT_EventKlassInfoEvent_decl :: "field_decl list" where
  "HT_EventKlassInfoEvent_decl =
     [base_decl ''HT_Event'' HT_Event_decl, integer_decl ''HT_EventKlassId'' 4 ''info_klass_id'',
      string_decl ''event_klass_name'', integer_decl ''uint8_t'' 1 ''field_count'']"

definition HT_EventKlassFieldInfoEvent_decl :: "field_decl list" where
  "HT_EventKlassFieldInfoEvent_decl =
     [base_decl ''HT_Event'' HT_Event_decl, integer_decl ''HT_EventKlassId'' 4 ''info_klass_id'',
      string_decl ''field_type'', string_decl ''field_name'', integer_decl ''uint64_t'' 8 ''size'',
      integer_decl ''uint8_t'' 1 ''data_type'']"

definition HT_CallstackBaseEvent_decl :: "field_decl list" where
  "HT_CallstackBaseEvent_decl =
     [base_decl ''HT_Event'' HT_Event_decl, integer_decl ''HT_DurationNs'' 8 ''duration'',
      integer_decl ''HT_ThreadId'' 4 ''thread_id'']"

definition HT_CallstackIntEvent_decl :: "field_decl list" where
  "HT_CallstackIntEvent_decl =
     [base_decl ''HT_CallstackBaseEvent'' HT_CallstackBaseEvent_decl,
      integer_decl ''HT_CallstackEventLabel'' 8 ''label'']"

definition HT_CallstackStringEvent_decl :: "field_decl list" where
  "HT_CallstackStringEvent_decl =
     [base_decl ''HT_CallstackBaseEvent'' HT_CallstackBaseEvent_decl, string_decl ''label'']"

definition HT_StringMappingEvent_decl :: "field_decl list" where
  "HT_StringMappingEvent_decl =
     [base_decl ''HT_Event'' HT_Event_decl, integer_decl ''uint64_t'' 8 ''identifier'',
      string_decl ''label'']"

definition HT_SystemInfoEvent_decl :: "field_decl list" where
  "HT_SystemInfoEvent_decl =
     [base_decl ''HT_Event'' HT_Event_decl, integer_decl ''uint8_t'' 1 ''version_major'',
      integer_decl ''uint8_t'' 1 ''version_minor'', integer_decl ''uint8_t'' 1 ''version_patch'']"

section \<open>Event values, their size and their serialization\<close>

text \<open>
  An event class is referred to by the name of its type: there is one static instance of
  \<^verbatim>\<open>HT_EventKlass\<close> per type. The value of an integer field is its unsigned reading, the value of
  a double its 64 bits; a string field holds a pointer that may be null.
\<close>

type_synonym klass_ref = string

datatype ht_struct =
    HT_Event (ev_klass: klass_ref) (ev_timestamp: HT_TimestampNs) (ev_id: HT_EventId)
  | Derived (ev_base: ht_struct) (ev_fields: "field_value list")
and field_value =
    Integer nat nat
  | Pointer u64
  | Double u64
  | String "string option"
  | Struct ht_struct

record HT_EventKlass =
  type_info :: "MKCREFLECT_TypeInfo option"
  klass_id :: HT_EventKlassId

text \<open>The event's own class and its \<^verbatim>\<open>HT_Event\<close> part.\<close>

fun event_klass :: "ht_struct \<Rightarrow> klass_ref" where
  "event_klass (HT_Event k t i) = k"
| "event_klass (Derived b fs) = event_klass b"

fun set_header :: "HT_TimestampNs \<Rightarrow> HT_EventId \<Rightarrow> ht_struct \<Rightarrow> ht_struct" where
  "set_header t i (HT_Event k t0 i0) = HT_Event k t i"
| "set_header t i (Derived b fs) = Derived (set_header t i b) fs"

fun get_size :: "ht_struct \<Rightarrow> nat" and field_get_size :: "field_value \<Rightarrow> nat" where
  "get_size (HT_Event k t i) = 4 + 8 + 8"
| "get_size (Derived b fs) = get_size b + sum_list (map field_get_size fs)"
| "field_get_size (Integer w v) = w"
| "field_get_size (Pointer p) = 8"
| "field_get_size (Double d) = 8"
| "field_get_size (String s) = (case s of None \<Rightarrow> 0 | Some str \<Rightarrow> strlen str + 1)"
| "field_get_size (Struct s) = get_size s"

text \<open>A copy of bytes into a buffer, which has to have room for them.\<close>

definition buffer_write :: "nat \<Rightarrow> byte list \<Rightarrow> byte option list \<Rightarrow> byte option list option" where
  "buffer_write off bs buf = (if off + length bs \<le> length buf then Some (write_cells off bs buf) else None)"

definition value_bytes :: "HT_Endianness \<Rightarrow> field_value \<Rightarrow> byte list" where
  "value_bytes e v =
     (case v of
        Integer w n \<Rightarrow> int_bytes e w n
      | Pointer p \<Rightarrow> int_bytes e 8 (unat p)
      | Double d \<Rightarrow> int_bytes e 8 (unat d)
      | String s \<Rightarrow> (case s of None \<Rightarrow> [] | Some str \<Rightarrow> string_bytes str)
      | Struct s \<Rightarrow> [])"

text \<open>
  The generated \<^verbatim>\<open>serialize\<close> functions: \<open>pos\<close> is where the argument \<^verbatim>\<open>buffer\<close> points to, \<open>n\<close> the
  local variable \<^verbatim>\<open>offset\<close>. A structure is serialized to \<^verbatim>\<open>buffer\<close>, not to \<^verbatim>\<open>buffer + offset\<close>.
\<close>

fun serialize ::
    "HT_Endianness \<Rightarrow> (klass_ref \<Rightarrow> HT_EventKlass) \<Rightarrow> ht_struct \<Rightarrow> nat \<Rightarrow> byte option list \<Rightarrow>
     (nat \<times> byte option list) option"
  and serialize_fields ::
    "HT_Endianness \<Rightarrow> (klass_ref \<Rightarrow> HT_EventKlass) \<Rightarrow> field_value list \<Rightarrow> nat \<Rightarrow> nat \<Rightarrow> byte option list \<Rightarrow>
     (nat \<times> byte option list) option" where
  "serialize e kl (HT_Event k t i) pos buf =
     do { buf \<leftarrow> buffer_write pos (int_bytes e 4 (unat (klass_id (kl k)))) buf;
          buf \<leftarrow> buffer_write (pos + 4) (int_bytes e 8 (unat t)) buf;
          buf \<leftarrow> buffer_write (pos + 12) (int_bytes e 8 (unat i)) buf;
          Some (20, buf) }"
| "serialize e kl (Derived b fs) pos buf =
     do { (n, buf) \<leftarrow> serialize e kl b pos buf; serialize_fields e kl fs pos n buf }"
| "serialize_fields e kl [] pos n buf = Some (n, buf)"
| "serialize_fields e kl (f # fs) pos n buf =
     (case f of
        Struct s \<Rightarrow> do { (k, buf) \<leftarrow> serialize e kl s pos buf; serialize_fields e kl fs pos (n + k) buf }
      | v \<Rightarrow> do { buf \<leftarrow> buffer_write (pos + n) (value_bytes e v) buf;
                serialize_fields e kl fs pos (n + length (value_bytes e v)) buf })"

text \<open>
  \<^verbatim>\<open>ht_event_utils_serialize_event_to_buffer\<close>: without serialization the object itself is
  copied; its bytes are the platform's, the argument \<open>repr\<close>.
\<close>

definition ht_event_utils_serialize_event_to_buffer ::
  "HT_Endianness \<Rightarrow> (ht_struct \<Rightarrow> byte list) \<Rightarrow> (klass_ref \<Rightarrow> HT_EventKlass) \<Rightarrow> ht_struct \<Rightarrow> nat \<Rightarrow>
   byte option list \<Rightarrow> bool \<Rightarrow> (nat \<times> byte option list) option" where
  "ht_event_utils_serialize_event_to_buffer e repr kl ev pos buf ser =
     (if ser then serialize e kl ev pos buf
      else do { ti \<leftarrow> type_info (kl (event_klass ev));
                buf \<leftarrow> buffer_write pos (take (ti_size ti) (repr ev)) buf;
                Some (ti_size ti, buf) })"

section \<open>The bytes of an event\<close>

fun event_bytes :: "HT_Endianness \<Rightarrow> (klass_ref \<Rightarrow> HT_EventKlass) \<Rightarrow> ht_struct \<Rightarrow> byte list" where
  "event_bytes e kl (HT_Event k t i) =
     int_bytes e 4 (unat (klass_id (kl k))) @ int_bytes e 8 (unat t) @ int_bytes e 8 (unat i)"
| "event_bytes e kl (Derived b fs) = event_bytes e kl b @ concat (map (value_bytes e) fs)"

text \<open>Events whose only structure member is the base, as all event classes of the library are.\<close>

fun is_struct :: "field_value \<Rightarrow> bool" where
  "is_struct (Struct s) = True"
| "is_struct v = False"

fun plain_event :: "ht_struct \<Rightarrow> bool" where
  "plain_event (HT_Event k t i) = True"
| "plain_event (Derived b fs) = (plain_event b \<and> (\<forall>f\<in>set fs. \<not> is_struct f))"

lemma length_value_bytes: "\<not> is_struct v \<Longrightarrow> length (value_bytes e v) = field_get_size v"
  by (cases v) (simp_all add: value_bytes_def split: option.splits)

lemma length_event_bytes: "plain_event ev \<Longrightarrow> length (event_bytes e kl ev) = get_size ev"
proof (induction ev rule: plain_event.induct)
  case (2 b fs)
  then have "map (length \<circ> value_bytes e) fs = map field_get_size fs"
    by (simp add: length_value_bytes)
  with 2 show ?case by (simp only: event_bytes.simps get_size.simps length_append length_concat map_map) simp
qed simp

lemma buffer_write_twice:
  assumes "off + length bs + length cs \<le> length buf"
  shows "buffer_write (off + length bs) cs (write_cells off bs buf) = Some (write_cells off (bs @ cs) buf)"
proof -
  have "write_cells (off + length bs) cs (write_cells off bs buf) = write_cells off (bs @ cs) buf"
    using assms by (simp add: write_cells_def ac_simps)
  with assms show ?thesis by (simp add: buffer_write_def)
qed

lemma serialize_fields_ok:
  assumes "\<forall>f\<in>set fs. \<not> is_struct f"
    and "pos + length bs + length (concat (map (value_bytes e) fs)) \<le> length buf"
  shows "serialize_fields e kl fs pos (length bs) (write_cells pos bs buf) =
    Some (length (bs @ concat (map (value_bytes e) fs)),
          write_cells pos (bs @ concat (map (value_bytes e) fs)) buf)"
  using assms
proof (induction fs arbitrary: bs)
  case (Cons f fs)
  let ?v = "value_bytes e f"
  have step: "serialize_fields e kl (f # fs) pos (length bs) (write_cells pos bs buf) =
      do { buf \<leftarrow> buffer_write (pos + length bs) ?v (write_cells pos bs buf);
           serialize_fields e kl fs pos (length bs + length ?v) buf }"
    using Cons.prems(1) by (cases f) simp_all
  have "buffer_write (pos + length bs) ?v (write_cells pos bs buf) = Some (write_cells pos (bs @ ?v) buf)"
    using Cons.prems(2) by (intro buffer_write_twice) simp
  with step Cons.IH [of "bs @ ?v"] Cons.prems show ?case by simp
qed simp

lemma serialize_ok:
  assumes "plain_event ev" and "pos + get_size ev \<le> length buf"
  shows "serialize e kl ev pos buf = Some (get_size ev, write_cells pos (event_bytes e kl ev) buf)"
  using assms
proof (induction ev arbitrary: buf rule: plain_event.induct)
  case (1 k t i)
  let ?a = "int_bytes e 4 (unat (klass_id (kl k)))" and ?b = "int_bytes e 8 (unat t)"
    and ?c = "int_bytes e 8 (unat i)"
  have w1: "buffer_write pos ?a buf = Some (write_cells pos ?a buf)"
    using 1 by (simp add: buffer_write_def)
  have w2: "buffer_write (pos + 4) ?b (write_cells pos ?a buf) = Some (write_cells pos (?a @ ?b) buf)"
    using 1 buffer_write_twice [of pos ?a ?b buf] by simp
  have w3: "buffer_write (pos + 12) ?c (write_cells pos (?a @ ?b) buf) =
      Some (write_cells pos ((?a @ ?b) @ ?c) buf)"
    using 1 buffer_write_twice [of pos "?a @ ?b" ?c buf] by simp
  show ?case using w1 w2 w3 by simp
next
  case (2 b fs)
  have len: "length (event_bytes e kl b) = get_size b" using 2 by (simp add: length_event_bytes)
  have sum: "length (concat (map (value_bytes e) fs)) = sum_list (map field_get_size fs)"
    using 2 length_event_bytes [of "Derived b fs" e kl] len by simp
  have "serialize e kl b pos buf = Some (get_size b, write_cells pos (event_bytes e kl b) buf)"
    using 2 by simp
  with serialize_fields_ok [of fs pos "event_bytes e kl b" e buf kl] 2 len sum show ?case by simp
qed





text \<open>A buffer that is too small is overrun, which is undefined.\<close>

lemma serialize_fields_overflow:
  assumes "\<forall>f\<in>set fs. \<not> is_struct f" and "pos + n \<le> length buf"
    and "length buf < pos + n + length (concat (map (value_bytes e) fs))"
  shows "serialize_fields e kl fs pos n buf = None"
  using assms
proof (induction fs arbitrary: n buf)
  case (Cons f fs)
  let ?v = "value_bytes e f"
  have step: "serialize_fields e kl (f # fs) pos n buf =
      do { buf \<leftarrow> buffer_write (pos + n) ?v buf; serialize_fields e kl fs pos (n + length ?v) buf }"
    using Cons.prems(1) by (cases f) simp_all
  show ?case
  proof (cases "pos + n + length ?v \<le> length buf")
    case False
    then show ?thesis using step by (simp add: buffer_write_def)
  next
    case True
    then have "length (write_cells (pos + n) ?v buf) = length buf" by simp
    then have "serialize_fields e kl fs pos (n + length ?v) (write_cells (pos + n) ?v buf) = None"
      using Cons.IH [of "n + length ?v" "write_cells (pos + n) ?v buf"] Cons.prems True by simp
    with step True show ?thesis by (simp add: buffer_write_def)
  qed
qed simp

lemma serialize_overflow:
  assumes "plain_event ev" and "length buf < pos + get_size ev"
  shows "serialize e kl ev pos buf = None"
  using assms
proof (induction ev arbitrary: buf rule: plain_event.induct)
  case (1 k t i)
  then show ?case by (auto simp: buffer_write_def bind_eq_None_conv split: if_splits)
next
  case (2 b fs)
  show ?case
  proof (cases "pos + get_size b \<le> length buf")
    case False
    then show ?thesis using 2 by simp
  next
    case True
    have len: "length (event_bytes e kl b) = get_size b" using 2 by (simp add: length_event_bytes)
    have sum: "length (concat (map (value_bytes e) fs)) = sum_list (map field_get_size fs)"
      using 2 length_event_bytes [of "Derived b fs" e kl] len by simp
    have "serialize e kl b pos buf = Some (get_size b, write_cells pos (event_bytes e kl b) buf)"
      using serialize_ok [of b pos buf e kl] 2 True by simp
    moreover have "serialize_fields e kl fs pos (get_size b) (write_cells pos (event_bytes e kl b) buf) = None"
      using 2 True len sum by (intro serialize_fields_overflow) simp_all
    ultimately show ?thesis by simp
  qed
qed

section \<open>Properties\<close>

text \<open>
  C12. Serializing an event whose only structure member is its base, as in all event classes of the library, into a buffer that has \<^verbatim>\<open>get_size\<close> bytes of room left writes exactly
  \<^verbatim>\<open>get_size\<close> bytes, the bytes of the class identifier, the timestamp, the identifier and the
  fields in order, and leaves every other cell of the buffer alone. The function returns the
  number of bytes. It never writes beyond the announced size.
\<close>

theorem serialize_writes_get_size_bytes:
  assumes "plain_event ev" and "pos + get_size ev \<le> length buf"
  shows "serialize e kl ev pos buf =
           Some (get_size ev, take pos buf @ map Some (event_bytes e kl ev) @ drop (pos + get_size ev) buf) \<and>
         length (event_bytes e kl ev) = get_size ev"
  using serialize_ok [OF assms] length_event_bytes [OF assms(1)] by (simp add: write_cells_def)

definition demo_klasses :: "klass_ref \<Rightarrow> HT_EventKlass" where
  "demo_klasses k = \<lparr>type_info = None, klass_id = (if k = ''HT_CallstackStringEvent'' then 6 else 0)\<rparr>"

definition demo_event :: ht_struct where
  "demo_event =
     Derived (Derived (HT_Event ''HT_CallstackStringEvent'' 258 3) [Integer 8 5, Integer 4 1])
       [String (Some ''ab'')]"

theorem serialize_writes_get_size_bytes_witness:
  "serialize HT_ENDIANNESS_LITTLE demo_klasses demo_event 1 (replicate 40 None) =
     Some (35, None # map Some [6, 0, 0, 0,  2, 1, 0, 0, 0, 0, 0, 0,  3, 0, 0, 0, 0, 0, 0, 0,
                                5, 0, 0, 0, 0, 0, 0, 0,  1, 0, 0, 0,  97, 98, 0] @ replicate 4 None)"
proof -
  have plain: "plain_event demo_event" and size: "get_size demo_event = 35"
    by (simp_all add: demo_event_def strlen_def)
  have "1 + get_size demo_event \<le> length (replicate 40 (None :: byte option))" by (simp add: size)
  note r = serialize_writes_get_size_bytes [OF plain this, of HT_ENDIANNESS_LITTLE demo_klasses]
  have bytes: "event_bytes HT_ENDIANNESS_LITTLE demo_klasses demo_event =
      [6, 0, 0, 0,  2, 1, 0, 0, 0, 0, 0, 0,  3, 0, 0, 0, 0, 0, 0, 0,
       5, 0, 0, 0, 0, 0, 0, 0,  1, 0, 0, 0,  97, 98, 0]"
    by (simp add: demo_event_def demo_klasses_def int_bytes_def le_bytes_def value_bytes_def
        string_bytes_def byte_of_char_def upt_rec)
  then show ?thesis using r by (simp add: size)
qed



end
