(* ===== verification/Hash_Map.thy ===== *)
theory Hash_Map
  imports Bag
begin

text \<open>
  \<^verbatim>\<open>lib/include/internal/hash.h\<close>, \<^verbatim>\<open>lib/include/internal/hash_map.h\<close> and \<^verbatim>\<open>lib/hash_map.c\<close>:
  the hash of a label and the table of 512 buckets from hashes to labels. A bucket is a bag of
  keys and a bag of values of the same length.

  The type \<open>'v\<close> is the type of the non-null pointers the table stores; where the code returns
  a null pointer the model returns \<^term>\<open>None\<close>.
\<close>

unbundle bit_operations_syntax

section \<open>The hash of a string\<close>

text \<open>
  \<^verbatim>\<open>djb2_hash\<close> on the bytes before the terminating zero. \<^verbatim>\<open>char\<close> is signed on the platforms of
  the model, so the conversion to \<^verbatim>\<open>unsigned int\<close> extends the sign.
\<close>

fun djb2_loop :: "u32 \<Rightarrow> byte list \<Rightarrow> u32" where
  "djb2_loop hash [] = hash"
| "djb2_loop hash (c # str) =
     (if c = 0 then hash else djb2_loop ((push_bit 5 hash + hash) + scast c) str)"

definition djb2_hash :: "byte list \<Rightarrow> u32" where
  "djb2_hash str = djb2_loop 5381 str"

section \<open>Buckets\<close>

record 'v hash_bucket =
  key_bag :: "u64 bag"
  value_bag :: "'v bag"

definition sizeof_uint64 :: nat where
  "sizeof_uint64 = 8"

definition ht_hash_bucket_init ::
  "'v hash_bucket \<Rightarrow> mem \<Rightarrow> (HT_ErrorCode \<times> 'v hash_bucket \<times> mem) option" where
  "ht_hash_bucket_init bucket m =
     do { (err, vb, m) \<leftarrow> ht_bag_init sizeof_void_ptr (value_bag bucket) 4 m;
          let bucket = bucket\<lparr>value_bag := vb\<rparr>;
          if err \<noteq> HT_ERR_OK then Some (err, bucket, m)
          else do {
            (err, kb, m) \<leftarrow> ht_bag_init sizeof_uint64 (key_bag bucket) 4 m;
            let bucket = bucket\<lparr>key_bag := kb\<rparr>;
            if err \<noteq> HT_ERR_OK
            then do { (vb, m) \<leftarrow> ht_bag_deinit (value_bag bucket) m;
                      Some (err, bucket\<lparr>value_bag := vb\<rparr>, m) }
            else Some (err, bucket, m) } }"

definition ht_hash_bucket_deinit :: "'v hash_bucket \<Rightarrow> mem \<Rightarrow> ('v hash_bucket \<times> mem) option" where
  "ht_hash_bucket_deinit bucket m =
     do { (vb, m) \<leftarrow> ht_bag_deinit (value_bag bucket) m;
          (kb, m) \<leftarrow> ht_bag_deinit (key_bag bucket) m;
          Some (bucket\<lparr>value_bag := vb, key_bag := kb\<rparr>, m) }"

text \<open>The index of the key, if the bucket has it; the loop starts at \<open>i\<close>.\<close>

function bucket_find_from :: "'v hash_bucket \<Rightarrow> u64 \<Rightarrow> nat \<Rightarrow> mem \<Rightarrow> nat option option" where
  "bucket_find_from bucket key i m =
     (if i < bag_size (key_bag bucket)
      then do { k \<leftarrow> ht_bag_nth (key_bag bucket) i m;
                if k = key then Some (Some i) else bucket_find_from bucket key (i + 1) m }
      else Some None)"
  by pat_completeness auto
termination
  by (relation "measure (\<lambda>(bucket, key, i, m). bag_size (key_bag bucket) - i)") auto

declare bucket_find_from.simps [simp del]

definition ht_hash_bucket_find_value :: "'v hash_bucket \<Rightarrow> u64 \<Rightarrow> mem \<Rightarrow> nat option option" where
  "ht_hash_bucket_find_value bucket key m = bucket_find_from bucket key 0 m"

text \<open>
  The callback gets the key, the value and the user data, and may change the memory; the loop
  stops when it returns false.
\<close>

type_synonym ('v, 'u) map_callback = "u64 \<Rightarrow> 'v \<Rightarrow> 'u \<Rightarrow> mem \<Rightarrow> (bool \<times> 'u \<times> mem) option"

function bucket_each_from ::
  "'v hash_bucket \<Rightarrow> ('v, 'u) map_callback \<Rightarrow> nat \<Rightarrow> 'u \<Rightarrow> mem \<Rightarrow> (bool \<times> 'u \<times> mem) option" where
  "bucket_each_from bucket callback i ud m =
     (if i < bag_size (key_bag bucket)
      then do { k \<leftarrow> ht_bag_nth (key_bag bucket) i m;
                v \<leftarrow> ht_bag_nth (value_bag bucket) i m;
                (go_on, ud, m) \<leftarrow> callback k v ud m;
                if \<not> go_on then Some (False, ud, m)
                else bucket_each_from bucket callback (i + 1) ud m }
      else Some (True, ud, m))"
  by pat_completeness auto
termination
  by (relation "measure (\<lambda>(bucket, callback, i, ud, m). bag_size (key_bag bucket) - i)") auto

declare bucket_each_from.simps [simp del]

definition ht_hash_bucket_for_each ::
  "'v hash_bucket \<Rightarrow> ('v, 'u) map_callback \<Rightarrow> 'u \<Rightarrow> mem \<Rightarrow> (bool \<times> 'u \<times> mem) option" where
  "ht_hash_bucket_for_each bucket callback ud m = bucket_each_from bucket callback 0 ud m"

section \<open>The table\<close>

type_synonym 'v hash_map = "'v hash_bucket list"

definition BUCKET_COUNT :: nat where
  "BUCKET_COUNT = 512"

definition bucket_of :: "u64 \<Rightarrow> nat" where
  "bucket_of key = unat key mod BUCKET_COUNT"

text \<open>The loop of \<^verbatim>\<open>ht_hash_map_deinit\<close> and of the clean-up: the buckets from \<open>j\<close> to \<open>n\<close>.\<close>

function deinit_buckets :: "nat \<Rightarrow> nat \<Rightarrow> 'v hash_map \<Rightarrow> mem \<Rightarrow> ('v hash_map \<times> mem) option" where
  "deinit_buckets j n h m =
     (if j < n
      then do { (b, m) \<leftarrow> ht_hash_bucket_deinit (h ! j) m; deinit_buckets (j + 1) n (h[j := b]) m }
      else Some (h, m))"
  by pat_completeness auto
termination
  by (relation "measure (\<lambda>(j, n, h, m). n - j)") auto

declare deinit_buckets.simps [simp del]

function init_buckets ::
  "nat \<Rightarrow> 'v hash_map \<Rightarrow> mem \<Rightarrow> (HT_ErrorCode \<times> nat \<times> 'v hash_map \<times> mem) option" where
  "init_buckets i h m =
     (if i < BUCKET_COUNT
      then do { (err, b, m) \<leftarrow> ht_hash_bucket_init (h ! i) m;
                if err \<noteq> HT_ERR_OK then Some (err, i, h[i := b], m)
                else init_buckets (i + 1) (h[i := b]) m }
      else Some (HT_ERR_OK, i, h, m))"
  by pat_completeness auto
termination
  by (relation "measure (\<lambda>(i, h, m). BUCKET_COUNT - i)") auto

declare init_buckets.simps [simp del]

definition ht_hash_map_init ::
  "'v hash_map \<Rightarrow> mem \<Rightarrow> (HT_ErrorCode \<times> 'v hash_map \<times> mem) option" where
  "ht_hash_map_init h m =
     do { (err, i, h, m) \<leftarrow> init_buckets 0 h m;
          if err \<noteq> HT_ERR_OK then do { (h, m) \<leftarrow> deinit_buckets 0 i h m; Some (err, h, m) }
          else Some (err, h, m) }"

definition ht_hash_map_deinit :: "'v hash_map \<Rightarrow> mem \<Rightarrow> ('v hash_map \<times> mem) option" where
  "ht_hash_map_deinit h m = deinit_buckets 0 BUCKET_COUNT h m"

text \<open>
  \<^verbatim>\<open>ht_hash_map_insert\<close> works on the bucket of the key, through a pointer to it:
  \<open>bucket_insert\<close> is its body, with the bucket as its state.
\<close>

definition bucket_insert ::
  "'v hash_bucket \<Rightarrow> u64 \<Rightarrow> 'v \<Rightarrow> mem \<Rightarrow> ('v option \<times> HT_ErrorCode \<times> 'v hash_bucket \<times> mem) option" where
  "bucket_insert bucket key v m =
     do { found \<leftarrow> ht_hash_bucket_find_value bucket key m;
          case found of
            Some index \<Rightarrow> do {
              prev \<leftarrow> ht_bag_nth (value_bag bucket) index m;
              vb \<leftarrow> ht_bag_set (value_bag bucket) index v m;
              Some (Some prev, HT_ERR_OK, bucket\<lparr>value_bag := vb\<rparr>, m) }
          | None \<Rightarrow> do {
              (err, kb, m) \<leftarrow> ht_bag_add sizeof_uint64 (key_bag bucket) key m;
              let bucket = bucket\<lparr>key_bag := kb\<rparr>;
              if err \<noteq> HT_ERR_OK then Some (None, err, bucket, m)
              else do {
                (err, vb, m) \<leftarrow> ht_bag_add sizeof_void_ptr (value_bag bucket) v m;
                let bucket = bucket\<lparr>value_bag := vb\<rparr>;
                if err \<noteq> HT_ERR_OK
                then do {
                  (kb, m) \<leftarrow> ht_bag_remove_nth sizeof_uint64 (key_bag bucket)
                               (bag_size (key_bag bucket)) m;
                  Some (None, err, bucket\<lparr>key_bag := kb\<rparr>, m) }
                else Some (None, err, bucket, m) } } }"

definition ht_hash_map_insert ::
  "'v hash_map \<Rightarrow> u64 \<Rightarrow> 'v \<Rightarrow> mem \<Rightarrow> ('v option \<times> HT_ErrorCode \<times> 'v hash_map \<times> mem) option" where
  "ht_hash_map_insert h key v m =
     do { (ret, err, bucket, m) \<leftarrow> bucket_insert (h ! bucket_of key) key v m;
          Some (ret, err, h[bucket_of key := bucket], m) }"

definition ht_hash_map_get_value :: "'v hash_map \<Rightarrow> u64 \<Rightarrow> mem \<Rightarrow> 'v option option" where
  "ht_hash_map_get_value h key m =
     do { let bucket = h ! bucket_of key;
          found \<leftarrow> ht_hash_bucket_find_value bucket key m;
          case found of
            Some index \<Rightarrow> do { v \<leftarrow> ht_bag_nth (value_bag bucket) index m; Some (Some v) }
          | None \<Rightarrow> Some None }"

fun ht_hash_map_for_each ::
  "'v hash_map \<Rightarrow> ('v, 'u) map_callback \<Rightarrow> 'u \<Rightarrow> mem \<Rightarrow> ('u \<times> mem) option" where
  "ht_hash_map_for_each [] callback ud m = Some (ud, m)"
| "ht_hash_map_for_each (bucket # buckets) callback ud m =
     do { (go_on, ud, m) \<leftarrow> ht_hash_bucket_for_each bucket callback ud m;
          if go_on then ht_hash_map_for_each buckets callback ud m else Some (ud, m) }"

section \<open>Invariants\<close>

definition bucket_keys :: "'v hash_bucket \<Rightarrow> u64 list" where
  "bucket_keys b = bag_list (key_bag b)"

definition bucket_entries :: "'v hash_bucket \<Rightarrow> (u64 \<times> 'v) list" where
  "bucket_entries b = zip (bucket_keys b) (bag_list (value_bag b))"

definition bucket_blocks :: "'v hash_bucket \<Rightarrow> addr set" where
  "bucket_blocks b = {bag_block (value_bag b), bag_block (key_bag b)}"

text \<open>
  The two bags of a bucket have the same length and the keys are different. The bag of keys
  never has less room than the bag of values: a refused growth of the values leaves the keys
  with the larger capacity. This is what keeps the roll-back of an insertion inside the block.
\<close>

definition bucket_inv :: "'v hash_bucket \<Rightarrow> mem \<Rightarrow> bool" where
  "bucket_inv b m \<longleftrightarrow>
     bag_inv sizeof_uint64 (key_bag b) m \<and> bag_inv sizeof_void_ptr (value_bag b) m \<and>
     bag_block (value_bag b) \<noteq> bag_block (key_bag b) \<and>
     bag_size (key_bag b) = bag_size (value_bag b) \<and> distinct (bucket_keys b) \<and>
     bag_capacity (value_bag b) \<le> bag_capacity (key_bag b) \<and> 4 \<le> bag_capacity (value_bag b) \<and>
     bag_min_capacity (key_bag b) = 4 \<and> bag_min_capacity (value_bag b) = 4"

definition hash_map_inv :: "'v hash_map \<Rightarrow> mem \<Rightarrow> bool" where
  "hash_map_inv h m \<longleftrightarrow>
     length h = BUCKET_COUNT \<and>
     (\<forall>i<length h. bucket_inv (h ! i) m \<and> (\<forall>k\<in>set (bucket_keys (h ! i)). bucket_of k = i)) \<and>
     (\<forall>i<length h. \<forall>j<length h. i \<noteq> j \<longrightarrow> bucket_blocks (h ! i) \<inter> bucket_blocks (h ! j) = {})"

definition hash_map_blocks :: "'v hash_map \<Rightarrow> addr set" where
  "hash_map_blocks h = (\<Union>b\<in>set h. bucket_blocks b)"

definition hash_map_entries :: "'v hash_map \<Rightarrow> (u64 \<times> 'v) list" where
  "hash_map_entries h = concat (map bucket_entries h)"

text \<open>The finite map a table stands for.\<close>

definition hash_map_of :: "'v hash_map \<Rightarrow> u64 \<rightharpoonup> 'v" where
  "hash_map_of h k = map_of (bucket_entries (h ! bucket_of k)) k"

lemma bucket_of_less [simp]: "bucket_of k < BUCKET_COUNT"
  by (simp add: bucket_of_def BUCKET_COUNT_def)

lemma sizeof_ok: "0 < sizeof_uint64" "sizeof_uint64 \<le> sizeof_void_ptr" "0 < sizeof_void_ptr"
  by (simp_all add: sizeof_uint64_def sizeof_void_ptr_def)

lemma length_bucket:
  "bucket_inv b m \<Longrightarrow> length (bucket_keys b) = bag_size (key_bag b)"
  "bucket_inv b m \<Longrightarrow> length (bag_list (value_bag b)) = bag_size (key_bag b)"
  by (auto simp: bucket_inv_def bucket_keys_def dest: length_bag_list)

lemma keys_of_entries: "bucket_inv b m \<Longrightarrow> map fst (bucket_entries b) = bucket_keys b"
  using length_bucket [of b m] by (simp add: bucket_entries_def)

lemma bucket_inv_blocks: "bucket_inv b m \<Longrightarrow> bucket_blocks b \<subseteq> dom (live m)"
  by (auto simp: bucket_inv_def bucket_blocks_def dest: bag_inv_block)

lemma bucket_inv_frame:
  "bucket_inv b m \<Longrightarrow> (\<And>q. q \<in> bucket_blocks b \<Longrightarrow> live m' q = live m q) \<Longrightarrow> bucket_inv b m'"
  by (auto simp: bucket_inv_def bucket_blocks_def intro: bag_inv_frame)

text \<open>One bucket of a table is replaced by another.\<close>

lemma hash_map_update:
  assumes inv: "hash_map_inv h m" and i: "i < length h"
    and b: "bucket_inv b m'" and keys: "\<forall>k\<in>set (bucket_keys b). bucket_of k = i"
    and fp: "footprint (bucket_blocks (h ! i)) m (bucket_blocks b) m'"
  shows "hash_map_inv (h[i := b]) m'"
    and "footprint (hash_map_blocks h) m (hash_map_blocks (h[i := b])) m'"
proof -
  have live: "live m q \<noteq> None" if "j < length h" "q \<in> bucket_blocks (h ! j)" for j q
    using inv that bucket_inv_blocks [of "h ! j" m] by (auto simp: hash_map_inv_def)
  have sep: "q \<notin> bucket_blocks (h ! i)" if "j < length h" "j \<noteq> i" "q \<in> bucket_blocks (h ! j)" for j q
    using inv that i unfolding hash_map_inv_def by blast
  have frame: "live m' q = live m q" "q \<notin> bucket_blocks b"
    if "j < length h" "j \<noteq> i" "q \<in> bucket_blocks (h ! j)" for j q
    using footprint_frame [OF fp, of q] live [OF that(1,3)] sep [OF that] by auto
  have others: "bucket_inv (h ! j) m'" if "j < length h" "j \<noteq> i" for j
  proof (rule bucket_inv_frame)
    show "bucket_inv (h ! j) m" using inv that by (simp add: hash_map_inv_def)
  qed (rule frame(1) [OF that])
  show "hash_map_inv (h[i := b]) m'"
    using inv b keys others frame i unfolding hash_map_inv_def
    by (auto simp: nth_list_update)
  let ?rest = "\<Union>j\<in>{j. j < length h \<and> j \<noteq> i}. bucket_blocks (h ! j)"
  have "footprint (bucket_blocks (h ! i) \<union> ?rest) m (bucket_blocks b \<union> ?rest) m'"
    using live sep by (intro footprint_extend [OF fp]) auto
  moreover have "hash_map_blocks h = bucket_blocks (h ! i) \<union> ?rest"
    using i by (auto simp: hash_map_blocks_def set_conv_nth)
  moreover have "hash_map_blocks (h[i := b]) = bucket_blocks b \<union> ?rest"
    using i by (auto simp: hash_map_blocks_def set_conv_nth nth_list_update split: if_splits)
  ultimately show "footprint (hash_map_blocks h) m (hash_map_blocks (h[i := b])) m'" by simp
qed

section \<open>Looking a key up\<close>

lemma bucket_find_from_ok:
  assumes inv: "bucket_inv b m"
  shows "i \<le> bag_size (key_bag b) \<Longrightarrow> key \<notin> set (take i (bucket_keys b)) \<Longrightarrow>
    (if key \<in> set (bucket_keys b)
     then \<exists>n<length (bucket_keys b). bucket_find_from b key i m = Some (Some n) \<and> bucket_keys b ! n = key
     else bucket_find_from b key i m = Some None)"
proof (induction "bag_size (key_bag b) - i" arbitrary: i)
  case 0
  then have "i = length (bucket_keys b)" using length_bucket [OF inv] by simp
  with 0 have "key \<notin> set (bucket_keys b)" by simp
  with 0 show ?case by (subst bucket_find_from.simps) simp
next
  case (Suc d)
  then have i: "i < bag_size (key_bag b)" "i < length (bucket_keys b)"
    using length_bucket [OF inv] by simp_all
  have nth: "ht_bag_nth (key_bag b) i m = Some (bucket_keys b ! i)"
    using inv i bag_nth_ok [of sizeof_uint64 "key_bag b" m i] by (simp add: bucket_inv_def bucket_keys_def)
  show ?case
  proof (cases "bucket_keys b ! i = key")
    case True
    then have "bucket_find_from b key i m = Some (Some i)"
      using i nth by (subst bucket_find_from.simps) simp
    moreover from True i have "key \<in> set (bucket_keys b)" by auto
    ultimately show ?thesis using i True by auto
  next
    case False
    then have "bucket_find_from b key i m = bucket_find_from b key (Suc i) m"
      using i nth by (subst bucket_find_from.simps) simp
    moreover have "key \<notin> set (take (Suc i) (bucket_keys b))"
      using Suc.prems False i by (simp add: take_Suc_conv_app_nth)
    ultimately show ?thesis using Suc.hyps(1) [of "Suc i"] Suc.hyps(2) i by simp
  qed
qed

lemma bucket_find_cases:
  assumes "bucket_inv b m"
  obtains (found) n where "ht_hash_bucket_find_value b key m = Some (Some n)"
      and "n < bag_size (key_bag b)" and "bucket_keys b ! n = key"
      and "map_of (bucket_entries b) key = Some (bag_list (value_bag b) ! n)"
  | (absent) "ht_hash_bucket_find_value b key m = Some None" and "key \<notin> set (bucket_keys b)"
      and "map_of (bucket_entries b) key = None"
proof (cases "key \<in> set (bucket_keys b)")
  case True
  with bucket_find_from_ok [OF assms, of 0 key] obtain n where n: "n < length (bucket_keys b)"
    "ht_hash_bucket_find_value b key m = Some (Some n)" "bucket_keys b ! n = key"
    by (auto simp: ht_hash_bucket_find_value_def)
  have "map_of (bucket_entries b) key = Some (bag_list (value_bag b) ! n)"
    using n length_bucket [OF assms] assms
      map_of_zip_nth [of "bucket_keys b" "bag_list (value_bag b)" n]
    unfolding bucket_entries_def bucket_inv_def by metis
  with n length_bucket [OF assms] show ?thesis by (intro found) auto
next
  case False
  with bucket_find_from_ok [OF assms, of 0 key]
  have "ht_hash_bucket_find_value b key m = Some None"
    by (simp add: ht_hash_bucket_find_value_def)
  moreover from False have "map_of (bucket_entries b) key = None"
    using keys_of_entries [OF assms] by (simp add: map_of_eq_None_iff flip: set_map)
  ultimately show ?thesis using False by (intro absent)
qed

lemma hash_map_get_ok:
  assumes inv: "hash_map_inv h m"
  shows "ht_hash_map_get_value h key m = Some (hash_map_of h key)"
proof -
  let ?b = "h ! bucket_of key"
  from inv have b: "bucket_inv ?b m" by (simp add: hash_map_inv_def)
  then have vb: "bag_inv sizeof_void_ptr (value_bag ?b) m"
    "bag_size (key_bag ?b) = bag_size (value_bag ?b)"
    by (simp_all add: bucket_inv_def)
  show ?thesis
  proof (cases rule: bucket_find_cases [OF b, of key])
    case (1 n)
    with vb bag_nth_ok [OF vb(1), of n] show ?thesis
      by (simp add: ht_hash_map_get_value_def hash_map_of_def)
  next
    case 2
    then show ?thesis by (simp add: ht_hash_map_get_value_def hash_map_of_def)
  qed
qed

section \<open>Insertion\<close>

text \<open>What an insertion promises of the bucket.\<close>

definition insert_post ::
  "'v hash_bucket \<Rightarrow> u64 \<Rightarrow> 'v \<Rightarrow> mem \<Rightarrow> 'v option \<Rightarrow> HT_ErrorCode \<Rightarrow> 'v hash_bucket \<Rightarrow> mem \<Rightarrow> bool" where
  "insert_post b key v m ret err b' m' \<longleftrightarrow>
     alloc_wf m' \<and> bucket_inv b' m' \<and> footprint (bucket_blocks b) m (bucket_blocks b') m' \<and>
     set (bucket_keys b') \<subseteq> insert key (set (bucket_keys b)) \<and>
     (if err = HT_ERR_OK
      then ret = map_of (bucket_entries b) key \<and>
           map_of (bucket_entries b') = (map_of (bucket_entries b))(key \<mapsto> v)
      else err = HT_ERR_OUT_OF_MEMORY \<and> ret = None \<and> bucket_entries b' = bucket_entries b)"

lemma bucket_insert_replace:
  assumes b: "bucket_inv b m" and wf: "alloc_wf m"
    and found: "ht_hash_bucket_find_value b key m = Some (Some n)" "n < bag_size (key_bag b)"
      "bucket_keys b ! n = key" "map_of (bucket_entries b) key = Some (bag_list (value_bag b) ! n)"
  shows "\<exists>ret err b' m'. bucket_insert b key v m = Some (ret, err, b', m') \<and>
           insert_post b key v m ret err b' m'"
proof -
  let ?vs = "bag_list (value_bag b)"
  from b have vb: "bag_inv sizeof_void_ptr (value_bag b) m"
    and sz: "bag_size (key_bag b) = bag_size (value_bag b)" and d: "distinct (bucket_keys b)"
    by (simp_all add: bucket_inv_def)
  from found sz have n: "n < bag_size (value_bag b)" by simp
  let ?vb = "(value_bag b)\<lparr>bag_cells := (bag_cells (value_bag b))[n := Some v]\<rparr>"
  let ?b = "b\<lparr>value_bag := ?vb\<rparr>"
  from bag_set_ok [OF vb n, of v] have set: "ht_bag_set (value_bag b) n v m = Some ?vb"
    "bag_inv sizeof_void_ptr ?vb m" "bag_list ?vb = ?vs[n := v]" "bag_block ?vb = bag_block (value_bag b)"
    by (auto simp: ht_bag_set_def split: if_splits)
  have run: "bucket_insert b key v m = Some (Some (?vs ! n), HT_ERR_OK, ?b, m)"
    using found(1) set(1) bag_nth_ok [OF vb n]
    by (simp add: bucket_insert_def)
  have len: "length (bucket_keys b) = length ?vs" using length_bucket [OF b] by simp
  have "map_of (bucket_entries ?b) = (map_of (bucket_entries b))(key \<mapsto> v)"
    using map_of_zip_update [OF len d, of n v] found(2,3) set(3) length_bucket [OF b]
    by (simp add: bucket_entries_def bucket_keys_def)
  moreover have "bucket_inv ?b m"
    using b set by (simp add: bucket_inv_def bucket_keys_def)
  moreover have "footprint (bucket_blocks b) m (bucket_blocks ?b) m"
    using bucket_inv_blocks [OF b] set(4) by (simp add: footprint_same bucket_blocks_def)
  ultimately have "insert_post b key v m (Some (?vs ! n)) HT_ERR_OK ?b m"
    using wf found(4) by (simp add: insert_post_def bucket_keys_def subset_insertI)
  with run show ?thesis by blast
qed

lemma bucket_block_pair: "bucket_blocks b = {bag_block (key_bag b)} \<union> {bag_block (value_bag b)}"
  by (auto simp: bucket_blocks_def)

text \<open>The state between the two additions: the bag of keys has the new key already.\<close>

definition key_added :: "'v hash_bucket \<Rightarrow> u64 \<Rightarrow> mem \<Rightarrow> u64 bag \<Rightarrow> mem \<Rightarrow> bool" where
  "key_added b key m k1 m1 \<longleftrightarrow>
     alloc_wf m1 \<and> bag_inv sizeof_uint64 k1 m1 \<and> bag_list k1 = bucket_keys b @ [key] \<and>
     bag_min_capacity k1 = 4 \<and> bag_block (value_bag b) \<noteq> bag_block k1 \<and>
     bag_inv sizeof_void_ptr (value_bag b) m1 \<and>
     bag_capacity (value_bag b) \<le> bag_capacity k1 \<and>
     (bag_capacity (value_bag b) = bag_size (value_bag b) \<longrightarrow>
        2 * bag_capacity (value_bag b) \<le> bag_capacity k1) \<and>
     footprint (bucket_blocks b) m ({bag_block k1} \<union> {bag_block (value_bag b)}) m1"

lemma bucket_insert_key:
  assumes b: "bucket_inv b m"
    and add: "bag_inv sizeof_uint64 k1 m1" "alloc_wf m1" "bag_list k1 = bag_list (key_bag b) @ [key]"
      "bag_min_capacity k1 = bag_min_capacity (key_bag b)"
      "moved (bag_block (key_bag b)) m (bag_block k1) m1"
      "bag_capacity k1 = (if bag_capacity (key_bag b) = bag_size (key_bag b)
                          then bag_capacity (key_bag b) * 2 else bag_capacity (key_bag b))"
  shows "key_added b key m k1 m1"
proof -
  let ?k = "key_bag b" and ?v = "value_bag b"
  from b have kb: "bag_inv sizeof_uint64 ?k m" and vb: "bag_inv sizeof_void_ptr ?v m"
    and ne: "bag_block ?v \<noteq> bag_block ?k" and sz: "bag_size ?k = bag_size ?v"
    and cap: "bag_capacity ?v \<le> bag_capacity ?k" and min: "bag_min_capacity ?k = 4" "bag_min_capacity ?v = 4"
    by (simp_all add: bucket_inv_def)
  from kb vb have lv: "live m (bag_block ?k) \<noteq> None" "live m (bag_block ?v) \<noteq> None"
    by (simp_all add: bag_inv_block)
  have vb1: "bag_inv sizeof_void_ptr ?v m1" and ne1: "bag_block ?v \<noteq> bag_block k1"
    using ptr_bag.other_invar [OF vb add(5) ne] by auto
  have "footprint (bucket_blocks b) m ({bag_block k1} \<union> {bag_block ?v}) m1"
    unfolding bucket_block_pair using lv ne
    by (intro footprint_extend [OF moved_footprint [OF add(5)]]) auto
  moreover have "2 * bag_capacity ?v \<le> bag_capacity k1" if full: "bag_capacity ?v = bag_size ?v"
  proof (cases "bag_capacity ?k = bag_size ?k")
    case True
    with full sz add(6) show ?thesis by simp
  next
    case False
    from kb vb obtain i j where pow: "bag_capacity ?k = 4 * 2 ^ j" "bag_capacity ?v = 4 * 2 ^ i"
      by (auto simp: bag_inv_def min)
    with False full sz cap have "4 * 2 ^ i < (4::nat) * 2 ^ j" by simp
    from pow2_multiple_less [OF this] False pow add(6) show ?thesis by simp
  qed
  moreover have "bag_capacity ?v \<le> bag_capacity k1" using cap add(6) by simp
  ultimately show ?thesis
    using add vb1 ne1 min by (simp add: key_added_def bucket_keys_def)
qed

lemma bucket_insert_rollback:
  assumes b: "bucket_inv b m" and k1: "key_added b key m k1 m1"
    and absent: "ht_hash_bucket_find_value b key m = Some None"
    and runs: "ht_bag_add sizeof_uint64 (key_bag b) key m = Some (HT_ERR_OK, k1, m1)"
      "ht_bag_add sizeof_void_ptr (value_bag b) v m1 = Some (HT_ERR_OUT_OF_MEMORY, value_bag b, m2)"
    and m2: "alloc_wf m2" "live m2 = live m1" "bag_capacity (value_bag b) = bag_size (value_bag b)"
  shows "\<exists>b' m'. bucket_insert b key v m = Some (None, HT_ERR_OUT_OF_MEMORY, b', m') \<and>
           insert_post b key v m None HT_ERR_OUT_OF_MEMORY b' m'"
proof -
  let ?k = "key_bag b" and ?v = "value_bag b"
  from b have sz: "bag_size ?k = bag_size ?v" and cap: "4 \<le> bag_capacity ?v"
    by (simp_all add: bucket_inv_def)
  from k1 m2 have kb2: "bag_inv sizeof_uint64 k1 m2" and vb2: "bag_inv sizeof_void_ptr ?v m2"
    and ne1: "bag_block ?v \<noteq> bag_block k1" and cap1: "2 * bag_capacity ?v \<le> bag_capacity k1"
    by (auto simp: key_added_def intro: bag_inv_same_live)
  have sz1: "bag_size k1 = Suc (bag_size ?k)"
    using length_bag_list [OF kb2] k1 length_bucket [OF b] by (simp add: key_added_def)
  with cap1 cap m2(3) sz have le: "bag_size k1 < bag_capacity k1" "0 < bag_size k1" by simp_all
  from bag_remove_ok [OF kb2 m2(1) le] obtain k2 m3 where
    rm: "ht_bag_remove_nth sizeof_uint64 k1 (bag_size k1) m2 = Some (k2, m3)"
    and wf3: "alloc_wf m3" and k2: "bag_inv sizeof_uint64 k2 m3"
    and l2: "bag_list k2 = swap_remove (bag_size k1) (bag_list k1)"
    and min2: "bag_min_capacity k2 = bag_min_capacity k1"
    and mv: "moved (bag_block k1) m2 (bag_block k2) m3"
    and cap2: "bag_capacity k2 = bag_capacity k1 \<or> bag_capacity k2 = bag_capacity k1 div 2"
    by blast
  let ?b = "b\<lparr>key_bag := k2\<rparr>"
  have run: "bucket_insert b key v m = Some (None, HT_ERR_OUT_OF_MEMORY, ?b, m3)"
    using absent runs rm by (simp add: bucket_insert_def)
  have l2': "bag_list k2 = bucket_keys b"
    using l2 k1 sz1 length_bucket [OF b] by (simp add: swap_remove_def key_added_def)
  then have size2: "bag_size k2 = bag_size ?k"
    using length_bag_list [OF k2] length_bucket [OF b] by simp
  have vb3: "bag_inv sizeof_void_ptr ?v m3" and ne3: "bag_block ?v \<noteq> bag_block k2"
    using ptr_bag.other_invar [OF vb2 mv ne1] by auto
  have inv: "bucket_inv ?b m3"
    using b k2 vb3 ne3 l2' size2 min2 cap1 cap2 k1
    by (auto simp: bucket_inv_def bucket_keys_def key_added_def)
  have "footprint ({bag_block k1} \<union> {bag_block ?v}) m2 (bucket_blocks ?b) m3"
    using footprint_extend [OF moved_footprint [OF mv], of "{bag_block ?v}"] ne1 vb2
    by (auto simp: bucket_blocks_def insert_commute dest: bag_inv_block)
  then have "footprint ({bag_block k1} \<union> {bag_block ?v}) m1 (bucket_blocks ?b) m3"
    using m2(2) by (simp add: footprint_def)
  with k1 have "footprint (bucket_blocks b) m (bucket_blocks ?b) m3"
    by (auto simp: key_added_def intro: footprint_trans)
  with inv wf3 l2' have "insert_post b key v m None HT_ERR_OUT_OF_MEMORY ?b m3"
    by (auto simp: insert_post_def bucket_keys_def bucket_entries_def)
  with run show ?thesis by blast
qed

lemma bucket_insert_added:
  assumes b: "bucket_inv b m" and k1: "key_added b key m k1 m1"
    and absent: "ht_hash_bucket_find_value b key m = Some None" "key \<notin> set (bucket_keys b)"
      "map_of (bucket_entries b) key = None"
    and runs: "ht_bag_add sizeof_uint64 (key_bag b) key m = Some (HT_ERR_OK, k1, m1)"
      "ht_bag_add sizeof_void_ptr (value_bag b) v m1 = Some (HT_ERR_OK, v1, m2)"
    and v1: "alloc_wf m2" "bag_inv sizeof_void_ptr v1 m2" "bag_list v1 = bag_list (value_bag b) @ [v]"
      "bag_min_capacity v1 = bag_min_capacity (value_bag b)"
      "moved (bag_block (value_bag b)) m1 (bag_block v1) m2"
      "bag_capacity v1 = (if bag_capacity (value_bag b) = bag_size (value_bag b)
                          then bag_capacity (value_bag b) * 2 else bag_capacity (value_bag b))"
  shows "\<exists>b' m'. bucket_insert b key v m = Some (None, HT_ERR_OK, b', m') \<and>
           insert_post b key v m None HT_ERR_OK b' m'"
proof -
  let ?k = "key_bag b" and ?v = "value_bag b"
  let ?b = "b\<lparr>key_bag := k1, value_bag := v1\<rparr>"
  have run: "bucket_insert b key v m = Some (None, HT_ERR_OK, ?b, m2)"
    using absent(1) runs by (simp add: bucket_insert_def)
  from k1 have kb1: "bag_inv sizeof_uint64 k1 m1" and ne1: "bag_block k1 \<noteq> bag_block ?v"
    and l1: "bag_list k1 = bucket_keys b @ [key]"
    by (auto simp: key_added_def)
  have kb2: "bag_inv sizeof_uint64 k1 m2" and ne2: "bag_block k1 \<noteq> bag_block v1"
    using growing_array.other_invar [OF bag_growing_array kb1 v1(5) ne1] by auto
  have lk1: "live m1 (bag_block k1) \<noteq> None" using kb1 by (simp add: bag_inv_block)
  have len: "length (bucket_keys b) = length (bag_list ?v)" using length_bucket [OF b] by simp
  have "bag_size k1 = bag_size v1"
    using length_bag_list [OF kb2] length_bag_list [OF v1(2)] l1 v1(3) len by simp
  moreover have "bag_capacity v1 \<le> bag_capacity k1" "4 \<le> bag_capacity v1"
    using k1 v1(6) b by (auto simp: key_added_def bucket_inv_def)
  ultimately have "bucket_inv ?b m2"
    using b kb2 v1 ne2 l1 absent(2) k1 by (auto simp: bucket_inv_def bucket_keys_def key_added_def)
  moreover have "footprint ({bag_block k1} \<union> {bag_block ?v}) m1 (bucket_blocks ?b) m2"
    using footprint_extend [OF moved_footprint [OF v1(5)], of "{bag_block k1}"] ne1 lk1
    by (auto simp: bucket_blocks_def insert_commute)
  with k1 have "footprint (bucket_blocks b) m (bucket_blocks ?b) m2"
    by (auto simp: key_added_def intro: footprint_trans)
  moreover have "map_of (bucket_entries ?b) = (map_of (bucket_entries b))(key \<mapsto> v)"
    using map_of_zip_snoc [OF len absent(2), of v] l1 v1(3)
    by (simp add: bucket_entries_def bucket_keys_def)
  ultimately have "insert_post b key v m None HT_ERR_OK ?b m2"
    using v1(1) l1 absent(3) by (auto simp: insert_post_def bucket_keys_def)
  with run show ?thesis by blast
qed

lemma bucket_insert_ok:
  assumes b: "bucket_inv b m" and wf: "alloc_wf m"
  shows "\<exists>ret err b' m'. bucket_insert b key v m = Some (ret, err, b', m') \<and>
           insert_post b key v m ret err b' m'"
proof (cases rule: bucket_find_cases [OF b, of key])
  case (1 n)
  from bucket_insert_replace [OF b wf 1] show ?thesis .
next
  case 2
  from b have kb: "bag_inv sizeof_uint64 (key_bag b) m" by (simp add: bucket_inv_def)
  show ?thesis
  proof (cases rule: bag_add_cases [OF kb wf, of key])
    case (1 m1)
    then have "bucket_insert b key v m = Some (None, HT_ERR_OUT_OF_MEMORY, b, m1)"
      using 2 by (simp add: bucket_insert_def)
    moreover have "bucket_inv b m1" using b 1(3) by (auto intro: bucket_inv_frame)
    moreover have "footprint (bucket_blocks b) m (bucket_blocks b) m1"
      using 1(3) bucket_inv_blocks [OF b] by (rule footprint_same)
    ultimately show ?thesis using 1(2) by (auto simp: insert_post_def)
  next
    case (2 k1 m1)
    have k1: "key_added b key m k1 m1" by (rule bucket_insert_key [OF b 2(3,2,4-7)])
    then have vb: "bag_inv sizeof_void_ptr (value_bag b) m1" by (simp add: key_added_def)
    note absent = \<open>ht_hash_bucket_find_value b key m = Some None\<close> \<open>key \<notin> set (bucket_keys b)\<close>
      \<open>map_of (bucket_entries b) key = None\<close>
    show ?thesis
    proof (cases rule: bag_add_cases [OF vb 2(2), of v])
      case (1 m2)
      from bucket_insert_rollback [OF b k1 absent(1) 2(1) 1(1-4)] show ?thesis by blast
    next
      case v1: (2 v1 m2)
      from bucket_insert_added [OF b k1 absent 2(1) v1] show ?thesis by blast
    qed
  qed
qed

lemma hash_map_insert_ok:
  assumes inv: "hash_map_inv h m" and wf: "alloc_wf m"
  shows "\<exists>ret err h' m'. ht_hash_map_insert h key v m = Some (ret, err, h', m') \<and> alloc_wf m' \<and>
           hash_map_inv h' m' \<and> footprint (hash_map_blocks h) m (hash_map_blocks h') m' \<and>
           (if err = HT_ERR_OK
            then ret = hash_map_of h key \<and> hash_map_of h' = (hash_map_of h)(key \<mapsto> v)
            else err = HT_ERR_OUT_OF_MEMORY \<and> ret = None \<and> hash_map_of h' = hash_map_of h)"
proof -
  let ?n = "bucket_of key"
  from inv have n: "?n < length h" and b: "bucket_inv (h ! ?n) m"
    and keys: "\<forall>k\<in>set (bucket_keys (h ! ?n)). bucket_of k = ?n"
    by (simp_all add: hash_map_inv_def)
  from bucket_insert_ok [OF b wf, of key v] obtain ret err b' m' where
    run: "bucket_insert (h ! ?n) key v m = Some (ret, err, b', m')"
    and post: "insert_post (h ! ?n) key v m ret err b' m'" by blast
  from post have b': "bucket_inv b' m'" "\<forall>k\<in>set (bucket_keys b'). bucket_of k = ?n"
    "footprint (bucket_blocks (h ! ?n)) m (bucket_blocks b') m'"
    using keys by (auto simp: insert_post_def)
  note upd = hash_map_update [OF inv n b']
  have other: "bucket_of k \<noteq> ?n \<Longrightarrow> hash_map_of (h[?n := b']) k = hash_map_of h k" for k
    by (simp add: hash_map_of_def)
  have same: "bucket_of k = ?n \<Longrightarrow> hash_map_of (h[?n := b']) k = map_of (bucket_entries b') k"
    "bucket_of k = ?n \<Longrightarrow> hash_map_of h k = map_of (bucket_entries (h ! ?n)) k" for k
    using n by (simp_all add: hash_map_of_def)
  have "if err = HT_ERR_OK
        then ret = hash_map_of h key \<and> hash_map_of (h[?n := b']) = (hash_map_of h)(key \<mapsto> v)
        else err = HT_ERR_OUT_OF_MEMORY \<and> ret = None \<and> hash_map_of (h[?n := b']) = hash_map_of h"
  proof (cases "err = HT_ERR_OK")
    case True
    with post have e: "map_of (bucket_entries b') = (map_of (bucket_entries (h ! ?n)))(key \<mapsto> v)"
      and r: "ret = map_of (bucket_entries (h ! ?n)) key"
      by (simp_all add: insert_post_def)
    have "hash_map_of (h[?n := b']) k = ((hash_map_of h)(key \<mapsto> v)) k" for k
      using other [of k] same [of k] e by (cases "bucket_of k = ?n") auto
    with True r same(2) [of key] show ?thesis by auto
  next
    case False
    with post have e: "bucket_entries b' = bucket_entries (h ! ?n)"
      and r: "err = HT_ERR_OUT_OF_MEMORY" "ret = None"
      by (simp_all add: insert_post_def)
    have "hash_map_of (h[?n := b']) k = hash_map_of h k" for k
      using other [of k] same [of k] e by (cases "bucket_of k = ?n") auto
    with False r show ?thesis by auto
  qed
  with run upd post show ?thesis by (auto simp: ht_hash_map_insert_def insert_post_def)
qed

section \<open>Iteration\<close>

text \<open>The callback on the entries of a list, until it returns false.\<close>

fun each_while ::
  "('v, 'u) map_callback \<Rightarrow> (u64 \<times> 'v) list \<Rightarrow> 'u \<Rightarrow> mem \<Rightarrow> (bool \<times> 'u \<times> mem) option" where
  "each_while callback [] ud m = Some (True, ud, m)"
| "each_while callback ((k, v) # xs) ud m =
     do { (go_on, ud, m) \<leftarrow> callback k v ud m;
          if \<not> go_on then Some (False, ud, m) else each_while callback xs ud m }"

text \<open>
  A callback that, on these entries, keeps a condition \<open>I\<close> on its own data and the memory, and leaves the
  blocks \<open>A\<close> alone.
\<close>

definition callback_keeps :: "('u \<Rightarrow> mem \<Rightarrow> bool) \<Rightarrow> ('v, 'u) map_callback \<Rightarrow> (u64 \<times> 'v) list \<Rightarrow> addr set \<Rightarrow> bool" where
  "callback_keeps I callback xs A \<longleftrightarrow>
     (\<forall>(k, v)\<in>set xs. \<forall>ud m go_on ud' m'. I ud m \<longrightarrow> callback k v ud m = Some (go_on, ud', m') \<longrightarrow>
        I ud' m' \<and> (\<forall>q\<in>A. live m' q = live m q))"

lemma callback_keepsD:
  assumes "callback_keeps I callback xs A" and "(k, v) \<in> set xs" and "I ud m" and "callback k v ud m = Some (go_on, ud', m')"
  shows "I ud' m'" and "q \<in> A \<Longrightarrow> live m' q = live m q"
  using assms by (fastforce simp: callback_keeps_def)+

lemma callback_keeps_mono:
  "callback_keeps I callback xs A \<Longrightarrow> set ys \<subseteq> set xs \<Longrightarrow> B \<subseteq> A \<Longrightarrow> callback_keeps I callback ys B"
  by (fastforce simp: callback_keeps_def)

lemma each_while_keeps:
  "callback_keeps I callback xs A \<Longrightarrow> I ud m \<Longrightarrow> each_while callback xs ud m = Some (go_on, ud', m') \<Longrightarrow>
     I ud' m' \<and> (\<forall>q\<in>A. live m' q = live m q)"
proof (induction callback xs ud m rule: each_while.induct)
  case (2 callback k v xs ud m)
  from 2(4) obtain g ud1 m1 where cb: "callback k v ud m = Some (g, ud1, m1)"
    by (auto simp: bind_eq_Some_conv)
  have m1: "I ud1 m1" "\<forall>q\<in>A. live m1 q = live m q"
    using callback_keepsD [OF 2(2) _ 2(3) cb] by simp_all
  have "callback_keeps I callback xs A" using 2(2) by (simp add: callback_keeps_def)
  with 2 cb m1 show ?case by (cases g) auto
qed simp

lemma each_while_append:
  "each_while callback (xs @ ys) ud m =
     do { (go_on, ud, m) \<leftarrow> each_while callback xs ud m;
          if \<not> go_on then Some (False, ud, m) else each_while callback ys ud m }"
  by (induction callback xs ud m rule: each_while.induct)
    (auto intro!: Option.bind_cong split: prod.splits)

lemma bucket_each_from_ok:
  assumes "callback_keeps I callback (bucket_entries b) (bucket_blocks b)"
  shows "bucket_inv b m \<Longrightarrow> I ud m \<Longrightarrow> i \<le> bag_size (key_bag b) \<Longrightarrow>
    bucket_each_from b callback i ud m = each_while callback (drop i (bucket_entries b)) ud m"
proof (induction "bag_size (key_bag b) - i" arbitrary: i ud m)
  case 0
  then have "length (bucket_entries b) \<le> i" using length_bucket [OF 0(2)] by (simp add: bucket_entries_def)
  with 0 show ?case by (subst bucket_each_from.simps) simp
next
  case (Suc d)
  then have i: "i < bag_size (key_bag b)" "i < length (bucket_keys b)" "i < bag_size (value_bag b)"
    "i < length (bag_list (value_bag b))"
    using length_bucket [OF Suc(3)] by (simp_all add: bucket_inv_def)
  have k: "ht_bag_nth (key_bag b) i m = Some (bucket_keys b ! i)"
    and v: "ht_bag_nth (value_bag b) i m = Some (bag_list (value_bag b) ! i)"
    using Suc(3) i bag_nth_ok [of _ "key_bag b" m i] bag_nth_ok [of _ "value_bag b" m i]
    by (auto simp: bucket_inv_def bucket_keys_def)
  have drop: "drop i (bucket_entries b) =
      (bucket_keys b ! i, bag_list (value_bag b) ! i) # drop (Suc i) (bucket_entries b)"
    using i by (simp add: bucket_entries_def Cons_nth_drop_Suc [symmetric])
  have mem: "(bucket_keys b ! i, bag_list (value_bag b) ! i) \<in> set (bucket_entries b)"
    using drop by (metis in_set_dropD list.set_intros(1))
  have "bucket_each_from b callback (Suc i) ud' m' = each_while callback (drop (Suc i) (bucket_entries b)) ud' m'"
    if "callback (bucket_keys b ! i) (bag_list (value_bag b) ! i) ud m = Some (True, ud', m')" for ud' m'
  proof (rule Suc.hyps(1))
    note keeps = callback_keepsD [OF assms mem Suc(4) that]
    show "bucket_inv b m'" using keeps(2) Suc(3) by (auto intro: bucket_inv_frame)
    show "I ud' m'" by (rule keeps(1))
  qed (use Suc i in auto)
  then show ?case
    using i k v drop by (subst bucket_each_from.simps) (auto intro!: Option.bind_cong split: prod.splits)
qed

lemma hash_map_each_ok:
  assumes "callback_keeps I callback (hash_map_entries h) (hash_map_blocks h)" and "I ud m"
    and "\<And>b. b \<in> set h \<Longrightarrow> bucket_inv b m"
  shows "ht_hash_map_for_each h callback ud m = map_option snd (each_while callback (hash_map_entries h) ud m)"
  using assms
proof (induction h arbitrary: ud m)
  case (Cons b h)
  have kb: "callback_keeps I callback (bucket_entries b) (bucket_blocks b)"
    and kh: "callback_keeps I callback (hash_map_entries h) (hash_map_blocks h)"
    and kbh: "callback_keeps I callback (bucket_entries b) (hash_map_blocks h)"
    by (rule callback_keeps_mono [OF Cons.prems(1)], auto simp: hash_map_entries_def hash_map_blocks_def)+
  have run: "ht_hash_bucket_for_each b callback ud m = each_while callback (bucket_entries b) ud m"
    using bucket_each_from_ok [OF kb, of m ud 0] Cons.prems(2,3) by (simp add: ht_hash_bucket_for_each_def)
  have "ht_hash_map_for_each h callback ud' m' = map_option snd (each_while callback (hash_map_entries h) ud' m')"
    if "each_while callback (bucket_entries b) ud m = Some (True, ud', m')" for ud' m'
  proof (rule Cons.IH [OF kh])
    note keeps = each_while_keeps [OF kbh Cons.prems(2) that]
    then show "I ud' m'" by simp
    fix c assume c: "c \<in> set h"
    with Cons.prems(3) have "bucket_inv c m" by simp
    then show "bucket_inv c m'"
    proof (rule bucket_inv_frame)
      fix q assume "q \<in> bucket_blocks c"
      with c have "q \<in> hash_map_blocks h" by (auto simp: hash_map_blocks_def)
      with keeps show "live m' q = live m q" by blast
    qed
  qed
  then show ?case
    using run by (auto simp: hash_map_entries_def each_while_append map_option_bind
        intro!: Option.bind_cong split: prod.splits)
qed (simp add: hash_map_entries_def)

text \<open>
  A walk that runs to its end: a condition \<open>J\<close> on the entries that are left, the data of the callback and the memory, that every
  call of the callback takes one entry further.
\<close>

definition callback_runs ::
  "((u64 \<times> 'v) list \<Rightarrow> 'u \<Rightarrow> mem \<Rightarrow> bool) \<Rightarrow> ('v, 'u) map_callback \<Rightarrow> addr set \<Rightarrow> bool" where
  "callback_runs J callback A \<longleftrightarrow>
     (\<forall>k v xs ud m. J ((k, v) # xs) ud m \<longrightarrow>
        (\<exists>ud' m'. callback k v ud m = Some (True, ud', m') \<and> J xs ud' m' \<and> (\<forall>q\<in>A. live m' q = live m q)))"

lemma callback_runsD:
  assumes "callback_runs J callback A" and "J ((k, v) # xs) ud m"
  obtains ud' m' where "callback k v ud m = Some (True, ud', m')" and "J xs ud' m'" and "\<forall>q\<in>A. live m' q = live m q"
  using assms unfolding callback_runs_def by blast

lemma bucket_each_runs:
  assumes "callback_runs J callback A" and "bucket_blocks b \<subseteq> A"
  shows "bucket_inv b m \<Longrightarrow> i \<le> bag_size (key_bag b) \<Longrightarrow> J (drop i (bucket_entries b) @ rest) ud m \<Longrightarrow>
    \<exists>ud' m'. bucket_each_from b callback i ud m = Some (True, ud', m') \<and> J rest ud' m' \<and> (\<forall>q\<in>A. live m' q = live m q)"
proof (induction "bag_size (key_bag b) - i" arbitrary: i ud m)
  case 0
  then have "length (bucket_entries b) \<le> i" using length_bucket [OF 0(2)] by (simp add: bucket_entries_def)
  with 0 show ?case by (subst bucket_each_from.simps) simp
next
  case (Suc d)
  then have i: "i < bag_size (key_bag b)" "i < length (bucket_keys b)" "i < bag_size (value_bag b)"
    "i < length (bag_list (value_bag b))"
    using length_bucket [OF Suc(3)] by (simp_all add: bucket_inv_def)
  let ?k = "bucket_keys b ! i" and ?v = "bag_list (value_bag b) ! i"
  have kv: "ht_bag_nth (key_bag b) i m = Some ?k" "ht_bag_nth (value_bag b) i m = Some ?v"
    using Suc(3) i bag_nth_ok [of _ "key_bag b" m i] bag_nth_ok [of _ "value_bag b" m i]
    by (auto simp: bucket_inv_def bucket_keys_def)
  have "drop i (bucket_entries b) = (?k, ?v) # drop (Suc i) (bucket_entries b)"
    using i by (simp add: bucket_entries_def Cons_nth_drop_Suc [symmetric])
  with Suc.prems(3) have "J ((?k, ?v) # drop (Suc i) (bucket_entries b) @ rest) ud m" by simp
  then obtain ud1 m1 where one: "callback ?k ?v ud m = Some (True, ud1, m1)"
    "J (drop (Suc i) (bucket_entries b) @ rest) ud1 m1" "\<forall>q\<in>A. live m1 q = live m q"
    by (rule callback_runsD [OF assms(1)])
  have "bucket_inv b m1" by (rule bucket_inv_frame [OF Suc(3)]) (use one(3) assms(2) in blast)
  moreover have "d = bag_size (key_bag b) - Suc i" using Suc.hyps(2) by simp
  ultimately obtain ud2 m2 where
    "bucket_each_from b callback (Suc i) ud1 m1 = Some (True, ud2, m2)" "J rest ud2 m2" "\<forall>q\<in>A. live m2 q = live m1 q"
    using Suc.hyps(1) [of "Suc i" m1 ud1] one(2) i(1) by auto
  then show ?case using i kv one by (subst bucket_each_from.simps) simp
qed

lemma hash_map_each_runs:
  assumes "callback_runs J callback A" and "hash_map_blocks h \<subseteq> A" and "\<And>b. b \<in> set h \<Longrightarrow> bucket_inv b m"
    and "J (hash_map_entries h) ud m"
  shows "\<exists>ud' m'. ht_hash_map_for_each h callback ud m = Some (ud', m') \<and> J [] ud' m' \<and> (\<forall>q\<in>A. live m' q = live m q)"
  using assms(2-)
proof (induction h arbitrary: ud m)
  case (Cons b h)
  have sub: "bucket_blocks b \<subseteq> A" "hash_map_blocks h \<subseteq> A" using Cons.prems(1) by (auto simp: hash_map_blocks_def)
  have "J (drop 0 (bucket_entries b) @ hash_map_entries h) ud m" using Cons.prems(3) by (simp add: hash_map_entries_def)
  from bucket_each_runs [OF assms(1) sub(1) Cons.prems(2) _ this] obtain ud1 m1 where
    one: "bucket_each_from b callback 0 ud m = Some (True, ud1, m1)" "J (hash_map_entries h) ud1 m1" "\<forall>q\<in>A. live m1 q = live m q"
    by auto
  have "bucket_inv c m1" if "c \<in> set h" for c
    by (rule bucket_inv_frame [of c m]) (use Cons.prems(2) one(3) sub(2) that in \<open>auto simp: hash_map_blocks_def\<close>)
  from Cons.IH [OF sub(2) this one(2)] one(1,3) show ?case by (auto simp: ht_hash_bucket_for_each_def)
qed (simp add: hash_map_entries_def)

text \<open>The entries of a table: every key of the map once, with its value.\<close>

lemma hash_map_entries_ok:
  assumes inv: "hash_map_inv h m"
  shows "distinct (map fst (hash_map_entries h))" and "map_of (hash_map_entries h) = hash_map_of h"
proof -
  have keys: "(\<forall>k\<in>fst ` set (map bucket_entries h ! i). bucket_of k = 0 + i) \<and>
      distinct (map fst (map bucket_entries h ! i))" if "i < length (map bucket_entries h)" for i
  proof -
    have b: "bucket_inv (h ! i) m" and k: "\<forall>k\<in>set (bucket_keys (h ! i)). bucket_of k = i"
      using inv that by (simp_all add: hash_map_inv_def)
    from b have "distinct (bucket_keys (h ! i))" by (simp add: bucket_inv_def)
    with k keys_of_entries [OF b] that show ?thesis by (simp flip: set_map)
  qed
  show "distinct (map fst (hash_map_entries h))"
    unfolding hash_map_entries_def by (rule distinct_concat_classes [OF keys])
  have len: "length h = BUCKET_COUNT" using inv by (simp add: hash_map_inv_def)
  show "map_of (hash_map_entries h) = hash_map_of h"
  proof
    fix k
    show "map_of (hash_map_entries h) k = hash_map_of h k"
      unfolding hash_map_entries_def
      by (subst map_of_concat_classes [OF conjunct1 [OF keys]]) (simp_all add: hash_map_of_def len)
  qed
qed

section \<open>Creation and destruction\<close>

lemma bucket_init_ok:
  assumes wf: "alloc_wf m"
  shows "\<exists>err b' m'. ht_hash_bucket_init b m = Some (err, b', m') \<and> alloc_wf m' \<and>
           (if err = HT_ERR_OK
            then bucket_inv b' m' \<and> bucket_keys b' = [] \<and> footprint {} m (bucket_blocks b') m'
            else err = HT_ERR_OUT_OF_MEMORY \<and> live m' = live m)"
proof -
  have four: "0 < (4::nat)" "4 * sizeof_void_ptr \<le> PTRDIFF_MAX"
    by (simp_all add: sizeof_void_ptr_def PTRDIFF_MAX_def)
  show ?thesis
  proof (cases rule: bag_init_cases [OF wf sizeof_ok(3) order_refl four, of "value_bag b"])
    case (1 vb m1)
    then show ?thesis by (simp add: ht_hash_bucket_init_def)
  next
    case v: (2 vb m1)
    show ?thesis
    proof (cases rule: bag_init_cases [OF v(2) sizeof_ok(1,2) four, of "key_bag b"])
      case (1 kb m2)
      have "bag_inv sizeof_void_ptr vb m2" using v(3) 1(3) by (rule bag_inv_same_live)
      from bag_deinit_ok [OF this 1(2)] obtain vb' m3 where "ht_bag_deinit vb m2 = Some (vb', m3)"
        and "alloc_wf m3" and "live m3 = (live m2)(bag_block vb := None)" by blast
      with v 1 show ?thesis by (simp add: ht_hash_bucket_init_def fun_upd_idem)
    next
      case k: (2 kb m2)
      let ?b = "b\<lparr>value_bag := vb, key_bag := kb\<rparr>"
      have vlive: "live m1 (bag_block vb) \<noteq> None" using v(3) by (simp add: bag_inv_block)
      then have ne: "bag_block kb \<noteq> bag_block vb" using k(6) by auto
      then have "bag_inv sizeof_void_ptr vb m2" using v(3) k(7) by (auto intro: bag_inv_frame)
      moreover have "bag_capacity vb = 4 \<and> bag_size vb = 0" "bag_capacity kb = 4 \<and> bag_size kb = 0"
        using v(1) k(1) by (auto simp: ht_bag_init_def bind_eq_Some_conv split: option.splits)
      ultimately have "bucket_inv ?b m2"
        using v k ne by (simp add: bucket_inv_def bucket_keys_def)
      moreover have "footprint {} m (bucket_blocks ?b) m2"
        using footprint_trans [OF footprint_alloc [OF v(6,7)]]
          footprint_extend [OF footprint_alloc [OF k(6,7)], of "{bag_block vb}"] vlive
        by (auto simp: bucket_blocks_def insert_commute)
      ultimately show ?thesis using v k by (simp add: ht_hash_bucket_init_def bucket_keys_def)
    qed
  qed
qed

lemma bucket_deinit_ok:
  assumes b: "bucket_inv b m" and wf: "alloc_wf m"
  shows "\<exists>b' m'. ht_hash_bucket_deinit b m = Some (b', m') \<and> alloc_wf m' \<and>
           footprint (bucket_blocks b) m {} m'"
proof -
  from b have vb: "bag_inv sizeof_void_ptr (value_bag b) m" and kb: "bag_inv sizeof_uint64 (key_bag b) m"
    and ne: "bag_block (value_bag b) \<noteq> bag_block (key_bag b)"
    by (simp_all add: bucket_inv_def)
  from bag_deinit_ok [OF vb wf] obtain v1 m1 where v1: "ht_bag_deinit (value_bag b) m = Some (v1, m1)"
    "alloc_wf m1" "live m1 = (live m)(bag_block (value_bag b) := None)" by blast
  have "bag_inv sizeof_uint64 (key_bag b) m1" using kb v1(3) ne by (auto intro: bag_inv_frame)
  from bag_deinit_ok [OF this v1(2)] obtain k1 m2 where "ht_bag_deinit (key_bag b) m1 = Some (k1, m2)"
    "alloc_wf m2" "live m2 = (live m1)(bag_block (key_bag b) := None)" by blast
  with v1 show ?thesis
    by (auto simp: ht_hash_bucket_deinit_def bucket_blocks_def footprint_def restrict_map_def fun_eq_iff)
qed

text \<open>The buckets from \<open>i\<close> up to \<open>n\<close> are in order and own different blocks.\<close>

definition buckets_ok :: "nat \<Rightarrow> nat \<Rightarrow> 'v hash_map \<Rightarrow> mem \<Rightarrow> bool" where
  "buckets_ok i n h m \<longleftrightarrow>
     (\<forall>j. i \<le> j \<and> j < n \<longrightarrow> bucket_inv (h ! j) m) \<and>
     (\<forall>j k. i \<le> j \<and> j < n \<and> i \<le> k \<and> k < n \<and> j \<noteq> k \<longrightarrow>
        bucket_blocks (h ! j) \<inter> bucket_blocks (h ! k) = {})"

definition range_blocks :: "nat \<Rightarrow> nat \<Rightarrow> 'v hash_map \<Rightarrow> addr set" where
  "range_blocks i n h = (\<Union>j\<in>{i..<n}. bucket_blocks (h ! j))"

lemma range_blocks_live: "buckets_ok i n h m \<Longrightarrow> range_blocks i n h \<subseteq> dom (live m)"
  using bucket_inv_blocks by (fastforce simp: buckets_ok_def range_blocks_def)

lemma deinit_buckets_ok:
  "buckets_ok j n h m \<Longrightarrow> alloc_wf m \<Longrightarrow> j \<le> n \<Longrightarrow> n \<le> length h \<Longrightarrow>
     \<exists>h' m'. deinit_buckets j n h m = Some (h', m') \<and> alloc_wf m' \<and>
       footprint (range_blocks j n h) m {} m'"
proof (induction "n - j" arbitrary: j h m)
  case 0
  then show ?case by (subst deinit_buckets.simps) (simp add: range_blocks_def)
next
  case (Suc d)
  then have j: "j < n" "j < length h" by simp_all
  then have b: "bucket_inv (h ! j) m" using Suc.prems(1) by (simp add: buckets_ok_def)
  from bucket_deinit_ok [OF b Suc.prems(2)] obtain b1 m1 where
    b1: "ht_hash_bucket_deinit (h ! j) m = Some (b1, m1)" "alloc_wf m1"
      "footprint (bucket_blocks (h ! j)) m {} m1" by blast
  let ?h = "h[j := b1]"
  have nth: "?h ! k = h ! k" if "Suc j \<le> k" for k using that by simp
  have sep: "bucket_blocks (h ! j) \<inter> bucket_blocks (h ! k) = {}" if "Suc j \<le> k" "k < n" for k
    using Suc.prems(1) j that by (simp add: buckets_ok_def)
  have tail: "buckets_ok (Suc j) n h m" using Suc.prems(1) by (simp add: buckets_ok_def)
  have "bucket_inv (h ! k) m1" if k: "Suc j \<le> k" "k < n" for k
  proof (rule bucket_inv_frame)
    show "bucket_inv (h ! k) m" using tail k by (simp add: buckets_ok_def)
    then have "bucket_blocks (h ! k) \<subseteq> dom (live m)" by (rule bucket_inv_blocks)
    then show "live m1 q = live m q" if "q \<in> bucket_blocks (h ! k)" for q
      using footprint_frame(1) [OF b1(3), of q] sep [OF k] that by auto
  qed
  then have "buckets_ok (Suc j) n ?h m1"
    using tail nth by (simp add: buckets_ok_def)
  from Suc.hyps(1) [OF _ this b1(2)] Suc.hyps(2) Suc.prems j obtain h' m' where
    rest: "deinit_buckets (Suc j) n ?h m1 = Some (h', m')" "alloc_wf m'"
      "footprint (range_blocks (Suc j) n ?h) m1 {} m'" by fastforce
  have "range_blocks (Suc j) n ?h = range_blocks (Suc j) n h"
    by (simp add: range_blocks_def)
  moreover have "bucket_blocks (h ! j) \<inter> range_blocks (Suc j) n h = {}"
    using sep unfolding range_blocks_def by fastforce
  then have "footprint (bucket_blocks (h ! j) \<union> range_blocks (Suc j) n h) m
      ({} \<union> range_blocks (Suc j) n h) m1"
    by (intro footprint_extend [OF b1(3)] range_blocks_live [OF tail])
  moreover have "range_blocks j n h = bucket_blocks (h ! j) \<union> range_blocks (Suc j) n h"
  proof -
    have "{j..<n} = insert j {Suc j..<n}" using j by auto
    then show ?thesis by (simp add: range_blocks_def)
  qed
  ultimately have "footprint (range_blocks j n h) m {} m'"
    using rest(3) footprint_trans by simp
  with rest b1 j show ?case by (subst deinit_buckets.simps) simp
qed

lemma init_buckets_ok:
  "buckets_ok 0 i h m \<Longrightarrow> (\<forall>j<i. bucket_keys (h ! j) = []) \<Longrightarrow> alloc_wf m \<Longrightarrow> i \<le> BUCKET_COUNT \<Longrightarrow>
   length h = BUCKET_COUNT \<Longrightarrow>
     \<exists>err n h' m'. init_buckets i h m = Some (err, n, h', m') \<and> alloc_wf m' \<and> n \<le> BUCKET_COUNT \<and>
       length h' = BUCKET_COUNT \<and> buckets_ok 0 n h' m' \<and> (\<forall>j<n. bucket_keys (h' ! j) = []) \<and>
       footprint (range_blocks 0 i h) m (range_blocks 0 n h') m' \<and>
       (if err = HT_ERR_OK then n = BUCKET_COUNT else err = HT_ERR_OUT_OF_MEMORY)"
proof (induction "BUCKET_COUNT - i" arbitrary: i h m)
  case 0
  then show ?case
    by (subst init_buckets.simps) (simp add: footprint_same range_blocks_live)
next
  case (Suc d)
  then have i: "i < BUCKET_COUNT" "i < length h" by simp_all
  from bucket_init_ok [OF Suc.prems(3), of "h ! i"] obtain err b1 m1 where
    run: "ht_hash_bucket_init (h ! i) m = Some (err, b1, m1)" and wf1: "alloc_wf m1"
    and res: "if err = HT_ERR_OK
              then bucket_inv b1 m1 \<and> bucket_keys b1 = [] \<and> footprint {} m (bucket_blocks b1) m1
              else err = HT_ERR_OUT_OF_MEMORY \<and> live m1 = live m" by blast
  let ?h = "h[i := b1]"
  have nth: "?h ! j = h ! j" if "j < i" for j using that by simp
  have rng: "range_blocks 0 i ?h = range_blocks 0 i h" by (simp add: range_blocks_def)
  have lv: "range_blocks 0 i h \<subseteq> dom (live m)" using Suc.prems(1) by (rule range_blocks_live)
  show ?case
  proof (cases "err = HT_ERR_OK")
    case False
    with res have err: "err = HT_ERR_OUT_OF_MEMORY" and l: "live m1 = live m" by simp_all
    then have "buckets_ok 0 i ?h m1"
      using Suc.prems(1) by (auto simp: buckets_ok_def intro: bucket_inv_frame)
    moreover have "footprint (range_blocks 0 i h) m (range_blocks 0 i ?h) m1"
      using l lv rng by (simp add: footprint_same)
    ultimately show ?thesis
      using i run err wf1 Suc.prems by (subst init_buckets.simps) simp
  next
    case True
    with res have b1: "bucket_inv b1 m1" "bucket_keys b1 = []" and fp: "footprint {} m (bucket_blocks b1) m1"
      by simp_all
    have frame: "live m1 q = live m q" "q \<notin> bucket_blocks b1" if "j < i" "q \<in> bucket_blocks (h ! j)" for j q
    proof -
      have "q \<in> range_blocks 0 i h" using that by (auto simp: range_blocks_def)
      with lv have "live m q \<noteq> None" by auto
      with footprint_frame [OF fp, of q] show "live m1 q = live m q" "q \<notin> bucket_blocks b1" by auto
    qed
    have old: "bucket_inv (h ! j) m1" if "j < i" for j
      using Suc.prems(1) frame that by (auto simp: buckets_ok_def intro: bucket_inv_frame)
    have "buckets_ok 0 (Suc i) ?h m1"
      using Suc.prems(1) old b1(1) i frame(2) unfolding buckets_ok_def
      by (auto simp: nth_list_update less_Suc_eq)
    moreover have "\<forall>j<Suc i. bucket_keys (?h ! j) = []"
      using Suc.prems(2) b1(2) i by (simp add: nth_list_update less_Suc_eq)
    ultimately obtain err' n h' m' where rest: "init_buckets (Suc i) ?h m1 = Some (err', n, h', m')"
      "alloc_wf m'" "n \<le> BUCKET_COUNT" "length h' = BUCKET_COUNT" "buckets_ok 0 n h' m'"
      "\<forall>j<n. bucket_keys (h' ! j) = []" "footprint (range_blocks 0 (Suc i) ?h) m1 (range_blocks 0 n h') m'"
      "if err' = HT_ERR_OK then n = BUCKET_COUNT else err' = HT_ERR_OUT_OF_MEMORY"
      using Suc.hyps(1) [of "Suc i" ?h m1] Suc.hyps(2) Suc.prems(5) wf1 i by fastforce
    have "{0..<Suc i} = insert i {0..<i}" by auto
    then have "range_blocks 0 (Suc i) ?h = bucket_blocks b1 \<union> range_blocks 0 i h"
      using i by (simp add: range_blocks_def)
    moreover have "footprint ({} \<union> range_blocks 0 i h) m (bucket_blocks b1 \<union> range_blocks 0 i h) m1"
      using lv by (intro footprint_extend [OF fp]) auto
    ultimately have "footprint (range_blocks 0 i h) m (range_blocks 0 n h') m'"
      using rest(7) footprint_trans by simp
    with rest i run True show ?thesis by (subst init_buckets.simps) simp
  qed
qed

lemma range_blocks_all: "length h = n \<Longrightarrow> range_blocks 0 n h = hash_map_blocks h"
  by (fastforce simp: range_blocks_def hash_map_blocks_def set_conv_nth)

lemma hash_map_init_ok:
  assumes wf: "alloc_wf m" and len: "length h = BUCKET_COUNT"
  shows "\<exists>err h' m'. ht_hash_map_init h m = Some (err, h', m') \<and> alloc_wf m' \<and>
           (if err = HT_ERR_OK
            then hash_map_inv h' m' \<and> hash_map_of h' = Map.empty \<and> footprint {} m (hash_map_blocks h') m'
            else err = HT_ERR_OUT_OF_MEMORY \<and> live m' = live m)"
proof -
  have "buckets_ok 0 0 h m" "range_blocks 0 0 h = {}" by (simp_all add: buckets_ok_def range_blocks_def)
  with init_buckets_ok [of 0 h m] wf len obtain err n h1 m1 where
    run: "init_buckets 0 h m = Some (err, n, h1, m1)" "alloc_wf m1" "n \<le> BUCKET_COUNT"
      "length h1 = BUCKET_COUNT" "buckets_ok 0 n h1 m1" "\<forall>j<n. bucket_keys (h1 ! j) = []"
      "footprint {} m (range_blocks 0 n h1) m1"
    and err: "if err = HT_ERR_OK then n = BUCKET_COUNT else err = HT_ERR_OUT_OF_MEMORY" by auto
  show ?thesis
  proof (cases "err = HT_ERR_OK")
    case True
    with err have n: "n = BUCKET_COUNT" by simp
    with run have "hash_map_inv h1 m1" by (auto simp: hash_map_inv_def buckets_ok_def)
    moreover have "hash_map_of h1 = Map.empty"
      using run(6) n by (auto simp: hash_map_of_def bucket_entries_def)
    ultimately show ?thesis
      using run True n range_blocks_all [OF run(4)] by (simp add: ht_hash_map_init_def)
  next
    case False
    from deinit_buckets_ok [OF run(5,2)] run(3,4) obtain h2 m2 where
      "deinit_buckets 0 n h1 m1 = Some (h2, m2)" "alloc_wf m2" "footprint (range_blocks 0 n h1) m1 {} m2"
      by fastforce
    moreover from this run(7) have "live m2 = live m" using footprint_trans footprint_empty by blast
    ultimately show ?thesis using run False err by (simp add: ht_hash_map_init_def)
  qed
qed

lemma hash_map_deinit_ok:
  assumes inv: "hash_map_inv h m" and wf: "alloc_wf m"
  shows "\<exists>h' m'. ht_hash_map_deinit h m = Some (h', m') \<and> alloc_wf m' \<and>
           footprint (hash_map_blocks h) m {} m'"
proof -
  have "buckets_ok 0 BUCKET_COUNT h m" and "length h = BUCKET_COUNT"
    using inv by (auto simp: hash_map_inv_def buckets_ok_def)
  with deinit_buckets_ok [of 0 BUCKET_COUNT h m] wf range_blocks_all [of h BUCKET_COUNT] show ?thesis
    by (simp add: ht_hash_map_deinit_def)
qed

section \<open>The interface the label cache relies on\<close>

text \<open>
  A table of labels: an insertion either enters the label and returns the one the key had
  before, or runs out of memory and leaves the table as it was; only the blocks of the table
  are touched.
\<close>

locale label_map =
  fixes insert :: "'t \<Rightarrow> u64 \<Rightarrow> 'v \<Rightarrow> mem \<Rightarrow> ('v option \<times> HT_ErrorCode \<times> 't \<times> mem) option"
    and get :: "'t \<Rightarrow> u64 \<Rightarrow> mem \<Rightarrow> 'v option option"
    and deinit :: "'t \<Rightarrow> mem \<Rightarrow> ('t \<times> mem) option"
    and lookup :: "'t \<Rightarrow> u64 \<rightharpoonup> 'v"
    and table_blocks :: "'t \<Rightarrow> addr set"
    and invar :: "'t \<Rightarrow> mem \<Rightarrow> bool"
  assumes insert_law: "invar t m \<Longrightarrow> alloc_wf m \<Longrightarrow>
      \<exists>ret err t' m'. insert t k v m = Some (ret, err, t', m') \<and> alloc_wf m' \<and> invar t' m' \<and>
        footprint (table_blocks t) m (table_blocks t') m' \<and>
        (if err = HT_ERR_OK then ret = lookup t k \<and> lookup t' = (lookup t)(k \<mapsto> v)
         else err = HT_ERR_OUT_OF_MEMORY \<and> ret = None \<and> lookup t' = lookup t)"
    and get_law: "invar t m \<Longrightarrow> get t k m = Some (lookup t k)"
    and deinit_law: "invar t m \<Longrightarrow> alloc_wf m \<Longrightarrow>
      \<exists>t' m'. deinit t m = Some (t', m') \<and> alloc_wf m' \<and> footprint (table_blocks t) m {} m'"
    and blocks_live: "invar t m \<Longrightarrow> table_blocks t \<subseteq> dom (live m)"
    and invar_frame: "invar t m \<Longrightarrow> (\<And>q. q \<in> table_blocks t \<Longrightarrow> live m' q = live m q) \<Longrightarrow> invar t m'"
begin

lemma insert_cases:
  assumes "invar t m" and "alloc_wf m"
  obtains (refused) t' m' where "insert t k v m = Some (None, HT_ERR_OUT_OF_MEMORY, t', m')"
      and "alloc_wf m'" and "invar t' m'" and "footprint (table_blocks t) m (table_blocks t') m'"
      and "lookup t' = lookup t"
  | (entered) t' m' where "insert t k v m = Some (lookup t k, HT_ERR_OK, t', m')"
      and "alloc_wf m'" and "invar t' m'" and "footprint (table_blocks t) m (table_blocks t') m'"
      and "lookup t' = (lookup t)(k \<mapsto> v)"
proof -
  from insert_law [OF assms, of k v] obtain ret err t' m' where
    "insert t k v m = Some (ret, err, t', m')" "alloc_wf m'" "invar t' m'"
    "footprint (table_blocks t) m (table_blocks t') m'"
    "if err = HT_ERR_OK then ret = lookup t k \<and> lookup t' = (lookup t)(k \<mapsto> v)
     else err = HT_ERR_OUT_OF_MEMORY \<and> ret = None \<and> lookup t' = lookup t" by blast
  then show thesis by (cases "err = HT_ERR_OK") (auto intro: that)
qed

text \<open>An operation on one table leaves another one, with other blocks, as it was.\<close>

lemma other_table:
  assumes "invar s m" and "footprint A m A' m'" and "table_blocks s \<inter> A = {}"
  shows "invar s m'" and "table_blocks s \<inter> A' = {}"
proof -
  have lv: "live m q \<noteq> None" "q \<notin> A" if "q \<in> table_blocks s" for q
    using blocks_live [OF assms(1)] assms(3) that by auto
  with footprint_frame [OF assms(2)] show "table_blocks s \<inter> A' = {}" by blast
  from assms(1) show "invar s m'"
    by (rule invar_frame) (use footprint_frame(1) [OF assms(2)] lv in blast)
qed

end

lemma hash_map_inv_blocks: "hash_map_inv h m \<Longrightarrow> hash_map_blocks h \<subseteq> dom (live m)"
  using bucket_inv_blocks by (fastforce simp: hash_map_inv_def hash_map_blocks_def set_conv_nth)

lemma hash_map_inv_frame:
  assumes "hash_map_inv h m" and "\<And>q. q \<in> hash_map_blocks h \<Longrightarrow> live m' q = live m q"
  shows "hash_map_inv h m'"
proof -
  have "bucket_inv (h ! i) m'" if "i < length h" for i
  proof (rule bucket_inv_frame)
    show "bucket_inv (h ! i) m" using assms(1) that by (simp add: hash_map_inv_def)
    show "live m' q = live m q" if "q \<in> bucket_blocks (h ! i)" for q
      using assms(2) [of q] that nth_mem [OF \<open>i < length h\<close>] by (auto simp: hash_map_blocks_def)
  qed
  with assms(1) show ?thesis by (simp add: hash_map_inv_def)
qed

interpretation labels: label_map ht_hash_map_insert ht_hash_map_get_value ht_hash_map_deinit
  hash_map_of hash_map_blocks hash_map_inv
proof unfold_locales
  fix t :: "'v hash_map" and m m' k v
  assume inv: "hash_map_inv t m"
  show "ht_hash_map_get_value t k m = Some (hash_map_of t k)" using inv by (rule hash_map_get_ok)
  show "hash_map_blocks t \<subseteq> dom (live m)" using inv by (rule hash_map_inv_blocks)
  show "(\<And>q. q \<in> hash_map_blocks t \<Longrightarrow> live m' q = live m q) \<Longrightarrow> hash_map_inv t m'"
    using inv by (rule hash_map_inv_frame)
  assume wf: "alloc_wf m"
  show "\<exists>ret err t' m'. ht_hash_map_insert t k v m = Some (ret, err, t', m') \<and> alloc_wf m' \<and>
      hash_map_inv t' m' \<and> footprint (hash_map_blocks t) m (hash_map_blocks t') m' \<and>
      (if err = HT_ERR_OK then ret = hash_map_of t k \<and> hash_map_of t' = (hash_map_of t)(k \<mapsto> v)
       else err = HT_ERR_OUT_OF_MEMORY \<and> ret = None \<and> hash_map_of t' = hash_map_of t)"
    using inv wf by (rule hash_map_insert_ok)
  show "\<exists>t' m'. ht_hash_map_deinit t m = Some (t', m') \<and> alloc_wf m' \<and>
      footprint (hash_map_blocks t) m {} m'"
    using inv wf by (rule hash_map_deinit_ok)
qed

section \<open>Properties\<close>

text \<open>
  C4. The table of buckets implements a finite map. An insertion always returns; it either
  enters the value, returning what the key was mapped to before (nothing if the key is new), or
  reports that memory ran out and leaves the map exactly as it was, whichever of the two bags
  could not grow. A lookup afterwards sees the new map at every key, and no block that does
  not belong to the table is touched.
\<close>

theorem hash_map_insert_refines_map:
  assumes "hash_map_inv h m" and "alloc_wf m"
  shows "\<exists>ret err h' m'. ht_hash_map_insert h key v m = Some (ret, err, h', m') \<and>
           hash_map_inv h' m' \<and> footprint (hash_map_blocks h) m (hash_map_blocks h') m' \<and>
           (if err = HT_ERR_OK
            then ret = hash_map_of h key \<and>
                 (\<forall>k. ht_hash_map_get_value h' k m' = Some (((hash_map_of h)(key \<mapsto> v)) k))
            else err = HT_ERR_OUT_OF_MEMORY \<and> ret = None \<and>
                 (\<forall>k. ht_hash_map_get_value h' k m' = ht_hash_map_get_value h k m))"
proof (cases rule: labels.insert_cases [OF assms, of key v])
  case (1 h' m')
  with assms(1) show ?thesis by (auto simp: labels.get_law)
next
  case (2 h' m')
  then show ?thesis by (auto simp: labels.get_law)
qed

definition demo_map_mem :: mem where
  "demo_map_mem = \<lparr>heap_of = \<lparr>blocks = (\<lambda>a. if 0 < a \<and> a \<le> 1024 then Some 32 else None),
                              next_addr = 1025, refusals = [False, True]\<rparr>,
                   realloc_fnc = None, user_data = 0\<rparr>"

definition demo_bag :: "addr \<Rightarrow> 'a bag" where
  "demo_bag a = \<lparr>bag_min_capacity = 4, bag_capacity = 4, bag_size = 0, bag_data = Some a,
                 bag_cells = replicate 4 None\<rparr>"

definition demo_map :: "string hash_map" where
  "demo_map = map (\<lambda>i. \<lparr>key_bag = demo_bag (2 * i + 1), value_bag = demo_bag (2 * i + 2)\<rparr>)
                [0..<BUCKET_COUNT]"

lemma demo_bag_inv:
  assumes "0 < a" "a \<le> 1024" shows "bag_inv 8 (demo_bag a) demo_map_mem"
proof -
  have "\<exists>k. Suc 0 = 2 ^ k" by (rule exI [of _ 0]) simp
  with assms show ?thesis
    by (simp add: bag_inv_def demo_bag_def demo_map_mem_def live_def sizeof_void_ptr_def PTRDIFF_MAX_def)
qed

lemma demo_map_inv: "hash_map_inv demo_map demo_map_mem" "alloc_wf demo_map_mem"
proof -
  have "bucket_inv (demo_map ! i) demo_map_mem \<and> bucket_keys (demo_map ! i) = []" if "i < 512" for i
    using demo_bag_inv [of "2 * i + 1"] demo_bag_inv [of "2 * i + 2"] that
    by (simp add: demo_map_def BUCKET_COUNT_def bucket_inv_def sizeof_uint64_def sizeof_void_ptr_def
        bucket_keys_def) (simp add: demo_bag_def bag_block_def bag_list_def)
  moreover have "bucket_blocks (demo_map ! i) = {2 * i + 1, 2 * i + 2}" if "i < 512" for i
    using that by (auto simp: bucket_blocks_def demo_map_def BUCKET_COUNT_def demo_bag_def bag_block_def)
  moreover have "{2 * i + 1, 2 * i + 2} \<inter> {2 * j + 1, 2 * j + 2} = {}" if "i \<noteq> j" for i j :: nat
    using that by auto
  moreover have "length demo_map = BUCKET_COUNT" by (simp add: demo_map_def)
  ultimately show "hash_map_inv demo_map demo_map_mem"
    by (simp add: hash_map_inv_def BUCKET_COUNT_def)
  show "alloc_wf demo_map_mem" by (simp add: demo_map_mem_def alloc_wf_def heap_ok_def)
qed

theorem hash_map_insert_refines_map_witness:
  "hash_map_inv demo_map demo_map_mem \<and>
   (\<exists>ret err h' m'. ht_hash_map_insert demo_map 7 ''label'' demo_map_mem = Some (ret, err, h', m') \<and>
      hash_map_inv h' m' \<and> ht_hash_map_get_value h' 8 m' = Some None)"
proof -
  have "ht_hash_map_get_value demo_map 8 demo_map_mem = Some None" "hash_map_of demo_map 8 = None"
    using hash_map_get_ok [OF demo_map_inv(1), of 8]
    by (simp_all add: hash_map_of_def demo_map_def bucket_entries_def bucket_keys_def demo_bag_def bag_list_def)
  with hash_map_insert_refines_map [OF demo_map_inv, of 7 "''label''"] demo_map_inv show ?thesis
    by (fastforce split: if_splits)
qed

text \<open>
  C5. Walking a table calls the callback once for every key of the map, with its value, and in
  no other way, as long as the callback answers true and, under a condition on its own data that it keeps, leaves the blocks of the table alone:
  the walk is the callback on a list of entries with different keys that is the map.
\<close>

theorem hash_map_for_each_once:
  assumes "hash_map_inv h m" and "callback_keeps I callback (hash_map_entries h) (hash_map_blocks h)" and "I ud m"
  shows "ht_hash_map_for_each h callback ud m =
           map_option snd (each_while callback (hash_map_entries h) ud m) \<and>
         distinct (map fst (hash_map_entries h)) \<and> map_of (hash_map_entries h) = hash_map_of h"
proof -
  have "bucket_inv b m" if "b \<in> set h" for b
    using assms(1) that by (auto simp: hash_map_inv_def in_set_conv_nth)
  with hash_map_each_ok [OF assms(2,3)] show ?thesis by (simp add: hash_map_entries_ok [OF assms(1)])
qed

definition demo_bucket :: "string hash_bucket" where
  "demo_bucket =
     \<lparr>key_bag = (demo_bag 15)\<lparr>bag_size := 1, bag_cells := [Some 7, None, None, None]\<rparr>,
      value_bag = (demo_bag 16)\<lparr>bag_size := 1, bag_cells := [Some ''label'', None, None, None]\<rparr>\<rparr>"

lemma demo_full_map_inv: "hash_map_inv (demo_map[7 := demo_bucket]) demo_map_mem"
proof (rule hash_map_update(1) [OF demo_map_inv(1)])
  have keys: "bucket_keys demo_bucket = [7]"
    by (simp add: bucket_keys_def demo_bucket_def bag_list_def contents_def)
  then show "\<forall>k\<in>set (bucket_keys demo_bucket). bucket_of k = 7"
    by (simp add: bucket_of_def BUCKET_COUNT_def)
  show "7 < length demo_map" by (simp add: demo_map_def BUCKET_COUNT_def)
  show inv: "bucket_inv demo_bucket demo_map_mem"
    using demo_bag_inv [of 15] demo_bag_inv [of 16] keys
    by (simp add: bucket_inv_def bag_inv_def demo_bucket_def demo_bag_def bag_block_def filled_def
        sizeof_uint64_def sizeof_void_ptr_def live_def demo_map_mem_def)
  have "bucket_blocks (demo_map ! 7) = bucket_blocks demo_bucket"
    by (simp add: bucket_blocks_def demo_map_def BUCKET_COUNT_def demo_bag_def bag_block_def demo_bucket_def)
  then show "footprint (bucket_blocks (demo_map ! 7)) demo_map_mem (bucket_blocks demo_bucket) demo_map_mem"
    using bucket_inv_blocks [OF inv] by (simp add: footprint_same)
qed

lemma demo_full_map_entries: "hash_map_entries (demo_map[7 := demo_bucket]) = [(7, ''label'')]"
proof -
  have e: "bucket_entries (demo_map ! i) = []" if "i < BUCKET_COUNT" for i
    using that by (simp add: demo_map_def bucket_entries_def bucket_keys_def demo_bag_def bag_list_def)
  have "demo_map[7 := demo_bucket] = take 7 demo_map @ demo_bucket # drop 8 demo_map"
    by (simp add: upd_conv_take_nth_drop demo_map_def BUCKET_COUNT_def)
  moreover have "concat (map bucket_entries (take 7 demo_map)) = []"
    "concat (map bucket_entries (drop 8 demo_map)) = []"
    using e by (auto simp: in_set_conv_nth demo_map_def dest!: in_set_takeD in_set_dropD)
  moreover have "bucket_entries demo_bucket = [(7, ''label'')]"
    by (simp add: bucket_entries_def bucket_keys_def demo_bucket_def bag_list_def contents_def)
  ultimately show ?thesis by (simp add: hash_map_entries_def del: concat_eq_Nil_conv)
qed

theorem hash_map_for_each_once_witness:
  "ht_hash_map_for_each (demo_map[7 := demo_bucket]) (\<lambda>k v ud m. Some (True, (k, v) # ud, m)) [] demo_map_mem =
     Some ([(7, ''label'')], demo_map_mem)"
  by (subst conjunct1 [OF hash_map_for_each_once [where I = "\<lambda>_ _. True", OF demo_full_map_inv]])
    (simp_all add: callback_keeps_def demo_full_map_entries)

end
