(* ===== verification/Registry.thy ===== *)
theory Registry
  imports Listener_Container Events Hash_Map
begin

text \<open>
  \<^verbatim>\<open>lib/registry.c\<close>: the register of event classes, of shared listener containers and of timeline
  features, and the description of the classes that is sent to a listener. Also the parts of
  \<^verbatim>\<open>lib/timeline_listener.c\<close> and \<^verbatim>\<open>lib/system_info.c\<close> that use it.

  The static instances of event classes and of feature classes are the components \<open>klasses\<close>
  and \<open>feature_ids\<close> of the state.
\<close>

section \<open>The state\<close>

definition HT_TIMELINE_MAX_FEATURES :: nat where
  "HT_TIMELINE_MAX_FEATURES = 32"

record 'w reg = "'w lrt" +
  event_klass_register :: "klass_ref bag"
  listeners_register :: "addr bag"
  feature_register :: "bool list"
  feature_count :: nat
  listeners_register_mutex :: "addr option"
  features_register_mutex :: "addr option"
  event_klass_registry_register_mutex :: "addr option"
  klasses :: "klass_ref \<Rightarrow> HT_EventKlass"
  feature_ids :: "string \<Rightarrow> u32"

section \<open>Features\<close>

definition ht_registry_register_feature ::
  "string \<Rightarrow> ('w, 's) reg_scheme \<Rightarrow> (HT_ErrorCode \<times> ('w, 's) reg_scheme) option" where
  "ht_registry_register_feature klass s =
     do { mtx \<leftarrow> features_register_mutex s;
          s \<leftarrow> ht_mutex_lock mtx s;
          let (err, feature_id, s) =
            (if feature_ids s klass \<noteq> HT_INVALID_FEATURE_ID
             then (HT_ERR_FEATURE_ALREADY_REGISTERED, feature_ids s klass, s)
             else if feature_count s = HT_TIMELINE_MAX_FEATURES
             then (HT_ERR_MAX_FEATURE_COUNT_REACHED, HT_INVALID_FEATURE_ID, s)
             else (HT_ERR_OK, word_of_nat (feature_count s),
                   s\<lparr>feature_register := (feature_register s)[feature_count s := True],
                     feature_count := feature_count s + 1\<rparr>));
          s \<leftarrow> ht_mutex_unlock mtx s;
          Some (err, s\<lparr>feature_ids := (feature_ids s)(klass := feature_id)\<rparr>) }"

definition ht_feature_register_core_features :: "('w, 's) reg_scheme \<Rightarrow> ('w, 's) reg_scheme option" where
  "ht_feature_register_core_features s =
     do { (_, s) \<leftarrow> ht_registry_register_feature ''HT_FeatureCachedString'' s;
          (_, s) \<leftarrow> ht_registry_register_feature ''HT_FeatureCallstack'' s;
          Some s }"

section \<open>Creation and destruction\<close>

definition ht_registry_init :: "('w, 's) reg_scheme \<Rightarrow> (HT_ErrorCode \<times> ('w, 's) reg_scheme) option" where
  "ht_registry_init s =
     do { (err, b, m) \<leftarrow> ht_bag_init sizeof_void_ptr (event_klass_register s) 8 (rt_mem s);
          let s = s\<lparr>rt_mem := m, event_klass_register := b\<rparr>;
          if err \<noteq> HT_ERR_OK then Some (err, s)
          else do {
            (err, b, m) \<leftarrow> ht_bag_init sizeof_void_ptr (listeners_register s) 8 (rt_mem s);
            let s = s\<lparr>rt_mem := m, listeners_register := b\<rparr>;
            if err \<noteq> HT_ERR_OK
            then do {
              (b, m) \<leftarrow> ht_bag_deinit (event_klass_register s) (rt_mem s);
              Some (err, s\<lparr>rt_mem := m, event_klass_register := b\<rparr>) }
            else do {
              (mtx1, s) \<leftarrow> ht_mutex_create s;
              let s = s\<lparr>listeners_register_mutex := mtx1\<rparr>;
              (mtx2, s) \<leftarrow> (if mtx1 = None then Some (None, s) else ht_mutex_create s);
              let s = (if mtx1 = None then s else s\<lparr>features_register_mutex := mtx2\<rparr>);
              (mtx3, s) \<leftarrow> (if mtx2 = None then Some (None, s) else ht_mutex_create s);
              let s = (if mtx2 = None then s else s\<lparr>event_klass_registry_register_mutex := mtx3\<rparr>);
              if mtx3 \<noteq> None then Some (HT_ERR_OK, s)
              else do {
                s \<leftarrow> (case mtx2 of None \<Rightarrow> Some s | Some a \<Rightarrow> ht_mutex_destroy a s);
                s \<leftarrow> (case mtx1 of None \<Rightarrow> Some s | Some a \<Rightarrow> ht_mutex_destroy a s);
                (b, m) \<leftarrow> ht_bag_deinit (listeners_register s) (rt_mem s);
                let s = s\<lparr>rt_mem := m, listeners_register := b\<rparr>;
                (b, m) \<leftarrow> ht_bag_deinit (event_klass_register s) (rt_mem s);
                Some (HT_ERR_OUT_OF_MEMORY, s\<lparr>rt_mem := m, event_klass_register := b\<rparr>) } } } }"

function unref_listeners_from :: "nat \<Rightarrow> addr bag \<Rightarrow> ('w, 's) reg_scheme \<Rightarrow> ('w, 's) reg_scheme option" where
  "unref_listeners_from i b s =
     (if i < bag_size b
      then do { c \<leftarrow> ht_bag_nth b i (rt_mem s);
                s \<leftarrow> ht_timeline_listener_container_unref c s;
                unref_listeners_from (i + 1) b s }
      else Some s)"
  by pat_completeness auto
termination
  by (relation "measure (\<lambda>(i, b, s). bag_size b - i)") auto

declare unref_listeners_from.simps [simp del]

definition ht_registry_deinit :: "('w, 's) reg_scheme \<Rightarrow> ('w, 's) reg_scheme option" where
  "ht_registry_deinit s =
     do { s \<leftarrow> unref_listeners_from 0 (listeners_register s) s;
          a \<leftarrow> features_register_mutex s;
          s \<leftarrow> ht_mutex_destroy a s;
          a \<leftarrow> event_klass_registry_register_mutex s;
          s \<leftarrow> ht_mutex_destroy a s;
          a \<leftarrow> listeners_register_mutex s;
          s \<leftarrow> ht_mutex_destroy a s;
          (b, m) \<leftarrow> ht_bag_deinit (listeners_register s) (rt_mem s);
          let s = s\<lparr>rt_mem := m, listeners_register := b\<rparr>;
          (b, m) \<leftarrow> ht_bag_deinit (event_klass_register s) (rt_mem s);
          Some (s\<lparr>rt_mem := m, event_klass_register := b\<rparr>) }"

section \<open>Event classes\<close>

definition ht_registry_register_event_klass ::
  "klass_ref \<Rightarrow> ('w, 's) reg_scheme \<Rightarrow> (HT_EventKlassId \<times> ('w, 's) reg_scheme) option" where
  "ht_registry_register_event_klass ek s =
     (if klass_id (klasses s ek) = HT_INVALID_KLASS_ID
      then do {
        mtx \<leftarrow> event_klass_registry_register_mutex s;
        s \<leftarrow> ht_mutex_lock mtx s;
        (err, b, m) \<leftarrow> ht_bag_add sizeof_void_ptr (event_klass_register s) ek (rt_mem s);
        let s = s\<lparr>rt_mem := m, event_klass_register := b\<rparr>;
        let s = (if err = HT_ERR_OK
                 then s\<lparr>klasses := (klasses s)(ek :=
                          (klasses s ek)\<lparr>klass_id := word_of_nat (bag_size (event_klass_register s)) - 1\<rparr>)\<rparr>
                 else s);
        s \<leftarrow> ht_mutex_unlock mtx s;
        Some (klass_id (klasses s ek), s) }
      else Some (klass_id (klasses s ek), s))"

text \<open>The generated \<^verbatim>\<open>ht_TYPE_register_event_klass\<close>: it stores the type information first.\<close>

definition register_event_klass_of ::
  "MKCREFLECT_TypeInfo \<Rightarrow> ('w, 's) reg_scheme \<Rightarrow> (HT_EventKlassId \<times> ('w, 's) reg_scheme) option" where
  "register_event_klass_of ti s =
     (let k = ti_name ti;
          s = s\<lparr>klasses := (klasses s)(k := (klasses s k)\<lparr>type_info := Some ti\<rparr>)\<rparr>
      in ht_registry_register_event_klass k s)"

text \<open>The array of classes and its length.\<close>

definition ht_registry_get_event_klasses :: "('w, 's) reg_scheme \<Rightarrow> addr option \<times> nat" where
  "ht_registry_get_event_klasses s = (bag_data (event_klass_register s), bag_size (event_klass_register s))"

section \<open>Shared listener containers\<close>

function find_container_from :: "u32 \<Rightarrow> nat \<Rightarrow> ('w, 's) reg_scheme \<Rightarrow> addr option option" where
  "find_container_from i j s =
     (if j < bag_size (listeners_register s)
      then do { c \<leftarrow> ht_bag_nth (listeners_register s) j (rt_mem s);
                cid \<leftarrow> ht_timeline_listener_container_get_id c s;
                if cid = i then Some (Some c) else find_container_from i (j + 1) s }
      else Some None)"
  by pat_completeness auto
termination
  by (relation "measure (\<lambda>(i, j, s). bag_size (listeners_register s) - j)") auto

declare find_container_from.simps [simp del]

definition container_name_id :: "string \<Rightarrow> u32" where
  "container_name_id name = djb2_hash (string_bytes name)"

definition ht_registry_find_listener_container ::
  "string \<Rightarrow> ('w, 's) reg_scheme \<Rightarrow> (addr option \<times> ('w, 's) reg_scheme) option" where
  "ht_registry_find_listener_container name s =
     do { mtx \<leftarrow> listeners_register_mutex s;
          s \<leftarrow> ht_mutex_lock mtx s;
          c \<leftarrow> find_container_from (container_name_id name) 0 s;
          s \<leftarrow> ht_mutex_unlock mtx s;
          Some (c, s) }"

definition ht_registry_register_listener_container ::
  "string \<Rightarrow> addr \<Rightarrow> ('w, 's) reg_scheme \<Rightarrow> (HT_ErrorCode \<times> ('w, 's) reg_scheme) option" where
  "ht_registry_register_listener_container name c s =
     do { (found, s) \<leftarrow> ht_registry_find_listener_container name s;
          if found \<noteq> None then Some (HT_ERR_LISTENER_CONTAINER_ALREADY_REGISTERED, s)
          else do {
            mtx \<leftarrow> listeners_register_mutex s;
            s \<leftarrow> ht_mutex_lock mtx s;
            s \<leftarrow> ht_timeline_listener_container_set_id c (container_name_id name) s;
            s \<leftarrow> ht_timeline_listener_container_ref c s;
            (err, b, m) \<leftarrow> ht_bag_add sizeof_void_ptr (listeners_register s) c (rt_mem s);
            let s = s\<lparr>rt_mem := m, listeners_register := b\<rparr>;
            s \<leftarrow> ht_mutex_unlock mtx s;
            Some (err, s) } }"

text \<open>The error code of the registration is ignored.\<close>

definition ht_find_or_create_listener ::
  "'w listener_entry bag \<Rightarrow> string option \<Rightarrow> ('w, 's) reg_scheme \<Rightarrow> (addr option \<times> ('w, 's) reg_scheme) option" where
  "ht_find_or_create_listener junk name s =
     (case name of
        None \<Rightarrow> ht_timeline_listener_container_create junk s
      | Some n \<Rightarrow> do {
          (found, s) \<leftarrow> ht_registry_find_listener_container n s;
          case found of
            None \<Rightarrow> do {
              (created, s) \<leftarrow> ht_timeline_listener_container_create junk s;
              case created of
                None \<Rightarrow> Some (None, s)
              | Some c \<Rightarrow> do {
                  (_, s) \<leftarrow> ht_registry_register_listener_container n c s;
                  Some (Some c, s) } }
          | Some c \<Rightarrow> do {
              k \<leftarrow> get_container c s;
              Some (Some c, set_container c (k\<lparr>c_refcount := c_refcount k + 1\<rparr>) s) } })"

section \<open>The description of the classes\<close>

definition REGISTRY_LISTENER_BUFF_SIZE :: nat where
  "REGISTRY_LISTENER_BUFF_SIZE = 4096"

definition init_event_klass_info_event ::
  "klass_ref \<Rightarrow> ('w, 's) reg_scheme \<Rightarrow> (ht_struct \<times> ('w, 's) reg_scheme) option" where
  "init_event_klass_info_event k s =
     do { let (i, s) = ht_event_id_provider_next ht_event_id_provider_get_default s;
          let (t, s) = ht_monotonic_clock_get_timestamp s;
          ti \<leftarrow> type_info (klasses s k);
          Some (Derived (HT_Event ''HT_EventKlassInfoEvent'' t i)
                  [Integer 4 (unat (klass_id (klasses s k))), String (Some (ti_name ti)),
                   Integer 1 (ti_fields_count ti mod 256)], s) }"

definition field_data_type :: "MKCREFLECT_FieldInfo \<Rightarrow> u8" where
  "field_data_type info =
     (if fi_data_type info = MKCREFLECT_TYPES_INTEGER \<and> \<not> fi_is_signed info
      then HT_MKCREFLECT_TYPES_EXT_UNSIGNED_INTEGER
      else mkcreflect_code (fi_data_type info))"

definition init_event_klass_field_info_event ::
  "klass_ref \<Rightarrow> nat \<Rightarrow> ('w, 's) reg_scheme \<Rightarrow> (ht_struct \<times> ('w, 's) reg_scheme) option" where
  "init_event_klass_field_info_event k field_id s =
     do { ti \<leftarrow> type_info (klasses s k);
          info \<leftarrow> (if field_id < length (ti_fields ti) then Some (ti_fields ti ! field_id) else None);
          let (i, s) = ht_event_id_provider_next ht_event_id_provider_get_default s;
          let (t, s) = ht_monotonic_clock_get_timestamp s;
          Some (Derived (HT_Event ''HT_EventKlassFieldInfoEvent'' t i)
                  [Integer 4 (unat (klass_id (klasses s k))), String (Some (fi_field_type info)),
                   String (Some (fi_field_name info)), Integer 8 (fi_size info),
                   Integer 1 (unat (field_data_type info))], s) }"

text \<open>The first \<open>n\<close> bytes of a buffer, which have to be written already.\<close>

definition read_bytes :: "nat \<Rightarrow> byte option list \<Rightarrow> byte list option" where
  "read_bytes n buf = (if filled n buf then Some (contents n buf) else None)"

text \<open>
  The step both loops of \<^verbatim>\<open>_ht_registry_push_class_to_listener\<close> repeat for an event: hand the
  buffer to the listener if the event does not fit, and append the event. The state of the
  loops is the buffer, the position in it and the number of bytes handed over.
\<close>

definition registry_put ::
  "HT_Endianness \<Rightarrow> (ht_struct \<Rightarrow> byte list) \<Rightarrow> 'w listener_callback \<Rightarrow> nat \<Rightarrow> bool \<Rightarrow> ht_struct \<Rightarrow>
   byte option list \<times> nat \<times> nat \<times> ('w, 's) reg_scheme \<Rightarrow>
   (byte option list \<times> nat \<times> nat \<times> ('w, 's) reg_scheme) option" where
  "registry_put e repr callback listener ser ev st =
     (case st of (data, data_pos, total_size, s) \<Rightarrow>
        do { (data_pos, total_size, s) \<leftarrow>
               (if get_size ev > size_sub REGISTRY_LISTENER_BUFF_SIZE data_pos
                then do { bs \<leftarrow> read_bytes data_pos data;
                          w \<leftarrow> callback bs ser listener (world s);
                          Some (0, total_size + data_pos, s\<lparr>world := w\<rparr>) }
                else Some (data_pos, total_size, s));
             (n, data) \<leftarrow> ht_event_utils_serialize_event_to_buffer e repr (klasses s) ev data_pos data ser;
             Some (data, data_pos + n, total_size, s) })"

function push_fields_from ::
  "HT_Endianness \<Rightarrow> (ht_struct \<Rightarrow> byte list) \<Rightarrow> 'w listener_callback \<Rightarrow> nat \<Rightarrow> bool \<Rightarrow> klass_ref \<Rightarrow> nat \<Rightarrow> nat \<Rightarrow>
   byte option list \<times> nat \<times> nat \<times> ('w, 's) reg_scheme \<Rightarrow>
   (byte option list \<times> nat \<times> nat \<times> ('w, 's) reg_scheme) option" where
  "push_fields_from e repr callback listener ser k j n st =
     (if j < n
      then case st of (data, data_pos, total_size, s) \<Rightarrow>
        do { (ev, s) \<leftarrow> init_event_klass_field_info_event k j s;
             st \<leftarrow> registry_put e repr callback listener ser ev (data, data_pos, total_size, s);
             push_fields_from e repr callback listener ser k (j + 1) n st }
      else Some st)"
  by pat_completeness auto
termination
  by (relation "measure (\<lambda>(e, repr, callback, listener, ser, k, j, n, st). n - j)") auto

declare push_fields_from.simps [simp del]

definition push_class_to_listener ::
  "HT_Endianness \<Rightarrow> (ht_struct \<Rightarrow> byte list) \<Rightarrow> 'w listener_callback \<Rightarrow> nat \<Rightarrow> bool \<Rightarrow> klass_ref \<Rightarrow>
   byte option list \<times> nat \<times> nat \<times> ('w, 's) reg_scheme \<Rightarrow>
   (byte option list \<times> nat \<times> nat \<times> ('w, 's) reg_scheme) option" where
  "push_class_to_listener e repr callback listener ser k st =
     (case st of (data, data_pos, total_size, s) \<Rightarrow>
        do { (ev, s) \<leftarrow> init_event_klass_info_event k s;
             st \<leftarrow> registry_put e repr callback listener ser ev (data, data_pos, total_size, s);
             ti \<leftarrow> type_info (klasses s k);
             push_fields_from e repr callback listener ser k 0 (ti_fields_count ti) st })"

function push_classes_from ::
  "HT_Endianness \<Rightarrow> (ht_struct \<Rightarrow> byte list) \<Rightarrow> 'w listener_callback \<Rightarrow> nat \<Rightarrow> bool \<Rightarrow> nat \<Rightarrow> nat \<Rightarrow>
   byte option list \<times> nat \<times> nat \<times> ('w, 's) reg_scheme \<Rightarrow>
   (byte option list \<times> nat \<times> nat \<times> ('w, 's) reg_scheme) option" where
  "push_classes_from e repr callback listener ser i n st =
     (if i < n
      then do { k \<leftarrow> ht_bag_nth (event_klass_register (snd (snd (snd st)))) i (rt_mem (snd (snd (snd st))));
                st \<leftarrow> push_class_to_listener e repr callback listener ser k st;
                push_classes_from e repr callback listener ser (i + 1) n st }
      else Some st)"
  by pat_completeness auto
termination
  by (relation "measure (\<lambda>(e, repr, callback, listener, ser, i, n, st). n - i)") auto

declare push_classes_from.simps [simp del]

definition ht_registry_push_registry_klasses_to_listener ::
  "HT_Endianness \<Rightarrow> (ht_struct \<Rightarrow> byte list) \<Rightarrow> 'w listener_callback \<Rightarrow> nat \<Rightarrow> bool \<Rightarrow>
   ('w, 's) reg_scheme \<Rightarrow> (nat \<times> ('w, 's) reg_scheme) option" where
  "ht_registry_push_registry_klasses_to_listener e repr callback listener ser s =
     do { let data = replicate REGISTRY_LISTENER_BUFF_SIZE None;
          mtx \<leftarrow> event_klass_registry_register_mutex s;
          s \<leftarrow> ht_mutex_lock mtx s;
          (data, data_pos, total_size, s) \<leftarrow>
            push_classes_from e repr callback listener ser 0 (bag_size (event_klass_register s)) (data, 0, 0, s);
          s \<leftarrow> ht_mutex_unlock mtx s;
          if data_pos > 0
          then do { bs \<leftarrow> read_bytes data_pos data;
                    w \<leftarrow> callback bs ser listener (world s);
                    Some (total_size + data_pos, s\<lparr>world := w\<rparr>) }
          else Some (total_size, s) }"

section \<open>System information\<close>

definition HT_VERSION :: "nat \<times> nat \<times> nat \<Rightarrow> field_value list" where
  "HT_VERSION v = (case v of (major, minor, patch) \<Rightarrow> [Integer 1 major, Integer 1 minor, Integer 1 patch])"

text \<open>Both functions serialize into a local array of 64 bytes. The version comes from the build.\<close>

definition push_small_event ::
  "HT_Endianness \<Rightarrow> (ht_struct \<Rightarrow> byte list) \<Rightarrow> 'w listener_callback \<Rightarrow> nat \<Rightarrow> bool \<Rightarrow> ht_struct \<Rightarrow>
   ('w, 's) reg_scheme \<Rightarrow> (nat \<times> ('w, 's) reg_scheme) option" where
  "push_small_event e repr callback listener ser ev s =
     do { (n, buf) \<leftarrow> ht_event_utils_serialize_event_to_buffer e repr (klasses s) ev 0 (replicate 64 None) ser;
          bs \<leftarrow> read_bytes n buf;
          w \<leftarrow> callback bs ser listener (world s);
          Some (n, s\<lparr>world := w\<rparr>) }"

definition ht_system_info_push_system_info_to_listener ::
  "nat \<times> nat \<times> nat \<Rightarrow> HT_Endianness \<Rightarrow> (ht_struct \<Rightarrow> byte list) \<Rightarrow> 'w listener_callback \<Rightarrow> nat \<Rightarrow> bool \<Rightarrow>
   ('w, 's) reg_scheme \<Rightarrow> (nat \<times> ('w, 's) reg_scheme) option" where
  "ht_system_info_push_system_info_to_listener version e repr callback listener ser s =
     push_small_event e repr callback listener ser
       (Derived (HT_Event ''HT_SystemInfoEvent'' 0 0) (HT_VERSION version)) s"

definition ht_system_info_push_endianness_info_to_listener ::
  "HT_Endianness \<Rightarrow> (ht_struct \<Rightarrow> byte list) \<Rightarrow> 'w listener_callback \<Rightarrow> nat \<Rightarrow> bool \<Rightarrow>
   ('w, 's) reg_scheme \<Rightarrow> (nat \<times> ('w, 's) reg_scheme) option" where
  "ht_system_info_push_endianness_info_to_listener e repr callback listener ser s =
     push_small_event e repr callback listener ser
       (Derived (HT_Event ''HT_EndiannessInfoEvent'' 0 0) [Integer 1 (unat (endianness_code e))]) s"

definition ht_timeline_listener_push_metadata ::
  "nat \<times> nat \<times> nat \<Rightarrow> HT_Endianness \<Rightarrow> (ht_struct \<Rightarrow> byte list) \<Rightarrow> 'w listener_callback \<Rightarrow> nat \<Rightarrow> bool \<Rightarrow>
   ('w, 's) reg_scheme \<Rightarrow> (nat \<times> ('w, 's) reg_scheme) option" where
  "ht_timeline_listener_push_metadata version e repr callback listener ser s =
     do { (n1, s) \<leftarrow> ht_system_info_push_endianness_info_to_listener e repr callback listener ser s;
          (n2, s) \<leftarrow> ht_registry_push_registry_klasses_to_listener e repr callback listener ser s;
          (n3, s) \<leftarrow> ht_system_info_push_system_info_to_listener version e repr callback listener ser s;
          Some (n1 + n2 + n3, s) }"

section \<open>What is sent to a listener\<close>

text \<open>A listener is handed chunks of bytes, one after the other.\<close>

definition feed :: "'w listener_callback \<Rightarrow> nat \<Rightarrow> bool \<Rightarrow> byte list list \<Rightarrow> 'w \<Rightarrow> 'w option" where
  "feed callback listener ser chunks w = run_ops (\<lambda>bs w. callback bs ser listener w) chunks w"

lemma feed_Nil [simp]: "feed callback listener ser [] w = Some w"
  by (simp add: feed_def)

lemma feed_snoc:
  "feed callback listener ser (chunks @ [bs]) w =
     do { w \<leftarrow> feed callback listener ser chunks w; callback bs ser listener w }"
  by (simp add: feed_def run_ops_append)

text \<open>A callback that returns, and keeps a property \<open>Q\<close> of the world it relies on.\<close>

definition takes :: "('w \<Rightarrow> bool) \<Rightarrow> 'w listener_callback \<Rightarrow> nat \<Rightarrow> bool" where
  "takes Q callback listener \<longleftrightarrow> (\<forall>bs w. Q w \<longrightarrow> (\<exists>w'. callback bs True listener w = Some w' \<and> Q w'))"

lemma takesE:
  assumes "takes Q callback listener" and "Q w"
  obtains w' where "callback bs True listener w = Some w'" and "Q w'"
  using assms unfolding takes_def by blast

lemma takes_feed:
  "takes Q callback listener \<Longrightarrow> Q w \<Longrightarrow> feed callback listener True chunks w = Some w' \<Longrightarrow> Q w'"
proof (induction chunks arbitrary: w)
  case (Cons bs chunks)
  from takesE [OF Cons.prems(1,2), of bs] obtain w1 where "callback bs True listener w = Some w1" "Q w1" by blast
  with Cons show ?case by (simp add: feed_def)
qed simp

lemma takes_feed_returns:
  "takes Q callback listener \<Longrightarrow> Q w \<Longrightarrow> \<exists>w'. feed callback listener True chunks w = Some w' \<and> Q w'"
proof (induction chunks arbitrary: w)
  case (Cons bs chunks)
  from takesE [OF Cons.prems, of bs] obtain w1 where "callback bs True listener w = Some w1" "Q w1" by blast
  with Cons show ?case by (simp add: feed_def)
qed simp

text \<open>The events that describe a class, before they get a timestamp and an identifier.\<close>

definition klass_info_template :: "(klass_ref \<Rightarrow> HT_EventKlass) \<Rightarrow> klass_ref \<Rightarrow> MKCREFLECT_TypeInfo \<Rightarrow> ht_struct" where
  "klass_info_template kl k ti =
     Derived (HT_Event ''HT_EventKlassInfoEvent'' 0 0)
       [Integer 4 (unat (klass_id (kl k))), String (Some (ti_name ti)), Integer 1 (ti_fields_count ti mod 256)]"

definition field_info_template ::
  "(klass_ref \<Rightarrow> HT_EventKlass) \<Rightarrow> klass_ref \<Rightarrow> MKCREFLECT_FieldInfo \<Rightarrow> ht_struct" where
  "field_info_template kl k info =
     Derived (HT_Event ''HT_EventKlassFieldInfoEvent'' 0 0)
       [Integer 4 (unat (klass_id (kl k))), String (Some (fi_field_type info)), String (Some (fi_field_name info)),
        Integer 8 (fi_size info), Integer 1 (unat (field_data_type info))]"

definition klass_templates :: "(klass_ref \<Rightarrow> HT_EventKlass) \<Rightarrow> klass_ref \<Rightarrow> ht_struct list" where
  "klass_templates kl k =
     (case type_info (kl k) of
        None \<Rightarrow> []
      | Some ti \<Rightarrow> klass_info_template kl k ti # map (field_info_template kl k) (ti_fields ti))"

text \<open>The events get successive timestamps and identifiers.\<close>

fun stamp :: "(nat \<Rightarrow> HT_TimestampNs) \<Rightarrow> nat \<Rightarrow> HT_EventId \<Rightarrow> ht_struct list \<Rightarrow> ht_struct list" where
  "stamp clk t i [] = []"
| "stamp clk t i (ev # evs) = set_header (clk t) i ev # stamp clk (t + 1) (i + 1) evs"

definition advance :: "'s rt_scheme \<Rightarrow> 's rt_scheme" where
  "advance s = s\<lparr>rt_ids := (rt_ids s)(None := rt_ids s None + 1), rt_ticks := rt_ticks s + 1\<rparr>"

fun put_all ::
  "HT_Endianness \<Rightarrow> (ht_struct \<Rightarrow> byte list) \<Rightarrow> 'w listener_callback \<Rightarrow> nat \<Rightarrow> bool \<Rightarrow> ht_struct list \<Rightarrow>
   byte option list \<times> nat \<times> nat \<times> ('w, 's) reg_scheme \<Rightarrow>
   (byte option list \<times> nat \<times> nat \<times> ('w, 's) reg_scheme) option" where
  "put_all e repr callback listener ser [] st = Some st"
| "put_all e repr callback listener ser (ev # evs) (data, data_pos, total_size, s) =
     do { st \<leftarrow> registry_put e repr callback listener ser (set_header (rt_clock s (rt_ticks s)) (rt_ids s None) ev)
                  (data, data_pos, total_size, advance s);
          put_all e repr callback listener ser evs st }"

lemma put_all_append:
  "put_all e repr cb l ser (xs @ ys) st = do { st \<leftarrow> put_all e repr cb l ser xs st; put_all e repr cb l ser ys st }"
proof (induction xs arbitrary: st)
  case (Cons ev evs)
  obtain data pos tot s where st: "st = (data, pos, tot, s)" by (cases st)
  let ?p = "registry_put e repr cb l ser (set_header (rt_clock s (rt_ticks s)) (rt_ids s None) ev)
              (data, pos, tot, advance s)"
  from Cons show ?case unfolding st by (cases ?p) simp_all
qed simp

text \<open>What a step does not change.\<close>

definition same_registry :: "('w, 's) reg_scheme \<Rightarrow> ('w, 's) reg_scheme \<Rightarrow> bool" where
  "same_registry s s' \<longleftrightarrow>
     (\<exists>w ids t. s' = s\<lparr>world := w, rt_ids := ids, rt_ticks := t\<rparr>)"

lemma same_registry_refl: "same_registry s s"
  unfolding same_registry_def
  by (intro exI [of _ "world s"] exI [of _ "rt_ids s"] exI [of _ "rt_ticks s"]) simp

lemma same_registry_trans: "same_registry s s' \<Longrightarrow> same_registry s' s'' \<Longrightarrow> same_registry s s''"
  unfolding same_registry_def by (elim exE) (simp, blast)

lemma same_registryD:
  "same_registry s s' \<Longrightarrow> klasses s' = klasses s \<and> rt_mem s' = rt_mem s \<and> rt_locks s' = rt_locks s \<and>
     event_klass_register s' = event_klass_register s \<and> rt_clock s' = rt_clock s"
  by (auto simp: same_registry_def)

lemma same_registry_advance: "same_registry s s' \<Longrightarrow> same_registry s (advance s')"
  unfolding same_registry_def advance_def by (elim exE) (simp, blast)

lemma registry_put_keeps:
  assumes "registry_put e repr cb l ser ev (data, pos, tot, s) = Some (data', pos', tot', s')"
  shows "same_registry s s'" and "rt_ids s' = rt_ids s" and "rt_ticks s' = rt_ticks s"
proof -
  from assms have "s' = s \<or> (\<exists>w. s' = s\<lparr>world := w\<rparr>)"
    by (auto simp: registry_put_def bind_eq_Some_conv split: if_splits)
  moreover have "same_registry s (s\<lparr>world := w\<rparr>)" for w
    unfolding same_registry_def
    by (intro exI [of _ w] exI [of _ "rt_ids s"] exI [of _ "rt_ticks s"]) simp
  ultimately show "same_registry s s'" "rt_ids s' = rt_ids s" "rt_ticks s' = rt_ticks s"
    by (auto intro: same_registry_refl)
qed

lemma put_all_keeps:
  "put_all e repr cb l ser evs (data, pos, tot, s) = Some (data', pos', tot', s') \<Longrightarrow> same_registry s s'"
proof (induction evs arbitrary: data pos tot s)
  case Nil
  then show ?case by (simp add: same_registry_refl)
next
  case (Cons ev evs)
  then obtain d p t s1 where
    put: "registry_put e repr cb l ser (set_header (rt_clock s (rt_ticks s)) (rt_ids s None) ev)
            (data, pos, tot, advance s) = Some (d, p, t, s1)"
    and rest: "put_all e repr cb l ser evs (d, p, t, s1) = Some (data', pos', tot', s')"
    by (auto simp: bind_eq_Some_conv)
  from registry_put_keeps(1) [OF put] Cons.IH [OF rest] same_registry_refl [of s] show ?case
    by (blast intro: same_registry_trans same_registry_advance)
qed

lemma init_klass_info:
  "type_info (klasses s k) = Some ti \<Longrightarrow>
     init_event_klass_info_event k s =
       Some (set_header (rt_clock s (rt_ticks s)) (rt_ids s None) (klass_info_template (klasses s) k ti), advance s)"
  by (simp add: init_event_klass_info_event_def ht_event_id_provider_next_def advance_def
      ht_event_id_provider_get_default_def ht_monotonic_clock_get_timestamp_def klass_info_template_def)

lemma init_field_info:
  "type_info (klasses s k) = Some ti \<Longrightarrow> j < length (ti_fields ti) \<Longrightarrow>
     init_event_klass_field_info_event k j s =
       Some (set_header (rt_clock s (rt_ticks s)) (rt_ids s None) (field_info_template (klasses s) k (ti_fields ti ! j)),
             advance s)"
  by (simp add: init_event_klass_field_info_event_def ht_event_id_provider_next_def advance_def
      ht_event_id_provider_get_default_def ht_monotonic_clock_get_timestamp_def field_info_template_def)

lemma push_fields_put_all:
  assumes "type_info (klasses s k) = Some ti" and "j \<le> length (ti_fields ti)"
  shows "push_fields_from e repr cb l ser k j (length (ti_fields ti)) (data, pos, tot, s) =
    put_all e repr cb l ser (map (field_info_template (klasses s) k) (drop j (ti_fields ti))) (data, pos, tot, s)"
  using assms
proof (induction "length (ti_fields ti) - j" arbitrary: j data pos tot s)
  case 0
  then show ?case by (subst push_fields_from.simps) simp
next
  case (Suc d)
  then have j: "j < length (ti_fields ti)" by simp
  then have drop: "drop j (ti_fields ti) = ti_fields ti ! j # drop (Suc j) (ti_fields ti)"
    by (simp add: Cons_nth_drop_Suc)
  let ?ev = "set_header (rt_clock s (rt_ticks s)) (rt_ids s None) (field_info_template (klasses s) k (ti_fields ti ! j))"
  show ?case
  proof (cases "registry_put e repr cb l ser ?ev (data, pos, tot, advance s)")
    case None
    with j init_field_info [OF Suc.prems(1) j] drop show ?thesis
      by (subst push_fields_from.simps) simp
  next
    case (Some st)
    obtain d' p' t' s' where st: "st = (d', p', t', s')" by (cases st)
    have "same_registry s s'"
      using registry_put_keeps(1) [OF Some [unfolded st]] same_registry_advance [OF same_registry_refl]
      by (blast intro: same_registry_trans)
    then have "klasses s' = klasses s" by (simp add: same_registryD)
    with Suc.hyps(1) [of "Suc j" s' d' p' t'] Suc.hyps(2) Suc.prems j Some st
      init_field_info [OF Suc.prems(1) j] drop
    show ?thesis by (subst push_fields_from.simps) simp
  qed
qed

text \<open>A class whose type information counts its fields right.\<close>

definition klass_ready :: "(klass_ref \<Rightarrow> HT_EventKlass) \<Rightarrow> klass_ref \<Rightarrow> bool" where
  "klass_ready kl k \<longleftrightarrow> (\<exists>ti. type_info (kl k) = Some ti \<and> ti_fields_count ti = length (ti_fields ti))"

lemma push_class_put_all:
  assumes "klass_ready (klasses s) k"
  shows "push_class_to_listener e repr cb l ser k (data, pos, tot, s) =
    put_all e repr cb l ser (klass_templates (klasses s) k) (data, pos, tot, s)"
proof -
  from assms obtain ti where ti: "type_info (klasses s k) = Some ti" "ti_fields_count ti = length (ti_fields ti)"
    by (auto simp: klass_ready_def)
  let ?ev = "set_header (rt_clock s (rt_ticks s)) (rt_ids s None) (klass_info_template (klasses s) k ti)"
  show ?thesis
  proof (cases "registry_put e repr cb l ser ?ev (data, pos, tot, advance s)")
    case None
    with ti init_klass_info [OF ti(1)] show ?thesis
      by (simp add: push_class_to_listener_def klass_templates_def)
  next
    case (Some st)
    obtain d' p' t' s' where st: "st = (d', p', t', s')" by (cases st)
    have "same_registry s s'"
      using registry_put_keeps(1) [OF Some [unfolded st]] same_registry_advance [OF same_registry_refl]
      by (blast intro: same_registry_trans)
    then have "klasses s' = klasses s" by (simp add: same_registryD)
    with Some st ti init_klass_info [OF ti(1)] push_fields_put_all [of s' k ti 0 e repr cb l ser d' p' t']
    show ?thesis by (simp add: push_class_to_listener_def klass_templates_def advance_def)
  qed
qed

lemma push_classes_put_all:
  assumes "bag_inv sizeof_void_ptr (event_klass_register s) (rt_mem s)"
    and "\<forall>k\<in>set (bag_list (event_klass_register s)). klass_ready (klasses s) k"
    and "i \<le> bag_size (event_klass_register s)"
  shows "push_classes_from e repr cb l ser i (bag_size (event_klass_register s)) (data, pos, tot, s) =
    put_all e repr cb l ser
      (concat (map (klass_templates (klasses s)) (drop i (bag_list (event_klass_register s))))) (data, pos, tot, s)"
  using assms
proof (induction "bag_size (event_klass_register s) - i" arbitrary: i data pos tot s)
  case 0
  then show ?case using length_bag_list [OF 0(2)] by (subst push_classes_from.simps) simp
next
  case (Suc d)
  let ?b = "event_klass_register s"
  have i: "i < bag_size ?b" "i < length (bag_list ?b)"
    using Suc.hyps(2) length_bag_list [OF Suc.prems(1)] by simp_all
  then have drop: "drop i (bag_list ?b) = bag_list ?b ! i # drop (Suc i) (bag_list ?b)"
    by (simp add: Cons_nth_drop_Suc)
  have nth: "ht_bag_nth ?b i (rt_mem s) = Some (bag_list ?b ! i)"
    using bag_nth_ok [OF Suc.prems(1) i(1)] .
  have ready: "klass_ready (klasses s) (bag_list ?b ! i)" using Suc.prems(2) i by simp
  note one = push_class_put_all [OF ready, of e repr cb l ser data pos tot]
  show ?case
  proof (cases "put_all e repr cb l ser (klass_templates (klasses s) (bag_list ?b ! i)) (data, pos, tot, s)")
    case None
    with i nth one drop show ?thesis
      by (subst push_classes_from.simps) (simp add: put_all_append)
  next
    case (Some st)
    obtain d' p' t' s' where st: "st = (d', p', t', s')" by (cases st)
    have same: "same_registry s s'" using Some [unfolded st] by (rule put_all_keeps)
    have "push_classes_from e repr cb l ser (Suc i) (bag_size ?b) (d', p', t', s') =
        put_all e repr cb l ser (concat (map (klass_templates (klasses s)) (drop (Suc i) (bag_list ?b)))) (d', p', t', s')"
      using Suc.hyps(1) [of s' "Suc i" d' p' t'] Suc.hyps(2) Suc.prems same_registryD [OF same] i by simp
    with i nth one drop Some st show ?thesis
      by (subst push_classes_from.simps) (simp add: put_all_append)
  qed
qed

text \<open>
  The bytes handed over so far, followed by the bytes that wait in the buffer, are \<open>out\<close>; no
  chunk is larger than the buffer.
\<close>

definition put_state ::
  "'w listener_callback \<Rightarrow> nat \<Rightarrow> 'w \<Rightarrow> byte list \<Rightarrow> byte option list \<times> nat \<times> nat \<times> ('w, 's) reg_scheme \<Rightarrow> bool" where
  "put_state cb l w0 out st \<longleftrightarrow>
     (case st of (data, pos, tot, s) \<Rightarrow>
        length data = REGISTRY_LISTENER_BUFF_SIZE \<and> filled pos data \<and>
        (\<exists>chunks. feed cb l True chunks w0 = Some (world s) \<and> concat chunks @ contents pos data = out \<and>
           tot = length (concat chunks) \<and> (\<forall>c\<in>set chunks. length c \<le> REGISTRY_LISTENER_BUFF_SIZE)))"

lemma registry_put_ok:
  assumes st: "put_state cb l w0 out (data, pos, tot, s)" and ev: "plain_event ev"
    "get_size ev \<le> REGISTRY_LISTENER_BUFF_SIZE" and cb: "takes Q cb l" "Q w0"
  shows "\<exists>st'. registry_put e repr cb l True ev (data, pos, tot, s) = Some st' \<and>
           put_state cb l w0 (out @ event_bytes e (klasses s) ev) st'"
proof -
  let ?B = REGISTRY_LISTENER_BUFF_SIZE and ?bs = "event_bytes e (klasses s) ev"
  from st obtain chunks where len: "length data = ?B" and fl: "filled pos data"
    and f: "feed cb l True chunks w0 = Some (world s)" and out: "concat chunks @ contents pos data = out"
    and tot: "tot = length (concat chunks)" and small: "\<forall>c\<in>set chunks. length c \<le> ?B"
    by (auto simp: put_state_def)
  from fl len have pos: "pos \<le> ?B" by (simp add: filled_def)
  have sub: "size_sub ?B pos = ?B - pos"
    using pos by (simp add: size_sub_le REGISTRY_LISTENER_BUFF_SIZE_def SIZE_MODULUS_def)
  have bytes: "length ?bs = get_size ev" using ev(1) by (rule length_event_bytes)
  show ?thesis
  proof (cases "get_size ev > ?B - pos")
    case False
    then have "pos + get_size ev \<le> length data" using len pos by simp
    note ser = serialize_ok [OF ev(1) this, of e "klasses s"]
    have room: "pos + length ?bs \<le> length data" using False len pos bytes by simp
    have "registry_put e repr cb l True ev (data, pos, tot, s) =
        Some (write_cells pos ?bs data, pos + get_size ev, tot, s)"
      using False ser by (simp add: registry_put_def sub ht_event_utils_serialize_event_to_buffer_def)
    moreover have "put_state cb l w0 (out @ ?bs) (write_cells pos ?bs data, pos + get_size ev, tot, s)"
      using f out tot small len room write_cells_append [OF fl room] bytes
      by (auto simp: put_state_def intro!: exI [of _ chunks])
    ultimately show ?thesis by blast
  next
    case True
    from takesE [OF cb(1) takes_feed [OF cb f]] obtain w where w: "cb (contents pos data) True l (world s) = Some w"
      by blast
    have le: "0 + get_size ev \<le> length data" using ev(2) len by simp
    note ser = serialize_ok [OF ev(1) le, of e "klasses s"]
    have room: "0 + length ?bs \<le> length data" using le bytes by simp
    have "registry_put e repr cb l True ev (data, pos, tot, s) =
        Some (write_cells 0 ?bs data, get_size ev, tot + pos, s\<lparr>world := w\<rparr>)"
      using True ser fl w
      by (simp add: registry_put_def sub ht_event_utils_serialize_event_to_buffer_def read_bytes_def)
    moreover have "put_state cb l w0 (out @ ?bs) (write_cells 0 ?bs data, get_size ev, tot + pos, s\<lparr>world := w\<rparr>)"
      using f out tot small len fl pos room write_cells_append [OF filled_0 room] bytes w
      by (auto simp: put_state_def feed_snoc intro!: exI [of _ "chunks @ [contents pos data]"])
    ultimately show ?thesis by blast
  qed
qed

lemma get_size_set_header [simp]: "get_size (set_header t i ev) = get_size ev"
  by (induction ev rule: plain_event.induct) simp_all

lemma plain_set_header [simp]: "plain_event (set_header t i ev) = plain_event ev"
  by (induction ev rule: plain_event.induct) simp_all

lemma put_all_ok:
  assumes "put_state cb l w0 out (data, pos, tot, s)"
    and "\<forall>ev\<in>set evs. plain_event ev \<and> get_size ev \<le> REGISTRY_LISTENER_BUFF_SIZE"
    and cb: "takes Q cb l" "Q w0"
  shows "\<exists>st'. put_all e repr cb l True evs (data, pos, tot, s) = Some st' \<and>
    put_state cb l w0 (out @ concat (map (event_bytes e (klasses s)) (stamp (rt_clock s) (rt_ticks s) (rt_ids s None) evs))) st'"
  using assms(1,2)
proof (induction evs arbitrary: out data pos tot s)
  case (Cons ev evs)
  let ?ev = "set_header (rt_clock s (rt_ticks s)) (rt_ids s None) ev"
  have "put_state cb l w0 out (data, pos, tot, advance s)"
    using Cons.prems(1) by (simp add: put_state_def advance_def)
  from registry_put_ok [OF this, of ?ev Q e repr] Cons.prems(2) cb obtain d1 p1 t1 s1 where
    put: "registry_put e repr cb l True ?ev (data, pos, tot, advance s) = Some (d1, p1, t1, s1)"
    and st1: "put_state cb l w0 (out @ event_bytes e (klasses s) ?ev) (d1, p1, t1, s1)"
    by (auto simp: advance_def)
  have "klasses s1 = klasses s" "rt_clock s1 = rt_clock s" "rt_ticks s1 = rt_ticks s + 1"
    "rt_ids s1 None = rt_ids s None + 1"
    using registry_put_keeps [OF put] same_registryD [OF registry_put_keeps(1) [OF put]]
    by (simp_all add: advance_def)
  with Cons.IH [OF st1] Cons.prems(2) put show ?case by simp
qed simp

text \<open>The events that describe all classes of the register, and the condition to send them.\<close>

definition registry_templates :: "('w, 's) reg_scheme \<Rightarrow> ht_struct list" where
  "registry_templates s = concat (map (klass_templates (klasses s)) (bag_list (event_klass_register s)))"

definition registry_bytes :: "HT_Endianness \<Rightarrow> ('w, 's) reg_scheme \<Rightarrow> byte list" where
  "registry_bytes e s =
     concat (map (event_bytes e (klasses s)) (stamp (rt_clock s) (rt_ticks s) (rt_ids s None) (registry_templates s)))"

definition describable :: "('w, 's) reg_scheme \<Rightarrow> bool" where
  "describable s \<longleftrightarrow>
     bag_inv sizeof_void_ptr (event_klass_register s) (rt_mem s) \<and>
     (\<forall>k\<in>set (bag_list (event_klass_register s)). klass_ready (klasses s) k) \<and>
     (\<forall>ev\<in>set (registry_templates s). get_size ev \<le> REGISTRY_LISTENER_BUFF_SIZE) \<and>
     (\<exists>mtx. event_klass_registry_register_mutex s = Some mtx \<and> mutex_free mtx s)"

lemma templates_plain: "ev \<in> set (registry_templates s) \<Longrightarrow> plain_event ev"
  by (auto simp: registry_templates_def klass_templates_def klass_info_template_def field_info_template_def
      split: option.splits)

lemma push_registry_ok:
  assumes ok: "describable s" and cb: "takes Q cb l" "Q (world s)"
  shows "\<exists>s' chunks. ht_registry_push_registry_klasses_to_listener e repr cb l True s =
             Some (length (concat chunks), s') \<and>
           feed cb l True chunks (world s) = Some (world s') \<and> concat chunks = registry_bytes e s \<and>
           (\<forall>c\<in>set chunks. length c \<le> REGISTRY_LISTENER_BUFF_SIZE) \<and> same_registry s s'"
proof -
  let ?B = REGISTRY_LISTENER_BUFF_SIZE
  from ok obtain mtx where mtx: "event_klass_registry_register_mutex s = Some mtx" "rt_locks s mtx = Some False"
    and bag: "bag_inv sizeof_void_ptr (event_klass_register s) (rt_mem s)"
    and ready: "\<forall>k\<in>set (bag_list (event_klass_register s)). klass_ready (klasses s) k"
    and size: "\<forall>ev\<in>set (registry_templates s). get_size ev \<le> ?B"
    by (auto simp: describable_def mutex_free_def)
  let ?s = "s\<lparr>rt_locks := (rt_locks s)(mtx \<mapsto> True)\<rparr>"
  let ?d = "replicate ?B None :: byte option list"
  have "put_state cb l (world s) [] (?d, 0, 0, ?s)"
    by (auto simp: put_state_def intro!: exI [of _ "[]"])
  moreover have "\<forall>ev\<in>set (registry_templates s). plain_event ev" by (blast intro: templates_plain)
  ultimately obtain d1 p1 t1 s1 where
    all: "put_all e repr cb l True (registry_templates s) (?d, 0, 0, ?s) = Some (d1, p1, t1, s1)"
    and st: "put_state cb l (world s) (registry_bytes e s) (d1, p1, t1, s1)"
    using put_all_ok [of cb l "world s" "[]" ?d 0 0 ?s "registry_templates s" Q e repr] size cb
    by (auto simp: registry_bytes_def)
  have "same_registry ?s s1" using all by (rule put_all_keeps)
  then obtain w ids t where s1: "s1 = ?s\<lparr>world := w, rt_ids := ids, rt_ticks := t\<rparr>"
    by (auto simp: same_registry_def)
  let ?s1 = "s\<lparr>world := w, rt_ids := ids, rt_ticks := t\<rparr>"
  have push: "push_classes_from e repr cb l True 0 (bag_size (event_klass_register s)) (?d, 0, 0, ?s) =
      Some (d1, p1, t1, s1)"
    using push_classes_put_all [of ?s 0 e repr cb l True ?d 0 0] bag ready all
    by (simp add: registry_templates_def)
  have unlock: "ht_mutex_unlock mtx s1 = Some ?s1"
    using mtx by (simp add: s1 ht_mutex_unlock_def fun_upd_idem)
  from st obtain chunks where fl: "filled p1 d1" and f: "feed cb l True chunks (world s) = Some w"
    and out: "concat chunks @ contents p1 d1 = registry_bytes e s" and tot: "t1 = length (concat chunks)"
    and small: "\<forall>c\<in>set chunks. length c \<le> ?B" and len: "length d1 = ?B"
    by (auto simp: put_state_def s1)
  have same: "same_registry s (?s1\<lparr>world := v\<rparr>)" for v
    unfolding same_registry_def by (intro exI [of _ v] exI [of _ ids] exI [of _ t]) simp
  show ?thesis
  proof (cases "p1 > 0")
    case False
    then have "ht_registry_push_registry_klasses_to_listener e repr cb l True s = Some (t1, ?s1)"
      using mtx push unlock by (simp add: ht_registry_push_registry_klasses_to_listener_def ht_mutex_lock_def)
    moreover have "same_registry s ?s1" by (auto simp: same_registry_def)
    ultimately show ?thesis using False f out tot small by (intro exI [of _ ?s1] exI [of _ chunks]) simp
  next
    case True
    from takesE [OF cb(1) takes_feed [OF cb f]] obtain w' where w': "cb (contents p1 d1) True l w = Some w'" by blast
    have "ht_registry_push_registry_klasses_to_listener e repr cb l True s = Some (t1 + p1, ?s1\<lparr>world := w'\<rparr>)"
      using True mtx push unlock fl w'
      by (simp add: ht_registry_push_registry_klasses_to_listener_def ht_mutex_lock_def read_bytes_def)
    moreover have "p1 \<le> ?B" using fl len by (simp add: filled_def)
    moreover have "length (concat chunks) + p1 = length (registry_bytes e s)"
      unfolding out [symmetric] using fl by simp
    ultimately show ?thesis
      using f out tot small fl w' same [of w']
      by (intro exI [of _ "?s1\<lparr>world := w'\<rparr>"] exI [of _ "chunks @ [contents p1 d1]"]) (auto simp: feed_snoc)
  qed
qed

lemma push_small_ok:
  assumes "plain_event ev" and "get_size ev \<le> 64" and "takes Q cb l" and "Q (world s)"
  shows "\<exists>w. push_small_event e repr cb l True ev s = Some (get_size ev, s\<lparr>world := w\<rparr>) \<and>
             cb (event_bytes e (klasses s) ev) True l (world s) = Some w"
proof -
  let ?bs = "event_bytes e (klasses s) ev"
  have bytes: "length ?bs = get_size ev" using assms(1) by (rule length_event_bytes)
  have "0 + get_size ev \<le> length (replicate 64 (None :: byte option))" using assms(2) by simp
  note ser = serialize_ok [OF assms(1) this, of e "klasses s"]
  have "0 + length ?bs \<le> length (replicate 64 (None :: byte option))" using assms(2) bytes by simp
  note w = write_cells_append [OF filled_0 this]
  obtain v where "cb ?bs True l (world s) = Some v" using takesE [OF assms(3,4)] by blast
  with ser w bytes show ?thesis
    by (simp add: push_small_event_def ht_event_utils_serialize_event_to_buffer_def read_bytes_def)
qed

text \<open>All that a new listener is told.\<close>

definition metadata_bytes :: "nat \<times> nat \<times> nat \<Rightarrow> HT_Endianness \<Rightarrow> ('w, 's) reg_scheme \<Rightarrow> byte list" where
  "metadata_bytes version e s =
     event_bytes e (klasses s) (Derived (HT_Event ''HT_EndiannessInfoEvent'' 0 0) [Integer 1 (unat (endianness_code e))]) @
     registry_bytes e s @
     event_bytes e (klasses s) (Derived (HT_Event ''HT_SystemInfoEvent'' 0 0) (HT_VERSION version))"

lemma describable_world: "describable (s\<lparr>world := w\<rparr>) = describable s"
  by (simp add: describable_def registry_templates_def mutex_free_def)

lemma registry_bytes_world: "registry_bytes e (s\<lparr>world := w\<rparr>) = registry_bytes e s"
  by (simp add: registry_bytes_def registry_templates_def)

lemma metadata_bytes_world: "metadata_bytes version e (s\<lparr>world := w\<rparr>) = metadata_bytes version e s"
  by (simp add: metadata_bytes_def registry_bytes_world)

lemmas world_simps = describable_world registry_bytes_world metadata_bytes_world

lemma feed_Cons:
  "feed callback listener ser (bs # chunks) w = do { w \<leftarrow> callback bs ser listener w; feed callback listener ser chunks w }"
  by (simp add: feed_def)

lemma push_metadata_ok:
  assumes ok: "describable s" and cb: "takes Q cb l" "Q (world s)"
  shows "\<exists>s' chunks. ht_timeline_listener_push_metadata version e repr cb l True s =
             Some (length (metadata_bytes version e s), s') \<and>
           feed cb l True chunks (world s) = Some (world s') \<and> concat chunks = metadata_bytes version e s \<and>
           same_registry s s'"
proof -
  let ?e1 = "Derived (HT_Event ''HT_EndiannessInfoEvent'' 0 0) [Integer 1 (unat (endianness_code e))]"
  let ?e3 = "Derived (HT_Event ''HT_SystemInfoEvent'' 0 0) (HT_VERSION version)"
  have ev: "plain_event ?e1" "get_size ?e1 = 21" "plain_event ?e3" "get_size ?e3 = 23"
    by (cases version; simp add: HT_VERSION_def)+
  from push_small_ok [OF ev(1) _ cb, of e repr] ev(2) obtain w1 where
    p1: "push_small_event e repr cb l True ?e1 s = Some (21, s\<lparr>world := w1\<rparr>)"
    and c1: "cb (event_bytes e (klasses s) ?e1) True l (world s) = Some w1" by auto
  have q1: "Q (world (s\<lparr>world := w1\<rparr>))" using takesE [OF cb, of "event_bytes e (klasses s) ?e1"] c1 by auto
  have d1: "describable (s\<lparr>world := w1\<rparr>)" "registry_bytes e (s\<lparr>world := w1\<rparr>) = registry_bytes e s"
    using ok by (simp_all add: world_simps)
  from push_registry_ok [OF d1(1) cb(1) q1, of e repr] d1(2) obtain s2 chunks where
    p2: "ht_registry_push_registry_klasses_to_listener e repr cb l True (s\<lparr>world := w1\<rparr>) =
      Some (length (concat chunks), s2)" and f2: "feed cb l True chunks w1 = Some (world s2)"
    and c2: "concat chunks = registry_bytes e s" and same: "same_registry (s\<lparr>world := w1\<rparr>) s2" by auto
  have "Q (world s2)" using takes_feed [OF cb(1) _ f2] q1 by simp
  from push_small_ok [OF ev(3) _ cb(1) this, of e repr] ev(4) same_registryD [OF same] obtain w3 where
    p3: "push_small_event e repr cb l True ?e3 s2 = Some (23, s2\<lparr>world := w3\<rparr>)"
    and c3: "cb (event_bytes e (klasses s) ?e3) True l (world s2) = Some w3" by auto
  have "feed cb l True ((event_bytes e (klasses s) ?e1 # chunks) @ [event_bytes e (klasses s) ?e3]) (world s) = Some w3"
    unfolding feed_snoc feed_Cons using c1 f2 c3 by simp
  moreover have "same_registry s (s2\<lparr>world := w3\<rparr>)"
  proof -
    from same obtain w ids t where "s2 = s\<lparr>world := w1, world := w, rt_ids := ids, rt_ticks := t\<rparr>"
      by (auto simp: same_registry_def)
    then have "s2\<lparr>world := w3\<rparr> = s\<lparr>world := w3, rt_ids := ids, rt_ticks := t\<rparr>" by simp
    then show ?thesis unfolding same_registry_def by blast
  qed
  moreover have "length (metadata_bytes version e s) = 21 + length (concat chunks) + 23"
    using length_event_bytes [OF ev(1), of e "klasses s"] length_event_bytes [OF ev(3), of e "klasses s"] ev(2,4) c2
    by (simp add: metadata_bytes_def)
  ultimately show ?thesis
    using p1 p2 p3 c2
    by (intro exI [of _ "s2\<lparr>world := w3\<rparr>"]
        exI [of _ "(event_bytes e (klasses s) ?e1 # chunks) @ [event_bytes e (klasses s) ?e3]"])
      (simp add: ht_timeline_listener_push_metadata_def ht_system_info_push_endianness_info_to_listener_def
        ht_system_info_push_system_info_to_listener_def metadata_bytes_def del: event_bytes.simps)
qed

section \<open>The register of classes\<close>

text \<open>
  The classes of the register are different, and the identifier of a class is its position in
  it; a class that is not in the register has the invalid identifier.
\<close>

definition registered :: "('w, 's) reg_scheme \<Rightarrow> klass_ref list" where
  "registered s = bag_list (event_klass_register s)"

definition klass_ids_ok :: "('w, 's) reg_scheme \<Rightarrow> bool" where
  "klass_ids_ok s \<longleftrightarrow>
     distinct (registered s) \<and> length (registered s) < 2 ^ 32 \<and>
     (\<forall>i<length (registered s). klass_id (klasses s (registered s ! i)) = word_of_nat i) \<and>
     (\<forall>k. k \<notin> set (registered s) \<longrightarrow> klass_id (klasses s k) = HT_INVALID_KLASS_ID)"

definition klass_register_inv :: "('w, 's) reg_scheme \<Rightarrow> bool" where
  "klass_register_inv s \<longleftrightarrow>
     alloc_wf (rt_mem s) \<and> bag_inv sizeof_void_ptr (event_klass_register s) (rt_mem s) \<and> klass_ids_ok s \<and>
     (\<exists>mtx. event_klass_registry_register_mutex s = Some mtx \<and> mutex_free mtx s \<and>
        mtx \<noteq> bag_block (event_klass_register s))"

lemma word_of_nat_not_minus_1: "i < 2 ^ 32 - 1 \<Longrightarrow> (word_of_nat i :: u32) \<noteq> - 1"
proof
  assume i: "i < 2 ^ 32 - 1" and eq: "(word_of_nat i :: u32) = - 1"
  from i have "unat (word_of_nat i :: u32) = i" by (simp add: unat_of_nat)
  with eq i show False by (simp add: unsigned_minus_1_eq_mask mask_eq_exp_minus_1)
qed

lemma register_klass_known:
  assumes "klass_register_inv s" and "k \<in> set (registered s)" and "length (registered s) < 2 ^ 32 - 1"
  shows "\<exists>i<length (registered s). registered s ! i = k \<and>
           ht_registry_register_event_klass k s = Some (word_of_nat i, s)"
proof -
  from assms(2) obtain i where i: "i < length (registered s)" "registered s ! i = k"
    by (auto simp: in_set_conv_nth)
  with assms(1) have "klass_id (klasses s k) = word_of_nat i"
    by (auto simp: klass_register_inv_def klass_ids_ok_def)
  moreover have "(word_of_nat i :: u32) \<noteq> HT_INVALID_KLASS_ID"
    using i assms(3) word_of_nat_not_minus_1 [of i] by (simp add: HT_INVALID_KLASS_ID_def)
  ultimately show ?thesis
    using i by (intro exI [of _ i]) (simp add: ht_registry_register_event_klass_def)
qed

lemma register_klass_new:
  assumes inv: "klass_register_inv s" and new: "k \<notin> set (registered s)" and lt: "length (registered s) < 2 ^ 32 - 1"
  shows "\<exists>kid s'. ht_registry_register_event_klass k s = Some (kid, s') \<and> klass_register_inv s' \<and>
           rt_locks s' = rt_locks s \<and>
           (\<forall>j. type_info (klasses s' j) = type_info (klasses s j)) \<and>
           footprint {bag_block (event_klass_register s)} (rt_mem s) {bag_block (event_klass_register s')} (rt_mem s') \<and>
           (if kid = HT_INVALID_KLASS_ID then registered s' = registered s \<and> klasses s' = klasses s
            else registered s' = registered s @ [k] \<and> kid = word_of_nat (length (registered s)))"
proof -
  let ?b = "event_klass_register s" and ?n = "length (registered s)"
  from inv obtain mtx where bag: "bag_inv sizeof_void_ptr ?b (rt_mem s)" and wf: "alloc_wf (rt_mem s)"
    and ids: "klass_ids_ok s"
    and mtx: "event_klass_registry_register_mutex s = Some mtx" "mutex_free mtx s" "mtx \<noteq> bag_block ?b"
    by (auto simp: klass_register_inv_def)
  from ids new have inval: "klass_id (klasses s k) = HT_INVALID_KLASS_ID" by (simp add: klass_ids_ok_def)
  have lk: "rt_locks s mtx = Some False" using mtx(2) by (simp add: mutex_free_def)
  have sz: "bag_size ?b = ?n" using length_bag_list [OF bag] by (simp add: registered_def)
  show ?thesis
  proof (cases rule: bag_add_cases [OF bag wf, of k])
    case (1 m)
    let ?s = "s\<lparr>rt_mem := m\<rparr>"
    have "ht_registry_register_event_klass k s = Some (HT_INVALID_KLASS_ID, ?s)"
      using 1 inval mtx lk
      by (simp add: ht_registry_register_event_klass_def ht_mutex_lock_def ht_mutex_unlock_def fun_upd_idem)
    moreover have "klass_register_inv ?s"
      using inv 1(2,3) bag_inv_same_live [OF bag 1(3)]
      by (auto simp: klass_register_inv_def klass_ids_ok_def registered_def mutex_free_def)
    moreover have "footprint {bag_block ?b} (rt_mem s) {bag_block (event_klass_register ?s)} (rt_mem ?s)"
      using 1(3) bag by (auto intro!: footprint_same dest: bag_inv_block)
    ultimately show ?thesis by (intro exI [of _ HT_INVALID_KLASS_ID] exI [of _ ?s]) (simp add: registered_def)
  next
    case (2 b m)
    let ?kid = "word_of_nat ?n :: u32"
    let ?s = "s\<lparr>rt_mem := m, event_klass_register := b,
                klasses := (klasses s)(k := (klasses s k)\<lparr>klass_id := ?kid\<rparr>)\<rparr>"
    have bs: "bag_size b = Suc ?n" using length_bag_list [OF 2(3)] 2(4) by (simp add: registered_def)
    have "ht_registry_register_event_klass k s = Some (?kid, ?s)"
      using 2(1) inval mtx lk bs
      by (simp add: ht_registry_register_event_klass_def ht_mutex_lock_def ht_mutex_unlock_def fun_upd_idem)
    moreover have reg: "registered ?s = registered s @ [k]" using 2(4) by (simp add: registered_def)
    moreover have "klass_ids_ok ?s"
      using ids new lt unfolding klass_ids_ok_def reg
      by (auto simp: nth_append less_Suc_eq in_set_conv_nth)
    moreover have "live m mtx \<noteq> None" "mtx \<noteq> bag_block b"
      using moved_frame [OF 2(6), of mtx] moved_fresh [OF 2(6), of mtx] mtx by (auto simp: mutex_free_def)
    then have "mutex_free mtx ?s" using lk by (simp add: mutex_free_def)
    ultimately show ?thesis
      using 2(2,3) mtx \<open>mtx \<noteq> bag_block b\<close> word_of_nat_not_minus_1 [OF lt] moved_footprint [OF 2(6)]
      by (intro exI [of _ ?kid] exI [of _ ?s])
        (auto simp: klass_register_inv_def HT_INVALID_KLASS_ID_def)
  qed
qed

section \<open>Properties\<close>

text \<open>
  C13. Registering an event class gives it an identifier once: a class that is known keeps its
  identifier and nothing changes; a new one is appended and gets its position in the register, so
  different classes never share an identifier; if memory runs out, the result is the invalid
  identifier and the register is as before. No other class changes its identifier.
\<close>

theorem register_event_klass_once:
  assumes "klass_register_inv s" and "length (registered s) < 2 ^ 32 - 1"
  shows "\<exists>kid s'. ht_registry_register_event_klass k s = Some (kid, s') \<and> klass_register_inv s' \<and>
           (\<forall>j\<in>set (registered s). klass_id (klasses s' j) = klass_id (klasses s j)) \<and>
           (if kid = HT_INVALID_KLASS_ID then k \<notin> set (registered s) \<and> registered s' = registered s
            else registered s' = (if k \<in> set (registered s) then registered s else registered s @ [k]) \<and>
                 unat kid < length (registered s') \<and> registered s' ! unat kid = k \<and>
                 (length (registered s') < 2 ^ 32 - 1 \<longrightarrow> ht_registry_register_event_klass k s' = Some (kid, s')))"
proof (cases "k \<in> set (registered s)")
  case True
  from register_klass_known [OF assms(1) True assms(2)] obtain i where i: "i < length (registered s)"
    "registered s ! i = k" "ht_registry_register_event_klass k s = Some (word_of_nat i, s)" by blast
  have "unat (word_of_nat i :: u32) = i" using i(1) assms(2) by (simp add: unat_of_nat)
  moreover have "(word_of_nat i :: u32) \<noteq> HT_INVALID_KLASS_ID"
    using i(1) assms(2) word_of_nat_not_minus_1 [of i] by (simp add: HT_INVALID_KLASS_ID_def)
  ultimately show ?thesis using i assms(1) True by auto
next
  case False
  from register_klass_new [OF assms(1) False assms(2)] obtain kid s' where
    run: "ht_registry_register_event_klass k s = Some (kid, s')" "klass_register_inv s'"
    and res: "if kid = HT_INVALID_KLASS_ID then registered s' = registered s \<and> klasses s' = klasses s
              else registered s' = registered s @ [k] \<and> kid = word_of_nat (length (registered s))" by blast
  show ?thesis
  proof (cases "kid = HT_INVALID_KLASS_ID")
    case True
    with run res False show ?thesis by auto
  next
    case kid: False
    with res have reg: "registered s' = registered s @ [k]" and eq: "kid = word_of_nat (length (registered s))"
      by simp_all
    have n: "unat kid = length (registered s)" using assms(2) by (simp add: eq unat_of_nat)
    have "klass_id (klasses s' j) = klass_id (klasses s j)" if "j \<in> set (registered s)" for j
    proof -
      from that obtain i where i: "i < length (registered s)" "registered s ! i = j"
        by (auto simp: in_set_conv_nth)
      have "klass_id (klasses t (registered t ! i)) = word_of_nat i"
        if "klass_register_inv t" "i < length (registered t)" for t :: "('a, 'b) reg_scheme"
        using that by (auto simp: klass_register_inv_def klass_ids_ok_def)
      from this [OF assms(1)] this [OF run(2)] i reg show ?thesis by (simp add: nth_append)
    qed
    moreover have "ht_registry_register_event_klass k s' = Some (kid, s')"
      if "length (registered s') < 2 ^ 32 - 1"
      using register_klass_known [OF run(2) _ that, of k] reg n run(2) eq False
      by (auto simp: nth_append nth_eq_iff_index_eq in_set_conv_nth less_Suc_eq)
    ultimately show ?thesis using run reg n kid False by auto
  qed
qed

definition demo_reg_of :: "'w \<Rightarrow> ('w, unit) reg_scheme" where
  "demo_reg_of w =
     \<lparr>rt_mem = \<lparr>heap_of = \<lparr>blocks = [1 \<mapsto> 64, 2 \<mapsto> 40], next_addr = 3, refusals = []\<rparr>,
                realloc_fnc = None, user_data = 0\<rparr>,
      rt_locks = [2 \<mapsto> False], rt_ids = (\<lambda>_. 7), rt_clock = (\<lambda>n. 100 + word_of_nat n), rt_ticks = 0,
      rt_last_thread = 0, containers = Map.empty, world = w,
      event_klass_register = \<lparr>bag_min_capacity = 8, bag_capacity = 8, bag_size = 1, bag_data = Some 1,
                              bag_cells = Some ''HT_SystemInfoEvent'' # replicate 7 None\<rparr>,
      listeners_register = \<lparr>bag_min_capacity = 0, bag_capacity = 0, bag_size = 0, bag_data = None, bag_cells = []\<rparr>,
      feature_register = replicate 32 False, feature_count = 0,
      listeners_register_mutex = None, features_register_mutex = None,
      event_klass_registry_register_mutex = Some 2,
      klasses = (\<lambda>k. if k = ''HT_SystemInfoEvent''
                     then \<lparr>type_info = Some (mkcreflect_type_info k HT_SystemInfoEvent_decl), klass_id = 0\<rparr>
                     else \<lparr>type_info = None, klass_id = HT_INVALID_KLASS_ID\<rparr>),
      feature_ids = (\<lambda>_. HT_INVALID_FEATURE_ID)\<rparr>"

abbreviation demo_reg :: "(byte list list, unit) reg_scheme" where
  "demo_reg \<equiv> demo_reg_of []"

lemma demo_reg_bag: "bag_inv sizeof_void_ptr (event_klass_register (demo_reg_of w)) (rt_mem (demo_reg_of w))"
proof -
  have "\<exists>k. Suc 0 = 2 ^ k" by (rule exI [of _ 0]) simp
  then show ?thesis
    by (simp add: bag_inv_def demo_reg_of_def live_def sizeof_void_ptr_def PTRDIFF_MAX_def filled_def)
qed

lemma demo_reg_registered: "registered (demo_reg_of w) = [''HT_SystemInfoEvent'']"
  by (simp add: registered_def bag_list_def contents_def demo_reg_of_def)

lemma demo_reg_inv: "klass_register_inv (demo_reg_of w)"
proof -
  have "mutex_free 2 (demo_reg_of w)" by (simp add: mutex_free_def demo_reg_of_def live_def)
  moreover have "klass_ids_ok (demo_reg_of w)"
    unfolding klass_ids_ok_def demo_reg_registered by (simp add: demo_reg_of_def)
  moreover have "alloc_wf (rt_mem (demo_reg_of w))" by (simp add: alloc_wf_def heap_ok_def demo_reg_of_def)
  ultimately show ?thesis
    using demo_reg_bag by (simp add: klass_register_inv_def) (simp add: demo_reg_of_def bag_block_def)
qed

theorem register_event_klass_once_witness:
  "\<exists>kid s'. ht_registry_register_event_klass ''HT_SystemInfoEvent'' demo_reg = Some (kid, s') \<and>
     registered s' = [''HT_SystemInfoEvent''] \<and> unat kid < 1"
  using register_event_klass_once [OF demo_reg_inv [of "[] :: byte list list"], of "''HT_SystemInfoEvent''"]
  by (auto simp: demo_reg_registered split: if_splits)

text \<open>
  C8. A new listener is told the layout of every registered event class: the bytes it is handed
  are, in order and without gap, those of an information event for each class in the order of the
  identifiers, followed by one event for each of its fields, with successive identifiers and
  clock readings. They come in chunks of at most 4096 bytes, nothing is lost at the chunk
  borders, and the result is the number of bytes. The mutex of the register is free again.
\<close>

theorem registry_describes_every_class:
  assumes "describable s" and "takes Q callback listener" and "Q (world s)"
  shows "\<exists>s' chunks. ht_registry_push_registry_klasses_to_listener e repr callback listener True s =
             Some (length (registry_bytes e s), s') \<and>
           feed callback listener True chunks (world s) = Some (world s') \<and>
           concat chunks = registry_bytes e s \<and> (\<forall>c\<in>set chunks. length c \<le> 4096) \<and>
           rt_locks s' = rt_locks s \<and> klasses s' = klasses s"
  using push_registry_ok [OF assms, of e repr]
  by (fastforce simp: REGISTRY_LISTENER_BUFF_SIZE_def dest: same_registryD)

lemma demo_reg_describable: "describable (demo_reg_of w)"
proof -
  have list: "bag_list (event_klass_register (demo_reg_of w)) = [''HT_SystemInfoEvent'']"
    using demo_reg_registered by (simp add: registered_def)
  have ti: "type_info (klasses (demo_reg_of w) ''HT_SystemInfoEvent'') =
      Some (mkcreflect_type_info ''HT_SystemInfoEvent'' HT_SystemInfoEvent_decl)"
    by (simp add: demo_reg_of_def)
  have "\<forall>d\<in>set HT_SystemInfoEvent_decl. strlen (fd_c_type d) + strlen (fd_field_name d) \<le> 4000"
    by (simp add: HT_SystemInfoEvent_decl_def base_decl_def integer_decl_def strlen_def)
  then have "\<forall>ev\<in>set (registry_templates (demo_reg_of w)). get_size ev \<le> 4096"
    by (auto simp: registry_templates_def list klass_templates_def ti klass_info_template_def
        field_info_template_def mkcreflect_type_info_def mkcreflect_field_info_def strlen_def
        dest!: set_zip_leftD)
  moreover have "klass_ready (klasses (demo_reg_of w)) ''HT_SystemInfoEvent''"
    by (simp add: klass_ready_def ti mkcreflect_type_info_def)
  moreover have "mutex_free 2 (demo_reg_of w)" by (simp add: mutex_free_def demo_reg_of_def live_def)
  moreover have "event_klass_registry_register_mutex (demo_reg_of w) = Some 2" by (simp add: demo_reg_of_def)
  ultimately show ?thesis
    using demo_reg_bag by (simp add: describable_def list REGISTRY_LISTENER_BUFF_SIZE_def)
qed

theorem registry_describes_every_class_witness:
  "\<exists>n s'. ht_registry_push_registry_klasses_to_listener HT_ENDIANNESS_LITTLE (\<lambda>_. [])
     (\<lambda>bs ser l w. Some (w @ [bs])) 0 True demo_reg = Some (n, s') \<and>
     klasses s' = klasses demo_reg"
  using registry_describes_every_class [OF demo_reg_describable [of "[] :: byte list list"],
      of "\<lambda>_. True" "\<lambda>bs ser l w. Some (w @ [bs])" 0 HT_ENDIANNESS_LITTLE "\<lambda>_. []"]
  by (auto simp: takes_def)

end
