(* ===== verification/Timeline.thy ===== *)
theory Timeline
  imports Registry
begin

text \<open>
  \<^verbatim>\<open>lib/timeline.c\<close> and the macros of \<^verbatim>\<open>timeline.h\<close>: a timeline collects events in a buffer and
  hands full buffers to the listeners of its container.

  The structure behind the pointer \<^verbatim>\<open>HT_Timeline*\<close> is passed along as a value; \<open>tl_addr\<close> is the
  address of its block. The type parameter \<open>'f\<close> is the type of the feature objects; their class
  (\<^verbatim>\<open>feature->klass\<close>) is a record of the class name and the destructor.
\<close>

section \<open>The structure and its operations\<close>

record ('f, 'w, 's) feature_klass =
  fk_name :: string
  fk_destroy :: "'f \<Rightarrow> ('w, 's) reg_scheme \<Rightarrow> ('w, 's) reg_scheme option"

record 'f HT_Timeline =
  tl_addr :: addr
  tl_features :: "'f option list"
  tl_buffer_capacity :: nat
  tl_buffer_usage :: nat
  tl_buffer :: "addr option"
  tl_cells :: "byte option list"
  tl_id_provider :: "addr option"
  tl_listeners :: addr
  tl_locking_policy :: "addr option"
  tl_serialize_events :: bool

text \<open>Three pointers, three sizes, a flag and 32 features.\<close>

definition sizeof_HT_Timeline :: nat where
  "sizeof_HT_Timeline = 312"

definition timeline_lock :: "'f HT_Timeline \<Rightarrow> 's rt_scheme \<Rightarrow> 's rt_scheme option" where
  "timeline_lock line s = (case tl_locking_policy line of None \<Rightarrow> Some s | Some a \<Rightarrow> ht_mutex_lock a s)"

definition timeline_unlock :: "'f HT_Timeline \<Rightarrow> 's rt_scheme \<Rightarrow> 's rt_scheme option" where
  "timeline_unlock line s = (case tl_locking_policy line of None \<Rightarrow> Some s | Some a \<Rightarrow> ht_mutex_unlock a s)"

text \<open>The block of the buffer has to be live.\<close>

definition buffer_live :: "'f HT_Timeline \<Rightarrow> 's rt_scheme \<Rightarrow> bool" where
  "buffer_live line s = (case tl_buffer line of None \<Rightarrow> False | Some p \<Rightarrow> live (rt_mem s) p \<noteq> None)"

definition timeline_flush_locked ::
  "'f HT_Timeline \<Rightarrow> ('w, 's) reg_scheme \<Rightarrow> ('f HT_Timeline \<times> ('w, 's) reg_scheme) option" where
  "timeline_flush_locked line s =
     (if tl_buffer_usage line \<noteq> 0
      then do {
        bs \<leftarrow> (if buffer_live line s then read_bytes (tl_buffer_usage line) (tl_cells line) else None);
        s \<leftarrow> ht_timeline_listener_container_notify_listeners (tl_listeners line) bs (tl_serialize_events line) s;
        Some (line\<lparr>tl_buffer_usage := 0\<rparr>, s) }
      else Some (line, s))"

definition ht_timeline_init_event ::
  "'f HT_Timeline \<Rightarrow> ht_struct \<Rightarrow> ('w, 's) reg_scheme \<Rightarrow> ht_struct \<times> ('w, 's) reg_scheme" where
  "ht_timeline_init_event line ev s =
     (let (t, s) = ht_monotonic_clock_get_timestamp s;
          (i, s) = ht_event_id_provider_next (tl_id_provider line) s
      in (set_header t i ev, s))"

text \<open>
  \<^verbatim>\<open>ht_timeline_push_event\<close>. An event that does not fit in the buffer is serialized to a local
  array of 128 bytes or to a new block; the result of that allocation is not tested.
\<close>

definition push_large_event ::
  "HT_Endianness \<Rightarrow> 'f HT_Timeline \<Rightarrow> ht_struct \<Rightarrow> nat \<Rightarrow> ('w, 's) reg_scheme \<Rightarrow> ('w, 's) reg_scheme option" where
  "push_large_event e line ev n s =
     (if n > 128
      then do {
        (p, m) \<leftarrow> ht_alloc n (rt_mem s);
        a \<leftarrow> p;
        let s = s\<lparr>rt_mem := m\<rparr>;
        (_, buf) \<leftarrow> serialize e (klasses s) ev 0 (replicate n None);
        bs \<leftarrow> read_bytes n buf;
        s \<leftarrow> ht_timeline_listener_container_notify_listeners (tl_listeners line) bs (tl_serialize_events line) s;
        m \<leftarrow> ht_free (Some a) (rt_mem s);
        Some (s\<lparr>rt_mem := m\<rparr>) }
      else do {
        (_, buf) \<leftarrow> serialize e (klasses s) ev 0 (replicate 128 None);
        bs \<leftarrow> read_bytes n buf;
        ht_timeline_listener_container_notify_listeners (tl_listeners line) bs (tl_serialize_events line) s })"

definition push_serialized ::
  "HT_Endianness \<Rightarrow> 'f HT_Timeline \<Rightarrow> ht_struct \<Rightarrow> ('w, 's) reg_scheme \<Rightarrow>
   ('f HT_Timeline \<times> ('w, 's) reg_scheme) option" where
  "push_serialized e line ev s =
     do { let n = get_size ev;
          (line, s) \<leftarrow> (if tl_buffer_capacity line < tl_buffer_usage line + n
                        then timeline_flush_locked line s else Some (line, s));
          if tl_buffer_capacity line < n
          then do { s \<leftarrow> push_large_event e line ev n s; Some (line, s) }
          else if buffer_live line s
          then do { (_, cells) \<leftarrow> serialize e (klasses s) ev (tl_buffer_usage line) (tl_cells line);
                    Some (line\<lparr>tl_cells := cells, tl_buffer_usage := tl_buffer_usage line + n\<rparr>, s) }
          else None }"

definition push_unserialized ::
  "(ht_struct \<Rightarrow> byte list) \<Rightarrow> 'f HT_Timeline \<Rightarrow> ht_struct \<Rightarrow> ('w, 's) reg_scheme \<Rightarrow>
   ('f HT_Timeline \<times> ('w, 's) reg_scheme) option" where
  "push_unserialized repr line ev s =
     do { ti \<leftarrow> type_info (klasses s (event_klass ev));
          let n = ti_size ti;
          (line, s) \<leftarrow> (if tl_buffer_capacity line < tl_buffer_usage line + n
                        then timeline_flush_locked line s else Some (line, s));
          if tl_buffer_capacity line < n
          then do { s \<leftarrow> ht_timeline_listener_container_notify_listeners (tl_listeners line)
                           (take n (repr ev)) (tl_serialize_events line) s;
                    Some (line, s) }
          else if buffer_live line s
          then do { cells \<leftarrow> buffer_write (tl_buffer_usage line) (take n (repr ev)) (tl_cells line);
                    Some (line\<lparr>tl_cells := cells, tl_buffer_usage := tl_buffer_usage line + n\<rparr>, s) }
          else None }"

definition ht_timeline_push_event ::
  "HT_Endianness \<Rightarrow> (ht_struct \<Rightarrow> byte list) \<Rightarrow> 'f HT_Timeline \<Rightarrow> ht_struct \<Rightarrow> ('w, 's) reg_scheme \<Rightarrow>
   ('f HT_Timeline \<times> ('w, 's) reg_scheme) option" where
  "ht_timeline_push_event e repr line ev s =
     do { s \<leftarrow> timeline_lock line s;
          (line, s) \<leftarrow> (if tl_serialize_events line then push_serialized e line ev s
                        else push_unserialized repr line ev s);
          s \<leftarrow> timeline_unlock line s;
          Some (line, s) }"

definition ht_timeline_flush ::
  "'f HT_Timeline \<Rightarrow> ('w, 's) reg_scheme \<Rightarrow> ('f HT_Timeline \<times> ('w, 's) reg_scheme) option" where
  "ht_timeline_flush line s =
     do { s \<leftarrow> timeline_lock line s;
          (line, s) \<leftarrow> timeline_flush_locked line s;
          s \<leftarrow> timeline_unlock line s;
          Some (line, s) }"

definition ht_timeline_set_feature ::
  "'f HT_Timeline \<Rightarrow> ('f, 'w, 's) feature_klass \<Rightarrow> 'f \<Rightarrow> ('w, 's) reg_scheme \<Rightarrow>
   (HT_ErrorCode \<times> 'f HT_Timeline \<times> ('w, 's) reg_scheme) option" where
  "ht_timeline_set_feature line klass feature s =
     do { let i = feature_ids s (fk_name klass);
          let (err, line) =
            (if i = HT_INVALID_FEATURE_ID \<or> HT_TIMELINE_MAX_FEATURES \<le> unat i
             then (HT_ERR_FEATURE_NOT_REGISTERED, line)
             else if tl_features line ! unat i \<noteq> None then (HT_ERR_FEATURE_ALREADY_REGISTERED, line)
             else (HT_ERR_OK, line\<lparr>tl_features := (tl_features line)[unat i := Some feature]\<rparr>));
          s \<leftarrow> (if err \<noteq> HT_ERR_OK then fk_destroy klass feature s else Some s);
          Some (err, line, s) }"

text \<open>There is no test of the identifier: for a class that is not registered the read is out of bounds.\<close>

definition ht_timeline_get_feature :: "'f HT_Timeline \<Rightarrow> string \<Rightarrow> ('w, 's) reg_scheme \<Rightarrow> 'f option option" where
  "ht_timeline_get_feature line klass s =
     (let i = unat (feature_ids s klass)
      in if i < length (tl_features line) then Some (tl_features line ! i) else None)"

definition ht_timeline_register_listener_full ::
  "'f HT_Timeline \<Rightarrow> 'w listener_callback \<Rightarrow> nat \<Rightarrow> (nat \<Rightarrow> 'w \<Rightarrow> 'w option) option \<Rightarrow> ('w, 's) reg_scheme \<Rightarrow>
   (HT_ErrorCode \<times> ('w, 's) reg_scheme) option" where
  "ht_timeline_register_listener_full line callback ud destroy_cb s =
     ht_timeline_listener_container_register_listener (tl_listeners line) callback ud destroy_cb s"

definition ht_timeline_register_listener ::
  "'f HT_Timeline \<Rightarrow> 'w listener_callback \<Rightarrow> nat \<Rightarrow> ('w, 's) reg_scheme \<Rightarrow>
   (HT_ErrorCode \<times> ('w, 's) reg_scheme) option" where
  "ht_timeline_register_listener line callback ud s = ht_timeline_register_listener_full line callback ud None s"

definition ht_timeline_unregister_all_listeners ::
  "'f HT_Timeline \<Rightarrow> ('w, 's) reg_scheme \<Rightarrow> ('w, 's) reg_scheme option" where
  "ht_timeline_unregister_all_listeners line s =
     ht_timeline_listener_container_unregister_all_listeners (tl_listeners line) s"

text \<open>
  \<^verbatim>\<open>ht_timeline_create\<close> returns the timeline, or the null pointer, and the error code. When the
  block of the timeline itself cannot be allocated, the error code stays \<^verbatim>\<open>HT_ERR_OK\<close>.
  The last part, once the block \<open>a\<close>, the buffer \<open>b\<close> and the listeners \<open>c\<close> are there, is a function
  of its own.
\<close>

definition new_timeline :: "addr \<Rightarrow> addr \<Rightarrow> nat \<Rightarrow> addr \<Rightarrow> addr option \<Rightarrow> bool \<Rightarrow> 'f HT_Timeline" where
  "new_timeline a b capacity c mtx ser =
     \<lparr>tl_addr = a, tl_features = replicate HT_TIMELINE_MAX_FEATURES None, tl_buffer_capacity = capacity,
      tl_buffer_usage = 0, tl_buffer = Some b, tl_cells = replicate capacity None,
      tl_id_provider = ht_event_id_provider_get_default, tl_listeners = c, tl_locking_policy = mtx,
      tl_serialize_events = ser\<rparr>"

definition create_with_listeners ::
  "addr \<Rightarrow> addr \<Rightarrow> addr \<Rightarrow> nat \<Rightarrow> bool \<Rightarrow> bool \<Rightarrow> ('w, 's) reg_scheme \<Rightarrow>
   (HT_ErrorCode \<times> 'f HT_Timeline option \<times> ('w, 's) reg_scheme) option" where
  "create_with_listeners a b c capacity thread_safe ser s =
     do { (mtx, s) \<leftarrow> (if thread_safe then ht_mutex_create s else Some (None, s));
          if thread_safe \<and> mtx = None
          then do {
            s \<leftarrow> ht_timeline_listener_container_unref c s;
            m \<leftarrow> ht_free (Some b) (rt_mem s);
            m \<leftarrow> ht_free (Some a) m;
            Some (HT_ERR_OUT_OF_MEMORY, None, s\<lparr>rt_mem := m\<rparr>) }
          else Some (HT_ERR_OK, Some (new_timeline a b capacity c mtx ser), s) }"

definition ht_timeline_create ::
  "'w listener_entry bag \<Rightarrow> nat \<Rightarrow> bool \<Rightarrow> bool \<Rightarrow> string option \<Rightarrow> ('w, 's) reg_scheme \<Rightarrow>
   (HT_ErrorCode \<times> 'f HT_Timeline option \<times> ('w, 's) reg_scheme) option" where
  "ht_timeline_create junk capacity thread_safe ser name s =
     do { (p, m) \<leftarrow> ht_alloc sizeof_HT_Timeline (rt_mem s);
          let s = s\<lparr>rt_mem := m\<rparr>;
          case p of
            None \<Rightarrow> Some (HT_ERR_OK, None, s)
          | Some a \<Rightarrow> do {
              (buffer, m) \<leftarrow> ht_alloc capacity (rt_mem s);
              let s = s\<lparr>rt_mem := m\<rparr>;
              case buffer of
                None \<Rightarrow> do { m \<leftarrow> ht_free (Some a) (rt_mem s); Some (HT_ERR_OUT_OF_MEMORY, None, s\<lparr>rt_mem := m\<rparr>) }
              | Some b \<Rightarrow> do {
                  (container, s) \<leftarrow> ht_find_or_create_listener junk name s;
                  case container of
                    None \<Rightarrow> do {
                      m \<leftarrow> ht_free (Some b) (rt_mem s);
                      m \<leftarrow> ht_free (Some a) m;
                      Some (HT_ERR_CANT_CREATE_LISTENER_CONTAINER, None, s\<lparr>rt_mem := m\<rparr>) }
                  | Some c \<Rightarrow> create_with_listeners a b c capacity thread_safe ser s } } }"

fun destroy_features ::
  "('f \<Rightarrow> ('f, 'w, 's) feature_klass) \<Rightarrow> 'f option list \<Rightarrow> ('w, 's) reg_scheme \<Rightarrow> ('w, 's) reg_scheme option" where
  "destroy_features klass_of [] s = Some s"
| "destroy_features klass_of (f # fs) s =
     do { s \<leftarrow> (case f of None \<Rightarrow> Some s | Some feature \<Rightarrow> fk_destroy (klass_of feature) feature s);
          destroy_features klass_of fs s }"

definition ht_timeline_destroy ::
  "('f \<Rightarrow> ('f, 'w, 's) feature_klass) \<Rightarrow> 'f HT_Timeline \<Rightarrow> ('w, 's) reg_scheme \<Rightarrow> ('w, 's) reg_scheme option" where
  "ht_timeline_destroy klass_of line s =
     do { (line, s) \<leftarrow> ht_timeline_flush line s;
          m \<leftarrow> ht_free (tl_buffer line) (rt_mem s);
          let s = s\<lparr>rt_mem := m\<rparr>;
          s \<leftarrow> ht_timeline_listener_container_unref (tl_listeners line) s;
          s \<leftarrow> destroy_features klass_of (tl_features line) s;
          s \<leftarrow> (case tl_locking_policy line of None \<Rightarrow> Some s | Some a \<Rightarrow> ht_mutex_destroy a s);
          m \<leftarrow> ht_free (Some (tl_addr line)) (rt_mem s);
          Some (s\<lparr>rt_mem := m\<rparr>) }"

definition ht_timeline_get_id_provider :: "'f HT_Timeline \<Rightarrow> addr option" where
  "ht_timeline_get_id_provider line = tl_id_provider line"

text \<open>The macro \<^verbatim>\<open>HT_TIMELINE_PUSH_EVENT\<close>: a new event, stamped and pushed.\<close>

definition HT_TIMELINE_PUSH_EVENT ::
  "HT_Endianness \<Rightarrow> (ht_struct \<Rightarrow> byte list) \<Rightarrow> 'f HT_Timeline \<Rightarrow> ht_struct \<Rightarrow> ('w, 's) reg_scheme \<Rightarrow>
   ('f HT_Timeline \<times> ('w, 's) reg_scheme) option" where
  "HT_TIMELINE_PUSH_EVENT e repr line ev s =
     (let (t, s) = ht_monotonic_clock_get_timestamp s;
          (i, s) = ht_event_id_provider_next (ht_timeline_get_id_provider line) s
      in ht_timeline_push_event e repr line (set_header t i ev) s)"

section \<open>The invariant\<close>

text \<open>The bytes that wait in the buffer.\<close>

definition pending :: "'f HT_Timeline \<Rightarrow> byte list" where
  "pending line = contents (tl_buffer_usage line) (tl_cells line)"

definition timeline_core :: "'f HT_Timeline \<Rightarrow> 'w container \<Rightarrow> ('w, 's) reg_scheme \<Rightarrow> bool" where
  "timeline_core line k s \<longleftrightarrow>
     buffer_live line s \<and> length (tl_cells line) = tl_buffer_capacity line \<and>
     filled (tl_buffer_usage line) (tl_cells line) \<and> alloc_wf (rt_mem s) \<and>
     containers s (tl_listeners line) = Some k \<and> listener_bag_inv (entries k) (rt_mem s)"

definition timeline_inv :: "'f HT_Timeline \<Rightarrow> 'w container \<Rightarrow> ('w, 's) reg_scheme \<Rightarrow> bool" where
  "timeline_inv line k s \<longleftrightarrow>
     timeline_core line k s \<and>
     (case tl_locking_policy line of None \<Rightarrow> True | Some a \<Rightarrow> rt_locks s a = Some False)"

text \<open>
  Listeners that return and keep a property \<open>Q\<close> of the world they rely on, and what all
  listeners of a container make of a sequence of chunks.
\<close>

definition listeners_return :: "('w \<Rightarrow> bool) \<Rightarrow> bool \<Rightarrow> 'w container \<Rightarrow> bool" where
  "listeners_return Q ser k \<longleftrightarrow>
     (\<forall>l\<in>set (listeners k). \<forall>bs w. Q w \<longrightarrow> (\<exists>w'. le_callback l bs ser (le_user_data l) w = Some w' \<and> Q w'))"

definition broadcast :: "'w container \<Rightarrow> bool \<Rightarrow> byte list list \<Rightarrow> 'w \<Rightarrow> 'w option" where
  "broadcast k ser chunks w = run_ops (\<lambda>bs w. notify_all (listeners k) bs ser w) chunks w"

lemma broadcast_Nil [simp]: "broadcast k ser [] w = Some w"
  by (simp add: broadcast_def)

lemma broadcast_single [simp]: "broadcast k ser [bs] w = notify_all (listeners k) bs ser w"
  by (simp add: broadcast_def)

lemma broadcast_append:
  "broadcast k ser (xs @ ys) w = do { w \<leftarrow> broadcast k ser xs w; broadcast k ser ys w }"
  by (simp add: broadcast_def run_ops_append)

lemma notify_all_returns:
  assumes "\<forall>l\<in>set ls. \<forall>bs w. Q w \<longrightarrow> (\<exists>w'. le_callback l bs ser (le_user_data l) w = Some w' \<and> Q w')" and "Q w"
  shows "\<exists>w'. notify_all ls bs ser w = Some w' \<and> Q w'"
  using assms
proof (induction ls arbitrary: w)
  case (Cons l ls)
  then obtain v where v: "le_callback l bs ser (le_user_data l) w = Some v" "Q v" by fastforce
  have "\<exists>w'. notify_all ls bs ser v = Some w' \<and> Q w'" using Cons.IH [OF _ v(2)] Cons.prems(1) by simp
  with v(1) show ?case by simp
qed simp

lemma broadcast_keeps:
  assumes "listeners_return Q ser k"
  shows "Q w \<Longrightarrow> broadcast k ser chunks w = Some w' \<Longrightarrow> Q w'"
proof (induction chunks arbitrary: w)
  case (Cons bs chunks)
  have "\<exists>v. notify_all (listeners k) bs ser w = Some v \<and> Q v"
    by (rule notify_all_returns) (use assms Cons.prems in \<open>simp_all add: listeners_return_def\<close>)
  then obtain v where "notify_all (listeners k) bs ser w = Some v" "Q v" by blast
  with Cons show ?case by (simp add: broadcast_def)
qed simp

lemma notify_container:
  assumes "containers s c = Some k" and "listener_bag_inv (entries k) (rt_mem s)"
    and "listeners_return Q ser k" and "Q (world s)"
  obtains w where "ht_timeline_listener_container_notify_listeners c bs ser s = Some (s\<lparr>world := w\<rparr>)"
    and "notify_all (listeners k) bs ser (world s) = Some w"
proof -
  have "\<exists>w. notify_all (listeners k) bs ser (world s) = Some w \<and> Q w"
    by (rule notify_all_returns) (use assms(3,4) in \<open>simp_all add: listeners_return_def\<close>)
  with container_notify_ok [OF assms(1,2), of bs ser] that show thesis by auto
qed

lemma timeline_core_world: "timeline_core line k s \<Longrightarrow> timeline_core line k (s\<lparr>world := w\<rparr>)"
  by (simp add: timeline_core_def buffer_live_def split: option.splits)

lemma timeline_core_mem:
  "timeline_core line k s \<Longrightarrow> alloc_wf m \<Longrightarrow> live m = live (rt_mem s) \<Longrightarrow> timeline_core line k (s\<lparr>rt_mem := m\<rparr>)"
  by (auto simp: timeline_core_def buffer_live_def listener_bag_inv_def split: option.splits)

lemma timeline_core_locks: "timeline_core line k (s\<lparr>rt_locks := L\<rparr>) = timeline_core line k s"
  by (simp add: timeline_core_def buffer_live_def split: option.splits)

lemma timeline_core_empty: "timeline_core line k s \<Longrightarrow> timeline_core (line\<lparr>tl_buffer_usage := 0\<rparr>) k s"
  by (simp add: timeline_core_def buffer_live_def)

text \<open>The lock is taken and given back.\<close>

definition locks_taken :: "'f HT_Timeline \<Rightarrow> (addr \<rightharpoonup> bool) \<Rightarrow> addr \<rightharpoonup> bool" where
  "locks_taken line L = (case tl_locking_policy line of None \<Rightarrow> L | Some a \<Rightarrow> L(a \<mapsto> True))"

lemma timeline_lock_ok:
  "timeline_inv line k s \<Longrightarrow> timeline_lock line s = Some (s\<lparr>rt_locks := locks_taken line (rt_locks s)\<rparr>)"
  by (simp add: timeline_inv_def timeline_lock_def locks_taken_def mutex_lock_unlock split: option.splits)

lemma timeline_unlock_ok:
  "timeline_inv line k s \<Longrightarrow> tl_locking_policy line' = tl_locking_policy line \<Longrightarrow>
     rt_locks s' = locks_taken line (rt_locks s) \<Longrightarrow>
     timeline_unlock line' s' = Some (s'\<lparr>rt_locks := rt_locks s\<rparr>)"
  by (simp add: timeline_inv_def timeline_unlock_def locks_taken_def ht_mutex_unlock_def fun_upd_idem
      split: option.splits)

section \<open>Nothing is lost and nothing is reordered\<close>

lemma flush_locked_ok:
  assumes core: "timeline_core line k s" and ret: "listeners_return Q (tl_serialize_events line) k" "Q (world s)"
  shows "\<exists>w chunks. timeline_flush_locked line s = Some (line\<lparr>tl_buffer_usage := 0\<rparr>, s\<lparr>world := w\<rparr>) \<and>
           broadcast k (tl_serialize_events line) chunks (world s) = Some w \<and> concat chunks = pending line"
proof (cases "tl_buffer_usage line = 0")
  case True
  then have "line\<lparr>tl_buffer_usage := 0\<rparr> = line" by simp
  with True show ?thesis
    by (intro exI [of _ "world s"] exI [of _ "[]"]) (simp add: timeline_flush_locked_def pending_def)
next
  case False
  from core have k: "containers s (tl_listeners line) = Some k" "listener_bag_inv (entries k) (rt_mem s)"
    and fl: "filled (tl_buffer_usage line) (tl_cells line)" and lv: "buffer_live line s"
    by (simp_all add: timeline_core_def)
  from notify_container [OF k ret, of "pending line"] obtain w where
    "ht_timeline_listener_container_notify_listeners (tl_listeners line) (pending line) (tl_serialize_events line) s =
       Some (s\<lparr>world := w\<rparr>)" and "notify_all (listeners k) (pending line) (tl_serialize_events line) (world s) = Some w"
    by blast
  with False fl lv show ?thesis
    by (intro exI [of _ w] exI [of _ "[pending line]"])
      (simp add: timeline_flush_locked_def read_bytes_def pending_def)
qed

lemma push_large_ok:
  assumes core: "timeline_core line k s" and ret: "listeners_return Q (tl_serialize_events line) k" "Q (world s)" and ev: "plain_event ev"
    and mem: "128 < get_size ev \<longrightarrow> (\<exists>a m. ht_alloc (get_size ev) (rt_mem s) = Some (Some a, m))"
  shows "\<exists>w m. push_large_event e line ev (get_size ev) s = Some (s\<lparr>world := w, rt_mem := m\<rparr>) \<and>
           alloc_wf m \<and> live m = live (rt_mem s) \<and>
           notify_all (listeners k) (event_bytes e (klasses s) ev) (tl_serialize_events line) (world s) = Some w"
proof -
  let ?n = "get_size ev" and ?bs = "event_bytes e (klasses s) ev"
  have bytes: "length ?bs = ?n" using ev by (rule length_event_bytes)
  have buf: "serialize e (klasses s) ev 0 (replicate n None) = Some (?n, write_cells 0 ?bs (replicate n None))"
    "read_bytes ?n (write_cells 0 ?bs (replicate n None)) = Some ?bs" if "?n \<le> n" for n
    using serialize_ok [OF ev, of 0 "replicate n None" e "klasses s"] that bytes
      write_cells_append [OF filled_0, of ?bs "replicate n None"]
    by (simp_all add: read_bytes_def)
  from core have k: "containers s (tl_listeners line) = Some k" "listener_bag_inv (entries k) (rt_mem s)"
    and wf: "alloc_wf (rt_mem s)"
    by (simp_all add: timeline_core_def)
  show ?thesis
  proof (cases "128 < ?n")
    case False
    from notify_container [OF k ret, of ?bs] obtain w where
      "ht_timeline_listener_container_notify_listeners (tl_listeners line) ?bs (tl_serialize_events line) s =
         Some (s\<lparr>world := w\<rparr>)" "notify_all (listeners k) ?bs (tl_serialize_events line) (world s) = Some w"
      by blast
    with False buf [of 128] wf show ?thesis
      by (intro exI [of _ w] exI [of _ "rt_mem s"]) (simp add: push_large_event_def)
  next
    case True
    with mem obtain a m where al: "ht_alloc ?n (rt_mem s) = Some (Some a, m)" by blast
    from ht.alloc_law [OF wf, of ?n] al have "live (rt_mem s) a = None" "live m = (live (rt_mem s))(a \<mapsto> ?n)"
      by (auto simp: alloc_post_def)
    with k ret(2) have "listener_bag_inv (entries k) (rt_mem (s\<lparr>rt_mem := m\<rparr>))"
      "containers (s\<lparr>rt_mem := m\<rparr>) (tl_listeners line) = Some k" "Q (world (s\<lparr>rt_mem := m\<rparr>))"
      by (auto simp: listener_bag_inv_def)
    from notify_container [OF this(2,1) ret(1) this(3), of ?bs] obtain w where
      "ht_timeline_listener_container_notify_listeners (tl_listeners line) ?bs (tl_serialize_events line) (s\<lparr>rt_mem := m\<rparr>) =
         Some (s\<lparr>rt_mem := m, world := w\<rparr>)" "notify_all (listeners k) ?bs (tl_serialize_events line) (world s) = Some w"
      by auto
    moreover from ht.alloc_then_free [OF wf al] obtain m2 where "ht_free (Some a) m = Some m2" "alloc_wf m2"
      "live m2 = live (rt_mem s)" by blast
    ultimately show ?thesis
      using True buf [of ?n] al by (intro exI [of _ w] exI [of _ m2]) (simp add: push_large_event_def)
  qed
qed

text \<open>The event is appended to a buffer that has room.\<close>

lemma push_buffered_ok:
  fixes e :: HT_Endianness
  assumes core: "timeline_core line k s" and ev: "plain_event ev"
    and room: "tl_buffer_usage line + get_size ev \<le> tl_buffer_capacity line"
  defines "cells \<equiv> write_cells (tl_buffer_usage line) (event_bytes e (klasses s) ev) (tl_cells line)"
  defines "line' \<equiv> line\<lparr>tl_cells := cells, tl_buffer_usage := tl_buffer_usage line + get_size ev\<rparr>"
  shows "serialize e (klasses s) ev (tl_buffer_usage line) (tl_cells line) = Some (get_size ev, cells)"
    and "timeline_core line' k s" and "pending line' = pending line @ event_bytes e (klasses s) ev"
proof -
  from core have len: "length (tl_cells line) = tl_buffer_capacity line"
    and fl: "filled (tl_buffer_usage line) (tl_cells line)"
    by (simp_all add: timeline_core_def)
  have bytes: "length (event_bytes e (klasses s) ev) = get_size ev" using ev by (rule length_event_bytes)
  show "serialize e (klasses s) ev (tl_buffer_usage line) (tl_cells line) = Some (get_size ev, cells)"
    using serialize_ok [OF ev, of "tl_buffer_usage line" "tl_cells line"] room len by (simp add: cells_def)
  have "tl_buffer_usage line + length (event_bytes e (klasses s) ev) \<le> length (tl_cells line)"
    using room len bytes by simp
  note w = write_cells_append [OF fl this]
  from w core bytes room len show "timeline_core line' k s"
    by (simp add: timeline_core_def line'_def cells_def buffer_live_def)
  from w bytes show "pending line' = pending line @ event_bytes e (klasses s) ev"
    by (simp add: pending_def line'_def cells_def)
qed

text \<open>
  What one operation on a timeline does: it hands chunks to the listeners, and the bytes handed
  over followed by those that still wait are the bytes that waited before, then \<open>new\<close>.
\<close>

definition emits ::
  "'f HT_Timeline \<Rightarrow> 'w container \<Rightarrow> ('w, 's) reg_scheme \<Rightarrow> byte list \<Rightarrow> 'f HT_Timeline \<Rightarrow> ('w, 's) reg_scheme \<Rightarrow> bool" where
  "emits line k s new line' s' \<longleftrightarrow>
     (\<exists>w m cells n chunks. s' = s\<lparr>world := w, rt_mem := m\<rparr> \<and> alloc_wf m \<and> live m = live (rt_mem s) \<and>
        line' = line\<lparr>tl_cells := cells, tl_buffer_usage := n\<rparr> \<and> timeline_core line' k s' \<and>
        broadcast k (tl_serialize_events line) chunks (world s) = Some w \<and>
        concat chunks @ pending line' = pending line @ new)"

lemma push_body_ok:
  assumes core: "timeline_core line k s" and ret: "listeners_return Q (tl_serialize_events line) k" "Q (world s)" and ev: "plain_event ev"
    and mem: "tl_buffer_capacity line < get_size ev \<and> 128 < get_size ev \<longrightarrow>
      (\<exists>a m. ht_alloc (get_size ev) (rt_mem s) = Some (Some a, m))"
  shows "\<exists>line' s'. push_serialized e line ev s = Some (line', s') \<and> emits line k s (event_bytes e (klasses s) ev) line' s'"
proof -
  let ?n = "get_size ev" and ?bs = "event_bytes e (klasses s) ev" and ?ser = "tl_serialize_events line"
  from core have wf: "alloc_wf (rt_mem s)" by (simp add: timeline_core_def)
  from flush_locked_ok [OF core ret] obtain w1 chunks1 where
    flush: "timeline_flush_locked line s = Some (line\<lparr>tl_buffer_usage := 0\<rparr>, s\<lparr>world := w1\<rparr>)"
    and b1: "broadcast k ?ser chunks1 (world s) = Some w1" "concat chunks1 = pending line" by blast
  let ?l1 = "line\<lparr>tl_buffer_usage := 0\<rparr>" and ?s1 = "s\<lparr>world := w1\<rparr>"
  have core1: "timeline_core ?l1 k ?s1" by (rule timeline_core_empty [OF timeline_core_world [OF core]])
  have p1: "pending ?l1 = []" by (simp add: pending_def)
  consider (large) "tl_buffer_capacity line < ?n"
    | (full) "?n \<le> tl_buffer_capacity line" "tl_buffer_capacity line < tl_buffer_usage line + ?n"
    | (room) "tl_buffer_usage line + ?n \<le> tl_buffer_capacity line"
    by linarith
  then show ?thesis
  proof cases
    case large
    have ret1: "listeners_return Q (tl_serialize_events ?l1) k" "Q (world ?s1)"
      using ret broadcast_keeps [OF ret b1(1)] by simp_all
    have "128 < ?n \<longrightarrow> (\<exists>a m. ht_alloc ?n (rt_mem ?s1) = Some (Some a, m))" using large mem by simp
    from push_large_ok [OF core1 ret1 ev this, of e] obtain w m where
      push: "push_large_event e ?l1 ev ?n ?s1 = Some (?s1\<lparr>world := w, rt_mem := m\<rparr>)"
      and m: "alloc_wf m" "live m = live (rt_mem s)" and n: "notify_all (listeners k) ?bs ?ser w1 = Some w"
      by auto
    have "timeline_core ?l1 k (s\<lparr>world := w, rt_mem := m\<rparr>)"
      using timeline_core_mem [OF timeline_core_world [OF core1], of m w] m by simp
    then have "emits line k s ?bs ?l1 (s\<lparr>world := w, rt_mem := m\<rparr>)"
      unfolding emits_def using m b1 n p1
      by (intro exI [of _ w] exI [of _ m] exI [of _ "tl_cells line"] exI [of _ 0] exI [of _ "chunks1 @ [?bs]"])
        (simp add: broadcast_append)
    then show ?thesis using large flush push by (auto simp: push_serialized_def)
  next
    case full
    have le: "tl_buffer_usage ?l1 + ?n \<le> tl_buffer_capacity ?l1" using full by simp
    note b = push_buffered_ok [OF core1 ev le, of e]
    let ?l2 = "?l1\<lparr>tl_cells := write_cells 0 ?bs (tl_cells line), tl_buffer_usage := ?n\<rparr>"
    have lv: "buffer_live ?l1 ?s1" using core1 by (simp add: timeline_core_def)
    have "emits line k s ?bs ?l2 ?s1"
      unfolding emits_def using b b1 p1 wf
      by (intro exI [of _ w1] exI [of _ "rt_mem s"] exI [of _ "write_cells 0 ?bs (tl_cells line)"] exI [of _ ?n]
          exI [of _ chunks1]) simp
    then show ?thesis using full flush b(1) lv by (auto simp: push_serialized_def)
  next
    case room
    note b = push_buffered_ok [OF core ev room, of e]
    have lv: "buffer_live line s" using core by (simp add: timeline_core_def)
    let ?c = "write_cells (tl_buffer_usage line) ?bs (tl_cells line)"
    have "emits line k s ?bs (line\<lparr>tl_cells := ?c, tl_buffer_usage := tl_buffer_usage line + ?n\<rparr>) s"
      unfolding emits_def using b wf
      by (intro exI [of _ "world s"] exI [of _ "rt_mem s"] exI [of _ ?c] exI [of _ "tl_buffer_usage line + ?n"]
          exI [of _ "[]"]) simp
    then show ?thesis using room b(1) lv by (auto simp: push_serialized_def)
  qed
qed

lemma emits_unlock:
  assumes "emits line k (s\<lparr>rt_locks := L\<rparr>) new line' s'" and "timeline_inv line k s"
  shows "emits line k s new line' (s'\<lparr>rt_locks := rt_locks s\<rparr>)"
    and "timeline_inv line' k (s'\<lparr>rt_locks := rt_locks s\<rparr>)" and "rt_locks s' = L"
    and "tl_locking_policy line' = tl_locking_policy line"
proof -
  from assms(1) obtain w m cells n chunks where
    s': "s' = s\<lparr>rt_locks := L, world := w, rt_mem := m\<rparr>" and m: "alloc_wf m" "live m = live (rt_mem s)"
    and line': "line' = line\<lparr>tl_cells := cells, tl_buffer_usage := n\<rparr>" and core: "timeline_core line' k s'"
    and out: "broadcast k (tl_serialize_events line) chunks (world s) = Some w"
      "concat chunks @ pending line' = pending line @ new"
    by (auto simp: emits_def)
  have eq: "s'\<lparr>rt_locks := rt_locks s\<rparr> = s\<lparr>world := w, rt_mem := m\<rparr>" by (simp add: s')
  have core': "timeline_core line' k (s'\<lparr>rt_locks := rt_locks s\<rparr>)" using core by (simp add: timeline_core_locks)
  show "emits line k s new line' (s'\<lparr>rt_locks := rt_locks s\<rparr>)"
    using eq m line' core' out by (auto simp: emits_def)
  show "timeline_inv line' k (s'\<lparr>rt_locks := rt_locks s\<rparr>)"
    using core' assms(2) by (simp add: timeline_inv_def line' split: option.splits)
  show "rt_locks s' = L" "tl_locking_policy line' = tl_locking_policy line" by (simp_all add: s' line')
qed

lemma timeline_push_ok:
  assumes inv: "timeline_inv line k s" and ser: "tl_serialize_events line" and ret: "listeners_return Q True k" "Q (world s)"
    and ev: "plain_event ev"
    and mem: "tl_buffer_capacity line < get_size ev \<and> 128 < get_size ev \<longrightarrow>
      (\<exists>a m. ht_alloc (get_size ev) (rt_mem s) = Some (Some a, m))"
  shows "\<exists>line' s'. ht_timeline_push_event e repr line ev s = Some (line', s') \<and> timeline_inv line' k s' \<and>
           emits line k s (event_bytes e (klasses s) ev) line' s'"
proof -
  let ?L = "locks_taken line (rt_locks s)"
  note lock = timeline_lock_ok [OF inv]
  let ?s = "s\<lparr>rt_locks := ?L\<rparr>"
  have "timeline_core line k ?s" using inv by (simp add: timeline_inv_def timeline_core_locks)
  from push_body_ok [OF this _ _ ev, of Q e] ret ser mem obtain line' s' where
    body: "push_serialized e line ev ?s = Some (line', s')"
    and em: "emits line k ?s (event_bytes e (klasses s) ev) line' s'"
    by auto
  note u = emits_unlock [OF em inv]
  have "ht_timeline_push_event e repr line ev s = Some (line', s'\<lparr>rt_locks := rt_locks s\<rparr>)"
    using lock ser body timeline_unlock_ok [OF inv u(4,3)] by (simp add: ht_timeline_push_event_def)
  with u show ?thesis by blast
qed

lemma timeline_flush_ok:
  assumes inv: "timeline_inv line k s" and ret: "listeners_return Q (tl_serialize_events line) k" "Q (world s)"
  shows "\<exists>line' s'. ht_timeline_flush line s = Some (line', s') \<and> timeline_inv line' k s' \<and>
           emits line k s [] line' s' \<and> pending line' = []"
proof -
  let ?L = "locks_taken line (rt_locks s)"
  note lock = timeline_lock_ok [OF inv]
  let ?s = "s\<lparr>rt_locks := ?L\<rparr>" and ?l = "line\<lparr>tl_buffer_usage := 0\<rparr>"
  have core: "timeline_core line k ?s" using inv by (simp add: timeline_inv_def timeline_core_locks)
  from flush_locked_ok [OF this ret(1)] ret(2) obtain w chunks where
    run: "timeline_flush_locked line ?s = Some (?l, ?s\<lparr>world := w\<rparr>)"
    and out: "broadcast k (tl_serialize_events line) chunks (world s) = Some w" "concat chunks = pending line"
    by auto
  have "timeline_core ?l k (?s\<lparr>world := w\<rparr>)" by (rule timeline_core_empty [OF timeline_core_world [OF core]])
  moreover have "pending ?l = []" by (simp add: pending_def)
  moreover have "alloc_wf (rt_mem s)" using core by (simp add: timeline_core_def)
  ultimately have em: "emits line k ?s [] ?l (?s\<lparr>world := w\<rparr>)"
    unfolding emits_def using out
    by (intro exI [of _ w] exI [of _ "rt_mem s"] exI [of _ "tl_cells line"] exI [of _ 0] exI [of _ chunks]) simp
  note u = emits_unlock [OF em inv]
  have "ht_timeline_flush line s = Some (?l, ?s\<lparr>world := w, rt_locks := rt_locks s\<rparr>)"
    using lock run timeline_unlock_ok [OF inv u(4,3)] by (simp add: ht_timeline_flush_def)
  with u \<open>pending ?l = []\<close> show ?thesis by auto
qed

text \<open>A sequence of pushes and flushes.\<close>

datatype timeline_op = Push ht_struct | Flush

fun timeline_step ::
  "HT_Endianness \<Rightarrow> (ht_struct \<Rightarrow> byte list) \<Rightarrow> timeline_op \<Rightarrow> 'f HT_Timeline \<times> ('w, 's) reg_scheme \<Rightarrow>
   ('f HT_Timeline \<times> ('w, 's) reg_scheme) option" where
  "timeline_step e repr (Push ev) (line, s) = ht_timeline_push_event e repr line ev s"
| "timeline_step e repr Flush (line, s) = ht_timeline_flush line s"

fun op_bytes :: "HT_Endianness \<Rightarrow> (klass_ref \<Rightarrow> HT_EventKlass) \<Rightarrow> timeline_op \<Rightarrow> byte list" where
  "op_bytes e kl (Push ev) = event_bytes e kl ev"
| "op_bytes e kl Flush = []"

text \<open>An operation that needs no memory: the event fits in the buffer or in the local array.\<close>

fun op_fits :: "nat \<Rightarrow> timeline_op \<Rightarrow> bool" where
  "op_fits cap (Push ev) = (plain_event ev \<and> get_size ev \<le> max cap 128)"
| "op_fits cap Flush = True"

lemma emitsD:
  assumes "emits line k s new line' s'"
  shows "\<exists>chunks. broadcast k (tl_serialize_events line) chunks (world s) = Some (world s') \<and>
           concat chunks @ pending line' = pending line @ new"
    and "tl_serialize_events line' = tl_serialize_events line" and "klasses s' = klasses s"
    and "tl_buffer_capacity line' = tl_buffer_capacity line" and "rt_locks s' = rt_locks s"
    and "live (rt_mem s') = live (rt_mem s)" and "tl_listeners line' = tl_listeners line"
  using assms by (auto simp: emits_def)

lemma timeline_step_ok:
  assumes "timeline_inv line k s" and "tl_serialize_events line" and "listeners_return Q True k" and "Q (world s)"
    and "op_fits (tl_buffer_capacity line) opn"
  shows "\<exists>line' s'. timeline_step e repr opn (line, s) = Some (line', s') \<and> timeline_inv line' k s' \<and>
           emits line k s (op_bytes e (klasses s) opn) line' s'"
proof (cases opn)
  case (Push ev)
  with assms(5) have "plain_event ev" "\<not> (tl_buffer_capacity line < get_size ev \<and> 128 < get_size ev)"
    by (auto simp: max_def split: if_splits)
  with Push timeline_push_ok [OF assms(1-4), of ev e repr] show ?thesis by simp
next
  case Flush
  with assms timeline_flush_ok [OF assms(1), of Q] show ?thesis by auto
qed

lemma timeline_run_ok:
  assumes "timeline_inv line k s" and "tl_serialize_events line" and "listeners_return Q True k" and "Q (world s)"
    and "\<forall>opn\<in>set ops. op_fits (tl_buffer_capacity line) opn"
  shows "\<exists>line' s' chunks. run_ops (timeline_step e repr) ops (line, s) = Some (line', s') \<and>
           timeline_inv line' k s' \<and> tl_serialize_events line' \<and> tl_listeners line' = tl_listeners line \<and>
           tl_buffer_capacity line' = tl_buffer_capacity line \<and> klasses s' = klasses s \<and> rt_locks s' = rt_locks s \<and>
           live (rt_mem s') = live (rt_mem s) \<and>
           broadcast k True chunks (world s) = Some (world s') \<and>
           concat chunks @ pending line' = pending line @ concat (map (op_bytes e (klasses s)) ops)"
  using assms(1,2,4,5)
proof (induction ops arbitrary: line s)
  case Nil
  then show ?case by (intro exI [of _ line] exI [of _ s] exI [of _ "[]"]) simp
next
  case (Cons opn ops)
  from timeline_step_ok [OF Cons.prems(1,2) assms(3) Cons.prems(3), of opn e repr] Cons.prems(4) obtain l1 s1 where
    step: "timeline_step e repr opn (line, s) = Some (l1, s1)" and inv1: "timeline_inv l1 k s1"
    and em: "emits line k s (op_bytes e (klasses s) opn) l1 s1" by auto
  note d = emitsD [OF em]
  from d(1) Cons.prems(2) obtain c1 where c1: "broadcast k True c1 (world s) = Some (world s1)"
    "concat c1 @ pending l1 = pending line @ op_bytes e (klasses s) opn" by auto
  have "Q (world s1)" using broadcast_keeps [OF assms(3) Cons.prems(3) c1(1)] .
  with Cons.IH [OF inv1] d Cons.prems obtain l2 s2 c2 where
    rest: "run_ops (timeline_step e repr) ops (l1, s1) = Some (l2, s2)" "timeline_inv l2 k s2"
      "tl_serialize_events l2" "tl_listeners l2 = tl_listeners line"
      "tl_buffer_capacity l2 = tl_buffer_capacity line" "klasses s2 = klasses s"
      "rt_locks s2 = rt_locks s" "live (rt_mem s2) = live (rt_mem s)"
      "broadcast k True c2 (world s1) = Some (world s2)"
      "concat c2 @ pending l2 = pending l1 @ concat (map (op_bytes e (klasses s)) ops)" by auto
  have "concat (c1 @ c2) @ pending l2 = pending line @ concat (map (op_bytes e (klasses s)) (opn # ops))"
    using c1(2) rest(10) by simp
  with step rest c1 show ?case
    by (intro exI [of _ l2] exI [of _ s2] exI [of _ "c1 @ c2"]) (simp add: broadcast_append)
qed

lemma timeline_run_flush_ok:
  assumes inv: "timeline_inv line k s" and ser: "tl_serialize_events line" and ret: "listeners_return Q True k" "Q (world s)"
    and fits: "\<forall>opn\<in>set ops. op_fits (tl_buffer_capacity line) opn"
  shows "\<exists>line' s' chunks. run_ops (timeline_step e repr) (ops @ [Flush]) (line, s) = Some (line', s') \<and>
           timeline_inv line' k s' \<and> pending line' = [] \<and> tl_listeners line' = tl_listeners line \<and> rt_locks s' = rt_locks s \<and>
           live (rt_mem s') = live (rt_mem s) \<and>
           broadcast k True chunks (world s) = Some (world s') \<and>
           concat chunks = pending line @ concat (map (op_bytes e (klasses s)) ops)"
proof -
  from timeline_run_ok [OF inv ser ret fits, of e repr] obtain l1 s1 c1 where
    run: "run_ops (timeline_step e repr) ops (line, s) = Some (l1, s1)" "timeline_inv l1 k s1"
      "tl_serialize_events l1" "tl_listeners l1 = tl_listeners line" "rt_locks s1 = rt_locks s" "live (rt_mem s1) = live (rt_mem s)"
      "broadcast k True c1 (world s) = Some (world s1)"
      "concat c1 @ pending l1 = pending line @ concat (map (op_bytes e (klasses s)) ops)" by blast
  have "Q (world s1)" using broadcast_keeps [OF ret run(7)] .
  with timeline_flush_ok [OF run(2), of Q] ret(1) run(3) obtain l2 s2 where
    fl: "ht_timeline_flush l1 s1 = Some (l2, s2)" "timeline_inv l2 k s2" "emits l1 k s1 [] l2 s2" "pending l2 = []"
    by auto
  note d = emitsD [OF fl(3)]
  from d(1) run(3) fl(4) obtain c2 where c2: "broadcast k True c2 (world s1) = Some (world s2)"
    "concat c2 = pending l1" by auto
  show ?thesis
    using run fl d(5-7) c2
    by (intro exI [of _ l2] exI [of _ s2] exI [of _ "c1 @ c2"]) (simp add: run_ops_append broadcast_append)
qed

section \<open>Creation\<close>

text \<open>The two blocks of a new timeline, and what releasing them does.\<close>

lemma free_two:
  assumes "alloc_wf m" and "live m b \<noteq> None" and "live m a \<noteq> None" and "a \<noteq> b"
  obtains m1 m2 where "ht_free (Some b) m = Some m1" and "ht_free (Some a) m1 = Some m2" and "alloc_wf m2"
    and "live m2 = (live m)(b := None, a := None)"
proof -
  from ht.free_law [OF assms(1,2)] obtain m1 where m1: "ht_free (Some b) m = Some m1" "alloc_wf m1"
    "live m1 = (live m)(b := None)" by blast
  with assms(3,4) have "live m1 a \<noteq> None" by simp
  from ht.free_law [OF m1(2) this] m1 that show thesis by auto
qed

lemma timeline_create_mutex:
  assumes wf: "alloc_wf (rt_mem s)" and ab: "live (rt_mem s) a \<noteq> None" "live (rt_mem s) b \<noteq> None" "a \<noteq> b"
    and k: "containers s c = Some k" "listener_bag_inv (entries k) (rt_mem s)" "listeners k = []"
      "c_refcount k = 1" "c_mutex k = Some mtx" "mutex_free mtx s" "live (rt_mem s) c \<noteq> None"
      "c \<noteq> mtx" "c \<noteq> bag_block (entries k)" "mtx \<noteq> bag_block (entries k)"
    and sep: "container_blocks k c \<inter> {a, b} = {}"
    and no: "ht_mutex_create s = Some (None, s\<lparr>rt_mem := m\<rparr>)" "alloc_wf m" "live m = live (rt_mem s)"
  shows "\<exists>s1 m1 m2. ht_timeline_listener_container_unref c (s\<lparr>rt_mem := m\<rparr>) = Some s1 \<and>
           ht_free (Some b) (rt_mem s1) = Some m1 \<and> ht_free (Some a) m1 = Some m2 \<and> alloc_wf m2 \<and>
           footprint ({a, b} \<union> container_blocks k c) (rt_mem s) {} m2"
proof -
  let ?s = "s\<lparr>rt_mem := m\<rparr>"
  have "container_inv c ?s"
    using k no(2,3) by (auto simp: container_inv_def mutex_free_def listener_bag_inv_def)
  moreover have "destroy_all (listeners k) (world ?s) = Some (world s)" using k(3) by simp
  ultimately obtain m0 where unref: "ht_timeline_listener_container_unref c ?s =
      Some (?s\<lparr>world := world s, rt_mem := m0, rt_locks := (rt_locks s)(mtx := None),
               containers := (containers s)(c := None)\<rparr>)"
    and wf0: "alloc_wf m0" and fp: "footprint (container_blocks k c) m {} m0"
    using container_unref_last [of c ?s k "world s"] k(1,4,5) by auto
  have "live m0 q = live (rt_mem s) q" if "q \<in> {a, b}" for q
    using footprint_frame(1) [OF fp, of q] ab sep that no(3) by auto
  with ab have ab0: "live m0 b \<noteq> None" "live m0 a \<noteq> None" by auto
  from free_two [OF wf0 ab0 ab(3)] obtain m1 m2 where f: "ht_free (Some b) m0 = Some m1"
    "ht_free (Some a) m1 = Some m2" "alloc_wf m2" "live m2 = (live m0)(b := None, a := None)" by blast
  have "footprint (container_blocks k c \<union> {a, b}) m ({} \<union> {a, b}) m0"
    using ab sep no(3) by (intro footprint_extend [OF fp]) auto
  moreover have "footprint {a, b} m0 {} m2"
    using f(4) by (auto simp: footprint_def restrict_map_def fun_eq_iff)
  ultimately have "footprint (container_blocks k c \<union> {a, b}) m {} m2" using footprint_trans by simp
  then have "footprint ({a, b} \<union> container_blocks k c) (rt_mem s) {} m2"
    using no(3) by (simp add: footprint_def Un_commute)
  with unref f show ?thesis by simp
qed

definition timeline_ready :: "nat \<Rightarrow> bool \<Rightarrow> bool \<Rightarrow> 'f HT_Timeline \<Rightarrow> ('w, 's) reg_scheme \<Rightarrow> bool" where
  "timeline_ready capacity thread_safe ser line s \<longleftrightarrow>
     (\<exists>k. timeline_inv line k s \<and> listeners k = []) \<and> container_inv (tl_listeners line) s \<and>
     pending line = [] \<and> tl_buffer_capacity line = capacity \<and> tl_serialize_events line = ser \<and>
     (tl_locking_policy line \<noteq> None) = thread_safe"

lemma create_step_mutex:
  assumes wf: "alloc_wf (rt_mem s)" and ab: "live (rt_mem s) a \<noteq> None" "live (rt_mem s) b \<noteq> None" "a \<noteq> b"
    and k: "containers s c = Some k" "listener_bag_inv (entries k) (rt_mem s)" "listeners k = []"
      "c_refcount k = 1" "c_mutex k = Some mtx" "mutex_free mtx s" "live (rt_mem s) c \<noteq> None"
      "c \<noteq> mtx" "c \<noteq> bag_block (entries k)" "mtx \<noteq> bag_block (entries k)"
    and sep: "container_blocks k c \<inter> {a, b} = {}"
  shows "\<exists>err (r :: 'f HT_Timeline option) s'.
           create_with_listeners a b c capacity thread_safe ser s = Some (err, r, s') \<and> alloc_wf (rt_mem s') \<and>
           (case r of
              None \<Rightarrow> err = HT_ERR_OUT_OF_MEMORY \<and> footprint ({a, b} \<union> container_blocks k c) (rt_mem s) {} (rt_mem s')
            | Some line \<Rightarrow> err = HT_ERR_OK \<and> timeline_ready capacity thread_safe ser line s')"
proof -
  have ready: "timeline_ready capacity thread_safe ser (new_timeline a b capacity c x ser :: 'f HT_Timeline)
      (s\<lparr>rt_mem := m, rt_locks := L\<rparr>)"
    if "alloc_wf m" "\<And>q. live (rt_mem s) q \<noteq> None \<Longrightarrow> live m q = live (rt_mem s) q"
      "(x \<noteq> None) = thread_safe" "\<And>p. x = Some p \<Longrightarrow> L p = Some False" "L mtx = Some False" for m L x
    using that ab k
    by (auto simp: timeline_ready_def timeline_inv_def timeline_core_def new_timeline_def pending_def
        buffer_live_def container_inv_def mutex_free_def listener_bag_inv_def split: option.splits)
  consider (unsafe) "\<not> thread_safe" | (safe) thread_safe by blast
  then show ?thesis
  proof cases
    case unsafe
    with ready [of "rt_mem s" None "rt_locks s"] wf k(6) show ?thesis
      by (simp add: create_with_listeners_def mutex_free_def)
  next
    case safe
    show ?thesis
    proof (cases rule: mutex_create_cases [OF wf])
      case (1 m)
      from timeline_create_mutex [OF wf ab k sep 1] 1(1) safe show ?thesis by (auto simp: create_with_listeners_def)
    next
      case (2 p m)
      have "mtx \<noteq> p" using k(6) 2(3) by (auto simp: mutex_free_def)
      moreover have "live m q = live (rt_mem s) q" if "live (rt_mem s) q \<noteq> None" for q
        using that 2(3,4) by auto
      ultimately have "timeline_ready capacity thread_safe ser (new_timeline a b capacity c (Some p) ser :: 'f HT_Timeline)
          (s\<lparr>rt_mem := m, rt_locks := (rt_locks s)(p \<mapsto> False)\<rparr>)"
        using 2(2) safe k(6) by (intro ready) (auto simp: mutex_free_def)
      with 2(1,2) safe show ?thesis by (simp add: create_with_listeners_def)
    qed
  qed
qed

lemma create_complete:
  fixes s :: "('w, 's) reg_scheme"
  assumes a: "live (rt_mem s) a = None" "live m = (live (rt_mem s))(a \<mapsto> na)"
    and b: "live m b = None" "live m1 = (live m)(b \<mapsto> nb)" and ab: "a \<noteq> b"
    and c: "ht_timeline_listener_container_create junk (s\<lparr>rt_mem := m1\<rparr>) =
        Some (Some c, set_container c k (s\<lparr>rt_mem := m1, rt_mem := m2, rt_locks := (rt_locks (s\<lparr>rt_mem := m1\<rparr>))(mtx \<mapsto> False)\<rparr>))"
      "alloc_wf m2" "listener_bag_inv (entries k) m2" "listeners k = []" "c_refcount k = 1"
      "c_mutex k = Some mtx" "c \<noteq> mtx" "c \<noteq> bag_block (entries k)" "mtx \<noteq> bag_block (entries k)"
      "footprint {} (rt_mem (s\<lparr>rt_mem := m1\<rparr>)) (container_blocks k c) m2" "bag_size (entries k) = 0"
      "length (bag_cells (entries k)) = 16"
  shows "\<exists>err (r :: 'f HT_Timeline option) s'.
           create_with_listeners a b c capacity thread_safe ser
             (set_container c k (s\<lparr>rt_mem := m2, rt_locks := (rt_locks s)(mtx \<mapsto> False)\<rparr>)) = Some (err, r, s') \<and>
           alloc_wf (rt_mem s') \<and>
           (case r of None \<Rightarrow> err = HT_ERR_OUT_OF_MEMORY \<and> live (rt_mem s') = live (rt_mem s)
            | Some line \<Rightarrow> err = HT_ERR_OK \<and> timeline_ready capacity thread_safe ser line s')"
proof -
  let ?s = "set_container c k (s\<lparr>rt_mem := m2, rt_locks := (rt_locks s)(mtx \<mapsto> False)\<rparr>)"
  have fp: "footprint {} m1 (container_blocks k c) m2" using c(10) by simp
  have m1: "live m1 a \<noteq> None" "live m1 b \<noteq> None" using a b ab by simp_all
  have frame: "live m2 q = live m1 q" "q \<notin> container_blocks k c" if "live m1 q \<noteq> None" for q
    using footprint_frame [OF fp, of q] that by auto
  have sep: "container_blocks k c \<inter> {a, b} = {}" using frame(2) m1 by auto
  have blocks: "live m2 q \<noteq> None" if "q \<in> container_blocks k c" for q
    using fp that by (auto simp: footprint_def)
  have "footprint {} (rt_mem s) {a, b} m1"
    using footprint_trans [OF footprint_alloc [OF a] footprint_extend [OF footprint_alloc [OF b], of "{a}", simplified]] a ab
    by simp
  also have "footprint {a, b} m1 ({a, b} \<union> container_blocks k c) m2"
    using footprint_extend [OF fp, of "{a, b}"] m1 by (simp add: insert_commute Un_commute) blast
  finally have all: "footprint {} (rt_mem s) ({a, b} \<union> container_blocks k c) m2" .
  have mem: "rt_mem ?s = m2" "containers ?s c = Some k" "mutex_free mtx ?s"
    using blocks [of mtx] c(6) by (simp_all add: set_container_def mutex_free_def container_blocks_def)
  have "live m2 c \<noteq> None" "live m2 a \<noteq> None" "live m2 b \<noteq> None"
    using blocks [of c] frame(1) m1 by (simp_all add: container_blocks_def)
  note live = this
  from create_step_mutex [where 'f = 'f, of ?s a b c k mtx capacity thread_safe ser, unfolded mem(1),
      OF c(2) live(2,3) ab mem(2) c(3-6) mem(3) live(1) c(7-9) sep]
  obtain err s' and r :: "'f HT_Timeline option" where
    run: "create_with_listeners a b c capacity thread_safe ser ?s = Some (err, r, s')" "alloc_wf (rt_mem s')"
      and post: "case r of
        None \<Rightarrow> err = HT_ERR_OUT_OF_MEMORY \<and> footprint ({a, b} \<union> container_blocks k c) m2 {} (rt_mem s')
      | Some line \<Rightarrow> err = HT_ERR_OK \<and> timeline_ready capacity thread_safe ser line s'"
    by blast
  have "live (rt_mem s') = live (rt_mem s)" if "footprint ({a, b} \<union> container_blocks k c) m2 {} (rt_mem s')"
    using footprint_trans [OF all that] by simp
  with run post show ?thesis by (auto split: option.splits)
qed

section \<open>Properties\<close>

text \<open>
  C11. \<^verbatim>\<open>ht_timeline_create\<close> without a listener name always returns, whatever requests for memory are
  refused. Either there is a new timeline, with an empty buffer of the wanted capacity, its own
  empty container of listeners and a free mutex if one was asked for; or the result is the null
  pointer and every block that was allocated on the way is released. The error code is
  \<^verbatim>\<open>HT_ERR_OK\<close> with a timeline, and also with the null pointer if it was the block of the
  timeline itself that could not be allocated.
\<close>

theorem timeline_create_complete_or_undone:
  fixes s :: "('w, 's) reg_scheme"
  assumes wf: "alloc_wf (rt_mem s)"
  shows "\<exists>err (r :: 'f HT_Timeline option) s'.
           ht_timeline_create junk capacity thread_safe ser None s = Some (err, r, s') \<and> alloc_wf (rt_mem s') \<and>
           (case r of
              None \<Rightarrow> live (rt_mem s') = live (rt_mem s) \<and>
                (err = HT_ERR_OK \<longleftrightarrow> (\<exists>m. ht_alloc sizeof_HT_Timeline (rt_mem s) = Some (None, m)))
            | Some line \<Rightarrow> err = HT_ERR_OK \<and> timeline_ready capacity thread_safe ser line s')"
proof (cases rule: ht.alloc_cases [OF wf, of sizeof_HT_Timeline])
  case (1 m)
  then show ?thesis by (simp add: ht_timeline_create_def)
next
  case a: (2 a m)
  show ?thesis
  proof (cases rule: ht.alloc_cases [OF a(2), of capacity])
    case (1 m1)
    then have "live m1 a \<noteq> None" using a(4) by simp
    from ht.free_law [OF 1(2) this] obtain m2 where "ht_free (Some a) m1 = Some m2" "alloc_wf m2"
      "live m2 = (live m1)(a := None)" by blast
    with a 1 show ?thesis by (simp add: ht_timeline_create_def fun_upd_idem)
  next
    case b: (2 b m1)
    have ab: "a \<noteq> b" "live m1 b \<noteq> None" "live m1 a \<noteq> None" using a(4) b(3,4) by auto
    have wf1: "alloc_wf (rt_mem (s\<lparr>rt_mem := m1\<rparr>))" using b(2) by simp
    have undo: "live m3 = live (rt_mem s)" if "live m2 = live m1" "live m3 = (live m2)(b := None, a := None)" for m2 m3
      using that a(3,4) b(3,4) ab by (auto simp: fun_eq_iff)
    show ?thesis
    proof (cases rule: container_create_ok [OF wf1, of junk])
      case (1 m2)
      have "live m2 b \<noteq> None" "live m2 a \<noteq> None" using 1(3) ab by simp_all
      from free_two [OF 1(2) this ab(1)] obtain m3 m4 where f: "ht_free (Some b) m2 = Some m3"
        "ht_free (Some a) m3 = Some m4" "alloc_wf m4" "live m4 = (live m2)(b := None, a := None)" by blast
      with undo [of m2 m4] 1 a(1) b(1) show ?thesis
        by (simp add: ht_timeline_create_def ht_find_or_create_listener_def)
    next
      case c: (2 c k mtx m2)
      let ?s = "set_container c k (s\<lparr>rt_mem := m2, rt_locks := (rt_locks s)(mtx \<mapsto> False)\<rparr>)"
      note step = create_complete [OF a(3,4) b(3,4) ab(1) c, of capacity thread_safe ser]
      from a(1) b(1) c(1) have "ht_timeline_create junk capacity thread_safe ser None s =
          (create_with_listeners a b c capacity thread_safe ser ?s ::
             (HT_ErrorCode \<times> 'f HT_Timeline option \<times> ('w, 's) reg_scheme) option)"
        by (simp add: ht_timeline_create_def ht_find_or_create_listener_def)
      with step a(1) show ?thesis by (auto split: option.splits)
    qed
  qed
qed

text \<open>
  C7. Every event that is pushed to a timeline in serialized mode reaches every listener, once, in the order of the
  pushes, whatever the capacity of the buffer and however pushes and flushes alternate. After a
  final flush the chunks that were handed to the listeners are together exactly the bytes that
  waited before followed by the bytes of the events. Nothing waits any more, the mutex is free
  again and no memory was kept. The events have no structure member besides the base and fit in the buffer or in the local array of
  128 bytes, so that no memory is needed; the callbacks of the listeners return.
\<close>

theorem timeline_delivers_all_events:
  assumes inv: "timeline_inv line k s" and ser: "tl_serialize_events line" and ret: "listeners_return Q True k" "Q (world s)"
    and fits: "\<forall>opn\<in>set ops. op_fits (tl_buffer_capacity line) opn"
  shows "\<exists>line' s' chunks. run_ops (timeline_step e repr) (ops @ [Flush]) (line, s) = Some (line', s') \<and>
           timeline_inv line' k s' \<and> pending line' = [] \<and> rt_locks s' = rt_locks s \<and>
           live (rt_mem s') = live (rt_mem s) \<and>
           broadcast k True chunks (world s) = Some (world s') \<and>
           concat chunks = pending line @ concat (map (op_bytes e (klasses s)) ops)"
  using timeline_run_flush_ok [OF assms, of e repr] by blast

text \<open>A timeline with a buffer of 32 bytes and a listener that keeps what it is called with.\<close>

definition recorder :: "byte list list listener_entry" where
  "recorder = \<lparr>le_callback = (\<lambda>bs ser ud w. Some (w @ [bs])), le_user_data = 0, le_destroy_cb = None\<rparr>"

definition demo_container :: "byte list list container" where
  "demo_container =
     \<lparr>entries = \<lparr>bag_min_capacity = 16, bag_capacity = 16, bag_size = 1, bag_data = Some 4,
                 bag_cells = Some recorder # replicate 15 None\<rparr>,
      c_mutex = Some 5, c_id = 0, c_refcount = 1\<rparr>"

theorem timeline_create_complete_or_undone_witness:
  "\<exists>err (r :: unit HT_Timeline option) s'.
     ht_timeline_create (entries demo_container) 64 True True None demo_reg = Some (err, r, s') \<and>
     (case r of None \<Rightarrow> live (rt_mem s') = live (rt_mem demo_reg)
      | Some line \<Rightarrow> err = HT_ERR_OK \<and> timeline_ready 64 True True line s')"
proof -
  have "alloc_wf (rt_mem demo_reg)" using demo_reg_inv [of "[] :: byte list list"] by (simp add: klass_register_inv_def)
  from timeline_create_complete_or_undone [where 'f = unit, OF this, of "entries demo_container" 64 True True]
  obtain err s' and r :: "unit HT_Timeline option" where
    "ht_timeline_create (entries demo_container) 64 True True None demo_reg = Some (err, r, s')"
    "case r of None \<Rightarrow> live (rt_mem s') = live (rt_mem demo_reg) \<and>
        (err = HT_ERR_OK \<longleftrightarrow> (\<exists>m. ht_alloc sizeof_HT_Timeline (rt_mem demo_reg) = Some (None, m)))
      | Some line \<Rightarrow> err = HT_ERR_OK \<and> timeline_ready 64 True True line s'" by blast
  then show ?thesis by (intro exI [of _ err] exI [of _ r] exI [of _ s']) (simp split: option.splits)
qed

definition demo_state :: "(byte list list, unit) reg_scheme" where
  "demo_state = demo_reg\<lparr>
     rt_mem := \<lparr>heap_of = \<lparr>blocks = [1 \<mapsto> 64, 2 \<mapsto> 40, 3 \<mapsto> 48, 4 \<mapsto> 384, 5 \<mapsto> 40, 6 \<mapsto> 312, 7 \<mapsto> 32, 8 \<mapsto> 40],
                           next_addr = 9, refusals = [True]\<rparr>, realloc_fnc = None, user_data = 0\<rparr>,
     rt_locks := [2 \<mapsto> False, 5 \<mapsto> False, 8 \<mapsto> False], containers := [3 \<mapsto> demo_container]\<rparr>"

definition demo_line :: "unit HT_Timeline" where
  "demo_line = new_timeline 6 7 32 3 (Some 8) True"

lemma demo_line_inv: "timeline_inv demo_line demo_container demo_state"
  by (simp add: timeline_inv_def timeline_core_def demo_line_def demo_state_def new_timeline_def buffer_live_def
      live_def alloc_wf_def heap_ok_def listener_bag_inv_def demo_container_def filled_def bag_block_def)

lemma demo_listeners: "listeners demo_container = [recorder]"
  by (simp add: listeners_def demo_container_def bag_list_def contents_def)

lemma demo_return: "listeners_return (\<lambda>_. True) ser demo_container"
  by (simp add: listeners_return_def demo_listeners) (simp add: recorder_def)

lemma demo_broadcast: "broadcast demo_container ser chunks w = Some (w @ chunks)"
  by (induction chunks arbitrary: w) (simp_all add: broadcast_def demo_listeners recorder_def)

theorem timeline_delivers_all_events_witness:
  "\<exists>line' s'. run_ops (timeline_step HT_ENDIANNESS_LITTLE (\<lambda>_. []))
       ([Push (HT_Event ''HT_SystemInfoEvent'' 1 2), Push demo_event, Flush, Push (HT_Event ''A'' 3 4)] @ [Flush])
       (demo_line, demo_state) = Some (line', s') \<and> pending line' = [] \<and>
     concat (world s') = event_bytes HT_ENDIANNESS_LITTLE (klasses demo_state) (HT_Event ''HT_SystemInfoEvent'' 1 2) @
       event_bytes HT_ENDIANNESS_LITTLE (klasses demo_state) demo_event @
       event_bytes HT_ENDIANNESS_LITTLE (klasses demo_state) (HT_Event ''A'' 3 4)"
proof -
  let ?ops = "[Push (HT_Event ''HT_SystemInfoEvent'' 1 2), Push demo_event, Flush, Push (HT_Event ''A'' 3 4)]"
  have "tl_serialize_events demo_line" by (simp add: demo_line_def new_timeline_def)
  moreover have "\<forall>opn\<in>set ?ops. op_fits (tl_buffer_capacity demo_line) opn"
    by (simp add: demo_event_def demo_line_def new_timeline_def strlen_def)
  ultimately obtain line' s' chunks where
    "run_ops (timeline_step HT_ENDIANNESS_LITTLE (\<lambda>_. [])) (?ops @ [Flush]) (demo_line, demo_state) = Some (line', s')"
    "pending line' = []" "broadcast demo_container True chunks (world demo_state) = Some (world s')"
    "concat chunks = pending demo_line @ concat (map (op_bytes HT_ENDIANNESS_LITTLE (klasses demo_state)) ?ops)"
    using timeline_delivers_all_events [OF demo_line_inv _ demo_return, of ?ops HT_ENDIANNESS_LITTLE "\<lambda>_. []"] by blast
  moreover have "pending demo_line = []" by (simp add: pending_def demo_line_def new_timeline_def)
  moreover have "world demo_state = []" by (simp add: demo_state_def demo_reg_of_def)
  ultimately show ?thesis by (auto simp: demo_broadcast)
qed

text \<open>
  C16. Pushing an event that is larger than both the buffer and the local array of 128 bytes is
  undefined when the block for it cannot be allocated: the result of \<^verbatim>\<open>ht_alloc\<close> is used
  without a test.
\<close>

theorem large_event_out_of_memory_undefined:
  assumes inv: "timeline_inv line k s" and ser: "tl_serialize_events line" and ret: "listeners_return Q True k" "Q (world s)"
    and large: "tl_buffer_capacity line < get_size ev" "128 < get_size ev"
    and refused: "ht_alloc (get_size ev) (rt_mem s) = Some (None, m)"
  shows "ht_timeline_push_event e repr line ev s = None"
proof -
  let ?s = "s\<lparr>rt_locks := locks_taken line (rt_locks s)\<rparr>"
  have core: "timeline_core line k ?s" using inv by (simp add: timeline_inv_def timeline_core_locks)
  from flush_locked_ok [OF this, of Q] ret ser obtain w where
    "timeline_flush_locked line ?s = Some (line\<lparr>tl_buffer_usage := 0\<rparr>, ?s\<lparr>world := w\<rparr>)" by auto
  then have "push_serialized e line ev ?s = None"
    using large refused by (simp add: push_serialized_def push_large_event_def)
  with timeline_lock_ok [OF inv] ser show ?thesis by (simp add: ht_timeline_push_event_def)
qed

theorem large_event_out_of_memory_undefined_witness:
  "ht_timeline_push_event HT_ENDIANNESS_LITTLE (\<lambda>_. []) demo_line
     (Derived (HT_Event ''A'' 0 0) (replicate 20 (Integer 8 1))) demo_state = None"
proof -
  let ?ev = "Derived (HT_Event ''A'' 0 0) (replicate 20 (Integer 8 1))"
  have size: "get_size ?ev = 180" by (simp add: sum_list_replicate)
  have "tl_serialize_events demo_line" "tl_buffer_capacity demo_line < get_size ?ev" "128 < get_size ?ev"
    by (simp_all add: demo_line_def new_timeline_def sum_list_replicate)
  moreover obtain m where "ht_alloc (get_size ?ev) (rt_mem demo_state) = Some (None, m)"
    unfolding size by (simp add: demo_state_def ht_alloc_def malloc_def libc_refuses_def)
  ultimately show ?thesis
    using large_event_out_of_memory_undefined [OF demo_line_inv _ demo_return] by blast
qed

end
