(* ===== verification/Stack.thy ===== *)
theory Stack
  imports Bag
begin

text \<open>
  \<^verbatim>\<open>lib/stack.c\<close> and \<^verbatim>\<open>lib/include/internal/stack.h\<close>: a stack of byte records of different
  sizes in one block, with the offsets of the records in a bag. The callstack feature keeps the
  open tracepoints in it.
\<close>

section \<open>The structure and its operations\<close>

record ht_stack =
  sizes_stack :: "nat bag"
  stack_data :: "addr option"
  stack_cells :: "byte option list"
  stack_size :: nat
  stack_min_capacity :: nat
  stack_capacity :: nat

definition ht_stack_resize :: "ht_stack \<Rightarrow> nat \<Rightarrow> mem \<Rightarrow> (bool \<times> ht_stack \<times> mem) option" where
  "ht_stack_resize s new_capacity m =
     do { (new_data, m) \<leftarrow> ht_realloc (stack_data s) new_capacity m;
          case new_data of
            None \<Rightarrow> Some (False, s, m)
          | Some p \<Rightarrow>
              Some (True,
                s\<lparr>stack_data := Some p, stack_capacity := new_capacity,
                  stack_cells := resize_cells new_capacity (stack_cells s)\<rparr>,
                m) }"

definition ht_stack_init ::
  "ht_stack \<Rightarrow> nat \<Rightarrow> nat \<Rightarrow> mem \<Rightarrow> (HT_ErrorCode \<times> ht_stack \<times> mem) option" where
  "ht_stack_init s cap n_capacity m =
     do { (p, m) \<leftarrow> ht_alloc cap m;
          let s = s\<lparr>stack_data := p, stack_cells := replicate cap None\<rparr>;
          if p = None then Some (HT_ERR_OUT_OF_MEMORY, s, m)
          else do {
            (err, b, m) \<leftarrow> ht_bag_init sizeof_void_ptr (sizes_stack s) n_capacity m;
            let s = s\<lparr>sizes_stack := b\<rparr>;
            if err \<noteq> HT_ERR_OK then do { m \<leftarrow> ht_free p m; Some (err, s, m) }
            else Some (HT_ERR_OK,
                   s\<lparr>stack_size := 0, stack_capacity := cap, stack_min_capacity := cap\<rparr>, m) } }"

definition ht_stack_deinit :: "ht_stack \<Rightarrow> mem \<Rightarrow> (ht_stack \<times> mem) option" where
  "ht_stack_deinit s m =
     do { (b, m) \<leftarrow> ht_bag_deinit (sizes_stack s) m;
          m \<leftarrow> ht_free (stack_data s) m;
          Some (s\<lparr>sizes_stack := b, stack_min_capacity := 0, stack_size := 0,
                  stack_capacity := 0\<rparr>, m) }"

text \<open>
  The loop that looks for a growth factor, in \<^verbatim>\<open>size_t\<close> arithmetic. It need not end (for a
  capacity of 0 it does not), and \<^term>\<open>None\<close> is that it does not return.
\<close>

partial_function (option) grow_factor :: "nat \<Rightarrow> nat \<Rightarrow> nat \<Rightarrow> nat \<Rightarrow> nat option" where
  "grow_factor cap sz n factor =
     (if size_sub (size_mul cap factor) sz < n then grow_factor cap sz n (size_mul factor 2)
      else Some factor)"

text \<open>\<^verbatim>\<open>memcpy\<close> into the block.\<close>

definition stack_write :: "ht_stack \<Rightarrow> nat \<Rightarrow> byte list \<Rightarrow> mem \<Rightarrow> ht_stack option" where
  "stack_write s off bs m =
     (case stack_data s of
        None \<Rightarrow> None
      | Some p \<Rightarrow>
          (if live m p \<noteq> None \<and> off + length bs \<le> length (stack_cells s)
           then Some (s\<lparr>stack_cells := write_cells off bs (stack_cells s)\<rparr>) else None))"

definition ht_stack_push ::
  "ht_stack \<Rightarrow> byte list \<Rightarrow> mem \<Rightarrow> (HT_ErrorCode \<times> ht_stack \<times> mem) option" where
  "ht_stack_push s bs m =
     do { (resized, s, m) \<leftarrow>
            (if size_sub (stack_capacity s) (stack_size s) < length bs
             then do { factor \<leftarrow> grow_factor (stack_capacity s) (stack_size s) (length bs) 2;
                       ht_stack_resize s (size_mul (stack_capacity s) factor) m }
             else Some (True, s, m));
          if \<not> resized then Some (HT_ERR_OUT_OF_MEMORY, s, m)
          else do {
            (err, b, m) \<leftarrow> ht_bag_add sizeof_void_ptr (sizes_stack s) (stack_size s) m;
            let s = s\<lparr>sizes_stack := b\<rparr>;
            if err \<noteq> HT_ERR_OK then Some (err, s, m)
            else do {
              s \<leftarrow> stack_write s (stack_size s) bs m;
              Some (HT_ERR_OK, s\<lparr>stack_size := stack_size s + length bs\<rparr>, m) } } }"

definition ht_stack_pop :: "ht_stack \<Rightarrow> mem \<Rightarrow> (ht_stack \<times> mem) option" where
  "ht_stack_pop s m =
     do { top \<leftarrow> ht_bag_last (sizes_stack s) m;
          let s = s\<lparr>stack_size := top\<rparr>;
          (b, m) \<leftarrow> ht_bag_remove_nth sizeof_void_ptr (sizes_stack s)
                      (bag_size (sizes_stack s) - 1) m;
          let s = s\<lparr>sizes_stack := b\<rparr>;
          if stack_capacity s > stack_min_capacity s \<and> stack_size s < stack_capacity s div 4
          then do { (_, s, m) \<leftarrow> ht_stack_resize s (stack_capacity s div 2) m; Some (s, m) }
          else Some (s, m) }"

text \<open>\<^verbatim>\<open>ht_stack_top\<close>: the offset in the block of the record pushed last.\<close>

definition ht_stack_top :: "ht_stack \<Rightarrow> mem \<Rightarrow> nat option" where
  "ht_stack_top s m = ht_bag_last (sizes_stack s) m"

text \<open>Reading \<open>n\<close> bytes at an offset of the block, and storing bytes there.\<close>

definition stack_read :: "ht_stack \<Rightarrow> nat \<Rightarrow> nat \<Rightarrow> mem \<Rightarrow> byte list option" where
  "stack_read s off n m =
     (case stack_data s of
        None \<Rightarrow> None
      | Some p \<Rightarrow>
          (if live m p \<noteq> None \<and> off + n \<le> length (stack_cells s) \<and>
              None \<notin> set (take n (drop off (stack_cells s)))
           then Some (map the (take n (drop off (stack_cells s)))) else None))"

section \<open>The growth loop\<close>

lemma grow_factor_ok:
  assumes "0 < cap" and "sz + n < 2 ^ 62" and "sz \<le> cap * 2 ^ j" and "cap * 2 ^ j < 2 ^ 64"
  shows "\<exists>k\<ge>j. grow_factor cap sz n (2 ^ j) = Some (2 ^ k) \<and> sz + n \<le> cap * 2 ^ k \<and> cap * 2 ^ k < 2 ^ 64"
  using assms
proof (induction "sz + n - cap * 2 ^ j" arbitrary: j rule: less_induct)
  case less
  let ?v = "cap * 2 ^ j"
  have test: "size_sub (size_mul cap (2 ^ j)) sz = ?v - sz"
    using less.prems by (simp add: size_mul_def size_sub_le SIZE_MODULUS_def)
  show ?case
  proof (cases "?v - sz < n")
    case False
    then have "grow_factor cap sz n (2 ^ j) = Some (2 ^ j)"
      by (subst grow_factor.simps) (simp add: test)
    with False less.prems show ?thesis by (intro exI [of _ j]) auto
  next
    case True
    with less.prems have lt: "?v < sz + n" by simp
    have "(2::nat) ^ j \<le> ?v" using less.prems(1) by simp
    with lt less.prems(2) have "(2::nat) ^ j < 2 ^ 62" by linarith
    then have "size_mul (2 ^ j) 2 = 2 ^ Suc j"
      by (simp add: size_mul_def SIZE_MODULUS_def)
    then have step: "grow_factor cap sz n (2 ^ j) = grow_factor cap sz n (2 ^ Suc j)"
      using True by (subst grow_factor.simps) (simp add: test)
    have "0 < ?v" using less.prems(1) by simp
    moreover have "cap * 2 ^ Suc j = ?v + ?v" by simp
    ultimately have "sz + n - cap * 2 ^ Suc j < sz + n - ?v" using lt by linarith
    moreover have "cap * 2 ^ Suc j < 2 ^ 64" using lt less.prems(2) by simp
    moreover have "sz \<le> cap * 2 ^ Suc j" using less.prems(3) by simp
    ultimately obtain k where "k \<ge> Suc j" and "grow_factor cap sz n (2 ^ Suc j) = Some (2 ^ k)"
      and "sz + n \<le> cap * 2 ^ k" and "cap * 2 ^ k < 2 ^ 64"
      using less.hyps [of "Suc j"] less.prems(1,2) by blast
    with step show ?thesis by (intro exI [of _ k]) simp
  qed
qed

text \<open>Without capacity no factor is ever large enough.\<close>

lemma grow_factor_stuck:
  assumes "0 < n"
  shows "grow_factor 0 0 n f = None"
proof -
  have "cap = 0 \<longrightarrow> sz = 0 \<longrightarrow> \<not> 0 < k" if "grow_factor cap sz k f = Some y" for cap sz k y
    by (rule grow_factor.raw_induct [OF _ that])
      (auto simp: size_mul_def size_sub_le SIZE_MODULUS_def split: if_splits)
  with assms show ?thesis by (cases "grow_factor 0 0 n f") auto
qed

section \<open>The invariant: a stack of records\<close>

definition offsets :: "'a list list \<Rightarrow> nat list" where
  "offsets fs = map (\<lambda>i. length (concat (take i fs))) [0..<length fs]"

lemma offsets_snoc: "offsets (fs @ [f]) = offsets fs @ [length (concat fs)]"
  by (simp add: offsets_def)

definition stack_block :: "ht_stack \<Rightarrow> addr" where
  "stack_block s = (case stack_data s of None \<Rightarrow> 0 | Some p \<Rightarrow> p)"

definition stack_blocks :: "ht_stack \<Rightarrow> addr set" where
  "stack_blocks s = {stack_block s, bag_block (sizes_stack s)}"

definition stack_inv :: "ht_stack \<Rightarrow> mem \<Rightarrow> bool" where
  "stack_inv s m \<longleftrightarrow>
     bag_inv sizeof_void_ptr (sizes_stack s) m \<and> stack_block s \<noteq> bag_block (sizes_stack s) \<and>
     stack_data s = Some (stack_block s) \<and> live m (stack_block s) = Some (stack_capacity s) \<and>
     length (stack_cells s) = stack_capacity s \<and> filled (stack_size s) (stack_cells s) \<and>
     0 < stack_min_capacity s \<and> (\<exists>k. stack_capacity s = stack_min_capacity s * 2 ^ k) \<and>
     stack_capacity s \<le> PTRDIFF_MAX"

text \<open>The stack holds the records \<open>fs\<close>, the one pushed last at the end of the list.\<close>

definition stack_holds :: "ht_stack \<Rightarrow> byte list list \<Rightarrow> bool" where
  "stack_holds s fs \<longleftrightarrow>
     bag_list (sizes_stack s) = offsets fs \<and> contents (stack_size s) (stack_cells s) = concat fs"

lemma stack_inv_size: "stack_inv s m \<Longrightarrow> stack_size s \<le> stack_capacity s"
  by (auto simp: stack_inv_def filled_def)

lemma stack_holds_size: "stack_inv s m \<Longrightarrow> stack_holds s fs \<Longrightarrow> stack_size s = length (concat fs)"
  by (metis length_contents stack_holds_def stack_inv_def)

lemma stack_inv_blocks: "stack_inv s m \<Longrightarrow> stack_blocks s \<subseteq> dom (live m)"
  by (auto simp: stack_blocks_def stack_inv_def dest: bag_inv_block)

section \<open>The operations\<close>

lemma stack_resize_cases:
  assumes inv: "stack_inv s m" and wf: "alloc_wf m" and sz: "stack_size s \<le> new" "0 < new"
    and pow: "\<exists>k. new = stack_min_capacity s * 2 ^ k"
  obtains (refused) m' where "ht_stack_resize s new m = Some (False, s, m')" and "alloc_wf m'"
      and "live m' = live m"
  | (granted) s' m' where "ht_stack_resize s new m = Some (True, s', m')" and "alloc_wf m'"
      and "stack_inv s' m'" and "stack_holds s' = stack_holds s" and "stack_capacity s' = new"
      and "stack_size s' = stack_size s" and "footprint (stack_blocks s) m (stack_blocks s') m'"
proof -
  let ?p = "stack_block s" and ?b = "sizes_stack s"
  from inv have p: "stack_data s = Some ?p" "live m ?p \<noteq> None" and ne: "?p \<noteq> bag_block ?b"
    and bag: "bag_inv sizeof_void_ptr ?b m"
    by (simp_all add: stack_inv_def)
  from bag have b: "live m (bag_block ?b) \<noteq> None" by (simp add: bag_inv_block)
  show thesis
  proof (cases rule: ht.realloc_cases [OF wf p(2) sz(2)])
    case (1 m')
    with p show ?thesis by (intro refused [of m']) (simp_all add: ht_stack_resize_def)
  next
    case (2 q m')
    let ?s = "s\<lparr>stack_data := Some q, stack_capacity := new,
               stack_cells := resize_cells new (stack_cells s)\<rparr>"
    have fp: "footprint {?p} m {q} m'" by (rule footprint_move [OF 2(3,4)])
    have q: "q \<noteq> bag_block ?b" and lb: "live m' (bag_block ?b) = live m (bag_block ?b)"
      using footprint_frame [OF fp, of "bag_block ?b"] ne b by auto
    from lb bag have "bag_inv sizeof_void_ptr ?b m'" by (simp add: bag_inv_frame)
    then have "stack_inv ?s m'"
      using inv 2 q sz pow by (auto simp: stack_inv_def stack_block_def filled_resize)
    moreover have "stack_holds ?s = stack_holds s"
      using inv sz by (simp add: stack_holds_def fun_eq_iff contents_resize stack_inv_def)
    moreover have "footprint (stack_blocks s) m (stack_blocks ?s) m'"
      using footprint_extend [OF fp, of "{bag_block ?b}"] ne b
      by (auto simp: stack_blocks_def stack_block_def insert_commute)
    ultimately show ?thesis
      using 2 p by (intro granted [of ?s m']) (simp_all add: ht_stack_resize_def)
  qed
qed

text \<open>The effect of one operation on the bag of offsets.\<close>

lemma stack_inv_moved_bag:
  assumes inv: "stack_inv s m" and mv: "moved (bag_block (sizes_stack s)) m (bag_block b') m'"
    and b': "bag_inv sizeof_void_ptr b' m'"
  shows "stack_inv (s\<lparr>sizes_stack := b'\<rparr>) m'"
    and "footprint (stack_blocks s) m (stack_blocks (s\<lparr>sizes_stack := b'\<rparr>)) m'"
proof -
  let ?p = "stack_block s"
  from inv have p: "live m ?p \<noteq> None" and ne: "?p \<noteq> bag_block (sizes_stack s)"
    by (simp_all add: stack_inv_def)
  from mv p ne have lp: "live m' ?p = live m ?p" and ne': "bag_block b' \<noteq> ?p"
    by (auto dest: moved_frame moved_fresh)
  from inv lp ne' b' show "stack_inv (s\<lparr>sizes_stack := b'\<rparr>) m'"
    by (auto simp: stack_inv_def stack_block_def)
  show "footprint (stack_blocks s) m (stack_blocks (s\<lparr>sizes_stack := b'\<rparr>)) m'"
    using footprint_extend [OF moved_footprint [OF mv], of "{?p}"] p ne
    by (auto simp: stack_blocks_def stack_block_def)
qed

lemma stack_push_write:
  assumes inv: "stack_inv s m" and room: "stack_size s + length bs \<le> stack_capacity s"
  defines "s' \<equiv> s\<lparr>stack_cells := write_cells (stack_size s) bs (stack_cells s),
                  stack_size := stack_size s + length bs\<rparr>"
  shows "stack_write s (stack_size s) bs m =
           Some (s\<lparr>stack_cells := write_cells (stack_size s) bs (stack_cells s)\<rparr>)"
    and "stack_inv s' m"
    and "contents (stack_size s') (stack_cells s') = contents (stack_size s) (stack_cells s) @ bs"
proof -
  from inv room have fl: "filled (stack_size s) (stack_cells s)"
    and len: "stack_size s + length bs \<le> length (stack_cells s)"
    by (simp_all add: stack_inv_def)
  from inv len show "stack_write s (stack_size s) bs m =
      Some (s\<lparr>stack_cells := write_cells (stack_size s) bs (stack_cells s)\<rparr>)"
    by (simp add: stack_write_def stack_inv_def)
  from inv len write_cells_append(1) [OF fl len] show "stack_inv s' m"
    by (auto simp: s'_def stack_inv_def stack_block_def)
  from write_cells_append(2) [OF fl len]
  show "contents (stack_size s') (stack_cells s') = contents (stack_size s) (stack_cells s) @ bs"
    by (simp add: s'_def)
qed

text \<open>The second half of a push, once the block has room.\<close>

lemma stack_push_tail:
  assumes inv: "stack_inv s m" and wf: "alloc_wf m" and holds: "stack_holds s fs"
    and room: "stack_size s + length bs \<le> stack_capacity s"
  defines "run \<equiv> do {
            (err, b, m) \<leftarrow> ht_bag_add sizeof_void_ptr (sizes_stack s) (stack_size s) m;
            let s = s\<lparr>sizes_stack := b\<rparr>;
            if err \<noteq> HT_ERR_OK then Some (err, s, m)
            else do {
              s \<leftarrow> stack_write s (stack_size s) bs m;
              Some (HT_ERR_OK, s\<lparr>stack_size := stack_size s + length bs\<rparr>, m) } }"
  shows "\<exists>err s' m'. run = Some (err, s', m') \<and> alloc_wf m' \<and> stack_inv s' m' \<and>
           footprint (stack_blocks s) m (stack_blocks s') m' \<and>
           (if err = HT_ERR_OK then stack_holds s' (fs @ [bs])
            else err = HT_ERR_OUT_OF_MEMORY \<and> stack_holds s' fs)"
proof -
  from inv have bag: "bag_inv sizeof_void_ptr (sizes_stack s) m" by (simp add: stack_inv_def)
  from holds have off: "bag_list (sizes_stack s) = offsets fs"
    and con: "contents (stack_size s) (stack_cells s) = concat fs"
    by (simp_all add: stack_holds_def)
  have size: "stack_size s = length (concat fs)" using inv holds by (rule stack_holds_size)
  show ?thesis
  proof (cases rule: bag_add_cases [OF bag wf, of "stack_size s"])
    case (1 m')
    then have "run = Some (HT_ERR_OUT_OF_MEMORY, s, m')" by (simp add: run_def)
    moreover have "stack_inv s m'" using inv 1 by (simp add: stack_inv_def bag_inv_def)
    moreover have "footprint (stack_blocks s) m (stack_blocks s) m'"
      using 1 inv by (simp add: footprint_same stack_inv_blocks)
    ultimately show ?thesis using 1 holds by auto
  next
    case (2 b' m')
    let ?s1 = "s\<lparr>sizes_stack := b'\<rparr>"
    have inv1: "stack_inv ?s1 m'" and fp1: "footprint (stack_blocks s) m (stack_blocks ?s1) m'"
      using stack_inv_moved_bag [OF inv 2(6,3)] by auto
    have room1: "stack_size ?s1 + length bs \<le> stack_capacity ?s1" using room by simp
    note w = stack_push_write [OF inv1 room1]
    let ?s' = "?s1\<lparr>stack_cells := write_cells (stack_size ?s1) bs (stack_cells ?s1),
                  stack_size := stack_size ?s1 + length bs\<rparr>"
    have "run = Some (HT_ERR_OK, ?s', m')" using 2(1) w(1) by (simp add: run_def)
    moreover have "stack_holds ?s' (fs @ [bs])"
      using w(3) 2(4) off size con by (simp add: stack_holds_def offsets_snoc)
    moreover have "footprint (stack_blocks s) m (stack_blocks ?s') m'"
      using fp1 by (simp add: stack_blocks_def stack_block_def)
    ultimately show ?thesis using 2(2) w(2) by auto
  qed
qed

lemma stack_grow_pow:
  assumes "stack_inv s m"
  shows "\<exists>k. stack_capacity s * 2 ^ j = stack_min_capacity s * 2 ^ k"
proof -
  from assms obtain i where "stack_capacity s = stack_min_capacity s * 2 ^ i"
    by (auto simp: stack_inv_def)
  then have "stack_capacity s * 2 ^ j = stack_min_capacity s * 2 ^ (i + j)"
    by (simp add: power_add)
  then show ?thesis ..
qed

lemma stack_push_ok:
  assumes inv: "stack_inv s m" and wf: "alloc_wf m" and holds: "stack_holds s fs"
    and small: "stack_size s + length bs < 2 ^ 62"
  shows "\<exists>err s' m'. ht_stack_push s bs m = Some (err, s', m') \<and> alloc_wf m' \<and> stack_inv s' m' \<and>
           footprint (stack_blocks s) m (stack_blocks s') m' \<and>
           (if err = HT_ERR_OK then stack_holds s' (fs @ [bs])
            else err = HT_ERR_OUT_OF_MEMORY \<and> stack_holds s' fs)"
proof -
  let ?cap = "stack_capacity s" and ?n = "length bs"
  have le: "stack_size s \<le> ?cap" using inv by (rule stack_inv_size)
  have cap: "?cap \<le> 2 ^ 63 - 1" using inv by (simp add: stack_inv_def PTRDIFF_MAX_def)
  have pos: "0 < ?cap" using inv by (auto simp: stack_inv_def)
  have test: "size_sub ?cap (stack_size s) = ?cap - stack_size s"
    using cap le by (simp add: size_sub_le SIZE_MODULUS_def)
  show ?thesis
  proof (cases "?cap - stack_size s < ?n")
    case False
    with le have room: "stack_size s + ?n \<le> ?cap" by simp
    from False stack_push_tail [OF inv wf holds room] show ?thesis
      by (simp add: ht_stack_push_def test)
  next
    case True
    have "stack_size s \<le> ?cap * 2 ^ 1" "?cap * 2 ^ 1 < 2 ^ 64" using le cap by simp_all
    from grow_factor_ok [OF pos small this] obtain k where
      gf: "grow_factor ?cap (stack_size s) ?n 2 = Some (2 ^ k)"
      and enough: "stack_size s + ?n \<le> ?cap * 2 ^ k" and fits: "?cap * 2 ^ k < 2 ^ 64"
      by auto
    from fits have mul: "size_mul ?cap (2 ^ k) = ?cap * 2 ^ k"
      by (simp add: size_mul_def SIZE_MODULUS_def)
    have new: "stack_size s \<le> ?cap * 2 ^ k" "0 < ?cap * 2 ^ k" using enough pos by simp_all
    show ?thesis
    proof (cases rule: stack_resize_cases [OF inv wf new stack_grow_pow [OF inv]])
      case (1 m')
      then have "ht_stack_push s bs m = Some (HT_ERR_OUT_OF_MEMORY, s, m')"
        using True gf by (simp add: ht_stack_push_def test mul)
      moreover have "stack_inv s m'" using inv 1 by (simp add: stack_inv_def bag_inv_def)
      moreover have "footprint (stack_blocks s) m (stack_blocks s) m'"
        using 1 inv by (simp add: footprint_same stack_inv_blocks)
      ultimately show ?thesis using 1 holds by auto
    next
      case (2 s1 m1)
      have "stack_holds s1 fs" and "stack_size s1 + ?n \<le> stack_capacity s1"
        using 2 holds enough by simp_all
      from stack_push_tail [OF 2(3,2) this] obtain err s' m' where
        "ht_stack_push s bs m = Some (err, s', m')" and "alloc_wf m'" and "stack_inv s' m'"
        and "footprint (stack_blocks s1) m1 (stack_blocks s') m'"
        and "if err = HT_ERR_OK then stack_holds s' (fs @ [bs])
             else err = HT_ERR_OUT_OF_MEMORY \<and> stack_holds s' fs"
        using True gf 2(1) by (auto simp: ht_stack_push_def test mul)
      with footprint_trans [OF 2(7)] show ?thesis by blast
    qed
  qed
qed

lemma stack_top_ok:
  assumes inv: "stack_inv s m" and holds: "stack_holds s (fs @ [f])"
  shows "ht_stack_top s m = Some (length (concat fs))"
    and "stack_read s (length (concat fs)) (length f) m = Some f"
proof -
  let ?b = "sizes_stack s" and ?o = "length (concat fs)"
  from inv have bag: "bag_inv sizeof_void_ptr ?b m" by (simp add: stack_inv_def)
  from holds have l: "bag_list ?b = offsets fs @ [?o]"
    by (simp add: stack_holds_def offsets_snoc)
  with length_bag_list [OF bag] have sz: "bag_size ?b = Suc (length (offsets fs))" by simp
  with bag_nth_ok [OF bag, of "length (offsets fs)"] l show "ht_stack_top s m = Some ?o"
    by (simp add: ht_stack_top_def ht_bag_last_def)
  from inv have fl: "filled (stack_size s) (stack_cells s)" by (simp add: stack_inv_def)
  have size: "stack_size s = ?o + length f" using stack_holds_size [OF inv holds] by simp
  have "take (?o + length f) (stack_cells s) = map Some (concat fs @ f)"
    using fl holds by (simp add: filled_iff_contents stack_holds_def size)
  then have t: "take (length f) (drop ?o (stack_cells s)) = map Some f"
    by (simp add: take_drop add.commute)
  have "?o + length f \<le> length (stack_cells s)" using fl size by (simp add: filled_def)
  with inv t show "stack_read s ?o (length f) m = Some f"
    by (auto simp: stack_read_def stack_inv_def comp_def)
qed

lemma stack_pop_ok:
  assumes inv: "stack_inv s m" and wf: "alloc_wf m" and holds: "stack_holds s (fs @ [f])"
  shows "\<exists>s' m'. ht_stack_pop s m = Some (s', m') \<and> alloc_wf m' \<and> stack_inv s' m' \<and>
           stack_holds s' fs \<and> footprint (stack_blocks s) m (stack_blocks s') m'"
proof -
  let ?b = "sizes_stack s" and ?o = "length (concat fs)"
  from inv have bag: "bag_inv sizeof_void_ptr ?b m" by (simp add: stack_inv_def)
  from holds have l: "bag_list ?b = offsets fs @ [?o]"
    by (simp add: stack_holds_def offsets_snoc)
  with length_bag_list [OF bag] have sz: "bag_size ?b = length (bag_list ?b)" "0 < bag_size ?b"
    by simp_all
  then have "bag_size ?b - 1 < length (bag_list ?b)" by simp
  from bag_remove_law [OF bag wf this] obtain b' m1 where
    rm: "ht_bag_remove_nth sizeof_void_ptr ?b (bag_size ?b - 1) m = Some (b', m1)"
    and wf1: "alloc_wf m1" and b': "bag_inv sizeof_void_ptr b' m1"
    and mv: "moved (bag_block ?b) m (bag_block b') m1"
    and l': "bag_list b' = offsets fs"
    by (auto simp: sz(1) l swap_remove_def)
  let ?s0 = "s\<lparr>stack_size := ?o\<rparr>"
  let ?s1 = "?s0\<lparr>sizes_stack := b'\<rparr>"
  have size: "stack_size s = ?o + length f" using stack_holds_size [OF inv holds] by simp
  have inv0: "stack_inv ?s0 m"
    using inv size filled_mono [of "stack_size s" "stack_cells s" ?o]
    by (auto simp: stack_inv_def stack_block_def)
  have blk0: "stack_blocks ?s0 = stack_blocks s" by (simp add: stack_blocks_def stack_block_def)
  have inv1: "stack_inv ?s1 m1" and fp1: "footprint (stack_blocks s) m (stack_blocks ?s1) m1"
    using stack_inv_moved_bag [OF inv0, of b' m1] mv b' blk0 by auto
  have holds1: "stack_holds ?s1 fs"
    using holds l' size contents_take [of ?o "stack_size s" "stack_cells s"]
    by (simp add: stack_holds_def)
  have run: "ht_stack_pop s m =
      (if stack_capacity s > stack_min_capacity s \<and> ?o < stack_capacity s div 4
       then do { (_, s, m) \<leftarrow> ht_stack_resize ?s1 (stack_capacity s div 2) m1; Some (s, m) }
       else Some (?s1, m1))"
    using stack_top_ok(1) [OF inv holds] rm
    by (simp add: ht_stack_pop_def ht_stack_top_def Let_def)
  show ?thesis
  proof (cases "stack_capacity s > stack_min_capacity s \<and> ?o < stack_capacity s div 4")
    case False
    with run inv1 fp1 holds1 wf1 show ?thesis by auto
  next
    case True
    from inv obtain k where k: "stack_capacity s = stack_min_capacity s * 2 ^ k"
      by (auto simp: stack_inv_def)
    with True obtain j where j: "k = Suc j" by (cases k) auto
    have new: "stack_size ?s1 \<le> stack_capacity s div 2" "0 < stack_capacity s div 2"
      "\<exists>k. stack_capacity s div 2 = stack_min_capacity ?s1 * 2 ^ k"
      using True k j by auto
    show ?thesis
    proof (cases rule: stack_resize_cases [OF inv1 wf1 new])
      case (1 m')
      then have "stack_inv ?s1 m'" using inv1 by (simp add: stack_inv_def bag_inv_def stack_block_def)
      moreover have "footprint (stack_blocks ?s1) m1 (stack_blocks ?s1) m'"
        using 1 inv1 by (simp add: footprint_same stack_inv_blocks)
      with fp1 have "footprint (stack_blocks s) m (stack_blocks ?s1) m'" by (rule footprint_trans)
      ultimately show ?thesis using 1 run True holds1 by auto
    next
      case (2 s' m')
      with footprint_trans [OF fp1 2(7)] run True holds1 show ?thesis by auto
    qed
  qed
qed

lemma stack_init_ok:
  assumes wf: "alloc_wf m" and cap: "0 < cap" and n: "0 < n" "n * sizeof_void_ptr \<le> PTRDIFF_MAX"
  shows "\<exists>err s' m'. ht_stack_init s cap n m = Some (err, s', m') \<and> alloc_wf m' \<and>
           (if err = HT_ERR_OK
            then stack_inv s' m' \<and> stack_holds s' [] \<and> footprint {} m (stack_blocks s') m'
            else err = HT_ERR_OUT_OF_MEMORY \<and> live m' = live m)"
proof (cases rule: ht.alloc_cases [OF wf, of cap])
  case (1 m')
  then show ?thesis by (simp add: ht_stack_init_def)
next
  case (2 p m1)
  have v: "0 < sizeof_void_ptr" "sizeof_void_ptr \<le> sizeof_void_ptr"
    by (simp_all add: sizeof_void_ptr_def)
  show ?thesis
  proof (cases rule: bag_init_cases [OF 2(2) v n, of "sizes_stack s"])
    case (1 b' m2)
    from 1(3) 2(4) have "live m2 p \<noteq> None" by simp
    from ht.free_law [OF 1(2) this] obtain m' where "ht_free (Some p) m2 = Some m'"
      and "alloc_wf m'" and "live m' = (live m2)(p := None)" by blast
    with 1 2 show ?thesis by (simp add: ht_stack_init_def fun_upd_idem)
  next
    case (2 b' m2)
    note g = \<open>ht_alloc cap m = Some (Some p, m1)\<close> \<open>live m p = None\<close> \<open>live m1 = (live m)(p \<mapsto> cap)\<close>
      \<open>cap \<le> PTRDIFF_MAX\<close>
    let ?s = "s\<lparr>stack_data := Some p, stack_cells := replicate cap None, sizes_stack := b',
               stack_size := 0, stack_capacity := cap, stack_min_capacity := cap\<rparr>"
    have ne: "bag_block b' \<noteq> p" using 2 g by auto
    have "\<exists>k. cap = cap * 2 ^ k" by (rule exI [of _ 0]) simp
    with 2 g ne cap have "stack_inv ?s m2"
      by (simp add: stack_inv_def stack_block_def)
    moreover have "stack_holds ?s []" using 2 by (simp add: stack_holds_def offsets_def)
    moreover have "footprint {} m (stack_blocks ?s) m2"
      using 2 g ne
      by (auto simp: footprint_def stack_blocks_def stack_block_def restrict_map_def fun_eq_iff)
    ultimately show ?thesis using 2 g by (simp add: ht_stack_init_def)
  qed
qed

lemma stack_deinit_ok:
  assumes inv: "stack_inv s m" and wf: "alloc_wf m"
  shows "\<exists>s' m'. ht_stack_deinit s m = Some (s', m') \<and> alloc_wf m' \<and>
           footprint (stack_blocks s) m {} m'"
proof -
  from inv have bag: "bag_inv sizeof_void_ptr (sizes_stack s) m"
    and ne: "stack_block s \<noteq> bag_block (sizes_stack s)"
    and p: "stack_data s = Some (stack_block s)" "live m (stack_block s) \<noteq> None"
    by (simp_all add: stack_inv_def)
  from bag_deinit_ok [OF bag wf] obtain b1 m1 where b1: "ht_bag_deinit (sizes_stack s) m = Some (b1, m1)"
    and wf1: "alloc_wf m1" and l1: "live m1 = (live m)(bag_block (sizes_stack s) := None)" by blast
  from ne p l1 have "live m1 (stack_block s) \<noteq> None" by simp
  from ht.free_law [OF wf1 this] obtain m2 where "ht_free (stack_data s) m1 = Some m2"
    and "alloc_wf m2" and "live m2 = (live m1)(stack_block s := None)" by (auto simp: p)
  with b1 l1 show ?thesis
    by (auto simp: ht_stack_deinit_def stack_blocks_def footprint_def restrict_map_def fun_eq_iff)
qed

section \<open>Properties\<close>

text \<open>
  C6. A push on a stack that holds the records \<open>fs\<close> always returns: either it reports that
  memory ran out and the stack still holds exactly \<open>fs\<close>, or it succeeds and the record is on
  top (it is what reading at \<^verbatim>\<open>ht_stack_top\<close> gives), and the next pop gives back a stack that
  holds exactly \<open>fs\<close>. Nothing but the stack's own two blocks is touched and nothing leaks.
\<close>

theorem stack_push_pop:
  assumes "stack_inv s m" and "alloc_wf m" and "stack_holds s fs"
    and "stack_size s + length bs < 2 ^ 62"
  shows "\<exists>err s1 m1. ht_stack_push s bs m = Some (err, s1, m1) \<and>
           footprint (stack_blocks s) m (stack_blocks s1) m1 \<and>
           (if err = HT_ERR_OK
            then ht_stack_top s1 m1 = Some (length (concat fs)) \<and>
                 stack_read s1 (length (concat fs)) (length bs) m1 = Some bs \<and>
                 (\<exists>s2 m2. ht_stack_pop s1 m1 = Some (s2, m2) \<and> stack_inv s2 m2 \<and>
                    stack_holds s2 fs \<and> footprint (stack_blocks s) m (stack_blocks s2) m2)
            else err = HT_ERR_OUT_OF_MEMORY \<and> stack_inv s1 m1 \<and> stack_holds s1 fs)"
proof -
  from stack_push_ok [OF assms] obtain err s1 m1 where run: "ht_stack_push s bs m = Some (err, s1, m1)"
    and wf: "alloc_wf m1" and inv: "stack_inv s1 m1"
    and fp: "footprint (stack_blocks s) m (stack_blocks s1) m1"
    and res: "if err = HT_ERR_OK then stack_holds s1 (fs @ [bs])
              else err = HT_ERR_OUT_OF_MEMORY \<and> stack_holds s1 fs" by blast
  show ?thesis
  proof (cases "err = HT_ERR_OK")
    case True
    with res have holds: "stack_holds s1 (fs @ [bs])" by simp
    from stack_pop_ok [OF inv wf holds] footprint_trans [OF fp] stack_top_ok [OF inv holds]
    show ?thesis using run fp True by fastforce
  next
    case False
    with run inv fp res show ?thesis by auto
  qed
qed

definition demo_stack_mem :: mem where
  "demo_stack_mem = \<lparr>heap_of = \<lparr>blocks = [1 \<mapsto> 2, 2 \<mapsto> 8], next_addr = 3, refusals = []\<rparr>,
                     realloc_fnc = None, user_data = 0\<rparr>"

definition demo_stack :: ht_stack where
  "demo_stack =
     \<lparr>sizes_stack = \<lparr>bag_min_capacity = 1, bag_capacity = 1, bag_size = 1, bag_data = Some 2,
                     bag_cells = [Some 0]\<rparr>,
      stack_data = Some 1, stack_cells = [Some 7, None], stack_size = 1,
      stack_min_capacity = 2, stack_capacity = 2\<rparr>"

lemma demo_stack_ok:
  "alloc_wf demo_stack_mem" "stack_inv demo_stack demo_stack_mem" "stack_holds demo_stack [[7]]"
proof -
  show "alloc_wf demo_stack_mem"
    by (simp add: demo_stack_mem_def alloc_wf_def heap_ok_def)
  have "\<exists>k. Suc 0 = 2 ^ k" by (rule exI [of _ 0]) simp
  then show "stack_inv demo_stack demo_stack_mem"
    unfolding stack_inv_def bag_inv_def demo_stack_def demo_stack_mem_def live_def filled_def
    by (simp add: stack_block_def bag_block_def sizeof_void_ptr_def PTRDIFF_MAX_def)
  show "stack_holds demo_stack [[7]]"
    by (simp add: stack_holds_def demo_stack_def bag_list_def contents_def offsets_def)
qed

lemma demo_stack_push:
  "fst (the (ht_stack_push demo_stack [1, 2, 3] demo_stack_mem)) = HT_ERR_OK"
proof -
  have "grow_factor 2 (Suc 0) (Suc (Suc (Suc 0))) 2 = Some 2"
    by (subst grow_factor.simps) (simp add: size_mul_def size_sub_def SIZE_MODULUS_def)
  then show ?thesis
    by (simp add: ht_stack_push_def demo_stack_def demo_stack_mem_def size_sub_def size_mul_def
        SIZE_MODULUS_def ht_stack_resize_def ht_realloc_def realloc_def libc_refuses_def
        PTRDIFF_MAX_def ht_bag_add_def ht_bag_resize_def sizeof_void_ptr_def resize_cells_def
        ht_bag_set_def bag_live_def live_def stack_write_def)
qed

theorem stack_push_pop_witness:
  "\<exists>s1 m1 s2 m2. ht_stack_push demo_stack [1, 2, 3] demo_stack_mem = Some (HT_ERR_OK, s1, m1) \<and>
     stack_read s1 1 3 m1 = Some [1, 2, 3] \<and> ht_stack_pop s1 m1 = Some (s2, m2) \<and>
     stack_holds s2 [[7]]"
proof -
  have "stack_size demo_stack + length [1, 2, 3 :: byte] < 2 ^ 62" by (simp add: demo_stack_def)
  from stack_push_pop [OF demo_stack_ok(2,1,3) this] demo_stack_push show ?thesis
    by (auto simp: numeral_3_eq_3)
qed

end
