(* ===== verification/Listener_Buffer.thy ===== *)
theory Listener_Buffer
  imports Registry
begin

text \<open>
  \<^verbatim>\<open>lib/listener_buffer.c\<close>: the buffer between the events a listener is called with and the
  place the listener writes them to.

  The structure is passed along as a value; the flush callback gets the listener and the bytes
  and works on the state. The callbacks of the library read nothing of the buffer but the bytes
  they are given.
\<close>

section \<open>The structure and its operations\<close>

record HT_ListenerBuffer =
  lb_data :: "addr option"
  lb_cells :: "byte option list"
  lb_max_size :: nat
  lb_usage :: nat

type_synonym 'w flush_callback = "addr \<Rightarrow> byte list \<Rightarrow> 'w \<Rightarrow> 'w option"

definition lb_live :: "HT_ListenerBuffer \<Rightarrow> 's rt_scheme \<Rightarrow> bool" where
  "lb_live b s = (case lb_data b of None \<Rightarrow> False | Some p \<Rightarrow> live (rt_mem s) p \<noteq> None)"

text \<open>The fields of a structure that was not initialized before are the argument \<open>junk\<close>.\<close>

definition ht_listener_buffer_init ::
  "HT_ListenerBuffer \<Rightarrow> nat \<Rightarrow> mem \<Rightarrow> (HT_ErrorCode \<times> HT_ListenerBuffer \<times> mem) option" where
  "ht_listener_buffer_init junk max_size m =
     (if max_size = 0
      then Some (HT_ERR_OK, \<lparr>lb_data = None, lb_cells = [], lb_max_size = 0, lb_usage = 0\<rparr>, m)
      else do {
        (p, m) \<leftarrow> ht_alloc max_size m;
        case p of
          None \<Rightarrow> Some (HT_ERR_OUT_OF_MEMORY, junk\<lparr>lb_data := None\<rparr>, m)
        | Some a \<Rightarrow> Some (HT_ERR_OK, \<lparr>lb_data = Some a, lb_cells = replicate max_size None,
                                      lb_max_size = max_size, lb_usage = 0\<rparr>, m) })"

definition ht_listener_buffer_deinit :: "HT_ListenerBuffer \<Rightarrow> mem \<Rightarrow> mem option" where
  "ht_listener_buffer_deinit b m = ht_free (lb_data b) m"

text \<open>The bytes that are handed to the callback; nothing is read when there are none.\<close>

definition lb_read :: "HT_ListenerBuffer \<Rightarrow> 's rt_scheme \<Rightarrow> byte list option" where
  "lb_read b s =
     (if lb_usage b = 0 then Some []
      else if lb_live b s then read_bytes (lb_usage b) (lb_cells b) else None)"

definition ht_listener_buffer_flush ::
  "'s rt_scheme flush_callback \<Rightarrow> addr \<Rightarrow> HT_ListenerBuffer \<Rightarrow> 's rt_scheme \<Rightarrow>
   (HT_ListenerBuffer \<times> 's rt_scheme) option" where
  "ht_listener_buffer_flush flush_callback listener b s =
     do { bs \<leftarrow> lb_read b s;
          s \<leftarrow> flush_callback listener bs s;
          Some (b\<lparr>lb_usage := 0\<rparr>, s) }"

text \<open>The loop of \<^verbatim>\<open>ht_listener_buffer_process_serialized_events\<close>; the subtraction is that of \<^verbatim>\<open>size_t\<close>.\<close>

definition lb_actual_size :: "HT_ListenerBuffer \<Rightarrow> nat \<Rightarrow> nat" where
  "lb_actual_size b left = min left (size_sub (lb_max_size b) (lb_usage b))"

definition lb_copy :: "byte list \<Rightarrow> nat \<Rightarrow> HT_ListenerBuffer \<Rightarrow> 's rt_scheme \<Rightarrow> HT_ListenerBuffer option" where
  "lb_copy events written b s =
     (let n = lb_actual_size b (length events - written) in
      if lb_live b s
      then do { cells \<leftarrow> buffer_write (lb_usage b) (take n (drop written events)) (lb_cells b);
                Some (b\<lparr>lb_cells := cells, lb_usage := lb_usage b + n\<rparr>) }
      else None)"

partial_function (option) process_serialized_from ::
  "'s rt_scheme flush_callback \<Rightarrow> addr \<Rightarrow> byte list \<Rightarrow> nat \<Rightarrow> HT_ListenerBuffer \<Rightarrow> 's rt_scheme \<Rightarrow>
   (HT_ListenerBuffer \<times> 's rt_scheme) option" where
  "process_serialized_from flush_callback listener events written b s =
     (if written < length events
      then do {
        b1 \<leftarrow> lb_copy events written b s;
        (b2, s2) \<leftarrow> (if lb_usage b1 = lb_max_size b1
                     then ht_listener_buffer_flush flush_callback listener b1 s else Some (b1, s));
        process_serialized_from flush_callback listener events
          (written + lb_actual_size b (length events - written)) b2 s2 }
      else Some (b, s))"

definition ht_listener_buffer_process_serialized_events ::
  "'s rt_scheme flush_callback \<Rightarrow> addr \<Rightarrow> byte list \<Rightarrow> HT_ListenerBuffer \<Rightarrow> 's rt_scheme \<Rightarrow>
   (HT_ListenerBuffer \<times> 's rt_scheme) option" where
  "ht_listener_buffer_process_serialized_events flush_callback listener events b s =
     (if lb_max_size b = 0
      then do { s \<leftarrow> flush_callback listener events s; Some (b, s) }
      else process_serialized_from flush_callback listener events 0 b s)"

text \<open>
  Events that are not serialized are objects in memory: the argument \<open>object\<close> reads the object
  at the start of some bytes. The serialized event is written to the rest of the buffer.
\<close>

partial_function (option) process_unserialized_from ::
  "HT_Endianness \<Rightarrow> (byte list \<Rightarrow> ht_struct) \<Rightarrow> (klass_ref \<Rightarrow> HT_EventKlass) \<Rightarrow> 's rt_scheme flush_callback \<Rightarrow>
   addr \<Rightarrow> byte list \<Rightarrow> nat \<Rightarrow> HT_ListenerBuffer \<Rightarrow> 's rt_scheme \<Rightarrow> (HT_ListenerBuffer \<times> 's rt_scheme) option" where
  "process_unserialized_from e object kl flush_callback listener events i b s =
     (if i < length events
      then do {
        (b1, s1) \<leftarrow> (if get_size (object (drop i events)) + lb_usage b > lb_max_size b
                     then ht_listener_buffer_flush flush_callback listener b s else Some (b, s));
        (n, cells) \<leftarrow> (if lb_live b1 s1
                        then serialize e kl (object (drop i events)) (lb_usage b1) (lb_cells b1) else None);
        ti \<leftarrow> type_info (kl (event_klass (object (drop i events))));
        process_unserialized_from e object kl flush_callback listener events (i + ti_size ti)
          (b1\<lparr>lb_cells := cells, lb_usage := lb_usage b1 + n\<rparr>) s1 }
      else Some (b, s))"

definition ht_listener_buffer_process_unserialized_events ::
  "HT_Endianness \<Rightarrow> (byte list \<Rightarrow> ht_struct) \<Rightarrow> (klass_ref \<Rightarrow> HT_EventKlass) \<Rightarrow> 's rt_scheme flush_callback \<Rightarrow>
   addr \<Rightarrow> byte list \<Rightarrow> HT_ListenerBuffer \<Rightarrow> 's rt_scheme \<Rightarrow> (HT_ListenerBuffer \<times> 's rt_scheme) option" where
  "ht_listener_buffer_process_unserialized_events e object kl flush_callback listener events b s =
     (if lb_max_size b = 0 then None
      else process_unserialized_from e object kl flush_callback listener events 0 b s)"

section \<open>The invariant\<close>

definition lb_pending :: "HT_ListenerBuffer \<Rightarrow> byte list" where
  "lb_pending b = contents (lb_usage b) (lb_cells b)"

definition lb_inv :: "HT_ListenerBuffer \<Rightarrow> 's rt_scheme \<Rightarrow> bool" where
  "lb_inv b s \<longleftrightarrow>
     length (lb_cells b) = lb_max_size b \<and> filled (lb_usage b) (lb_cells b) \<and> lb_max_size b < SIZE_MODULUS \<and>
     (lb_max_size b \<noteq> 0 \<longrightarrow> lb_live b s)"

lemma lb_inv_usage: "lb_inv b s \<Longrightarrow> lb_usage b \<le> lb_max_size b"
  by (simp add: lb_inv_def filled_def)

lemma lb_read_ok: "lb_inv b s \<Longrightarrow> lb_read b s = Some (lb_pending b)"
  by (auto simp: lb_inv_def lb_read_def lb_pending_def read_bytes_def filled_def)

lemma lb_inv_empty: "lb_inv b s \<Longrightarrow> rt_mem s' = rt_mem s \<Longrightarrow> lb_inv (b\<lparr>lb_usage := 0\<rparr>) s'"
  by (simp add: lb_inv_def lb_live_def split: option.splits)

lemma lb_pending_empty [simp]: "lb_pending (b\<lparr>lb_usage := 0\<rparr>) = []"
  by (simp add: lb_pending_def)

text \<open>Appending bytes for which there is room.\<close>

lemma lb_append:
  assumes inv: "lb_inv b s" and room: "lb_usage b + length bs \<le> lb_max_size b" and ne: "lb_max_size b \<noteq> 0"
  defines "b' \<equiv> b\<lparr>lb_cells := write_cells (lb_usage b) bs (lb_cells b), lb_usage := lb_usage b + length bs\<rparr>"
  shows "buffer_write (lb_usage b) bs (lb_cells b) = Some (write_cells (lb_usage b) bs (lb_cells b))"
    and "lb_inv b' s" and "lb_pending b' = lb_pending b @ bs"
proof -
  from inv have len: "length (lb_cells b) = lb_max_size b" and fl: "filled (lb_usage b) (lb_cells b)"
    by (simp_all add: lb_inv_def)
  have "lb_usage b + length bs \<le> length (lb_cells b)" using room len by simp
  note w = write_cells_append [OF fl this]
  show "buffer_write (lb_usage b) bs (lb_cells b) = Some (write_cells (lb_usage b) bs (lb_cells b))"
    using room len by (simp add: buffer_write_def)
  show "lb_inv b' s" using inv w len room by (simp add: lb_inv_def b'_def lb_live_def)
  show "lb_pending b' = lb_pending b @ bs" using w by (simp add: lb_pending_def b'_def)
qed

lemma lb_init_ok:
  assumes "alloc_wf m" and "n < SIZE_MODULUS"
  obtains (refused) m' b where "ht_listener_buffer_init junk n m = Some (HT_ERR_OUT_OF_MEMORY, b, m')"
      and "alloc_wf m'" and "live m' = live m"
  | (bypass) b where "n = 0" and "ht_listener_buffer_init junk n m = Some (HT_ERR_OK, b, m)"
      and "lb_data b = None" and "lb_max_size b = 0" and "lb_cells b = []" and "lb_usage b = 0"
  | (created) m' b a where "ht_listener_buffer_init junk n m = Some (HT_ERR_OK, b, m')" and "alloc_wf m'"
      and "lb_data b = Some a" and "live m a = None" and "live m' = (live m)(a \<mapsto> n)"
      and "lb_max_size b = n" and "lb_cells b = replicate n None" and "lb_usage b = 0"
proof (cases "n = 0")
  case True
  then show thesis
    by (intro bypass [of "\<lparr>lb_data = None, lb_cells = [], lb_max_size = 0, lb_usage = 0\<rparr>"])
      (simp_all add: ht_listener_buffer_init_def)
next
  case False
  show thesis
  proof (cases rule: ht.alloc_cases [OF assms(1), of n])
    case (1 m')
    then show thesis using False
      by (intro refused [of "junk\<lparr>lb_data := None\<rparr>" m']) (simp_all add: ht_listener_buffer_init_def)
  next
    case (2 a m')
    then show thesis using False
      by (intro created [of "\<lparr>lb_data = Some a, lb_cells = replicate n None, lb_max_size = n, lb_usage = 0\<rparr>" m' a])
        (simp_all add: ht_listener_buffer_init_def)
  qed
qed

text \<open>
  \<open>absorbs\<close>: the bytes \<open>new\<close> went through the buffer, in order and without loss; \<open>out\<close> is what
  the listener has put out.
\<close>

definition absorbs ::
  "(addr \<Rightarrow> 's rt_scheme \<Rightarrow> bool) \<Rightarrow> (addr \<Rightarrow> 's rt_scheme \<Rightarrow> byte list) \<Rightarrow> addr \<Rightarrow> HT_ListenerBuffer \<Rightarrow>
   's rt_scheme \<Rightarrow> byte list \<Rightarrow> HT_ListenerBuffer \<Rightarrow> 's rt_scheme \<Rightarrow> bool" where
  "absorbs ready out l b s new b' s' \<longleftrightarrow>
     lb_inv b' s' \<and> ready l s' \<and> out l s' @ lb_pending b' = out l s @ lb_pending b @ new \<and>
     rt_mem s' = rt_mem s \<and> rt_locks s' = rt_locks s \<and>
     lb_data b' = lb_data b \<and> lb_max_size b' = lb_max_size b"

lemma absorbs_refl: "lb_inv b s \<Longrightarrow> ready l s \<Longrightarrow> absorbs ready out l b s [] b s"
  by (simp add: absorbs_def)

lemma absorbs_trans:
  "absorbs ready out l b s xs b1 s1 \<Longrightarrow> absorbs ready out l b1 s1 ys b2 s2 \<Longrightarrow>
   absorbs ready out l b s (xs @ ys) b2 s2"
  unfolding absorbs_def by (metis append.assoc)

lemma absorbs_append:
  assumes "lb_inv b s" and "ready l s" and "lb_usage b + length bs \<le> lb_max_size b" and "lb_max_size b \<noteq> 0"
  shows "absorbs ready out l b s bs (b\<lparr>lb_cells := write_cells (lb_usage b) bs (lb_cells b),
    lb_usage := lb_usage b + length bs\<rparr>) s"
  using lb_append(2,3) [OF assms(1,3,4)] assms(2) by (simp add: absorbs_def)

text \<open>
  An event that can be read back from its object representation \<open>repr\<close> and fits in a buffer of
  \<open>n\<close> bytes.
\<close>

definition storable ::
  "(byte list \<Rightarrow> ht_struct) \<Rightarrow> (ht_struct \<Rightarrow> byte list) \<Rightarrow> (klass_ref \<Rightarrow> HT_EventKlass) \<Rightarrow> nat \<Rightarrow> ht_struct \<Rightarrow> bool" where
  "storable object repr kl n ev \<longleftrightarrow>
     plain_event ev \<and> get_size ev \<le> n \<and> (\<forall>rest. object (repr ev @ rest) = ev) \<and>
     (\<exists>ti. type_info (kl (event_klass ev)) = Some ti \<and> length (repr ev) = ti_size ti \<and> 0 < ti_size ti)"

section \<open>The interface of a flush callback\<close>

text \<open>
  What the buffer relies on: a listener that is ready takes any bytes, appends them to what it
  put out and stays ready, and the memory and the mutexes are as before.
\<close>

locale byte_sink =
  fixes flush :: "'s rt_scheme flush_callback"
    and ready :: "addr \<Rightarrow> 's rt_scheme \<Rightarrow> bool"
    and out :: "addr \<Rightarrow> 's rt_scheme \<Rightarrow> byte list"
  assumes flush_law: "ready l s \<Longrightarrow> \<exists>s'. flush l bs s = Some s' \<and> ready l s' \<and> out l s' = out l s @ bs \<and>
                        rt_mem s' = rt_mem s \<and> rt_locks s' = rt_locks s"
begin

lemma buffer_flush_ok:
  assumes "lb_inv b s" and "ready l s"
  shows "\<exists>s'. ht_listener_buffer_flush flush l b s = Some (b\<lparr>lb_usage := 0\<rparr>, s') \<and>
           absorbs ready out l b s [] (b\<lparr>lb_usage := 0\<rparr>) s'"
proof -
  from flush_law [OF assms(2), of "lb_pending b"] obtain s' where
    f: "flush l (lb_pending b) s = Some s'" "ready l s'" "out l s' = out l s @ lb_pending b"
      "rt_mem s' = rt_mem s" "rt_locks s' = rt_locks s" by blast
  with lb_read_ok [OF assms(1)] lb_inv_empty [OF assms(1) f(4)] show ?thesis
    by (intro exI [of _ s']) (simp add: ht_listener_buffer_flush_def absorbs_def)
qed

text \<open>One turn of the loop takes bytes off the input or empties a full buffer.\<close>

lemma serialized_step:
  assumes inv: "lb_inv b s" "ready l s" and lt: "written < length events" and ne: "lb_max_size b \<noteq> 0"
  defines "n \<equiv> min (length events - written) (lb_max_size b - lb_usage b)"
  shows "\<exists>b' s'. process_serialized_from flush l events written b s =
             process_serialized_from flush l events (written + n) b' s' \<and>
           absorbs ready out l b s (take n (drop written events)) b' s' \<and> lb_usage b' < lb_max_size b'"
proof -
  have max: "lb_max_size b < SIZE_MODULUS" using inv(1) by (simp add: lb_inv_def)
  have n: "lb_actual_size b (length events - written) = n"
    using lb_inv_usage [OF inv(1)] size_sub_le [of "lb_usage b" "lb_max_size b"] max
    by (simp add: lb_actual_size_def n_def)
  have len: "length (take n (drop written events)) = n" by (simp add: n_def)
  have room: "lb_usage b + length (take n (drop written events)) \<le> lb_max_size b"
    using len lb_inv_usage [OF inv(1)] by (simp add: n_def)
  let ?b = "b\<lparr>lb_cells := write_cells (lb_usage b) (take n (drop written events)) (lb_cells b),
              lb_usage := lb_usage b + n\<rparr>"
  note app = absorbs_append [where ready = ready and out = out and l = l, OF inv room ne, unfolded len]
  have copy: "lb_copy events written b s = Some ?b"
    using lb_append(1) [OF inv(1) room ne] n inv(1) ne by (simp add: lb_copy_def lb_inv_def)
  show ?thesis
  proof (cases "lb_usage ?b = lb_max_size ?b")
    case True
    from app have "lb_inv ?b s" "ready l s" by (simp_all add: absorbs_def)
    from buffer_flush_ok [OF this] obtain s' where
      fl: "ht_listener_buffer_flush flush l ?b s = Some (?b\<lparr>lb_usage := 0\<rparr>, s')"
        "absorbs ready out l ?b s [] (?b\<lparr>lb_usage := 0\<rparr>) s'" by blast
    have "process_serialized_from flush l events written b s =
        process_serialized_from flush l events (written + n) (?b\<lparr>lb_usage := 0\<rparr>) s'"
      using lt copy True fl(1) n by (subst process_serialized_from.simps) simp
    moreover have "absorbs ready out l b s (take n (drop written events)) (?b\<lparr>lb_usage := 0\<rparr>) s'"
      using absorbs_trans [OF app fl(2)] by simp
    moreover have "lb_usage (?b\<lparr>lb_usage := 0\<rparr>) < lb_max_size (?b\<lparr>lb_usage := 0\<rparr>)" using ne by simp
    ultimately show ?thesis by blast
  next
    case False
    have "process_serialized_from flush l events written b s =
        process_serialized_from flush l events (written + n) ?b s"
      using lt copy False n by (subst process_serialized_from.simps) simp
    moreover have "lb_usage ?b < lb_max_size ?b" using False room len by simp
    ultimately show ?thesis using app by blast
  qed
qed

lemma process_serialized_from_ok:
  assumes "lb_inv b s" and "ready l s" and "lb_max_size b \<noteq> 0"
  shows "\<exists>b' s'. process_serialized_from flush l events written b s = Some (b', s') \<and>
           absorbs ready out l b s (drop written events) b' s'"
  using assms
proof (induction "2 * (length events - written) + (if lb_usage b < lb_max_size b then 0 else 1)"
    arbitrary: written b s rule: less_induct)
  case less
  show ?case
  proof (cases "written < length events")
    case False
    then show ?thesis
      using absorbs_refl [where ready = ready, OF less.prems(1,2)] by (subst process_serialized_from.simps) simp
  next
    case True
    let ?n = "min (length events - written) (lb_max_size b - lb_usage b)"
    from serialized_step [OF less.prems(1,2) True less.prems(3)] obtain b1 s1 where
      step: "process_serialized_from flush l events written b s =
        process_serialized_from flush l events (written + ?n) b1 s1"
      and ab: "absorbs ready out l b s (take ?n (drop written events)) b1 s1" and lt: "lb_usage b1 < lb_max_size b1"
      by blast
    have "2 * (length events - (written + ?n)) + (if lb_usage b1 < lb_max_size b1 then 0 else 1) <
        2 * (length events - written) + (if lb_usage b < lb_max_size b then 0 else 1)"
      using lt True by auto
    moreover from ab less.prems(3) have "lb_inv b1 s1" "ready l s1" "lb_max_size b1 \<noteq> 0"
      by (simp_all add: absorbs_def)
    ultimately obtain b2 s2 where "process_serialized_from flush l events (written + ?n) b1 s1 = Some (b2, s2)"
      and "absorbs ready out l b1 s1 (drop (written + ?n) events) b2 s2"
      using less.hyps by blast
    moreover have "take ?n (drop written events) @ drop (written + ?n) events = drop written events"
      by (metis append_take_drop_id drop_drop add.commute)
    ultimately show ?thesis using step absorbs_trans [OF ab] by metis
  qed
qed

lemma process_serialized_ok:
  assumes "lb_inv b s" and "ready l s"
  shows "\<exists>b' s'. ht_listener_buffer_process_serialized_events flush l events b s = Some (b', s') \<and>
           absorbs ready out l b s events b' s'"
proof (cases "lb_max_size b = 0")
  case True
  from flush_law [OF assms(2), of events] obtain s' where f: "flush l events s = Some s'" "ready l s'"
    "out l s' = out l s @ events" "rt_mem s' = rt_mem s" "rt_locks s' = rt_locks s" by blast
  have "lb_usage b = 0" using lb_inv_usage [OF assms(1)] True by simp
  then have "lb_pending b = []" "lb_usage b = 0" by (simp_all add: lb_pending_def)
  with f True assms(1) show ?thesis
    by (intro exI [of _ b] exI [of _ s'])
      (simp add: ht_listener_buffer_process_serialized_events_def absorbs_def lb_inv_def)
next
  case False
  with process_serialized_from_ok [OF assms False, of events 0] show ?thesis
    by (simp add: ht_listener_buffer_process_serialized_events_def)
qed

text \<open>One object that is not serialized yet.\<close>

lemma unserialized_step:
  assumes inv: "lb_inv b s" "ready l s" and lt: "i < length events" and ev: "plain_event ev" "object (drop i events) = ev"
    and fits: "get_size ev \<le> lb_max_size b" "lb_max_size b \<noteq> 0" and ti: "type_info (kl (event_klass ev)) = Some ti"
  shows "\<exists>b' s'. process_unserialized_from e object kl flush l events i b s =
             process_unserialized_from e object kl flush l events (i + ti_size ti) b' s' \<and>
           absorbs ready out l b s (event_bytes e kl ev) b' s'"
proof -
  have "\<exists>b1 s1. (if lb_max_size b < get_size ev + lb_usage b then ht_listener_buffer_flush flush l b s
                  else Some (b, s)) = Some (b1, s1) \<and> absorbs ready out l b s [] b1 s1 \<and>
          lb_usage b1 + get_size ev \<le> lb_max_size b1"
  proof (cases "lb_max_size b < get_size ev + lb_usage b")
    case True
    with buffer_flush_ok [OF inv] fits show ?thesis by auto
  next
    case False
    with absorbs_refl [where ready = ready, OF inv] show ?thesis by simp
  qed
  then obtain b1 s1 where first: "(if lb_max_size b < get_size ev + lb_usage b
      then ht_listener_buffer_flush flush l b s else Some (b, s)) = Some (b1, s1)"
    and ab: "absorbs ready out l b s [] b1 s1" and room: "lb_usage b1 + get_size ev \<le> lb_max_size b1" by blast
  from ab fits(2) have inv1: "lb_inv b1 s1" "ready l s1" "lb_max_size b1 \<noteq> 0" by (simp_all add: absorbs_def)
  have len: "length (event_bytes e kl ev) = get_size ev" using ev(1) by (rule length_event_bytes)
  have ser: "serialize e kl ev (lb_usage b1) (lb_cells b1) =
      Some (get_size ev, write_cells (lb_usage b1) (event_bytes e kl ev) (lb_cells b1))"
    using serialize_ok [OF ev(1)] room inv1(1) by (simp add: lb_inv_def)
  have "lb_usage b1 + length (event_bytes e kl ev) \<le> lb_max_size b1" using room len by simp
  note app = absorbs_append [where ready = ready and out = out and l = l, OF inv1(1,2) this inv1(3), unfolded len]
  have "lb_live b1 s1" using inv1 by (simp add: lb_inv_def)
  then have "process_unserialized_from e object kl flush l events i b s =
      process_unserialized_from e object kl flush l events (i + ti_size ti)
        (b1\<lparr>lb_cells := write_cells (lb_usage b1) (event_bytes e kl ev) (lb_cells b1),
            lb_usage := lb_usage b1 + get_size ev\<rparr>) s1"
    using lt ev(2) first ser ti by (subst process_unserialized_from.simps) simp
  with absorbs_trans [OF ab app] show ?thesis by auto
qed

text \<open>Objects one after the other in memory.\<close>

lemma process_unserialized_from_ok:
  assumes "lb_inv b s" and "ready l s" and "lb_max_size b \<noteq> 0"
    and "\<forall>ev\<in>set evs. storable object repr kl (lb_max_size b) ev"
    and "drop i events = concat (map repr evs)" and "i \<le> length events"
  shows "\<exists>b' s'. process_unserialized_from e object kl flush l events i b s = Some (b', s') \<and>
           absorbs ready out l b s (concat (map (event_bytes e kl) evs)) b' s'"
  using assms
proof (induction evs arbitrary: i b s)
  case Nil
  then have "\<not> i < length events" by simp
  with absorbs_refl [where ready = ready, OF Nil(1,2)] show ?case
    by (subst process_unserialized_from.simps) simp
next
  case (Cons ev evs)
  then obtain ti where st: "plain_event ev" "get_size ev \<le> lb_max_size b"
    "type_info (kl (event_klass ev)) = Some ti" "length (repr ev) = ti_size ti" "0 < ti_size ti"
    and obj: "object (drop i events) = ev" by (auto simp: storable_def)
  have "length (drop i events) \<ge> ti_size ti" using Cons.prems(5) st(4) by simp
  then have lt: "i < length events" and le: "i + ti_size ti \<le> length events" using st(5) by simp_all
  from unserialized_step [where object = object and kl = kl, OF Cons.prems(1,2) lt st(1) obj st(2) Cons.prems(3) st(3), of e] obtain b1 s1 where
    step: "process_unserialized_from e object kl flush l events i b s =
      process_unserialized_from e object kl flush l events (i + ti_size ti) b1 s1"
    and ab: "absorbs ready out l b s (event_bytes e kl ev) b1 s1" by blast
  have "drop (i + ti_size ti) events = drop (ti_size ti) (drop i events)" by (simp add: add.commute)
  also have "\<dots> = concat (map repr evs)" using Cons.prems(5) st(4) by simp
  finally have "drop (i + ti_size ti) events = concat (map repr evs)" .
  moreover from ab Cons.prems have "lb_inv b1 s1" "ready l s1" "lb_max_size b1 \<noteq> 0"
    "\<forall>ev\<in>set evs. storable object repr kl (lb_max_size b1) ev" by (simp_all add: absorbs_def)
  ultimately obtain b2 s2 where
    "process_unserialized_from e object kl flush l events (i + ti_size ti) b1 s1 = Some (b2, s2)"
    "absorbs ready out l b1 s1 (concat (map (event_bytes e kl) evs)) b2 s2"
    using Cons.IH le by blast
  with step absorbs_trans [OF ab] show ?case by auto
qed

lemma process_unserialized_ok:
  assumes "lb_inv b s" and "ready l s" and "lb_max_size b \<noteq> 0"
    and "\<forall>ev\<in>set evs. storable object repr kl (lb_max_size b) ev"
  shows "\<exists>b' s'. ht_listener_buffer_process_unserialized_events e object kl flush l (concat (map repr evs)) b s =
             Some (b', s') \<and> absorbs ready out l b s (concat (map (event_bytes e kl) evs)) b' s'"
  using process_unserialized_from_ok [OF assms, of 0 "concat (map repr evs)" e] assms(3)
  by (simp add: ht_listener_buffer_process_unserialized_events_def)

end

end
