(* ===== verification/File_Dump_Listener.thy ===== *)
theory File_Dump_Listener
  imports Timeline Listener_Buffer
begin

text \<open>
  \<^verbatim>\<open>lib/listeners/file_dump_listener.c\<close>: the listener that writes events to a file.

  The listeners are part of the world the callbacks work on. It has the memory and the mutexes
  of the listeners, apart from those of the timelines, and the open streams of the C library:
  for every stream that was opened the bytes written to it so far. Opening a file may fail, as
  may flushing a stream; a stream that is open takes all bytes.
\<close>

section \<open>Streams\<close>

record HT_FileDumpListener =
  fd_buffer :: HT_ListenerBuffer
  fd_p_file :: "nat option"
  fd_mtx :: "addr option"

record file_world = rt +
  streams :: "nat \<rightharpoonup> string"
  written :: "nat \<Rightarrow> byte list"
  next_stream :: nat
  fopen_refuses :: "string \<Rightarrow> bool"
  fflush_fails :: "nat \<Rightarrow> bool"
  fd_listeners :: "addr \<rightharpoonup> HT_FileDumpListener"

definition fopen :: "string \<Rightarrow> 's file_world_scheme \<Rightarrow> nat option \<times> 's file_world_scheme" where
  "fopen filename w =
     (if fopen_refuses w filename then (None, w)
      else (Some (next_stream w),
            w\<lparr>streams := (streams w)(next_stream w \<mapsto> filename), written := (written w)(next_stream w := []),
              next_stream := next_stream w + 1\<rparr>))"

definition fwrite :: "byte list \<Rightarrow> nat \<Rightarrow> 's file_world_scheme \<Rightarrow> 's file_world_scheme option" where
  "fwrite bs f w =
     (if streams w f = None then None else Some (w\<lparr>written := (written w)(f := written w f @ bs)\<rparr>))"

definition fclose :: "nat \<Rightarrow> 's file_world_scheme \<Rightarrow> 's file_world_scheme option" where
  "fclose f w = (if streams w f = None then None else Some (w\<lparr>streams := (streams w)(f := None)\<rparr>))"

section \<open>The listener\<close>

definition fd_is_stopped :: "HT_FileDumpListener \<Rightarrow> bool" where
  "fd_is_stopped listener = (fd_p_file listener = None)"

definition fd_flush :: "'s file_world_scheme flush_callback" where
  "fd_flush l bs w =
     do { listener \<leftarrow> fd_listeners w l;
          f \<leftarrow> fd_p_file listener;
          fwrite bs f w }"

definition set_fd_listener :: "addr \<Rightarrow> HT_FileDumpListener \<Rightarrow> 's file_world_scheme \<Rightarrow> 's file_world_scheme" where
  "set_fd_listener l listener w = w\<lparr>fd_listeners := (fd_listeners w)(l \<mapsto> listener)\<rparr>"

text \<open>The callback; the classes, the byte order and the reading of objects are those of the process.\<close>

definition ht_file_dump_listener_callback ::
  "HT_Endianness \<Rightarrow> (byte list \<Rightarrow> ht_struct) \<Rightarrow> (klass_ref \<Rightarrow> HT_EventKlass) \<Rightarrow> 's file_world_scheme listener_callback" where
  "ht_file_dump_listener_callback e object kl events serialized l w =
     do { listener \<leftarrow> fd_listeners w l;
          mtx \<leftarrow> fd_mtx listener;
          w \<leftarrow> ht_mutex_lock mtx w;
          if fd_is_stopped listener then ht_mutex_unlock mtx w
          else do {
            (b, w) \<leftarrow> (if serialized
                        then ht_listener_buffer_process_serialized_events fd_flush l events (fd_buffer listener) w
                        else ht_listener_buffer_process_unserialized_events e object kl fd_flush l events
                               (fd_buffer listener) w);
            ht_mutex_unlock mtx (set_fd_listener l (listener\<lparr>fd_buffer := b\<rparr>) w) } }"

definition ht_file_dump_listener_flush ::
  "addr \<Rightarrow> bool \<Rightarrow> 's file_world_scheme \<Rightarrow> (HT_ErrorCode \<times> 's file_world_scheme) option" where
  "ht_file_dump_listener_flush l flush_stream w =
     do { listener \<leftarrow> fd_listeners w l;
          mtx \<leftarrow> fd_mtx listener;
          w \<leftarrow> ht_mutex_lock mtx w;
          case fd_p_file listener of
            None \<Rightarrow> do { w \<leftarrow> ht_mutex_unlock mtx w; Some (HT_ERR_OK, w) }
          | Some f \<Rightarrow> do {
              (b, w) \<leftarrow> ht_listener_buffer_flush fd_flush l (fd_buffer listener) w;
              let w = set_fd_listener l (listener\<lparr>fd_buffer := b\<rparr>) w;
              w \<leftarrow> ht_mutex_unlock mtx w;
              Some (if flush_stream \<and> fflush_fails w f then HT_ERR_UNKNOWN else HT_ERR_OK, w) } }"

definition ht_file_dump_listener_stop :: "addr \<Rightarrow> 's file_world_scheme \<Rightarrow> 's file_world_scheme option" where
  "ht_file_dump_listener_stop l w =
     do { listener \<leftarrow> fd_listeners w l;
          mtx \<leftarrow> fd_mtx listener;
          w \<leftarrow> ht_mutex_lock mtx w;
          case fd_p_file listener of
            None \<Rightarrow> ht_mutex_unlock mtx w
          | Some f \<Rightarrow> do {
              (b, w) \<leftarrow> ht_listener_buffer_flush fd_flush l (fd_buffer listener) w;
              m \<leftarrow> ht_listener_buffer_deinit b (rt_mem w);
              w \<leftarrow> fclose f (w\<lparr>rt_mem := m\<rparr>);
              let w = set_fd_listener l (listener\<lparr>fd_buffer := b, fd_p_file := None\<rparr>) w;
              ht_mutex_unlock mtx w } }"

text \<open>Destruction through a pointer that may be null.\<close>

definition ht_file_dump_listener_destroy :: "addr option \<Rightarrow> 's file_world_scheme \<Rightarrow> 's file_world_scheme option" where
  "ht_file_dump_listener_destroy p w =
     (case p of
        None \<Rightarrow> Some w
      | Some l \<Rightarrow> do {
          listener \<leftarrow> fd_listeners w l;
          w \<leftarrow> (if \<not> fd_is_stopped listener then ht_file_dump_listener_stop l w else Some w);
          mtx \<leftarrow> fd_mtx listener;
          w \<leftarrow> ht_mutex_destroy mtx w;
          m \<leftarrow> ht_free (Some l) (rt_mem w);
          Some (w\<lparr>rt_mem := m, fd_listeners := (fd_listeners w)(l := None)\<rparr>) })"

definition sizeof_HT_FileDumpListener :: nat where
  "sizeof_HT_FileDumpListener = 40"

text \<open>The part of \<^verbatim>\<open>ht_file_dump_listener_create\<close> before the metadata are pushed.\<close>

definition fd_listener_open ::
  "HT_ListenerBuffer \<Rightarrow> string \<Rightarrow> nat \<Rightarrow> 's file_world_scheme \<Rightarrow>
   (HT_ErrorCode \<times> addr option \<times> 's file_world_scheme) option" where
  "fd_listener_open junk filename buffer_size w =
     do { (p, m) \<leftarrow> ht_alloc sizeof_HT_FileDumpListener (rt_mem w);
          let w = w\<lparr>rt_mem := m\<rparr>;
          case p of
            None \<Rightarrow> Some (HT_ERR_OUT_OF_MEMORY, None, w)
          | Some l \<Rightarrow>
              (let (p_file, w) = fopen filename w in
               case p_file of
                 None \<Rightarrow> do {
                   m \<leftarrow> ht_free (Some l) (rt_mem w);
                   Some (HT_ERR_CANT_OPEN_FILE, None, w\<lparr>rt_mem := m\<rparr>) }
               | Some f \<Rightarrow> do {
                   (mtx, w) \<leftarrow> ht_mutex_create w;
                   case mtx of
                     None \<Rightarrow> do {
                       w \<leftarrow> fclose f w;
                       m \<leftarrow> ht_free (Some l) (rt_mem w);
                       Some (HT_ERR_OUT_OF_MEMORY, None, w\<lparr>rt_mem := m\<rparr>) }
                   | Some x \<Rightarrow> do {
                       (err, b, m) \<leftarrow> ht_listener_buffer_init junk buffer_size (rt_mem w);
                       let w = w\<lparr>rt_mem := m\<rparr>;
                       if err \<noteq> HT_ERR_OK
                       then do {
                         w \<leftarrow> ht_mutex_destroy x w;
                         w \<leftarrow> fclose f w;
                         m \<leftarrow> ht_free (Some l) (rt_mem w);
                         Some (err, None, w\<lparr>rt_mem := m\<rparr>) }
                       else Some (HT_ERR_OK, Some l,
                              set_fd_listener l \<lparr>fd_buffer = b, fd_p_file = Some f, fd_mtx = Some x\<rparr> w) } }) }"

definition ht_file_dump_listener_create ::
  "nat \<times> nat \<times> nat \<Rightarrow> HT_Endianness \<Rightarrow> (byte list \<Rightarrow> ht_struct) \<Rightarrow> (ht_struct \<Rightarrow> byte list) \<Rightarrow> HT_ListenerBuffer \<Rightarrow>
   string \<Rightarrow> nat \<Rightarrow> ('x file_world_scheme, 's) reg_scheme \<Rightarrow>
   (HT_ErrorCode \<times> addr option \<times> ('x file_world_scheme, 's) reg_scheme) option" where
  "ht_file_dump_listener_create version e object repr junk filename buffer_size s =
     do { (err, p, w) \<leftarrow> fd_listener_open junk filename buffer_size (world s);
          let s = s\<lparr>world := w\<rparr>;
          case p of
            None \<Rightarrow> Some (err, None, s)
          | Some l \<Rightarrow> do {
              (_, s) \<leftarrow> ht_timeline_listener_push_metadata version e repr
                         (ht_file_dump_listener_callback e object (klasses s)) l True s;
              Some (err, Some l, s) } }"

definition ht_file_dump_listener_register ::
  "nat \<times> nat \<times> nat \<Rightarrow> HT_Endianness \<Rightarrow> (byte list \<Rightarrow> ht_struct) \<Rightarrow> (ht_struct \<Rightarrow> byte list) \<Rightarrow> HT_ListenerBuffer \<Rightarrow>
   'f HT_Timeline \<Rightarrow> string \<Rightarrow> nat \<Rightarrow> ('x file_world_scheme, 's) reg_scheme \<Rightarrow>
   (HT_ErrorCode \<times> addr option \<times> ('x file_world_scheme, 's) reg_scheme) option" where
  "ht_file_dump_listener_register version e object repr junk line filename buffer_size s =
     do { (err, p, s) \<leftarrow> ht_file_dump_listener_create version e object repr junk filename buffer_size s;
          case p of
            None \<Rightarrow> Some (err, None, s)
          | Some l \<Rightarrow> do {
              (err, s) \<leftarrow> ht_timeline_register_listener_full line
                            (ht_file_dump_listener_callback e object (klasses s)) l
                            (Some (\<lambda>l. ht_file_dump_listener_destroy (Some l))) s;
              if err \<noteq> HT_ERR_OK
              then do {
                w \<leftarrow> ht_file_dump_listener_destroy (Some l) (world s);
                Some (err, None, s\<lparr>world := w\<rparr>) }
              else Some (err, Some l, s) } }"

section \<open>The file as a sink of bytes\<close>

text \<open>
  The listener \<open>l\<close> is open, in a world whose listeners are \<open>L\<close>, whose open streams are \<open>S\<close>, and
  whose other streams hold what \<open>W\<close> says.
\<close>

definition fd_at ::
  "(addr \<rightharpoonup> HT_FileDumpListener) \<Rightarrow> (nat \<rightharpoonup> string) \<Rightarrow> (nat \<Rightarrow> byte list) \<Rightarrow> addr \<Rightarrow> 's file_world_scheme \<Rightarrow> bool" where
  "fd_at L S W l w \<longleftrightarrow>
     fd_listeners w = L \<and> streams w = S \<and>
     (\<exists>listener f. L l = Some listener \<and> fd_p_file listener = Some f \<and> S f \<noteq> None \<and> (\<forall>g. g \<noteq> f \<longrightarrow> written w g = W g))"

definition fd_out :: "addr \<Rightarrow> 's file_world_scheme \<Rightarrow> byte list" where
  "fd_out l w = written w (the (fd_p_file (the (fd_listeners w l))))"

lemma fd_flush_law:
  assumes "fd_at L S W l w"
  shows "\<exists>w'. fd_flush l bs w = Some w' \<and> fd_at L S W l w' \<and> fd_out l w' = fd_out l w @ bs \<and>
           rt_mem w' = rt_mem w \<and> rt_locks w' = rt_locks w"
proof -
  from assms obtain listener f where l: "fd_listeners w l = Some listener" "fd_p_file listener = Some f"
    "streams w f \<noteq> None" by (auto simp: fd_at_def)
  let ?w = "w\<lparr>written := (written w)(f := written w f @ bs)\<rparr>"
  have "fd_flush l bs w = Some ?w" using l by (simp add: fd_flush_def fwrite_def)
  moreover have "fd_at L S W l ?w" using assms l by (auto simp: fd_at_def)
  ultimately show ?thesis using l by (intro exI [of _ ?w]) (simp add: fd_out_def)
qed

interpretation fd: byte_sink fd_flush "fd_at L S W" fd_out for L S W
  by unfold_locales (rule fd_flush_law)

section \<open>The invariant of an open listener\<close>

definition fd_blocks :: "addr \<Rightarrow> HT_FileDumpListener \<Rightarrow> addr set" where
  "fd_blocks l listener = {l} \<union> set_option (fd_mtx listener) \<union> set_option (lb_data (fd_buffer listener))"

definition fd_open :: "addr \<Rightarrow> HT_FileDumpListener \<Rightarrow> nat \<Rightarrow> addr \<Rightarrow> 's file_world_scheme \<Rightarrow> bool" where
  "fd_open l listener f x w \<longleftrightarrow>
     fd_listeners w l = Some listener \<and> fd_p_file listener = Some f \<and> streams w f \<noteq> None \<and>
     fd_mtx listener = Some x \<and> mutex_free x w \<and> alloc_wf (rt_mem w) \<and> live (rt_mem w) l \<noteq> None \<and> l \<noteq> x \<and>
     lb_inv (fd_buffer listener) w \<and>
     (\<forall>b. lb_data (fd_buffer listener) = Some b \<longrightarrow> b \<noteq> l \<and> b \<noteq> x \<and> live (rt_mem w) b \<noteq> None)"

definition fd_inv :: "addr \<Rightarrow> 's file_world_scheme \<Rightarrow> bool" where
  "fd_inv l w \<longleftrightarrow> (\<exists>listener f x. fd_open l listener f x w)"

text \<open>What was written to the file and what still waits in the buffer.\<close>

definition fd_output :: "addr \<Rightarrow> 's file_world_scheme \<Rightarrow> byte list" where
  "fd_output l w = fd_out l w @ lb_pending (fd_buffer (the (fd_listeners w l)))"

text \<open>What the work for the listener \<open>l\<close> leaves alone.\<close>

definition fd_frame :: "addr \<Rightarrow> 's file_world_scheme \<Rightarrow> 's file_world_scheme \<Rightarrow> bool" where
  "fd_frame l w w' \<longleftrightarrow>
     rt_mem w' = rt_mem w \<and> rt_locks w' = rt_locks w \<and> streams w' = streams w \<and>
     (\<forall>k. k \<noteq> l \<longrightarrow> fd_listeners w' k = fd_listeners w k) \<and>
     map_option fd_p_file (fd_listeners w' l) = map_option fd_p_file (fd_listeners w l) \<and>
     map_option fd_mtx (fd_listeners w' l) = map_option fd_mtx (fd_listeners w l)"

lemma fd_open_at: "fd_open l listener f x w \<Longrightarrow> fd_at (fd_listeners w) (streams w) (written w) l (w\<lparr>rt_locks := M\<rparr>)"
  by (auto simp: fd_open_def fd_at_def)

lemma fd_open_lb: "fd_open l listener f x w \<Longrightarrow> lb_inv (fd_buffer listener) (w\<lparr>rt_locks := M\<rparr>)"
  by (simp add: fd_open_def lb_inv_def lb_live_def split: option.splits)

text \<open>After bytes went through the buffer, with the mutex given back.\<close>

lemma fd_absorbed:
  assumes op: "fd_open l listener f x w"
    and ab: "absorbs (fd_at (fd_listeners w) (streams w) (written w)) fd_out l (fd_buffer listener)
      (w\<lparr>rt_locks := (rt_locks w)(x \<mapsto> True)\<rparr>) bs b w1"
  defines "w' \<equiv> set_fd_listener l (listener\<lparr>fd_buffer := b\<rparr>) w1\<lparr>rt_locks := rt_locks w\<rparr>"
  shows "ht_mutex_unlock x (set_fd_listener l (listener\<lparr>fd_buffer := b\<rparr>) w1) = Some w'"
    and "lb_data b = lb_data (fd_buffer listener)" and "lb_max_size b = lb_max_size (fd_buffer listener)"
    and "fd_open l (listener\<lparr>fd_buffer := b\<rparr>) f x w'" and "fd_output l w' = fd_output l w @ bs" and "fd_frame l w w'"
proof -
  from ab have w1: "lb_inv b w1" "fd_listeners w1 = fd_listeners w" "streams w1 = streams w"
    "fd_out l w1 @ lb_pending b = fd_out l w @ lb_pending (fd_buffer listener) @ bs" "rt_mem w1 = rt_mem w"
    "rt_locks w1 = (rt_locks w)(x \<mapsto> True)" "lb_data b = lb_data (fd_buffer listener)"
    "lb_max_size b = lb_max_size (fd_buffer listener)"
    by (auto simp: absorbs_def fd_at_def fd_out_def)
  from op have l: "fd_listeners w l = Some listener" "fd_p_file listener = Some f" "fd_mtx listener = Some x"
    "rt_locks w x = Some False" by (simp_all add: fd_open_def mutex_free_def)
  show "ht_mutex_unlock x (set_fd_listener l (listener\<lparr>fd_buffer := b\<rparr>) w1) = Some w'"
    using w1 l by (simp add: ht_mutex_unlock_def w'_def set_fd_listener_def fun_upd_idem)
  show "lb_data b = lb_data (fd_buffer listener)" "lb_max_size b = lb_max_size (fd_buffer listener)"
    by (fact w1(7), fact w1(8))
  show "fd_open l (listener\<lparr>fd_buffer := b\<rparr>) f x w'"
    using op w1
    by (auto simp: fd_open_def w'_def set_fd_listener_def mutex_free_def lb_inv_def lb_live_def split: option.splits)
  show "fd_output l w' = fd_output l w @ bs"
    using w1(2,4) l by (simp add: fd_output_def fd_out_def w'_def set_fd_listener_def)
  show "fd_frame l w w'" using w1 l by (simp add: fd_frame_def w'_def set_fd_listener_def)
qed

lemma fd_callback_serialized:
  assumes "fd_open l listener f x w"
  shows "\<exists>w' b. ht_file_dump_listener_callback e object kl events True l w = Some w' \<and>
           fd_open l (listener\<lparr>fd_buffer := b\<rparr>) f x w' \<and> fd_output l w' = fd_output l w @ events \<and> fd_frame l w w' \<and>
           lb_data b = lb_data (fd_buffer listener) \<and> lb_max_size b = lb_max_size (fd_buffer listener)"
proof -
  let ?w = "w\<lparr>rt_locks := (rt_locks w)(x \<mapsto> True)\<rparr>"
  from fd.process_serialized_ok [OF fd_open_lb [OF assms] fd_open_at [OF assms, of "(rt_locks w)(x \<mapsto> True)"], of events]
  obtain b w1 where run: "ht_listener_buffer_process_serialized_events fd_flush l events (fd_buffer listener) ?w = Some (b, w1)"
    and ab: "absorbs (fd_at (fd_listeners w) (streams w) (written w)) fd_out l (fd_buffer listener) ?w events b w1"
    by blast
  note u = fd_absorbed [OF assms ab]
  from assms have "fd_listeners w l = Some listener" "fd_p_file listener = Some f" "fd_mtx listener = Some x"
    "rt_locks w x = Some False" by (simp_all add: fd_open_def mutex_free_def)
  with run u show ?thesis
    by (auto simp: ht_file_dump_listener_callback_def ht_mutex_lock_def fd_is_stopped_def)
qed

lemma fd_callback_unserialized:
  assumes op: "fd_open l listener f x w" and ne: "lb_max_size (fd_buffer listener) \<noteq> 0"
    and evs: "\<forall>ev\<in>set evs. storable object repr kl (lb_max_size (fd_buffer listener)) ev"
  shows "\<exists>w' b. ht_file_dump_listener_callback e object kl (concat (map repr evs)) False l w = Some w' \<and>
           fd_open l (listener\<lparr>fd_buffer := b\<rparr>) f x w' \<and>
           fd_output l w' = fd_output l w @ concat (map (event_bytes e kl) evs) \<and> fd_frame l w w' \<and>
           lb_data b = lb_data (fd_buffer listener) \<and> lb_max_size b = lb_max_size (fd_buffer listener)"
proof -
  let ?w = "w\<lparr>rt_locks := (rt_locks w)(x \<mapsto> True)\<rparr>"
  from fd.process_unserialized_ok [OF fd_open_lb [OF op]
      fd_open_at [OF op, of "(rt_locks w)(x \<mapsto> True)"] ne evs, of e]
  obtain b w1 where run: "ht_listener_buffer_process_unserialized_events e object kl fd_flush l
      (concat (map repr evs)) (fd_buffer listener) ?w = Some (b, w1)"
    and ab: "absorbs (fd_at (fd_listeners w) (streams w) (written w)) fd_out l (fd_buffer listener) ?w
      (concat (map (event_bytes e kl) evs)) b w1"
    by blast
  note u = fd_absorbed [OF op ab]
  from op have "fd_listeners w l = Some listener" "fd_p_file listener = Some f" "fd_mtx listener = Some x"
    "rt_locks w x = Some False" by (simp_all add: fd_open_def mutex_free_def)
  with run u show ?thesis
    by (auto simp: ht_file_dump_listener_callback_def ht_mutex_lock_def fd_is_stopped_def)
qed

lemma fd_takes: "takes (fd_inv l) (ht_file_dump_listener_callback e object kl) l"
  unfolding takes_def fd_inv_def using fd_callback_serialized by blast

section \<open>Stopping and destroying\<close>

definition fd_stopped :: "HT_FileDumpListener \<Rightarrow> HT_FileDumpListener" where
  "fd_stopped listener = listener\<lparr>fd_buffer := (fd_buffer listener)\<lparr>lb_usage := 0\<rparr>, fd_p_file := None\<rparr>"

lemma free_option:
  assumes "alloc_wf m" and "\<forall>b. p = Some b \<longrightarrow> live m b \<noteq> None"
  obtains m' where "ht_free p m = Some m'" and "alloc_wf m'" and "live m' = live m |` (- set_option p)"
proof (cases p)
  case None
  with ht.free_null_law [OF assms(1)] that show thesis by (auto simp: restrict_map_def)
next
  case (Some b)
  with ht.free_law [OF assms(1), of b] assms(2) that show thesis
    by (auto simp: restrict_map_def fun_upd_def fun_eq_iff)
qed

lemma fd_stop_ok:
  assumes op: "fd_open l listener f x w"
  shows "\<exists>m. ht_file_dump_listener_stop l w =
             Some (w\<lparr>rt_mem := m, written := (written w)(f := fd_output l w), streams := (streams w)(f := None),
                     fd_listeners := (fd_listeners w)(l \<mapsto> fd_stopped listener)\<rparr>) \<and>
           alloc_wf m \<and> live m = live (rt_mem w) |` (- set_option (lb_data (fd_buffer listener)))"
proof -
  let ?M = "(rt_locks w)(x \<mapsto> True)" and ?b = "(fd_buffer listener)\<lparr>lb_usage := 0\<rparr>"
  from op have l: "fd_listeners w l = Some listener" "fd_p_file listener = Some f" "fd_mtx listener = Some x"
    "rt_locks w x = Some False" "streams w f \<noteq> None" "alloc_wf (rt_mem w)"
    and data: "\<forall>b. lb_data (fd_buffer listener) = Some b \<longrightarrow> live (rt_mem w) b \<noteq> None"
    by (auto simp: fd_open_def mutex_free_def)
  have read: "lb_read (fd_buffer listener) (w\<lparr>rt_locks := ?M\<rparr>) = Some (lb_pending (fd_buffer listener))"
    by (rule lb_read_ok [OF fd_open_lb [OF op]])
  have out: "written w f @ lb_pending (fd_buffer listener) = fd_output l w"
    using l by (simp add: fd_output_def fd_out_def)
  from free_option [OF l(6) data] obtain m where m: "ht_free (lb_data (fd_buffer listener)) (rt_mem w) = Some m"
    "alloc_wf m" "live m = live (rt_mem w) |` (- set_option (lb_data (fd_buffer listener)))" by blast
  have "ht_listener_buffer_flush fd_flush l (fd_buffer listener) (w\<lparr>rt_locks := ?M\<rparr>) =
      Some (?b, w\<lparr>rt_locks := ?M, written := (written w)(f := fd_output l w)\<rparr>)"
    using l read out by (simp add: ht_listener_buffer_flush_def fd_flush_def fwrite_def)
  then show ?thesis
    using l m
    by (intro exI [of _ m])
      (simp add: ht_file_dump_listener_stop_def ht_mutex_lock_def ht_listener_buffer_deinit_def fclose_def
        set_fd_listener_def ht_mutex_unlock_def fun_upd_idem fd_stopped_def)
qed

text \<open>A listener that is stopped ignores what it is called with.\<close>

lemma fd_stopped_callback:
  assumes "fd_listeners w l = Some listener" and "fd_p_file listener = None" and "fd_mtx listener = Some x"
    and "rt_locks w x = Some False"
  shows "ht_file_dump_listener_callback e object kl events serialized l w = Some w"
    and "ht_file_dump_listener_stop l w = Some w"
    and "ht_file_dump_listener_flush l flush_stream w = Some (HT_ERR_OK, w)"
  using assms
  by (simp_all add: ht_file_dump_listener_callback_def ht_file_dump_listener_stop_def
      ht_file_dump_listener_flush_def ht_mutex_lock_def ht_mutex_unlock_def fd_is_stopped_def fun_upd_idem)

lemma fd_destroy_ok:
  assumes op: "fd_open l listener f x w"
  shows "\<exists>m. ht_file_dump_listener_destroy (Some l) w =
             Some (w\<lparr>rt_mem := m, written := (written w)(f := fd_output l w), streams := (streams w)(f := None),
                     rt_locks := (rt_locks w)(x := None), fd_listeners := (fd_listeners w)(l := None)\<rparr>) \<and>
           alloc_wf m \<and> live m = live (rt_mem w) |` (- fd_blocks l listener)"
proof -
  from op have l: "fd_listeners w l = Some listener" "fd_p_file listener = Some f" "fd_mtx listener = Some x"
    "rt_locks w x = Some False" "l \<noteq> x" "live (rt_mem w) x \<noteq> None" "live (rt_mem w) l \<noteq> None"
    and sep: "\<forall>b. lb_data (fd_buffer listener) = Some b \<longrightarrow> b \<noteq> l \<and> b \<noteq> x"
    by (auto simp: fd_open_def mutex_free_def)
  from fd_stop_ok [OF op] obtain m where
    stop: "ht_file_dump_listener_stop l w =
      Some (w\<lparr>rt_mem := m, written := (written w)(f := fd_output l w), streams := (streams w)(f := None),
              fd_listeners := (fd_listeners w)(l \<mapsto> fd_stopped listener)\<rparr>)" (is "_ = Some ?w")
    and m: "alloc_wf m" "live m = live (rt_mem w) |` (- set_option (lb_data (fd_buffer listener)))" by blast
  have "mutex_free x ?w" using l sep m by (auto simp: mutex_free_def restrict_map_def)
  from mutex_destroy_ok [OF this] m(1) obtain m1 where
    d: "ht_mutex_destroy x ?w = Some (?w\<lparr>rt_mem := m1, rt_locks := (rt_locks ?w)(x := None)\<rparr>)"
    "alloc_wf m1" "live m1 = (live m)(x := None)" by auto
  have "live m1 l \<noteq> None" using l sep m d by (auto simp: restrict_map_def)
  from ht.free_law [OF d(2) this] obtain m2 where f: "ht_free (Some l) m1 = Some m2" "alloc_wf m2"
    "live m2 = (live m1)(l := None)" by blast
  have "live m2 = live (rt_mem w) |` (- fd_blocks l listener)"
    using f(3) d(3) m(2) l(3) by (auto simp: fd_blocks_def restrict_map_def fun_eq_iff)
  with l stop d(1) f(1,2) show ?thesis
    by (intro exI [of _ m2]) (simp add: ht_file_dump_listener_destroy_def fd_is_stopped_def)
qed

section \<open>Opening\<close>

lemma fd_frame_trans: "fd_frame l w w1 \<Longrightarrow> fd_frame l w1 w2 \<Longrightarrow> fd_frame l w w2"
  by (simp add: fd_frame_def)

lemma fd_feed:
  assumes "fd_open l listener f x w" and "feed (ht_file_dump_listener_callback e object kl) l True chunks w = Some w'"
  shows "\<exists>b. fd_open l (listener\<lparr>fd_buffer := b\<rparr>) f x w' \<and> lb_data b = lb_data (fd_buffer listener) \<and>
           fd_output l w' = fd_output l w @ concat chunks \<and> fd_frame l w w'"
  using assms
proof (induction chunks arbitrary: w listener)
  case Nil
  then show ?case by (intro exI [of _ "fd_buffer listener"]) (simp add: fd_frame_def)
next
  case (Cons bs chunks)
  from fd_callback_serialized [OF Cons.prems(1), of e object kl bs] obtain w1 b1 where
    one: "ht_file_dump_listener_callback e object kl bs True l w = Some w1"
      "fd_open l (listener\<lparr>fd_buffer := b1\<rparr>) f x w1" "fd_output l w1 = fd_output l w @ bs" "fd_frame l w w1"
      "lb_data b1 = lb_data (fd_buffer listener)" by blast
  from Cons.IH [OF one(2)] Cons.prems(2) one(1) show ?case
    using one fd_frame_trans [OF one(4)] by (auto simp: feed_Cons)
qed

lemma fd_listener_open_cases:
  assumes wf: "alloc_wf (rt_mem w)" and size: "n < SIZE_MODULUS" and fresh: "streams w (next_stream w) = None"
  obtains (failed) err w' where "fd_listener_open junk filename n w = Some (err, None, w')" and "err \<noteq> HT_ERR_OK"
      and "alloc_wf (rt_mem w')" and "live (rt_mem w') = live (rt_mem w)" and "streams w' = streams w"
      and "fd_listeners w' = fd_listeners w"
      and "err = HT_ERR_CANT_OPEN_FILE \<Longrightarrow> fopen_refuses w filename"
  | (opened) l listener x w' where "fd_listener_open junk filename n w = Some (HT_ERR_OK, Some l, w')"
      and "fd_open l listener (next_stream w) x w'" and "fd_output l w' = []"
      and "footprint {} (rt_mem w) (fd_blocks l listener) (rt_mem w')"
      and "streams w' = (streams w)(next_stream w \<mapsto> filename)"
      and "fd_listeners w' = (fd_listeners w)(l \<mapsto> listener)"
proof (cases rule: ht.alloc_cases [OF wf, of sizeof_HT_FileDumpListener])
  case (1 m)
  then show thesis by (intro failed [of HT_ERR_OUT_OF_MEMORY "w\<lparr>rt_mem := m\<rparr>"]) (simp_all add: fd_listener_open_def)
next
  case l: (2 l m1)
  show thesis
  proof (cases "fopen_refuses w filename")
    case True
    from ht.alloc_then_free [OF wf l(1)] obtain m2 where "ht_free (Some l) m1 = Some m2" "alloc_wf m2"
      "live m2 = live (rt_mem w)" by blast
    with True l show thesis
      by (intro failed [of HT_ERR_CANT_OPEN_FILE "w\<lparr>rt_mem := m2\<rparr>"]) (simp_all add: fd_listener_open_def fopen_def)
  next
    case False
    let ?f = "next_stream w"
    let ?w1 = "w\<lparr>rt_mem := m1, streams := (streams w)(?f \<mapsto> filename), written := (written w)(?f := []),
                 next_stream := ?f + 1\<rparr>"
    have op: "fopen filename (w\<lparr>rt_mem := m1\<rparr>) = (Some ?f, ?w1)" using False by (simp add: fopen_def)
    have wf1: "alloc_wf (rt_mem ?w1)" using l(2) by simp
    show thesis
    proof (cases rule: mutex_create_cases [OF wf1])
      case (1 m2)
      then have "live m2 l \<noteq> None" using l(4) by simp
      from ht.free_law [OF 1(2) this] obtain m3 where f: "ht_free (Some l) m2 = Some m3" "alloc_wf m3"
        "live m3 = (live m2)(l := None)" by blast
      have "live m3 = live (rt_mem w)" using f(3) 1(3) l(3,4) by (simp add: fun_upd_idem)
      with l(1) op 1 f(1,2) fresh show thesis
        by (intro failed [of HT_ERR_OUT_OF_MEMORY "?w1\<lparr>streams := streams w, rt_mem := m3\<rparr>"])
          (simp_all add: fd_listener_open_def fclose_def fun_upd_idem)
    next
      case x: (2 x m2)
      let ?w2 = "?w1\<lparr>rt_mem := m2, rt_locks := (rt_locks w)(x \<mapsto> False)\<rparr>"
      have lx: "l \<noteq> x" using x(3) l(4) by auto
      show thesis
      proof (cases rule: lb_init_ok [OF x(2) size, of junk])
        case (1 m3 b)
        have "mutex_free x (?w2\<lparr>rt_mem := m3\<rparr>)" using 1(3) x(4) by (simp add: mutex_free_def)
        from mutex_destroy_ok [OF this] 1(2) obtain m4 where
          d: "ht_mutex_destroy x (?w2\<lparr>rt_mem := m3\<rparr>) =
            Some (?w2\<lparr>rt_mem := m4, rt_locks := (rt_locks ?w2)(x := None)\<rparr>)" "alloc_wf m4" "live m4 = (live m3)(x := None)"
          by auto
        have "live m4 l \<noteq> None" using d(3) 1(3) x(4) l(4) lx by simp
        from ht.free_law [OF d(2) this] obtain m5 where f: "ht_free (Some l) m4 = Some m5" "alloc_wf m5"
          "live m5 = (live m4)(l := None)" by blast
        have "live m5 = live (rt_mem w)" using f(3) d(3) 1(3) x(3,4) l(3,4) lx by (auto simp: fun_eq_iff)
        with l(1) op x(1) 1(1) d(1) f(1,2) fresh show thesis
          by (intro failed [of HT_ERR_OUT_OF_MEMORY
                "?w2\<lparr>rt_locks := (rt_locks ?w2)(x := None), streams := streams w, rt_mem := m5\<rparr>"])
            (simp_all add: fd_listener_open_def fclose_def fun_upd_idem)
      next
        case (2 b)
        let ?lis = "\<lparr>fd_buffer = b, fd_p_file = Some ?f, fd_mtx = Some x\<rparr>" and ?w3 = "?w2\<lparr>rt_mem := m2\<rparr>"
        have "fd_listener_open junk filename n w = Some (HT_ERR_OK, Some l, set_fd_listener l ?lis ?w3)"
          using l(1) op x(1) 2(2) by (simp add: fd_listener_open_def)
        moreover have "footprint {} (rt_mem w) (fd_blocks l ?lis) m2"
          using l(3,4) x(3,4) lx 2(3) by (auto simp: footprint_def fd_blocks_def restrict_map_def fun_eq_iff)
        moreover have "fd_open l ?lis ?f x (set_fd_listener l ?lis ?w3)"
          using x(2,4) l(4) lx 2 size by (simp add: fd_open_def set_fd_listener_def mutex_free_def lb_inv_def)
        ultimately show thesis
          using 2 by (intro opened [of l "set_fd_listener l ?lis ?w3" ?lis x])
            (simp_all add: fd_output_def fd_out_def lb_pending_def set_fd_listener_def)
      next
        case (3 m3 b a)
        let ?lis = "\<lparr>fd_buffer = b, fd_p_file = Some ?f, fd_mtx = Some x\<rparr>" and ?w3 = "?w2\<lparr>rt_mem := m3\<rparr>"
        have ax: "a \<noteq> x" "a \<noteq> l" using 3(4) x(4) l(4) lx by auto
        have "fd_listener_open junk filename n w = Some (HT_ERR_OK, Some l, set_fd_listener l ?lis ?w3)"
          using l(1) op x(1) 3(1) by (simp add: fd_listener_open_def)
        moreover have "footprint {} (rt_mem w) (fd_blocks l ?lis) m3"
          using l(3,4) x(3,4) lx 3(3-5) ax by (auto simp: footprint_def fd_blocks_def restrict_map_def fun_eq_iff)
        moreover have "fd_open l ?lis ?f x (set_fd_listener l ?lis ?w3)"
          using x(4) l(4) lx 3 size ax
          by (auto simp: fd_open_def set_fd_listener_def mutex_free_def lb_inv_def lb_live_def)
        ultimately show thesis
          using 3 by (intro opened [of l "set_fd_listener l ?lis ?w3" ?lis x])
            (simp_all add: fd_output_def fd_out_def lb_pending_def set_fd_listener_def)
      qed
    qed
  qed
qed

section \<open>Properties\<close>

lemma fd_life:
  assumes op: "fd_open l listener f x w" and fp: "footprint {} m (fd_blocks l listener) (rt_mem w)"
  shows "\<exists>w2 w3. feed (ht_file_dump_listener_callback e object kl) l True chunks w = Some w2 \<and>
           ht_file_dump_listener_destroy (Some l) w2 = Some w3 \<and> written w3 f = fd_output l w @ concat chunks \<and>
           streams w3 = (streams w)(f := None) \<and> live (rt_mem w3) = live m \<and> alloc_wf (rt_mem w3)"
proof -
  have "fd_inv l w" using op by (auto simp: fd_inv_def)
  from takes_feed_returns [OF fd_takes this] obtain w2 where
    fe: "feed (ht_file_dump_listener_callback e object kl) l True chunks w = Some w2" by blast
  from fd_feed [OF op fe] obtain b where op2: "fd_open l (listener\<lparr>fd_buffer := b\<rparr>) f x w2"
    and b: "lb_data b = lb_data (fd_buffer listener)" and out: "fd_output l w2 = fd_output l w @ concat chunks"
    and fr: "fd_frame l w w2" by blast
  from fd_destroy_ok [OF op2] obtain m3 where
    d: "ht_file_dump_listener_destroy (Some l) w2 =
      Some (w2\<lparr>rt_mem := m3, written := (written w2)(f := fd_output l w2), streams := (streams w2)(f := None),
               rt_locks := (rt_locks w2)(x := None), fd_listeners := (fd_listeners w2)(l := None)\<rparr>)"
    "alloc_wf m3" "live m3 = live (rt_mem w2) |` (- fd_blocks l (listener\<lparr>fd_buffer := b\<rparr>))" by blast
  have "fd_blocks l (listener\<lparr>fd_buffer := b\<rparr>) = fd_blocks l listener" using b by (simp add: fd_blocks_def)
  moreover have "rt_mem w2 = rt_mem w" using fr by (simp add: fd_frame_def)
  ultimately have "live m3 = live (rt_mem w) |` (- fd_blocks l listener)" using d(3) by simp
  also have "\<dots> = live m |` UNIV" using fp by (simp add: footprint_def)
  also have "\<dots> = live m" by (simp add: restrict_map_def)
  finally have "live m3 = live m" .
  with fe d(1,2) out fr show ?thesis by (auto simp: fd_frame_def)
qed

text \<open>A listener that could be opened is created, and the description of the classes is its first output.\<close>

lemma fd_create_ok:
  fixes s :: "('x file_world_scheme, 's) reg_scheme"
  assumes desc: "describable s" and opened: "fd_listener_open junk filename n (world s) = Some (HT_ERR_OK, Some l, w)"
    and op: "fd_open l listener f x w" "fd_output l w = []"
  obtains s1 b where "ht_file_dump_listener_create version e object repr junk filename n s = Some (HT_ERR_OK, Some l, s1)"
    and "same_registry (s\<lparr>world := w\<rparr>) s1" and "fd_open l (listener\<lparr>fd_buffer := b\<rparr>) f x (world s1)"
    and "lb_data b = lb_data (fd_buffer listener)" and "fd_output l (world s1) = metadata_bytes version e s" and "fd_frame l w (world s1)"
proof -
  let ?s = "s\<lparr>world := w\<rparr>"
  have "describable ?s" "metadata_bytes version e ?s = metadata_bytes version e s"
    using desc by (simp_all add: world_simps)
  moreover have "fd_inv l (world ?s)" using op(1) by (auto simp: fd_inv_def)
  ultimately obtain s1 chunks where
    push: "ht_timeline_listener_push_metadata version e repr (ht_file_dump_listener_callback e object (klasses s)) l True ?s =
      Some (length (metadata_bytes version e s), s1)"
    and fe: "feed (ht_file_dump_listener_callback e object (klasses s)) l True chunks w = Some (world s1)"
    and bytes: "concat chunks = metadata_bytes version e s" and same: "same_registry ?s s1"
    using push_metadata_ok [OF _ fd_takes, of ?s l version e repr e object "klasses s"] by auto
  from fd_feed [OF op(1) fe] obtain b where "fd_open l (listener\<lparr>fd_buffer := b\<rparr>) f x (world s1)"
    "lb_data b = lb_data (fd_buffer listener)" "fd_output l (world s1) = metadata_bytes version e s" "fd_frame l w (world s1)"
    using op(2) bytes by auto
  moreover have "ht_file_dump_listener_create version e object repr junk filename n s = Some (HT_ERR_OK, Some l, s1)"
    using opened push by (simp add: ht_file_dump_listener_create_def)
  ultimately show thesis using that same by blast
qed

text \<open>
  C17. The life of a file dump listener. \<^verbatim>\<open>ht_file_dump_listener_create\<close> returns for every pattern of
  refused requests. If it fails, the error code says so, the stream is closed again and every block
  is released. If it succeeds, then whatever sequence of serialized chunks the listener is called
  with before it is destroyed, the file holds exactly the description of the registered classes
  followed by the bytes of all chunks in order, for every size of the buffer; the stream is closed
  and no block is left.
\<close>

theorem file_dump_holds_all_bytes:
  fixes s :: "('x file_world_scheme, 's) reg_scheme"
  assumes desc: "describable s" and wf: "alloc_wf (rt_mem (world s))" and size: "buffer_size < SIZE_MODULUS"
    and fresh: "streams (world s) (next_stream (world s)) = None"
  shows "\<exists>err p s1. ht_file_dump_listener_create version e object repr junk filename buffer_size s = Some (err, p, s1) \<and>
    (case p of
       None \<Rightarrow> err \<noteq> HT_ERR_OK \<and> streams (world s1) = streams (world s) \<and>
         live (rt_mem (world s1)) = live (rt_mem (world s))
     | Some l \<Rightarrow> err = HT_ERR_OK \<and>
         (\<forall>kl chunks. \<exists>w2 w3. feed (ht_file_dump_listener_callback e object kl) l True chunks (world s1) = Some w2 \<and>
            ht_file_dump_listener_destroy (Some l) w2 = Some w3 \<and>
            written w3 (next_stream (world s)) = metadata_bytes version e s @ concat chunks \<and>
            streams w3 = streams (world s) \<and> live (rt_mem w3) = live (rt_mem (world s))))"
proof (cases rule: fd_listener_open_cases [OF wf size fresh, of junk filename])
  case (1 err w)
  then show ?thesis by (simp add: ht_file_dump_listener_create_def)
next
  case (2 l listener x w)
  let ?f = "next_stream (world s)"
  obtain s1 b where run: "ht_file_dump_listener_create version e object repr junk filename buffer_size s = Some (HT_ERR_OK, Some l, s1)"
    and op: "fd_open l (listener\<lparr>fd_buffer := b\<rparr>) ?f x (world s1)" and b: "lb_data b = lb_data (fd_buffer listener)"
    and out: "fd_output l (world s1) = metadata_bytes version e s" and fr: "fd_frame l w (world s1)"
    by (rule fd_create_ok [OF desc 2(1-3), of version e object repr])
  have fp: "footprint {} (rt_mem (world s)) (fd_blocks l (listener\<lparr>fd_buffer := b\<rparr>)) (rt_mem (world s1))"
    using 2(4) fr b by (simp add: fd_frame_def fd_blocks_def)
  have str: "(streams (world s1))(?f := None) = streams (world s)"
    using fr 2(5) fresh by (simp add: fd_frame_def fun_upd_idem)
  have "\<exists>w2 w3. feed (ht_file_dump_listener_callback e object kl) l True chunks (world s1) = Some w2 \<and>
      ht_file_dump_listener_destroy (Some l) w2 = Some w3 \<and>
      written w3 ?f = metadata_bytes version e s @ concat chunks \<and> streams w3 = streams (world s) \<and>
      live (rt_mem w3) = live (rt_mem (world s))" for kl chunks
    using fd_life [OF op fp, of e object kl chunks] out str by auto
  with run show ?thesis by simp
qed

definition demo_file_world :: file_world where
  "demo_file_world =
     \<lparr>rt_mem = mem_init [], rt_locks = Map.empty, rt_ids = (\<lambda>_. 0), rt_clock = (\<lambda>_. 0), rt_ticks = 0, rt_last_thread = 0,
      streams = Map.empty, written = (\<lambda>_. []), next_stream = 0, fopen_refuses = (\<lambda>_. False), fflush_fails = (\<lambda>_. False),
      fd_listeners = Map.empty\<rparr>"

definition demo_listener_buffer :: HT_ListenerBuffer where
  "demo_listener_buffer = \<lparr>lb_data = None, lb_cells = [], lb_max_size = 0, lb_usage = 0\<rparr>"

theorem file_dump_holds_all_bytes_witness:
  "\<exists>err p s1. ht_file_dump_listener_create (0, 7, 3) HT_ENDIANNESS_LITTLE (\<lambda>_. HT_Event [] 0 0) (\<lambda>_. [])
       demo_listener_buffer ''trace.htdump'' 16 (demo_reg_of demo_file_world) = Some (err, p, s1) \<and>
     (case p of None \<Rightarrow> err \<noteq> HT_ERR_OK
      | Some l \<Rightarrow> \<exists>w2 w3. feed (ht_file_dump_listener_callback HT_ENDIANNESS_LITTLE (\<lambda>_. HT_Event [] 0 0) demo_klasses) l True
            [[1, 2, 3], [4]] (world s1) = Some w2 \<and> ht_file_dump_listener_destroy (Some l) w2 = Some w3 \<and>
          written w3 0 = metadata_bytes (0, 7, 3) HT_ENDIANNESS_LITTLE (demo_reg_of demo_file_world) @ [1, 2, 3, 4])"
proof -
  have w: "world (demo_reg_of demo_file_world) = demo_file_world" by (simp add: demo_reg_of_def)
  have "alloc_wf (rt_mem demo_file_world)" by (simp add: demo_file_world_def alloc_wf_mem_init)
  moreover have "(16::nat) < SIZE_MODULUS" by (simp add: SIZE_MODULUS_def)
  moreover have n: "next_stream demo_file_world = 0" "streams demo_file_world 0 = None" by (simp_all add: demo_file_world_def)
  ultimately obtain err p s1 where
    run: "ht_file_dump_listener_create (0, 7, 3) HT_ENDIANNESS_LITTLE (\<lambda>_. HT_Event [] 0 0) (\<lambda>_. [])
       demo_listener_buffer ''trace.htdump'' 16 (demo_reg_of demo_file_world) = Some (err, p, s1)"
    and post: "case p of
       None \<Rightarrow> err \<noteq> HT_ERR_OK \<and> streams (world s1) = streams demo_file_world \<and>
         live (rt_mem (world s1)) = live (rt_mem demo_file_world)
     | Some l \<Rightarrow> err = HT_ERR_OK \<and>
         (\<forall>kl chunks. \<exists>w2 w3. feed (ht_file_dump_listener_callback HT_ENDIANNESS_LITTLE (\<lambda>_. HT_Event [] 0 0) kl) l True
              chunks (world s1) = Some w2 \<and>
            ht_file_dump_listener_destroy (Some l) w2 = Some w3 \<and>
            written w3 0 = metadata_bytes (0, 7, 3) HT_ENDIANNESS_LITTLE (demo_reg_of demo_file_world) @ concat chunks \<and>
            streams w3 = streams demo_file_world \<and> live (rt_mem w3) = live (rt_mem demo_file_world))"
    using file_dump_holds_all_bytes [OF demo_reg_describable [of demo_file_world], unfolded w n(1), of 16 "(0, 7, 3)"
        HT_ENDIANNESS_LITTLE "\<lambda>_. HT_Event [] 0 0" "\<lambda>_. []" demo_listener_buffer "''trace.htdump''"] by blast
  show ?thesis
  proof (cases p)
    case None
    with run post show ?thesis by simp
  next
    case (Some l)
    with post have "\<exists>w2 w3. feed (ht_file_dump_listener_callback HT_ENDIANNESS_LITTLE (\<lambda>_. HT_Event [] 0 0) demo_klasses) l True
            [[1, 2, 3], [4]] (world s1) = Some w2 \<and> ht_file_dump_listener_destroy (Some l) w2 = Some w3 \<and>
          written w3 0 = metadata_bytes (0, 7, 3) HT_ENDIANNESS_LITTLE (demo_reg_of demo_file_world) @ concat [[1, 2, 3], [4]]"
      by fastforce
    with run Some show ?thesis by simp
  qed
qed

text \<open>
  C18. A listener writes the same bytes in both modes: calling it with the objects of some events in
  memory, not serialized, has the same output as calling it with the serialized events, provided the buffer is not empty,
  every event fits in it, has no structure member besides the base, and is read back from its object.
\<close>

theorem unserialized_mode_equivalent:
  assumes op: "fd_open l listener f x w" and ne: "lb_max_size (fd_buffer listener) \<noteq> 0"
    and evs: "\<forall>ev\<in>set evs. storable object repr kl (lb_max_size (fd_buffer listener)) ev"
  shows "\<exists>w1 w2. ht_file_dump_listener_callback e object kl (concat (map repr evs)) False l w = Some w1 \<and>
           ht_file_dump_listener_callback e object kl (concat (map (event_bytes e kl) evs)) True l w = Some w2 \<and>
           fd_inv l w1 \<and> fd_inv l w2 \<and> fd_output l w1 = fd_output l w2 \<and>
           fd_output l w1 = fd_output l w @ concat (map (event_bytes e kl) evs)"
  using fd_callback_unserialized [OF op ne evs, of e]
    fd_callback_serialized [OF op, of e object kl "concat (map (event_bytes e kl) evs)"]
  unfolding fd_inv_def by metis

text \<open>A listener with a buffer of 30 bytes, and an event class with objects of 24 bytes.\<close>

definition demo_open_listener :: HT_FileDumpListener where
  "demo_open_listener =
     \<lparr>fd_buffer = \<lparr>lb_data = Some 3, lb_cells = replicate 30 None, lb_max_size = 30, lb_usage = 0\<rparr>,
      fd_p_file = Some 0, fd_mtx = Some 2\<rparr>"

definition demo_open_world :: file_world where
  "demo_open_world = demo_file_world\<lparr>
     rt_mem := \<lparr>heap_of = \<lparr>blocks = [1 \<mapsto> 40, 2 \<mapsto> 40, 3 \<mapsto> 30], next_addr = 4, refusals = []\<rparr>, realloc_fnc = None, user_data = 0\<rparr>,
     rt_locks := [2 \<mapsto> False], streams := [0 \<mapsto> ''trace.htdump''], next_stream := 1,
     fd_listeners := [1 \<mapsto> demo_open_listener]\<rparr>"

definition demo_event_klasses :: "klass_ref \<Rightarrow> HT_EventKlass" where
  "demo_event_klasses k = \<lparr>type_info = Some (mkcreflect_type_info k HT_Event_decl), klass_id = 1\<rparr>"

lemma demo_open: "fd_open 1 demo_open_listener 0 2 demo_open_world"
  by (simp add: fd_open_def demo_open_world_def demo_open_listener_def mutex_free_def alloc_wf_def heap_ok_def live_def
      lb_inv_def lb_live_def SIZE_MODULUS_def)

lemma demo_storable:
  "storable (\<lambda>_. HT_Event ''HT_Event'' 1 2) (\<lambda>_. replicate 24 0) demo_event_klasses 30 (HT_Event ''HT_Event'' 1 2)"
  by (simp add: storable_def demo_event_klasses_def mkcreflect_type_info_def struct_sizeof_def HT_Event_decl_def
      integer_decl_def align_up_def struct_align_def member_size_def)

theorem unserialized_mode_equivalent_witness:
  "\<exists>w1. ht_file_dump_listener_callback HT_ENDIANNESS_LITTLE (\<lambda>_. HT_Event ''HT_Event'' 1 2) demo_event_klasses
      (replicate 48 0) False 1 demo_open_world = Some w1 \<and> length (fd_output 1 w1) = 40"
proof -
  let ?ev = "HT_Event ''HT_Event'' 1 2"
  have ne: "lb_max_size (fd_buffer demo_open_listener) \<noteq> 0" by (simp add: demo_open_listener_def)
  have "\<forall>ev\<in>set [?ev, ?ev]. storable (\<lambda>_. ?ev) (\<lambda>_. replicate 24 0) demo_event_klasses (lb_max_size (fd_buffer demo_open_listener)) ev"
    using demo_storable by (simp add: demo_open_listener_def)
  from unserialized_mode_equivalent [OF demo_open ne this, of HT_ENDIANNESS_LITTLE] obtain w1 where
    "ht_file_dump_listener_callback HT_ENDIANNESS_LITTLE (\<lambda>_. ?ev) demo_event_klasses
      (concat (map (\<lambda>_. replicate 24 0) [?ev, ?ev])) False 1 demo_open_world = Some w1"
    "fd_output 1 w1 = fd_output 1 demo_open_world @
       concat (map (event_bytes HT_ENDIANNESS_LITTLE demo_event_klasses) [?ev, ?ev])" by blast
  moreover have "fd_output 1 demo_open_world = []"
    by (simp add: fd_output_def fd_out_def demo_open_world_def demo_open_listener_def demo_file_world_def lb_pending_def)
  moreover have "concat (map (\<lambda>_. replicate 24 (0 :: byte)) [?ev, ?ev]) = replicate 48 0"
    by (simp flip: replicate_add)
  ultimately show ?thesis by (auto simp del: replicate.simps)
qed

text \<open>
  C19. In the mode without serialization an event that is larger than the whole buffer of the listener
  is written beyond the end of the buffer: the buffer is flushed first, but the event is
  then serialized without a test that it fits.
\<close>

theorem oversized_unserialized_event_undefined:
  assumes op: "fd_open l listener f x w" and ne: "lb_max_size (fd_buffer listener) \<noteq> 0"
    and ev: "events \<noteq> []" "plain_event (object events)" "lb_max_size (fd_buffer listener) < get_size (object events)"
  shows "ht_file_dump_listener_callback e object kl events False l w = None"
proof -
  let ?M = "(rt_locks w)(x \<mapsto> True)" and ?b = "fd_buffer listener"
  from fd.buffer_flush_ok [OF fd_open_lb [OF op] fd_open_at [OF op, of ?M]] obtain w1 where
    fl: "ht_listener_buffer_flush fd_flush l ?b (w\<lparr>rt_locks := ?M\<rparr>) = Some (?b\<lparr>lb_usage := 0\<rparr>, w1)" by blast
  have "length (lb_cells ?b) = lb_max_size ?b" using op by (simp add: fd_open_def lb_inv_def)
  then have "serialize e kl (object events) 0 (lb_cells ?b) = None"
    using serialize_overflow [OF ev(2), of "lb_cells ?b" 0 e kl] ev(3) by simp
  then have "process_unserialized_from e object kl fd_flush l events 0 ?b (w\<lparr>rt_locks := ?M\<rparr>) = None"
    using ev fl by (subst process_unserialized_from.simps) simp
  moreover from op have "fd_listeners w l = Some listener" "fd_p_file listener = Some f" "fd_mtx listener = Some x"
    "rt_locks w x = Some False" by (simp_all add: fd_open_def mutex_free_def)
  ultimately show ?thesis
    using ne by (simp add: ht_file_dump_listener_callback_def ht_mutex_lock_def fd_is_stopped_def
        ht_listener_buffer_process_unserialized_events_def)
qed

theorem oversized_unserialized_event_undefined_witness:
  "ht_file_dump_listener_callback HT_ENDIANNESS_LITTLE (\<lambda>_. Derived (HT_Event ''A'' 0 0) [Integer 8 1, Integer 8 2])
     demo_event_klasses [0] False 1 demo_open_world = None"
  by (rule oversized_unserialized_event_undefined [OF demo_open]) (simp_all add: demo_open_listener_def)

end
