(* ===== verification/Endianness.thy ===== *)
theory Endianness
  imports Events
begin

text \<open>
  \<^verbatim>\<open>parser/include/hawktracer/parser/endianness_convert.hpp\<close>: the conversion of integers to the
  byte order of the machine, and the numbers that sequences of bytes stand for.

  The functions for signed and for unsigned integers of a width do the same on the bits.
  The byte order of the machine is the argument \<open>sys\<close>.
\<close>

unbundle bit_operations_syntax

section \<open>The conversions\<close>

definition is_system_endianness :: "HT_Endianness \<Rightarrow> HT_Endianness \<Rightarrow> bool" where
  "is_system_endianness sys endianness = (sys = endianness)"

definition convert_endianness_8 :: "HT_Endianness \<Rightarrow> HT_Endianness \<Rightarrow> u8 \<Rightarrow> u8" where
  "convert_endianness_8 sys from x = x"

definition convert_endianness_16 :: "HT_Endianness \<Rightarrow> HT_Endianness \<Rightarrow> 16 word \<Rightarrow> 16 word" where
  "convert_endianness_16 sys from x =
     (if is_system_endianness sys from then x else push_bit 8 x OR drop_bit 8 x)"

definition convert_endianness_32 :: "HT_Endianness \<Rightarrow> HT_Endianness \<Rightarrow> u32 \<Rightarrow> u32" where
  "convert_endianness_32 sys from x =
     (if is_system_endianness sys from then x
      else let tmp = push_bit 16 x OR drop_bit 16 x
           in (push_bit 8 tmp AND 0xff00ff00) OR (drop_bit 8 tmp AND 0x00ff00ff))"

definition convert_endianness_64 :: "HT_Endianness \<Rightarrow> HT_Endianness \<Rightarrow> u64 \<Rightarrow> u64" where
  "convert_endianness_64 sys from x =
     (if is_system_endianness sys from then x
      else let tmp1 = push_bit 32 x OR drop_bit 32 x;
               tmp2 = push_bit 16 (tmp1 AND 0x0000FFFF0000FFFF) OR drop_bit 16 (tmp1 AND 0xFFFF0000FFFF0000)
           in push_bit 8 (tmp2 AND 0x00FF00FF00FF00FF) OR drop_bit 8 (tmp2 AND 0xFF00FF00FF00FF00))"

section \<open>The number that bytes stand for\<close>

fun le_value :: "byte list \<Rightarrow> nat" where
  "le_value [] = 0"
| "le_value (b # bs) = unat b + 256 * le_value bs"

definition bytes_value :: "HT_Endianness \<Rightarrow> byte list \<Rightarrow> nat" where
  "bytes_value e bs = (case e of HT_ENDIANNESS_LITTLE \<Rightarrow> le_value bs | HT_ENDIANNESS_BIG \<Rightarrow> le_value (rev bs))"

lemma le_value_less: "le_value bs < 256 ^ length bs"
proof (induction bs)
  case (Cons b bs)
  have "unat b < 256" using unsigned_less [of b] by simp
  with Cons show ?case by simp
qed simp

lemma bytes_value_less: "bytes_value e bs < 256 ^ length bs"
  using le_value_less [of bs] le_value_less [of "rev bs"] by (simp add: bytes_value_def split: HT_Endianness.split)

lemma le_bytes_Suc: "le_bytes (Suc w) v = word_of_nat v # le_bytes w (v div 256)"
proof -
  have "[0..<Suc w] = 0 # map Suc [0..<w]" by (simp add: upt_conv_Cons map_Suc_upt del: upt_Suc)
  then show ?thesis by (simp add: le_bytes_def div_mult2_eq comp_def del: upt_Suc)
qed

lemma le_value_le_bytes: "le_value (le_bytes w v) = v mod 256 ^ w"
proof (induction w arbitrary: v)
  case (Suc w)
  have "unat (word_of_nat v :: byte) = v mod 256" by (simp add: unat_of_nat)
  then show ?case using Suc by (simp add: le_bytes_Suc mod_mult2_eq)
qed (simp add: le_bytes_def)

lemma bytes_value_int_bytes: "bytes_value e (int_bytes e w v) = v mod 256 ^ w"
  by (cases e) (simp_all add: bytes_value_def int_bytes_def le_value_le_bytes)

text \<open>A word from its bytes, the least significant one first.\<close>

lemma word_le_value_Cons:
  "(word_of_nat (le_value (b # bs)) :: 'a::len word) = ucast b OR push_bit 8 (word_of_nat (le_value bs))"
proof -
  have disj: "(ucast b :: 'a word) AND push_bit 8 (word_of_nat (le_value bs)) = 0"
    by (rule bit_eqI) (auto simp: bit_simps dest: bit_imp_le_length)
  have "(word_of_nat (le_value (b # bs)) :: 'a word) = ucast b + push_bit 8 (word_of_nat (le_value bs))"
    by (simp add: push_bit_eq_mult mult.commute)
  also have "\<dots> = ucast b OR push_bit 8 (word_of_nat (le_value bs))"
    using disj by (rule disjunctive_add_eq_or)
  finally show ?thesis .
qed

text \<open>The word that has the given bytes, the least significant one first.\<close>

definition le_word :: "byte list \<Rightarrow> 'a::len word" where
  "le_word bs = word_of_nat (le_value bs)"

lemma bit_le_word:
  "n < LENGTH('a) \<Longrightarrow> n < 8 * length bs \<Longrightarrow>
     bit (le_word bs :: 'a::len word) n = bit (bs ! (n div 8)) (n mod 8)"
  unfolding le_word_def
proof (induction bs arbitrary: n)
  case (Cons b bs)
  show ?case
  proof (cases "n < 8")
    case True
    then show ?thesis using Cons.prems unfolding word_le_value_Cons by (simp add: bit_simps)
  next
    case False
    then have "bit (word_of_nat (le_value bs) :: 'a word) (n - 8) = bit (bs ! ((n - 8) div 8)) ((n - 8) mod 8)"
      using Cons.IH [of "n - 8"] Cons.prems by simp
    moreover have "n div 8 = Suc ((n - 8) div 8)" "n mod 8 = (n - 8) mod 8"
      using False by (simp_all add: div_if mod_if)
    ultimately show ?thesis
      using False Cons.prems bit_imp_le_length [of b n] unfolding word_le_value_Cons
      by (auto simp: bit_simps not_less)
  qed
qed simp

lemma bit_le_word_beyond: "LENGTH('a) \<le> n \<Longrightarrow> \<not> bit (le_word bs :: 'a::len word) n"
  using bit_imp_le_length [of "le_word bs :: 'a word" n] by auto

lemma word_eq_bits:
  fixes x y :: "'a::len word"
  assumes "list_all (\<lambda>n. bit x n = bit y n) [0..<LENGTH('a)]"
  shows "x = y"
  using assms by (intro bit_word_eqI) (simp add: list_all_iff)

lemma positions:
  "[0..<16] =
     [0, 1, 2, 3, 4, 5, 6, 7, 8, 9, 10, 11, 12, 13, 14, 15]"
  "[0..<32] =
     [0, 1, 2, 3, 4, 5, 6, 7, 8, 9, 10, 11, 12, 13, 14, 15, 16, 17, 18, 19, 20, 21, 22, 23, 24, 25, 26, 27, 28, 29,
      30, 31]"
  "[0..<64] =
     [0, 1, 2, 3, 4, 5, 6, 7, 8, 9, 10, 11, 12, 13, 14, 15, 16, 17, 18, 19, 20, 21, 22, 23, 24, 25, 26, 27, 28, 29,
      30, 31, 32, 33, 34, 35, 36, 37, 38, 39, 40, 41, 42, 43, 44, 45, 46, 47, 48, 49, 50, 51, 52, 53, 54, 55, 56,
      57, 58, 59, 60, 61, 62, 63]"
  by (simp_all add: upt_rec)

lemma swap_16:
  fixes a b :: byte
  defines "x \<equiv> le_word [a, b] :: 16 word"
  shows "push_bit 8 x OR drop_bit 8 x = le_word [b, a]"
  unfolding x_def by (rule word_eq_bits) (simp add: positions bit_simps bit_le_word bit_le_word_beyond)

lemma swap_32:
  fixes a b c d :: byte
  defines "x \<equiv> le_word [a, b, c, d] :: u32"
  defines "tmp \<equiv> push_bit 16 x OR drop_bit 16 x"
  shows "(push_bit 8 tmp AND 0xff00ff00) OR (drop_bit 8 tmp AND 0x00ff00ff) = le_word [d, c, b, a]"
  unfolding tmp_def x_def by (rule word_eq_bits) (simp add: positions bit_simps bit_le_word bit_le_word_beyond)

lemma swap_64:
  fixes a b c d e f g h :: byte
  defines "x \<equiv> le_word [a, b, c, d, e, f, g, h] :: u64"
  defines "tmp1 \<equiv> push_bit 32 x OR drop_bit 32 x"
  defines "tmp2 \<equiv> push_bit 16 (tmp1 AND 0x0000FFFF0000FFFF) OR drop_bit 16 (tmp1 AND 0xFFFF0000FFFF0000)"
  shows "push_bit 8 (tmp2 AND 0x00FF00FF00FF00FF) OR drop_bit 8 (tmp2 AND 0xFF00FF00FF00FF00) =
    le_word [h, g, f, e, d, c, b, a]"
  unfolding tmp2_def tmp1_def x_def by (rule word_eq_bits) (simp add: positions bit_simps bit_le_word bit_le_word_beyond)

text \<open>What the machine finds in memory, a word of its own byte order.\<close>

definition native_word :: "HT_Endianness \<Rightarrow> byte list \<Rightarrow> 'a::len word" where
  "native_word sys bs = word_of_nat (bytes_value sys bs)"

lemma length_2: "length xs = 2 \<Longrightarrow> \<exists>a b. xs = [a, b]"
  by (auto simp: length_Suc_conv numeral_eq_Suc)

lemma length_4: "length xs = 4 \<Longrightarrow> \<exists>a b c d. xs = [a, b, c, d]"
  by (auto simp: length_Suc_conv numeral_eq_Suc)

lemma length_8: "length xs = 8 \<Longrightarrow> \<exists>a b c d e f g h. xs = [a, b, c, d, e, f, g, h]"
  by (auto simp: length_Suc_conv numeral_eq_Suc)

lemma native_swap:
  assumes "sys \<noteq> from"
  shows "(native_word sys bs :: 'a::len word) = (if sys = HT_ENDIANNESS_LITTLE then le_word bs else le_word (rev bs))"
    and "(native_word from bs :: 'a word) = (if sys = HT_ENDIANNESS_LITTLE then le_word (rev bs) else le_word bs)"
  using assms by (cases sys; cases "from"; simp add: native_word_def bytes_value_def le_word_def)+

lemma convert_16_native:
  assumes "length bs = 2"
  shows "convert_endianness_16 sys from (native_word sys bs) = native_word from bs"
proof (cases "sys = from")
  case False
  from length_2 [OF assms] obtain a b where bs: "bs = [a, b]" by blast
  show ?thesis
    using native_swap [where 'a = 16, OF False, of bs] swap_16 [of a b] swap_16 [of b a] False
    by (simp add: convert_endianness_16_def is_system_endianness_def bs)
qed (simp add: convert_endianness_16_def is_system_endianness_def)

lemma convert_32_native:
  assumes "length bs = 4"
  shows "convert_endianness_32 sys from (native_word sys bs) = native_word from bs"
proof (cases "sys = from")
  case False
  from length_4 [OF assms] obtain a b c d where bs: "bs = [a, b, c, d]" by blast
  show ?thesis
    using native_swap [where 'a = 32, OF False, of bs] swap_32 [of a b c d] swap_32 [of d c b a] False
    by (simp add: convert_endianness_32_def is_system_endianness_def bs Let_def)
qed (simp add: convert_endianness_32_def is_system_endianness_def)

lemma convert_64_native:
  assumes "length bs = 8"
  shows "convert_endianness_64 sys from (native_word sys bs) = native_word from bs"
proof (cases "sys = from")
  case False
  from length_8 [OF assms] obtain a b c d e f g h where bs: "bs = [a, b, c, d, e, f, g, h]" by blast
  show ?thesis
    using native_swap [where 'a = 64, OF False, of bs] swap_64 [of a b c d e f g h] swap_64 [of h g f e d c b a] False
    by (simp add: convert_endianness_64_def is_system_endianness_def bs Let_def)
qed (simp add: convert_endianness_64_def is_system_endianness_def)

lemma native_word_1: "length bs = 1 \<Longrightarrow> (native_word sys bs :: u8) = hd bs"
  by (cases sys) (auto simp: native_word_def bytes_value_def length_Suc_conv)

lemma unat_native_word:
  assumes "LENGTH('a) = 8 * length bs"
  shows "unat (native_word e bs :: 'a::len word) = bytes_value e bs"
proof -
  have "(256::nat) ^ length bs = 2 ^ LENGTH('a)" using assms by (simp add: power_mult)
  then show ?thesis
    using bytes_value_less [of e bs] by (simp add: native_word_def unat_of_nat)
qed

section \<open>Properties\<close>

text \<open>
  C20. The shift and mask expressions for 16, 32 and 64 bits convert every integer correctly: an
  integer that was stored with any byte order and then loaded on a machine with any byte
  order comes out of the conversion as the number that was stored, reduced to its width.
\<close>

theorem convert_endianness_roundtrip:
  "unat (convert_endianness_8 sys from (native_word sys (int_bytes from 1 v))) = v mod 2 ^ 8 \<and>
   unat (convert_endianness_16 sys from (native_word sys (int_bytes from 2 v))) = v mod 2 ^ 16 \<and>
   unat (convert_endianness_32 sys from (native_word sys (int_bytes from 4 v))) = v mod 2 ^ 32 \<and>
   unat (convert_endianness_64 sys from (native_word sys (int_bytes from 8 v))) = v mod 2 ^ 64"
proof (intro conjI)
  have "(native_word sys (int_bytes from 1 v) :: u8) = native_word from (int_bytes from 1 v)"
    by (simp add: native_word_1)
  then show "unat (convert_endianness_8 sys from (native_word sys (int_bytes from 1 v))) = v mod 2 ^ 8"
    using unat_native_word [of "int_bytes from 1 v" "from", where 'a = 8]
    by (simp add: convert_endianness_8_def bytes_value_int_bytes)
  show "unat (convert_endianness_16 sys from (native_word sys (int_bytes from 2 v))) = v mod 2 ^ 16"
    using unat_native_word [of "int_bytes from 2 v" "from", where 'a = 16]
    by (simp add: convert_16_native bytes_value_int_bytes)
  show "unat (convert_endianness_32 sys from (native_word sys (int_bytes from 4 v))) = v mod 2 ^ 32"
    using unat_native_word [of "int_bytes from 4 v" "from", where 'a = 32]
    by (simp add: convert_32_native bytes_value_int_bytes)
  show "unat (convert_endianness_64 sys from (native_word sys (int_bytes from 8 v))) = v mod 2 ^ 64"
    using unat_native_word [of "int_bytes from 8 v" "from", where 'a = 64]
    by (simp add: convert_64_native bytes_value_int_bytes)
qed

end
