(* ===== verification/Klass_Register.thy ===== *)
theory Klass_Register
  imports Endianness
begin

text \<open>
  The event classes and events of the parser: \<^verbatim>\<open>parser/event_klass.cpp\<close>, \<^verbatim>\<open>parser/event.cpp\<close> and
  \<^verbatim>\<open>parser/klass_register.cpp\<close>.

  A pointer to a class is the identifier of the class in the register, or null. The values of an
  event are the entries of its map, in the order they were added; the register is the list of
  its classes in that order, which is also the order of a search by name. \<^term>\<open>None\<close> stands for the end of
  the process: an exception that nobody catches, a failed assertion, or a null pointer that is used.
  Memory of the C++ objects is not modelled, and copies of an event are the event.
\<close>

section \<open>Classes and their fields\<close>

datatype FieldTypeId = UINT8 | INT8 | UINT16 | INT16 | UINT32 | INT32 | UINT64 | INT64 | POINTER | STRING | STRUCT

record EventKlassField =
  fld_name :: string
  fld_type_name :: string
  fld_type_id :: FieldTypeId
  fld_klass :: "HT_EventKlassId option"

record EventKlass =
  ek_name :: string
  ek_id :: HT_EventKlassId
  ek_fields :: "EventKlassField list"

definition is_numeric :: "EventKlassField \<Rightarrow> bool" where
  "is_numeric field = (fld_type_id field \<in> {UINT8, INT8, UINT16, INT16, UINT32, INT32, UINT64, INT64})"

definition get_sizeof :: "EventKlassField \<Rightarrow> nat option" where
  "get_sizeof field =
     (case fld_type_id field of
        INT8 \<Rightarrow> Some 1 | UINT8 \<Rightarrow> Some 1 | INT16 \<Rightarrow> Some 2 | UINT16 \<Rightarrow> Some 2
      | INT32 \<Rightarrow> Some 4 | UINT32 \<Rightarrow> Some 4 | INT64 \<Rightarrow> Some 8 | UINT64 \<Rightarrow> Some 8
      | POINTER \<Rightarrow> Some 8
      | _ \<Rightarrow> None)"

definition get_type_id :: "u64 \<Rightarrow> u8 \<Rightarrow> FieldTypeId option" where
  "get_type_id type_size data_type =
     (if data_type = mkcreflect_code MKCREFLECT_TYPES_POINTER then Some POINTER
      else if data_type = mkcreflect_code MKCREFLECT_TYPES_STRING then Some STRING
      else if data_type = HT_MKCREFLECT_TYPES_EXT_UNSIGNED_INTEGER
      then (if type_size = 1 then Some UINT8 else if type_size = 2 then Some UINT16
            else if type_size = 4 then Some UINT32 else if type_size = 8 then Some UINT64 else None)
      else if data_type = mkcreflect_code MKCREFLECT_TYPES_INTEGER
      then (if type_size = 1 then Some INT8 else if type_size = 2 then Some INT16
            else if type_size = 4 then Some INT32 else if type_size = 8 then Some INT64 else None)
      else if data_type = mkcreflect_code MKCREFLECT_TYPES_STRUCT then Some STRUCT
      else None)"

text \<open>\<^verbatim>\<open>EventKlass::add_field\<close>: a field whose name is taken is not added.\<close>

definition add_field :: "EventKlassField \<Rightarrow> EventKlass \<Rightarrow> EventKlass" where
  "add_field field k =
     (if fld_name field \<in> set (map fld_name (ek_fields k)) then k
      else k\<lparr>ek_fields := ek_fields k @ [field]\<rparr>)"

section \<open>The register\<close>

type_synonym klass_register = "(HT_EventKlassId \<times> EventKlass) list"

definition WK_EndiannessInfoEventKlass :: HT_EventKlassId where
  "WK_EndiannessInfoEventKlass = 0"

definition WK_EventKlass :: HT_EventKlassId where
  "WK_EventKlass = 1"

definition WK_EventKlassInfoEventKlass :: HT_EventKlassId where
  "WK_EventKlassInfoEventKlass = 2"

definition WK_EventKlassFieldInfoEventKlass :: HT_EventKlassId where
  "WK_EventKlassFieldInfoEventKlass = 3"

lemmas well_known_defs = WK_EndiannessInfoEventKlass_def WK_EventKlass_def WK_EventKlassInfoEventKlass_def
  WK_EventKlassFieldInfoEventKlass_def

definition get_klass :: "klass_register \<Rightarrow> HT_EventKlassId \<Rightarrow> EventKlass option" where
  "get_klass reg i = map_of reg i"

definition get_klass_id :: "klass_register \<Rightarrow> string \<Rightarrow> HT_EventKlassId" where
  "get_klass_id reg name =
     (case List.find (\<lambda>(i, k). ek_name k = name) reg of
        None \<Rightarrow> HT_INVALID_KLASS_ID
      | Some (i, k) \<Rightarrow> ek_id k)"

definition get_klass_by_name :: "klass_register \<Rightarrow> string \<Rightarrow> EventKlass option" where
  "get_klass_by_name reg name = get_klass reg (get_klass_id reg name)"

text \<open>
  \<^verbatim>\<open>EventKlass::get_field\<close>: a recursive search goes into the class of every structure it passes, which is a
  null pointer if the class was not known when the field was added.
\<close>

partial_function (option) get_field_from ::
  "klass_register \<Rightarrow> EventKlassField list \<Rightarrow> string \<Rightarrow> bool \<Rightarrow> EventKlassField option option" where
  "get_field_from reg fs name recursive =
     (case fs of
        [] \<Rightarrow> Some None
      | field # rest \<Rightarrow>
          if fld_name field = name then Some (Some field)
          else if fld_type_id field = STRUCT \<and> recursive
          then do {
            i \<leftarrow> fld_klass field;
            k \<leftarrow> get_klass reg i;
            found \<leftarrow> get_field_from reg (ek_fields k) name recursive;
            case found of Some f \<Rightarrow> Some (Some f) | None \<Rightarrow> get_field_from reg rest name recursive }
          else get_field_from reg rest name recursive)"

definition get_field :: "klass_register \<Rightarrow> string \<Rightarrow> bool \<Rightarrow> EventKlass \<Rightarrow> EventKlassField option option" where
  "get_field reg name recursive k = get_field_from reg (ek_fields k) name recursive"

definition klass_exists :: "klass_register \<Rightarrow> HT_EventKlassId \<Rightarrow> bool" where
  "klass_exists reg i = (map_of reg i \<noteq> None)"

definition add_klass :: "EventKlass \<Rightarrow> klass_register \<Rightarrow> klass_register" where
  "add_klass k reg = (if map_of reg (ek_id k) = None then reg @ [(ek_id k, k)] else reg)"

definition add_klass_field :: "HT_EventKlassId \<Rightarrow> EventKlassField \<Rightarrow> klass_register \<Rightarrow> klass_register option" where
  "add_klass_field i field reg =
     (if map_of reg i = None then None
      else Some (map (\<lambda>(j, k). (j, if j = i then add_field field k else k)) reg))"

definition is_well_known_klass :: "HT_EventKlassId \<Rightarrow> bool" where
  "is_well_known_klass i \<longleftrightarrow>
     i = WK_EventKlass \<or> i = WK_EventKlassInfoEventKlass \<or> i = WK_EventKlassFieldInfoEventKlass"

definition simple_field :: "string \<Rightarrow> string \<Rightarrow> FieldTypeId \<Rightarrow> EventKlassField" where
  "simple_field name type_name type_id =
     \<lparr>fld_name = name, fld_type_name = type_name, fld_type_id = type_id, fld_klass = None\<rparr>"

text \<open>The constructor of the register.\<close>

definition base_event_klass :: EventKlass where
  "base_event_klass =
     \<lparr>ek_name = ''HT_Event'', ek_id = WK_EventKlass,
      ek_fields = [simple_field ''klass_id'' ''uint32_t'' UINT32, simple_field ''timestamp'' ''uint64_t'' UINT64,
                   simple_field ''id'' ''uint64_t'' UINT64]\<rparr>"

definition endianness_event_klass :: EventKlass where
  "endianness_event_klass =
     \<lparr>ek_name = ''HT_EndiannessInfoEvent'', ek_id = WK_EndiannessInfoEventKlass,
      ek_fields = [simple_field ''endianness'' ''uint8_t'' UINT8]\<rparr>"

definition klass_info_event_klass :: EventKlass where
  "klass_info_event_klass =
     \<lparr>ek_name = ''HT_EventKlassInfoEvent'', ek_id = WK_EventKlassInfoEventKlass,
      ek_fields = [simple_field ''info_klass_id'' ''uint32_t'' UINT32,
                   simple_field ''event_klass_name'' ''const char*'' STRING,
                   simple_field ''field_count'' ''uint8_t'' UINT8]\<rparr>"

definition klass_field_info_event_klass :: EventKlass where
  "klass_field_info_event_klass =
     \<lparr>ek_name = ''HT_EventKlassFieldInfoEvent'', ek_id = WK_EventKlassFieldInfoEventKlass,
      ek_fields = [simple_field ''info_klass_id'' ''uint32_t'' UINT32,
                   simple_field ''field_type'' ''const char*'' STRING,
                   simple_field ''field_name'' ''const char*'' STRING,
                   simple_field ''size'' ''uint64_t'' UINT64,
                   simple_field ''data_type'' ''uint8_t'' UINT8]\<rparr>"

definition KlassRegister :: klass_register where
  "KlassRegister =
     fold add_klass [base_event_klass, endianness_event_klass, klass_info_event_klass, klass_field_info_event_klass] []"

section \<open>Events\<close>

text \<open>
  The union \<^verbatim>\<open>FieldType\<close>: an integer is the bits that were stored, extended with zeros to
  64 bits; a string or an event is what the pointer refers to.
\<close>

datatype FieldType = Num u64 | Str "string option" | Evt "Event option"
  and Event = Event (evt_klass: "HT_EventKlassId option") (evt_values: "(string \<times> EventKlassField \<times> FieldType) list")
    (evt_timestamp: HT_TimestampNs)

definition new_event :: "HT_EventKlassId option \<Rightarrow> Event" where
  "new_event k = Event k [] (- 1)"

definition has_value :: "string \<Rightarrow> Event \<Rightarrow> bool" where
  "has_value key ev = (map_of (evt_values ev) key \<noteq> None)"

text \<open>
  \<^verbatim>\<open>get_value\<close> for an integer of \<open>w\<close> bytes, a string and an event. It throws when the
  key is missing.
\<close>

definition get_number :: "nat \<Rightarrow> string \<Rightarrow> Event \<Rightarrow> u64 option" where
  "get_number w key ev =
     (case map_of (evt_values ev) key of
        Some (_, Num v) \<Rightarrow> Some (take_bit (8 * w) v)
      | _ \<Rightarrow> None)"

definition get_string :: "string \<Rightarrow> Event \<Rightarrow> string option option" where
  "get_string key ev =
     (case map_of (evt_values ev) key of
        Some (_, Str s) \<Rightarrow> Some s
      | _ \<Rightarrow> None)"

definition get_event :: "string \<Rightarrow> Event \<Rightarrow> Event option option" where
  "get_event key ev =
     (case map_of (evt_values ev) key of
        Some (_, Evt e) \<Rightarrow> Some e
      | _ \<Rightarrow> None)"

definition insert_value :: "EventKlassField \<Rightarrow> FieldType \<Rightarrow> Event \<Rightarrow> Event" where
  "insert_value field v ev =
     (if has_value (fld_name field) ev then ev
      else Event (evt_klass ev) (evt_values ev @ [(fld_name field, field, v)]) (evt_timestamp ev))"

definition set_value :: "EventKlassField \<Rightarrow> FieldType \<Rightarrow> Event \<Rightarrow> Event option" where
  "set_value field v ev =
     (let ev = insert_value field v ev in
      if fld_name field = ''timestamp''
      then do { t \<leftarrow> get_number 8 ''timestamp'' ev; Some (Event (evt_klass ev) (evt_values ev) t) }
      else Some ev)"

fun merge_values :: "(string \<times> EventKlassField \<times> FieldType) list \<Rightarrow> Event \<Rightarrow> Event option" where
  "merge_values [] ev = Some ev"
| "merge_values ((_, field, v) # vs) ev = do { ev \<leftarrow> set_value field v ev; merge_values vs ev }"

definition merge :: "Event \<Rightarrow> Event \<Rightarrow> Event option" where
  "merge ev other = merge_values (evt_values other) ev"

section \<open>Learning classes from the stream\<close>

text \<open>A null string would be used to construct a \<^verbatim>\<open>std::string\<close>.\<close>

definition handle_register_events :: "Event \<Rightarrow> klass_register \<Rightarrow> klass_register option" where
  "handle_register_events ev reg =
     do { k \<leftarrow> evt_klass ev;
          if k = WK_EventKlassInfoEventKlass
          then do {
            i \<leftarrow> get_number 4 ''info_klass_id'' ev;
            p \<leftarrow> get_string ''event_klass_name'' ev;
            name \<leftarrow> p;
            Some (add_klass \<lparr>ek_name = name, ek_id = ucast i, ek_fields = []\<rparr> reg) }
          else if k = WK_EventKlassFieldInfoEventKlass
          then do {
            i \<leftarrow> get_number 4 ''info_klass_id'' ev;
            if \<not> is_well_known_klass (ucast i)
            then do {
              t \<leftarrow> get_number 1 ''data_type'' ev;
              p \<leftarrow> get_string ''field_type'' ev;
              field_type \<leftarrow> p;
              let type_klass = (if (ucast t :: u8) = mkcreflect_code MKCREFLECT_TYPES_STRUCT
                                then map_option ek_id (get_klass_by_name reg field_type) else None);
              q \<leftarrow> get_string ''field_name'' ev;
              name \<leftarrow> q;
              sz \<leftarrow> get_number 8 ''size'' ev;
              type_id \<leftarrow> get_type_id sz (ucast t);
              add_klass_field (ucast i)
                \<lparr>fld_name = name, fld_type_name = field_type, fld_type_id = type_id, fld_klass = type_klass\<rparr> reg }
            else Some reg }
          else Some reg }"

section \<open>The register stays well-formed\<close>

text \<open>
  A register is well-formed if every class is stored once, under its own identifier, its fields have different
  names, and the four classes of the format are there, the three protected ones unchanged.
\<close>

definition register_wf :: "klass_register \<Rightarrow> bool" where
  "register_wf reg \<longleftrightarrow>
     distinct (map fst reg) \<and>
     (\<forall>(i, k)\<in>set reg. ek_id k = i \<and> distinct (map fld_name (ek_fields k))) \<and>
     get_klass reg WK_EventKlass = Some base_event_klass \<and>
     get_klass reg WK_EventKlassInfoEventKlass = Some klass_info_event_klass \<and>
     get_klass reg WK_EventKlassFieldInfoEventKlass = Some klass_field_info_event_klass \<and>
     klass_exists reg WK_EndiannessInfoEventKlass"

lemma map_of_update_entry:
  "map_of (map (\<lambda>(j, k). (j, if j = i then f k else k)) reg) j = (if j = i then map_option f (map_of reg j) else map_of reg j)"
  by (induction reg) auto

lemma add_klass_wf:
  assumes "register_wf reg" and "distinct (map fld_name (ek_fields k))"
  shows "register_wf (add_klass k reg)"
  using assms
  by (auto simp: register_wf_def add_klass_def get_klass_def klass_exists_def map_add_def map_of_eq_None_iff split: option.splits)

lemma add_klass_field_wf:
  assumes "register_wf reg" and "add_klass_field i field reg = Some reg'" and "\<not> is_well_known_klass i"
  shows "register_wf reg'"
proof -
  let ?f = "\<lambda>(j, k). (j, if j = i then add_field field k else k)"
  have reg': "reg' = map ?f reg" using assms(2) by (auto simp: add_klass_field_def split: if_splits)
  have fst: "map fst (map ?f reg) = map fst reg" by (simp add: case_prod_beta)
  have "ek_id (add_field field k) = ek_id k" for k by (simp add: add_field_def)
  moreover have "distinct (map fld_name (ek_fields k)) \<Longrightarrow> distinct (map fld_name (ek_fields (add_field field k)))" for k
    by (simp add: add_field_def)
  ultimately have "\<forall>(i, k)\<in>set reg'. ek_id k = i \<and> distinct (map fld_name (ek_fields k))"
    using assms(1) unfolding reg' register_wf_def by auto
  with assms(1,3) show ?thesis
    unfolding reg' register_wf_def fst
    by (auto simp: get_klass_def klass_exists_def map_of_update_entry is_well_known_klass_def well_known_defs
        dest: map_of_SomeD)
qed

section \<open>Properties\<close>

text \<open>
  C21. Whatever event the parser is handed, its register stays well-formed: no class is stored twice or under
  a foreign identifier, no class gets two fields of one name, and the descriptions the format itself rests
  on (the base event and the two description events, with the identifiers 1 to 3) cannot be changed by the stream. Every other class, that
  of the byte order event included, stays under its name and with its fields, but fields can be added to it. A description of a
  class that is known already is ignored. The register the parser starts with is well-formed.
\<close>

theorem register_stays_well_formed:
  "register_wf KlassRegister \<and>
   (register_wf reg \<and> handle_register_events ev reg = Some reg' \<longrightarrow>
      register_wf reg' \<and> dom (map_of reg) \<subseteq> dom (map_of reg') \<and>
      (\<forall>i k. get_klass reg i = Some k \<longrightarrow>
         (\<exists>k' fs. get_klass reg' i = Some k' \<and> ek_name k' = ek_name k \<and> ek_fields k' = ek_fields k @ fs)))"
proof (intro conjI impI)
  show "register_wf KlassRegister"
    by (simp add: register_wf_def KlassRegister_def add_klass_def base_event_klass_def endianness_event_klass_def
        klass_info_event_klass_def klass_field_info_event_klass_def simple_field_def get_klass_def klass_exists_def
        well_known_defs)
  assume a: "register_wf reg \<and> handle_register_events ev reg = Some reg'"
  have cases: "reg' = reg \<or> (\<exists>k. reg' = add_klass k reg \<and> ek_fields k = []) \<or>
      (\<exists>i field. add_klass_field i field reg = Some reg' \<and> \<not> is_well_known_klass i)"
    using a by (auto simp: handle_register_events_def bind_eq_Some_conv Let_def split: if_splits)
  then show "register_wf reg'" using a by (auto intro: add_klass_wf add_klass_field_wf)
  have grow: "\<exists>k' fs. get_klass reg' i = Some k' \<and> ek_name k' = ek_name k \<and> ek_fields k' = ek_fields k @ fs"
    if "get_klass reg i = Some k" for i k
    using cases that
    by (auto simp: get_klass_def add_klass_def add_klass_field_def map_of_update_entry add_field_def split: if_splits)
  then show "dom (map_of reg) \<subseteq> dom (map_of reg')" by (force simp: get_klass_def)
  show "\<forall>i k. get_klass reg i = Some k \<longrightarrow>
      (\<exists>k' fs. get_klass reg' i = Some k' \<and> ek_name k' = ek_name k \<and> ek_fields k' = ek_fields k @ fs)"
    using grow by blast
qed

theorem register_stays_well_formed_witness:
  "\<exists>reg'. handle_register_events
     (Event (Some 2) [(''info_klass_id'', simple_field ''info_klass_id'' ''uint32_t'' UINT32, Num 9),
        (''event_klass_name'', simple_field ''event_klass_name'' ''const char*'' STRING, Str (Some ''New''))] 0) KlassRegister = Some reg' \<and>
     register_wf reg' \<and> get_klass reg' 9 = Some \<lparr>ek_name = ''New'', ek_id = 9, ek_fields = []\<rparr>"
proof -
  let ?ev = "Event (Some 2) [(''info_klass_id'', simple_field ''info_klass_id'' ''uint32_t'' UINT32, Num 9),
        (''event_klass_name'', simple_field ''event_klass_name'' ''const char*'' STRING, Str (Some ''New''))] 0"
  let ?k = "\<lparr>ek_name = ''New'', ek_id = 9, ek_fields = []\<rparr>"
  have run: "handle_register_events ?ev KlassRegister = Some (add_klass ?k KlassRegister)"
    by (simp add: handle_register_events_def well_known_defs get_number_def get_string_def take_bit_word_eq_self)
  have "get_klass (add_klass ?k KlassRegister) 9 = Some ?k"
    by (simp add: KlassRegister_def add_klass_def base_event_klass_def endianness_event_klass_def
        klass_info_event_klass_def klass_field_info_event_klass_def get_klass_def well_known_defs)
  with run register_stays_well_formed [of KlassRegister ?ev "add_klass ?k KlassRegister"] show ?thesis by simp
qed

end
