(* ===== verification/Protocol_Reader.thy ===== *)
theory Protocol_Reader
  imports Klass_Register
begin

text \<open>
  \<^verbatim>\<open>parser/protocol_reader.cpp\<close>, \<^verbatim>\<open>parser/include/hawktracer/parser/stream.hpp\<close> and
  \<^verbatim>\<open>parser/file_stream.cpp\<close>: reading the events of a stream.

  A stream is a record of its virtual methods. The reader thread is the function \<open>read_events\<close>;
  \<open>running\<close> says what the flag \<^verbatim>\<open>_is_running\<close> is at each test of the loop, which \<^verbatim>\<open>stop\<close> may clear at any time.
  The callbacks of the users of the reader are one function \<open>callback\<close> on a state of theirs.
\<close>

section \<open>Streams\<close>

record 's Stream =
  st_start :: "'s \<Rightarrow> (bool \<times> 's) option"
  st_stop :: "'s \<Rightarrow> 's option"
  st_read_byte :: "'s \<Rightarrow> (int \<times> 's) option"
  st_read_data :: "nat \<Rightarrow> 's \<Rightarrow> (byte list option \<times> 's) option"
  st_is_continuous :: bool

text \<open>The members of the class \<^verbatim>\<open>Stream\<close> that are not virtual; \<open>w\<close> is the size of the integer type.\<close>

definition read_value ::
  "HT_Endianness \<Rightarrow> 's Stream \<Rightarrow> nat \<Rightarrow> 's \<Rightarrow> (u64 option \<times> 's) option" where
  "read_value sys strm w s =
     (if w = 1
      then do { (v, s) \<leftarrow> st_read_byte strm s; Some (if v < 0 then None else Some (ucast (word_of_int v :: u8)), s) }
      else do { (data, s) \<leftarrow> st_read_data strm w s; Some (map_option (native_word sys) data, s) })"

partial_function (option) stream_read_string :: "'s Stream \<Rightarrow> string \<Rightarrow> 's \<Rightarrow> (string option \<times> 's) option" where
  "stream_read_string strm value s =
     do { (b, s) \<leftarrow> st_read_byte strm s;
          if b > 0 then stream_read_string strm (value @ [char_of_byte (word_of_int b)]) s
          else Some (if b = 0 then Some value else None, s) }"

text \<open>A file: the rest of its contents, and the end-of-file flag of the C library.\<close>

record FileStream =
  fs_file_name :: string
  fs_file :: "(byte list \<times> bool) option"

definition fs_start :: "(string \<rightharpoonup> byte list) \<Rightarrow> FileStream \<Rightarrow> (bool \<times> FileStream) option" where
  "fs_start files s =
     (case files (fs_file_name s) of
        None \<Rightarrow> Some (False, s\<lparr>fs_file := None\<rparr>)
      | Some bs \<Rightarrow> Some (True, s\<lparr>fs_file := Some (bs, False)\<rparr>))"

definition fs_stop :: "FileStream \<Rightarrow> FileStream option" where
  "fs_stop s = Some (s\<lparr>fs_file := None\<rparr>)"

definition fs_read_data :: "nat \<Rightarrow> FileStream \<Rightarrow> (byte list option \<times> FileStream) option" where
  "fs_read_data n s =
     do { (rest, eof) \<leftarrow> fs_file s;
          let eof' = (eof \<or> length rest < n);
          Some (if eof' then None else Some (take n rest), s\<lparr>fs_file := Some (drop n rest, eof')\<rparr>) }"

definition fs_read_byte :: "FileStream \<Rightarrow> (int \<times> FileStream) option" where
  "fs_read_byte s =
     do { (rest, eof) \<leftarrow> fs_file s;
          case rest of
            [] \<Rightarrow> Some (- 1, s\<lparr>fs_file := Some ([], True)\<rparr>)
          | b # bs \<Rightarrow> Some (uint b, s\<lparr>fs_file := Some (bs, eof)\<rparr>) }"

definition file_stream :: "(string \<rightharpoonup> byte list) \<Rightarrow> FileStream Stream" where
  "file_stream files =
     \<lparr>st_start = fs_start files, st_stop = fs_stop, st_read_byte = fs_read_byte, st_read_data = fs_read_data,
      st_is_continuous = False\<rparr>"

section \<open>Reading values\<close>

text \<open>
  The loop of \<^verbatim>\<open>_read_string\<close>: \<open>len\<close> is the size of the block \<^verbatim>\<open>data\<close>, and a byte that would be
  written outside of it is undefined.
\<close>

partial_function (option) read_string_from ::
  "'s Stream \<Rightarrow> nat \<Rightarrow> nat \<Rightarrow> string \<Rightarrow> 's \<Rightarrow> (string option \<times> 's) option" where
  "read_string_from strm len pos data s =
     do { (c, s) \<leftarrow> st_read_byte strm s;
          if c > 0
          then if pos < len
               then read_string_from strm (if pos + 1 = len then 2 * len else len) (pos + 1)
                      (data @ [char_of_byte (word_of_int c)]) s
               else None
          else if c < 0 then Some (None, s)
          else if pos < len then Some (Some data, s) else None }"

definition read_string :: "'s Stream \<Rightarrow> 's \<Rightarrow> (string option \<times> 's) option" where
  "read_string strm s = read_string_from strm 32 0 [] s"

definition read_numeric ::
  "HT_Endianness \<Rightarrow> 's Stream \<Rightarrow> HT_Endianness \<Rightarrow> EventKlassField \<Rightarrow> 's \<Rightarrow> (u64 option \<times> 's) option" where
  "read_numeric sys strm endianness field s =
     do { n \<leftarrow> get_sizeof field;
          (data, s) \<leftarrow> st_read_data strm n s;
          case data of
            None \<Rightarrow> Some (None, s)
          | Some buff \<Rightarrow>
              (if fld_type_id field = UINT8 \<or> fld_type_id field = INT8
               then Some (Some (ucast (convert_endianness_8 sys endianness (native_word sys buff))), s)
               else if fld_type_id field = UINT16 \<or> fld_type_id field = INT16
               then Some (Some (ucast (convert_endianness_16 sys endianness (native_word sys buff))), s)
               else if fld_type_id field = UINT32 \<or> fld_type_id field = INT32
               then Some (Some (ucast (convert_endianness_32 sys endianness (native_word sys buff))), s)
               else if fld_type_id field = UINT64 \<or> fld_type_id field = INT64
               then Some (Some (convert_endianness_64 sys endianness (native_word sys buff)), s)
               else if fld_type_id field = POINTER then Some (None, s)
               else None) }"

section \<open>Reading events\<close>

text \<open>
  \<^verbatim>\<open>_read_struct\<close>, where \<open>read_event\<close> is \<^verbatim>\<open>_read_event\<close> for the fields of a class. The result is the value,
  or \<^term>\<open>None\<close> if it could not be read, with the event, the base event, which is moved into the first field that
  wants it, and the stream.
\<close>

type_synonym 's event_reader =
  "EventKlassField list \<Rightarrow> Event \<Rightarrow> Event option \<Rightarrow> 's \<Rightarrow> (bool \<times> Event \<times> Event option \<times> 's) option"

definition moved_event :: "Event \<Rightarrow> Event" where
  "moved_event ev = Event None [] (evt_timestamp ev)"

definition read_struct ::
  "'s event_reader \<Rightarrow> klass_register \<Rightarrow> bool \<Rightarrow> EventKlassField \<Rightarrow> Event \<Rightarrow> Event option \<Rightarrow> 's \<Rightarrow>
   (FieldType option \<times> Event \<times> Event option \<times> 's) option" where
  "read_struct read_event reg flat field ev base s =
     (if fld_type_name field = ''HT_Event'' \<and> fld_name field = ''base''
      then if flat then Some (Some (Evt None), ev, base, s)
           else do { b \<leftarrow> base; Some (Some (Evt (Some b)), ev, Some (moved_event b), s) }
      else do {
        k \<leftarrow> get_klass reg (get_klass_id reg (fld_type_name field));
        (ok, sub, base, s) \<leftarrow> read_event (ek_fields k) (new_event (Some (ek_id k))) base s;
        ev \<leftarrow> (if flat then merge ev sub else Some ev);
        Some (if ok then Some (Evt (if flat then None else Some sub)) else None, ev, base, s) })"

lemma read_struct_mono [partial_function_mono]:
  assumes "\<And>fs ev base s. mono_option (\<lambda>f. R f fs ev base s)"
  shows "mono_option (\<lambda>f. read_struct (R f) reg flat field ev base s)"
  unfolding read_struct_def
  by (intro if_mono bind_mono assms option.const_mono)

text \<open>\<^verbatim>\<open>_read_event\<close>: the fields of a class, one after the other. The result says whether all were read.\<close>

partial_function (option) read_fields ::
  "HT_Endianness \<Rightarrow> 's Stream \<Rightarrow> klass_register \<Rightarrow> bool \<Rightarrow> HT_Endianness \<Rightarrow> EventKlassField list \<Rightarrow> Event \<Rightarrow> Event option \<Rightarrow>
   's \<Rightarrow> (bool \<times> Event \<times> Event option \<times> 's) option" where
  "read_fields sys strm reg flat endianness fs ev base s =
     (case fs of
        [] \<Rightarrow> Some (True, ev, base, s)
      | field # rest \<Rightarrow> do {
          (v, ev, base, s) \<leftarrow>
            (if is_numeric field \<or> fld_type_id field = POINTER
             then do { (r, s) \<leftarrow> read_numeric sys strm endianness field s; Some (map_option Num r, ev, base, s) }
             else if fld_type_id field = STRING
             then do { (r, s) \<leftarrow> read_string strm s; Some (map_option (\<lambda>x. Str (Some x)) r, ev, base, s) }
             else read_struct (read_fields sys strm reg flat endianness) reg flat field ev base s);
          case v of
            None \<Rightarrow> Some (False, ev, base, s)
          | Some v \<Rightarrow> do {
              ev \<leftarrow> (if flat \<and> fld_type_id field = STRUCT then Some ev else set_value field v ev);
              read_fields sys strm reg flat endianness rest ev base s } })"

record ('s, 'c) ProtocolReader =
  rd_register :: klass_register
  rd_endianness :: HT_Endianness
  rd_stream :: 's
  rd_client :: 'c

text \<open>A code that is neither byte order differs from that of the machine, like the other one.\<close>

definition endianness_of_code :: "HT_Endianness \<Rightarrow> u64 \<Rightarrow> HT_Endianness" where
  "endianness_of_code sys c =
     (if c = 0 then HT_ENDIANNESS_LITTLE else if c = 1 then HT_ENDIANNESS_BIG
      else if sys = HT_ENDIANNESS_LITTLE then HT_ENDIANNESS_BIG else HT_ENDIANNESS_LITTLE)"

text \<open>The first callback is the one the constructor registers.\<close>

definition call_callbacks ::
  "(Event \<Rightarrow> 'c \<Rightarrow> 'c option) \<Rightarrow> Event \<Rightarrow> ('s, 'c) ProtocolReader \<Rightarrow> ('s, 'c) ProtocolReader option" where
  "call_callbacks callback ev r =
     do { reg \<leftarrow> handle_register_events ev (rd_register r);
          c \<leftarrow> callback ev (rd_client r);
          Some (r\<lparr>rd_register := reg, rd_client := c\<rparr>) }"

text \<open>One turn of the loop; the result says whether it goes on.\<close>

definition read_one ::
  "HT_Endianness \<Rightarrow> 's Stream \<Rightarrow> bool \<Rightarrow> (Event \<Rightarrow> 'c \<Rightarrow> 'c option) \<Rightarrow> ('s, 'c) ProtocolReader \<Rightarrow>
   (bool \<times> ('s, 'c) ProtocolReader) option" where
  "read_one sys strm flat callback r =
     do { k \<leftarrow> get_klass (rd_register r) WK_EventKlass;
          (ok, base_event, _, s) \<leftarrow>
            read_fields sys strm (rd_register r) flat (rd_endianness r) (ek_fields k) (new_event (Some (ek_id k))) None (rd_stream r);
          let r = r\<lparr>rd_stream := s\<rparr>;
          if \<not> ok then Some (False, r)
          else do {
            klass_id \<leftarrow> get_number 4 ''klass_id'' base_event;
            if ucast klass_id = WK_EventKlass
            then do { r \<leftarrow> call_callbacks callback base_event r; Some (True, r) }
            else do {
              k \<leftarrow> get_klass (rd_register r) (ucast klass_id);
              (ok, ev, _, s) \<leftarrow>
                read_fields sys strm (rd_register r) flat (rd_endianness r) (ek_fields k) (new_event (Some (ek_id k)))
                  (if flat then None else Some base_event) (rd_stream r);
              ev \<leftarrow> (if flat then merge ev base_event else Some ev);
              let r = r\<lparr>rd_stream := s\<rparr>;
              if \<not> ok then Some (False, r)
              else do {
                r \<leftarrow> (if ucast klass_id = WK_EndiannessInfoEventKlass
                      then do { c \<leftarrow> get_number 1 ''endianness'' ev; Some (r\<lparr>rd_endianness := endianness_of_code sys c\<rparr>) }
                      else Some r);
                r \<leftarrow> call_callbacks callback ev r;
                Some (True, r) } } } }"

partial_function (option) read_events ::
  "HT_Endianness \<Rightarrow> 's Stream \<Rightarrow> bool \<Rightarrow> (Event \<Rightarrow> 'c \<Rightarrow> 'c option) \<Rightarrow> (nat \<Rightarrow> bool) \<Rightarrow> nat \<Rightarrow> ('s, 'c) ProtocolReader \<Rightarrow>
   ('s, 'c) ProtocolReader option" where
  "read_events sys strm flat callback running n r =
     (if running n
      then do { (go, r) \<leftarrow> read_one sys strm flat callback r;
                if go then read_events sys strm flat callback running (n + 1) r else Some r }
      else Some r)"

text \<open>The constructor, and \<^verbatim>\<open>start\<close> with the thread it starts and \<^verbatim>\<open>stop\<close> after the thread ended.\<close>

definition new_reader :: "'s \<Rightarrow> 'c \<Rightarrow> ('s, 'c) ProtocolReader" where
  "new_reader s c = \<lparr>rd_register = KlassRegister, rd_endianness = HT_ENDIANNESS_LITTLE, rd_stream = s, rd_client = c\<rparr>"

definition run_reader ::
  "HT_Endianness \<Rightarrow> 's Stream \<Rightarrow> bool \<Rightarrow> (Event \<Rightarrow> 'c \<Rightarrow> 'c option) \<Rightarrow> (nat \<Rightarrow> bool) \<Rightarrow> ('s, 'c) ProtocolReader \<Rightarrow>
   (bool \<times> ('s, 'c) ProtocolReader) option" where
  "run_reader sys strm flat callback running r =
     do { (ok, s) \<leftarrow> st_start strm (rd_stream r);
          let r = r\<lparr>rd_stream := s\<rparr>;
          r \<leftarrow> (if ok then read_events sys strm flat callback running 0 r else Some r);
          s \<leftarrow> st_stop strm (rd_stream r);
          Some (ok, r\<lparr>rd_stream := s\<rparr>) }"

lemma byte_of_char_pos: "c \<noteq> CHR 0x00 \<Longrightarrow> 0 < uint (byte_of_char c)"
proof -
  assume "c \<noteq> CHR 0x00"
  moreover have "char_of (0 :: nat) = CHR 0x00" by (simp add: char_of_def)
  ultimately have "byte_of_char c \<noteq> 0"
    using char_of_byte_of_char [of c] by (auto simp: char_of_byte_def simp del: char_of_byte_of_char)
  then show ?thesis using uint_0_iff [of "byte_of_char c"] uint_ge_0 [of "byte_of_char c"] by linarith
qed

section \<open>What a stream promises\<close>

text \<open>
  A stream that will deliver the bytes \<open>bs\<close>: a byte or a block that is there is read, and one that is
  not there is reported; then the stream can be stopped. Not every stream can return every byte as a single one: \<open>clear\<close> says which bytes it can.
\<close>

definition clear_string :: "(byte \<Rightarrow> bool) \<Rightarrow> string \<Rightarrow> bool" where
  "clear_string clear str \<longleftrightarrow> (\<forall>c\<in>set str. clear (byte_of_char c))"

lemma clear_string_all [simp]: "clear_string (\<lambda>b. True) str"
  by (simp add: clear_string_def)

locale byte_stream =
  fixes strm :: "'s Stream" and holds :: "'s \<Rightarrow> byte list \<Rightarrow> bool" and clear :: "byte \<Rightarrow> bool"
  assumes clear_0: "clear 0"
    and read_byte_law: "holds s (b # bs) \<Longrightarrow> clear b \<Longrightarrow> \<exists>s'. st_read_byte strm s = Some (uint b, s') \<and> holds s' bs"
    and read_byte_end: "holds s [] \<Longrightarrow> \<exists>c s'. st_read_byte strm s = Some (c, s') \<and> c < 0 \<and> holds s' []"
    and read_data_law: "holds s bs \<Longrightarrow> 0 < n \<Longrightarrow> n \<le> length bs \<Longrightarrow>
      \<exists>s'. st_read_data strm n s = Some (Some (take n bs), s') \<and> holds s' (drop n bs)"
    and read_data_end: "holds s bs \<Longrightarrow> length bs < n \<Longrightarrow>
      \<exists>s'. st_read_data strm n s = Some (None, s') \<and> st_stop strm s' \<noteq> None"
begin

lemma read_bytes_exact:
  assumes "holds s (bs @ cs)" and "length bs = n" and "0 < n"
  obtains s' where "st_read_data strm n s = Some (Some bs, s')" and "holds s' cs"
  using read_data_law [OF assms(1,3)] assms(2) by auto

lemma read_string_from_ok:
  assumes "holds s (map byte_of_char str @ 0 # bs)" and "CHR 0x00 \<notin> set str" and "pos < len" and "clear_string clear str"
  shows "\<exists>s'. read_string_from strm len pos data s = Some (Some (data @ str), s') \<and> holds s' bs"
  using assms
proof (induction str arbitrary: s len pos data)
  case Nil
  then obtain s' where "st_read_byte strm s = Some (0, s')" "holds s' bs"
    using read_byte_law [of s 0 bs] clear_0 by auto
  with Nil show ?case by (subst read_string_from.simps) simp
next
  case (Cons c str)
  then obtain s' where s': "st_read_byte strm s = Some (uint (byte_of_char c), s')"
    "holds s' (map byte_of_char str @ 0 # bs)"
    using read_byte_law [of s "byte_of_char c" "map byte_of_char str @ 0 # bs"] by (auto simp: clear_string_def)
  have pos: "0 < uint (byte_of_char c)" using Cons.prems(2) by (intro byte_of_char_pos) auto
  let ?len = "if pos + 1 = len then 2 * len else len"
  have "pos + 1 < ?len" using Cons.prems(3) by auto
  with Cons.IH [OF s'(2), of "pos + 1" ?len "data @ [c]"] Cons.prems(2,4) obtain s'' where
    "read_string_from strm ?len (pos + 1) (data @ [c]) s' = Some (Some (data @ c # str), s'')" "holds s'' bs"
    by (auto simp: clear_string_def)
  with s' pos Cons.prems(3) show ?case by (subst read_string_from.simps) simp
qed

lemma read_string_ok:
  assumes "holds s (string_bytes str @ bs)" and "CHR 0x00 \<notin> set str" and "clear_string clear str"
  obtains s' where "read_string strm s = Some (Some str, s')" and "holds s' bs"
proof -
  have "takeWhile (\<lambda>c. c \<noteq> CHR 0x00) str = str" using assms(2) by (auto simp: takeWhile_eq_all_conv)
  with assms read_string_from_ok [of s str bs 0 32 "[]"] that show thesis
    by (auto simp: string_bytes_def read_string_def)
qed

end

text \<open>An open file delivers the rest of its contents.\<close>

definition file_holds :: "FileStream \<Rightarrow> byte list \<Rightarrow> bool" where
  "file_holds s bs \<longleftrightarrow> (\<exists>eof. fs_file s = Some (bs, eof) \<and> (eof \<longrightarrow> bs = []))"

lemma file_holds_open: "fs_file s = Some (bs, False) \<Longrightarrow> file_holds s bs"
  by (auto simp: file_holds_def)

interpretation fs: byte_stream "file_stream files" file_holds "\<lambda>b. True" for files
  by standard (auto simp: file_holds_def file_stream_def fs_read_byte_def fs_read_data_def fs_stop_def)

end
