(* ===== verification/Trace_Reading.thy ===== *)
theory Trace_Reading
  imports Protocol_Reader
begin

text \<open>
  What the reader makes of the bytes of events: for every event that fits the classes of the register,
  reading its bytes gives the event with the same values. The events of \<open>Events\<close> are
  what the library writes, the events of \<open>Klass_Register\<close> what the parser hands to its callbacks.
\<close>

section \<open>Typed events\<close>

fun value_of :: "field_value \<Rightarrow> FieldType" where
  "value_of (Integer w n) = Num (word_of_nat n)"
| "value_of (String str) = Str str"
| "value_of (Pointer p) = Num p"
| "value_of (Double d) = Num d"
| "value_of (Struct s) = Evt None"

fun value_typed :: "EventKlassField \<Rightarrow> field_value \<Rightarrow> bool" where
  "value_typed field (Integer w n) \<longleftrightarrow> is_numeric field \<and> get_sizeof field = Some w \<and> n < 256 ^ w"
| "value_typed field (String (Some str)) \<longleftrightarrow> fld_type_id field = STRING \<and> CHR 0x00 \<notin> set str"
| "value_typed field v \<longleftrightarrow> False"

text \<open>The base of an event class, which comes first in its fields.\<close>

definition is_base :: "EventKlassField \<Rightarrow> bool" where
  "is_base field \<longleftrightarrow> fld_type_id field = STRUCT \<and> fld_name field = ''base''"

fun is_header :: "ht_struct \<Rightarrow> bool" where
  "is_header (HT_Event k t i) = True"
| "is_header (Derived b vs) = False"

text \<open>
  An event fits the fields of a class. The classes the parser knows from the start have no field for
  the base.
\<close>

fun fields_typed :: "klass_register \<Rightarrow> EventKlassField list \<Rightarrow> ht_struct \<Rightarrow> bool" where
  "fields_typed reg fs (HT_Event k t i) \<longleftrightarrow> False"
| "fields_typed reg fs (Derived b vs) \<longleftrightarrow>
     distinct (map fld_name fs) \<and> ''timestamp'' \<notin> set (map fld_name fs) \<and>
     (case fs of
        [] \<Rightarrow> is_header b \<and> vs = []
      | f # rest \<Rightarrow>
          if is_base f
          then list_all2 value_typed rest vs \<and>
               (if is_header b then fld_type_name f = ''HT_Event''
                else fld_type_name f \<noteq> ''HT_Event'' \<and>
                     (case get_klass_by_name reg (fld_type_name f) of
                        None \<Rightarrow> False
                      | Some k \<Rightarrow> fields_typed reg (ek_fields k) b))
          else is_header b \<and> list_all2 value_typed fs vs)"

text \<open>The event the parser builds.\<close>

definition field_entry :: "EventKlassField \<Rightarrow> field_value \<Rightarrow> string \<times> EventKlassField \<times> FieldType" where
  "field_entry f v = (fld_name f, f, value_of v)"

fun read_as :: "klass_register \<Rightarrow> Event \<Rightarrow> HT_EventKlassId \<Rightarrow> EventKlassField list \<Rightarrow> ht_struct \<Rightarrow> Event" where
  "read_as reg base i fs (HT_Event k t n) = base"
| "read_as reg base i fs (Derived b vs) =
     Event (Some i)
       (case fs of
          [] \<Rightarrow> []
        | f # rest \<Rightarrow>
            if is_base f
            then (''base'', f,
                  Evt (Some (if is_header b then base
                             else case get_klass_by_name reg (fld_type_name f) of
                                    None \<Rightarrow> base
                                  | Some k \<Rightarrow> read_as reg base (ek_id k) (ek_fields k) b)))
                 # map2 field_entry rest vs
            else map2 field_entry fs vs)
       (- 1)"

fun event_header :: "ht_struct \<Rightarrow> klass_ref \<times> HT_TimestampNs \<times> HT_EventId" where
  "event_header (HT_Event k t i) = (k, t, i)"
| "event_header (Derived b vs) = event_header b"

definition header_event :: "(klass_ref \<Rightarrow> HT_EventKlass) \<Rightarrow> ht_struct \<Rightarrow> Event" where
  "header_event kl ev =
     (case event_header ev of
        (k, t, i) \<Rightarrow>
          Event (Some WK_EventKlass)
            [(''klass_id'', simple_field ''klass_id'' ''uint32_t'' UINT32, Num (ucast (klass_id (kl k)))),
             (''timestamp'', simple_field ''timestamp'' ''uint64_t'' UINT64, Num t),
             (''id'', simple_field ''id'' ''uint64_t'' UINT64, Num i)]
            t)"

text \<open>The event that is handed to the callbacks, and the condition for it.\<close>

definition parsed :: "klass_register \<Rightarrow> (klass_ref \<Rightarrow> HT_EventKlass) \<Rightarrow> ht_struct \<Rightarrow> Event" where
  "parsed reg kl ev =
     (let i = klass_id (kl (event_klass ev)) in
      if i = WK_EventKlass then header_event kl ev
      else case get_klass reg i of
             None \<Rightarrow> header_event kl ev
           | Some k \<Rightarrow> read_as reg (header_event kl ev) (ek_id k) (ek_fields k) ev)"

definition readable :: "klass_register \<Rightarrow> (klass_ref \<Rightarrow> HT_EventKlass) \<Rightarrow> ht_struct \<Rightarrow> bool" where
  "readable reg kl ev \<longleftrightarrow>
     get_klass reg WK_EventKlass = Some base_event_klass \<and>
     (let i = klass_id (kl (event_klass ev)) in
      if i = WK_EventKlass then is_header ev
      else case get_klass reg i of None \<Rightarrow> False | Some k \<Rightarrow> fields_typed reg (ek_fields k) ev)"

section \<open>The bytes after the header\<close>

definition header_bytes :: "HT_Endianness \<Rightarrow> (klass_ref \<Rightarrow> HT_EventKlass) \<Rightarrow> ht_struct \<Rightarrow> byte list" where
  "header_bytes e kl ev =
     (case event_header ev of
        (k, t, i) \<Rightarrow> int_bytes e 4 (unat (klass_id (kl k))) @ int_bytes e 8 (unat t) @ int_bytes e 8 (unat i))"

fun body_bytes :: "HT_Endianness \<Rightarrow> ht_struct \<Rightarrow> byte list" where
  "body_bytes e (HT_Event k t i) = []"
| "body_bytes e (Derived b vs) = body_bytes e b @ concat (map (value_bytes e) vs)"

lemma event_bytes_split: "event_bytes e kl ev = header_bytes e kl ev @ body_bytes e ev"
  by (induction ev rule: plain_event.induct) (simp_all add: header_bytes_def)

lemma body_header [simp]: "is_header ev \<Longrightarrow> body_bytes e ev = []"
  by (cases ev) simp_all

section \<open>Values\<close>

lemma word_of_native:
  assumes "LENGTH('a) = 8 * w" and "n < 256 ^ w" and "8 * w \<le> 64"
  shows "(ucast (native_word e (int_bytes e w n) :: 'a::len word) :: u64) = word_of_nat n"
proof -
  have "unat (native_word e (int_bytes e w n) :: 'a word) = n"
    using unat_native_word [of "int_bytes e w n" e, where 'a = 'a] assms(1,2)
    by (simp add: bytes_value_int_bytes power_mult)
  moreover have "(ucast x :: u64) = word_of_nat (unat x)" for x :: "'a word" by simp
  ultimately show ?thesis by metis
qed

lemma ucast_u32_back [simp]: "(ucast (ucast (x :: u32) :: u64) :: u32) = x"
  by (rule bit_word_eqI) (simp add: bit_simps)

lemma get_klass_id_header: "get_number 4 ''klass_id'' (header_event kl ev) = Some (ucast (klass_id (kl (event_klass ev))))"
proof -
  have "event_klass ev = fst (event_header ev)" by (induction ev rule: plain_event.induct) simp_all
  moreover have "take_bit 32 (ucast x :: u64) = ucast x" for x :: u32
    by (rule bit_eqI) (auto simp: bit_simps dest: bit_imp_le_length)
  ultimately show ?thesis by (simp add: get_number_def header_event_def split: prod.splits)
qed

text \<open>An event that sets the byte order sets it to the one of the stream.\<close>

definition announces :: "HT_Endianness \<Rightarrow> klass_register \<Rightarrow> (klass_ref \<Rightarrow> HT_EventKlass) \<Rightarrow> ht_struct \<Rightarrow> bool" where
  "announces e reg kl ev \<longleftrightarrow>
     (klass_id (kl (event_klass ev)) = WK_EndiannessInfoEventKlass \<longrightarrow>
        get_number 1 ''endianness'' (parsed reg kl ev) = Some (ucast (endianness_code e)))"

lemma endianness_code_back: "endianness_of_code sys (ucast (endianness_code e)) = e"
  by (cases e) (simp_all add: endianness_of_code_def)

text \<open>The events the callbacks see for a sequence of events, and what the register becomes.\<close>

fun parse_trace ::
  "HT_Endianness \<Rightarrow> (klass_ref \<Rightarrow> HT_EventKlass) \<Rightarrow> ht_struct list \<Rightarrow> klass_register \<Rightarrow>
   (Event list \<times> klass_register) option" where
  "parse_trace e kl [] reg = Some ([], reg)"
| "parse_trace e kl (ev # evs) reg =
     (if readable reg kl ev \<and> announces e reg kl ev
      then do { reg' \<leftarrow> handle_register_events (parsed reg kl ev) reg;
                (ps, reg'') \<leftarrow> parse_trace e kl evs reg';
                Some (parsed reg kl ev # ps, reg'') }
      else None)"

lemma parse_trace_append:
  "parse_trace e kl (xs @ ys) reg =
     do { (ps, reg') \<leftarrow> parse_trace e kl xs reg; (qs, reg'') \<leftarrow> parse_trace e kl ys reg'; Some (ps @ qs, reg'') }"
proof (induction xs arbitrary: reg)
  case Nil
  then show ?case by (cases "parse_trace e kl ys reg") (auto split: prod.splits)
next
  case (Cons ev xs)
  show ?case
  proof (cases "handle_register_events (parsed reg kl ev) reg")
    case (Some reg')
    with Cons show ?thesis
      by (cases "parse_trace e kl xs reg'"; cases "parse_trace e kl ys (snd (the (parse_trace e kl xs reg')))")
        (auto split: prod.splits)
  qed simp
qed

text \<open>The class of all events is never changed.\<close>

lemma base_klass_stays:
  assumes "handle_register_events ev reg = Some reg'" and "get_klass reg WK_EventKlass = Some k"
  shows "get_klass reg' WK_EventKlass = Some k"
  using assms
  by (auto simp: handle_register_events_def bind_eq_Some_conv get_klass_def add_klass_def add_klass_field_def
      is_well_known_klass_def map_of_update_entry split: if_splits)

lemma set_value_new:
  assumes "fld_name f \<noteq> ''timestamp''" and "fld_name f \<notin> fst ` set (evt_values ev)"
  shows "set_value f (value_of v) ev =
    Some (Event (evt_klass ev) (evt_values ev @ [field_entry f v]) (evt_timestamp ev))"
  using assms by (simp add: set_value_def insert_value_def has_value_def field_entry_def map_of_eq_None_iff)

text \<open>The strings of an event are such that a stream can deliver them.\<close>

fun clear_value :: "(byte \<Rightarrow> bool) \<Rightarrow> field_value \<Rightarrow> bool" where
  "clear_value clear (String (Some str)) = clear_string clear str"
| "clear_value clear v = True"

fun clear_event :: "(byte \<Rightarrow> bool) \<Rightarrow> ht_struct \<Rightarrow> bool" where
  "clear_event clear (HT_Event k t i) = True"
| "clear_event clear (Derived b vs) \<longleftrightarrow> clear_event clear b \<and> (\<forall>v\<in>set vs. clear_value clear v)"

lemma clear_value_all [simp]: "clear_value (\<lambda>b. True) v"
  by (cases "(\<lambda>b :: byte. True, v)" rule: clear_value.cases) simp_all

lemma clear_value_integer: "clear_value clear (Integer w n)"
  by simp

lemma clear_event_all [simp]: "clear_event (\<lambda>b. True) ev"
  by (induction ev rule: plain_event.induct) simp_all

context byte_stream
begin

lemma read_numeric_ok:
  assumes num: "is_numeric f" and w: "get_sizeof f = Some w" and n: "n < 256 ^ w"
    and h: "holds s (int_bytes e w n @ bs)"
  shows "\<exists>s'. read_numeric sys strm e f s = Some (Some (word_of_nat n), s') \<and> holds s' bs"
proof -
  have cases: "w = 1 \<or> w = 2 \<or> w = 4 \<or> w = 8" and pos: "0 < w"
    using w by (auto simp: get_sizeof_def split: FieldTypeId.splits)
  obtain s' where s': "st_read_data strm w s = Some (Some (int_bytes e w n), s')" "holds s' bs"
    using read_bytes_exact [OF h _ pos] by auto
  have conv: "convert_endianness_8 sys e (native_word sys (int_bytes e 1 n)) = native_word e (int_bytes e 1 n)"
    by (simp add: convert_endianness_8_def native_word_1)
  have val: "w = 1 \<Longrightarrow> (ucast (native_word e (int_bytes e 1 n) :: u8) :: u64) = word_of_nat n"
    "w = 2 \<Longrightarrow> (ucast (native_word e (int_bytes e 2 n) :: u16) :: u64) = word_of_nat n"
    "w = 4 \<Longrightarrow> (ucast (native_word e (int_bytes e 4 n) :: u32) :: u64) = word_of_nat n"
    "w = 8 \<Longrightarrow> (native_word e (int_bytes e 8 n) :: u64) = word_of_nat n"
    using n word_of_native [of 1 n e, where 'a = 8] word_of_native [of 2 n e, where 'a = 16]
      word_of_native [of 4 n e, where 'a = 32] word_of_native [of 8 n e, where 'a = 64] by simp_all
  show ?thesis
    using num w s' conv val
    by (cases "fld_type_id f")
      (simp_all add: read_numeric_def is_numeric_def get_sizeof_def convert_16_native convert_32_native convert_64_native)
qed

text \<open>One field that is not a structure, in either mode.\<close>

lemma read_field_ok:
  assumes "value_typed f v" and "holds s (value_bytes e v @ bs)" and "clear_value clear v"
  shows "\<exists>s'. holds s' bs \<and> read_fields sys strm reg flat e (f # rest) ev base s =
    do { ev \<leftarrow> set_value f (value_of v) ev; read_fields sys strm reg flat e rest ev base s' }"
  using assms
proof (cases v)
  case (Integer w n)
  with assms read_numeric_ok [of f w n s e bs sys] obtain s' where
    "read_numeric sys strm e f s = Some (Some (word_of_nat n), s')" "holds s' bs"
    by (auto simp: value_bytes_def)
  moreover have "fld_type_id f \<noteq> STRUCT" using Integer assms(1) by (auto simp: is_numeric_def)
  ultimately show ?thesis
    using Integer assms(1) by (intro exI [of _ s']) (subst read_fields.simps, simp)
next
  case (String p)
  with assms(1) obtain str where p: "p = Some str" by (cases p) simp_all
  with String assms obtain s' where "read_string strm s = Some (Some str, s')" "holds s' bs"
    using read_string_ok [of s str bs] by (auto simp: value_bytes_def)
  moreover have "\<not> is_numeric f" using String p assms(1) by (auto simp: is_numeric_def)
  ultimately show ?thesis
    using String p assms(1) by (intro exI [of _ s']) (subst read_fields.simps, simp)
qed simp_all

lemma read_values_ok:
  assumes "list_all2 value_typed fs vs" and "distinct (map fld_name fs)"
    and "''timestamp'' \<notin> set (map fld_name fs)" and "set (map fld_name fs) \<inter> fst ` set (evt_values ev) = {}"
    and "holds s (concat (map (value_bytes e) vs) @ bs)" and "\<forall>v\<in>set vs. clear_value clear v"
  shows "\<exists>s'. holds s' bs \<and> read_fields sys strm reg flat e fs ev base s =
    Some (True, Event (evt_klass ev) (evt_values ev @ map2 field_entry fs vs) (evt_timestamp ev), base, s')"
  using assms
proof (induction fs vs arbitrary: ev s rule: list_all2_induct)
  case Nil
  then show ?case by (cases ev) (auto simp: read_fields.simps [of _ _ _ _ _ "[]"])
next
  case (Cons f fs v vs)
  from read_field_ok [OF Cons.hyps(1), of s e "concat (map (value_bytes e) vs) @ bs" sys reg flat fs ev base] Cons.prems
  obtain s' where s': "holds s' (concat (map (value_bytes e) vs) @ bs)" and step:
    "read_fields sys strm reg flat e (f # fs) ev base s =
       do { ev \<leftarrow> set_value f (value_of v) ev; read_fields sys strm reg flat e fs ev base s' }" by auto
  let ?ev = "Event (evt_klass ev) (evt_values ev @ [field_entry f v]) (evt_timestamp ev)"
  have "set_value f (value_of v) ev = Some ?ev"
    using Cons.prems by (intro set_value_new) auto
  moreover obtain s'' where "holds s'' bs" "read_fields sys strm reg flat e fs ?ev base s' =
      Some (True, Event (evt_klass ev) (evt_values ev @ field_entry f v # map2 field_entry fs vs) (evt_timestamp ev), base, s'')"
    using Cons.IH [OF _ _ _ s', of ?ev] Cons.prems by (auto simp: field_entry_def)
  ultimately show ?case using step by auto
qed

text \<open>A structure that is the base of the event, and the fields after it.\<close>

lemma read_after_base:
  assumes "is_base f" and "list_all2 value_typed rest vs" and "distinct (map fld_name (f # rest))"
    and "''timestamp'' \<notin> set (map fld_name (f # rest))" and "holds s (concat (map (value_bytes e) vs) @ bs)"
    and "\<forall>v\<in>set vs. clear_value clear v"
  shows "\<exists>s'. holds s' bs \<and>
    do { ev \<leftarrow> set_value f (Evt (Some sub)) (new_event (Some i)); read_fields sys strm reg False e rest ev base s } =
    Some (True, Event (Some i) ((''base'', f, Evt (Some sub)) # map2 field_entry rest vs) (- 1), base, s')"
proof -
  let ?ev = "Event (Some i) [(''base'', f, Evt (Some sub))] (- 1)"
  have "set_value f (Evt (Some sub)) (new_event (Some i)) = Some ?ev"
    using assms(1,4) by (auto simp: set_value_def insert_value_def has_value_def new_event_def is_base_def)
  moreover have "\<exists>s'. holds s' bs \<and> read_fields sys strm reg False e rest ?ev base s =
      Some (True, Event (Some i) ((''base'', f, Evt (Some sub)) # map2 field_entry rest vs) (- 1), base, s')"
    using read_values_ok [OF assms(2) _ _ _ assms(5,6), of ?ev sys reg False base] assms(1,3,4)
    by (simp add: is_base_def)
  ultimately show ?thesis by simp
qed

lemma read_body_ok:
  assumes "fields_typed reg fs ev" and "holds s (body_bytes e ev @ bs)" and "clear_event clear ev"
  shows "\<exists>s' base'. holds s' bs \<and> read_fields sys strm reg False e fs (new_event (Some i)) (Some base) s =
    Some (True, read_as reg base i fs ev, base', s')"
  using assms
proof (induction ev arbitrary: fs i s bs rule: plain_event.induct)
  case (2 b vs)
  show ?case
  proof (cases fs)
    case Nil
    then show ?thesis using 2 by (auto simp: read_fields.simps [of _ _ _ _ _ "[]"] new_event_def)
  next
    case fs: (Cons f rest)
    show ?thesis
    proof (cases "is_base f")
      case False
      then have "is_header b" "list_all2 value_typed fs vs" "distinct (map fld_name fs)"
        "''timestamp'' \<notin> set (map fld_name fs)" using 2(2) fs by auto
      with read_values_ok [of fs vs "new_event (Some i)" s e bs sys reg False "Some base"] 2(3,4) False fs
      show ?thesis by (auto simp: new_event_def)
    next
      case True
      have typed: "list_all2 value_typed rest vs" "distinct (map fld_name (f # rest))"
        "''timestamp'' \<notin> set (map fld_name (f # rest))" using 2(2) fs True by auto
      have f: "fld_type_id f = STRUCT" "fld_name f = ''base''" "\<not> is_numeric f"
        using True by (auto simp: is_base_def is_numeric_def)
      show ?thesis
      proof (cases "is_header b")
        case header: True
        then have "fld_type_name f = ''HT_Event''" using 2(2) fs True by simp
        with read_after_base [OF True typed, of s e bs base i sys reg "Some (moved_event base)"] 2(3,4) header f fs True
        show ?thesis by (subst read_fields.simps) (auto simp: read_struct_def simp del: list.map set_simps)
      next
        case False
        with 2(2) fs True obtain k where k: "get_klass_by_name reg (fld_type_name f) = Some k"
          "fields_typed reg (ek_fields k) b" "fld_type_name f \<noteq> ''HT_Event''"
          by (auto split: option.splits)
        from 2(1) [OF k(2), of s "concat (map (value_bytes e) vs) @ bs" "ek_id k"] 2(3,4) obtain s1 base1 where
          s1: "holds s1 (concat (map (value_bytes e) vs) @ bs)"
          "read_fields sys strm reg False e (ek_fields k) (new_event (Some (ek_id k))) (Some base) s =
             Some (True, read_as reg base (ek_id k) (ek_fields k) b, base1, s1)" by auto
        with 2(4) read_after_base [OF True typed s1(1), of "read_as reg base (ek_id k) (ek_fields k) b" i sys reg base1]
          f fs True False k
        show ?thesis by (subst read_fields.simps) (auto simp: get_klass_by_name_def read_struct_def simp del: list.map set_simps)
      qed
    qed
  qed
qed simp

lemma read_header_ok:
  assumes "holds s (header_bytes e kl ev @ bs)"
  shows "\<exists>s'. holds s' bs \<and>
    read_fields sys strm reg flat e (ek_fields base_event_klass) (new_event (Some (ek_id base_event_klass))) None s =
    Some (True, header_event kl ev, None, s')"
proof -
  obtain k t i where hdr: "event_header ev = (k, t, i)" by (cases "event_header ev")
  let ?fk = "simple_field ''klass_id'' ''uint32_t'' UINT32" and ?ft = "simple_field ''timestamp'' ''uint64_t'' UINT64"
    and ?fi = "simple_field ''id'' ''uint64_t'' UINT64" and ?n = "unat (klass_id (kl k))"
  have typed: "value_typed ?fk (Integer 4 ?n)" "value_typed ?ft (Integer 8 (unat t))" "value_typed ?fi (Integer 8 (unat i))"
    using unsigned_less [of "klass_id (kl k)"] unsigned_less [of t] unsigned_less [of i]
    by (simp_all add: simple_field_def is_numeric_def get_sizeof_def)
  have fs: "ek_fields base_event_klass = [?fk, ?ft, ?fi]" "ek_id base_event_klass = WK_EventKlass"
    by (simp_all add: base_event_klass_def)
  let ?rd = "read_fields sys strm reg flat e"
  let ?e0 = "new_event (Some WK_EventKlass)"
  have h: "holds s (value_bytes e (Integer 4 ?n) @ value_bytes e (Integer 8 (unat t)) @ value_bytes e (Integer 8 (unat i)) @ bs)"
    using assms by (simp add: header_bytes_def hdr value_bytes_def)
  from read_field_ok [OF typed(1) h clear_value_integer, of sys reg flat "[?ft, ?fi]" ?e0 None] obtain s1 where
    s1: "holds s1 (value_bytes e (Integer 8 (unat t)) @ value_bytes e (Integer 8 (unat i)) @ bs)"
    "?rd [?fk, ?ft, ?fi] ?e0 None s = do { ev \<leftarrow> set_value ?fk (value_of (Integer 4 ?n)) ?e0; ?rd [?ft, ?fi] ev None s1 }"
    by blast
  have r2: "\<exists>s2. holds s2 (value_bytes e (Integer 8 (unat i)) @ bs) \<and>
      ?rd [?ft, ?fi] ev None s1 = do { ev \<leftarrow> set_value ?ft (value_of (Integer 8 (unat t))) ev; ?rd [?fi] ev None s2 }" for ev
    using read_field_ok [OF typed(2) s1(1) clear_value_integer, of sys reg flat "[?fi]" ev None] by blast
  have r3: "\<exists>s3. holds s3 bs \<and>
      ?rd [?fi] ev None s2 = do { ev \<leftarrow> set_value ?fi (value_of (Integer 8 (unat i))) ev; ?rd [] ev None s3 }"
    if "holds s2 (value_bytes e (Integer 8 (unat i)) @ bs)" for ev s2
    using read_field_ok [OF typed(3) that clear_value_integer, of sys reg flat "[]" ev None] by blast
  let ?e1 = "Event (Some WK_EventKlass) [(''klass_id'', ?fk, value_of (Integer 4 ?n))] (- 1)"
  let ?e2 = "Event (Some WK_EventKlass) [(''klass_id'', ?fk, value_of (Integer 4 ?n)), (''timestamp'', ?ft, Num t)] t"
  have v: "set_value ?fk (value_of (Integer 4 ?n)) ?e0 = Some ?e1"
    "set_value ?ft (value_of (Integer 8 (unat t))) ?e1 = Some ?e2"
    "set_value ?fi (value_of (Integer 8 (unat i))) ?e2 = Some (header_event kl ev)"
    by (simp_all add: set_value_def insert_value_def has_value_def new_event_def simple_field_def get_number_def
        header_event_def hdr take_bit_word_eq_self)
  from r2 [of ?e1] obtain s2 where s2: "holds s2 (value_bytes e (Integer 8 (unat i)) @ bs)"
    "?rd [?ft, ?fi] ?e1 None s1 = do { ev \<leftarrow> set_value ?ft (value_of (Integer 8 (unat t))) ?e1; ?rd [?fi] ev None s2 }"
    by blast
  from r3 [OF s2(1), of ?e2] obtain s3 where s3: "holds s3 bs"
    "?rd [?fi] ?e2 None s2 = do { ev \<leftarrow> set_value ?fi (value_of (Integer 8 (unat i))) ?e2; ?rd [] ev None s3 }" by blast
  have "?rd [?fk, ?ft, ?fi] ?e0 None s = ?rd [] (header_event kl ev) None s3"
    by (simp only: s1(2) v bind.bind_lunit s2(2) s3(2))
  then show ?thesis
    unfolding fs using s3(1) by (auto simp: read_fields.simps [of _ _ _ _ _ "[]"])
qed

lemma read_one_ok:
  fixes r :: "('s, 'c) ProtocolReader"
  defines "reg \<equiv> rd_register r"
  assumes ok: "readable reg kl ev" "announces e' reg kl ev" and e: "rd_endianness r = e"
    and same: "klass_id (kl (event_klass ev)) = WK_EndiannessInfoEventKlass \<or> e' = e"
    and h: "holds (rd_stream r) (event_bytes e kl ev @ bs)" and clr: "clear_event clear ev"
  shows "\<exists>s'. holds s' bs \<and> read_one sys strm False callback r =
    do { r \<leftarrow> call_callbacks callback (parsed reg kl ev) (r\<lparr>rd_stream := s', rd_endianness := e'\<rparr>); Some (True, r) }"
proof -
  let ?i = "klass_id (kl (event_klass ev))" and ?hdr = "header_event kl ev"
  from h have "holds (rd_stream r) (header_bytes e kl ev @ body_bytes e ev @ bs)" by (simp add: event_bytes_split)
  from read_header_ok [OF this, of sys reg False] obtain s1 where s1: "holds s1 (body_bytes e ev @ bs)"
    "read_fields sys strm reg False e (ek_fields base_event_klass) (new_event (Some (ek_id base_event_klass))) None
       (rd_stream r) = Some (True, ?hdr, None, s1)" by blast
  have num: "get_number 4 ''klass_id'' ?hdr = Some (ucast ?i)" by (rule get_klass_id_header)
  have base: "get_klass reg WK_EventKlass = Some base_event_klass" using ok(1) by (simp add: readable_def)
  have upd: "r\<lparr>rd_stream := s, rd_endianness := e\<rparr> = r\<lparr>rd_stream := s\<rparr>" for s using e by (cases r) simp
  show ?thesis
  proof (cases "?i = WK_EventKlass")
    case True
    then have "is_header ev" "parsed reg kl ev = ?hdr" using ok(1) by (simp_all add: readable_def parsed_def)
    with s1 num base True e same show ?thesis
      by (intro exI [of _ s1]) (simp add: read_one_def reg_def Let_def well_known_defs upd)
  next
    case False
    with ok(1) obtain k where k: "get_klass reg ?i = Some k" "fields_typed reg (ek_fields k) ev"
      by (auto simp: readable_def split: option.splits)
    then have p: "parsed reg kl ev = read_as reg ?hdr (ek_id k) (ek_fields k) ev"
      using False by (simp add: parsed_def)
    from read_body_ok [OF k(2) s1(1) clr, of sys "ek_id k" ?hdr] obtain s2 base' where s2: "holds s2 bs"
      "read_fields sys strm reg False e (ek_fields k) (new_event (Some (ek_id k))) (Some ?hdr) s1 =
         Some (True, parsed reg kl ev, base', s2)" unfolding p by blast
    have "get_number (Suc 0) ''endianness'' (parsed reg kl ev) = Some (ucast (endianness_code e'))"
      if "?i = WK_EndiannessInfoEventKlass" using ok(2) that by (simp add: announces_def)
    then show ?thesis
      using s1 s2 num base False k(1) e same
      by (intro exI [of _ s2]) (auto simp: read_one_def reg_def Let_def endianness_code_back upd)
  qed
qed

text \<open>At the end of the stream the reader stops.\<close>

lemma read_one_end:
  assumes "get_klass (rd_register r) WK_EventKlass = Some base_event_klass" and "holds (rd_stream r) []"
  shows "\<exists>s'. read_one sys strm flat callback r = Some (False, r\<lparr>rd_stream := s'\<rparr>) \<and> st_stop strm s' \<noteq> None"
proof -
  obtain s' where s': "st_read_data strm 4 (rd_stream r) = Some (None, s')" "st_stop strm s' \<noteq> None"
    using read_data_end [OF assms(2), of 4] by auto
  then have "read_fields sys strm (rd_register r) flat (rd_endianness r) (ek_fields base_event_klass)
      (new_event (Some (ek_id base_event_klass))) None (rd_stream r) =
      Some (False, new_event (Some (ek_id base_event_klass)), None, s')"
    by (subst read_fields.simps)
      (simp add: base_event_klass_def simple_field_def is_numeric_def get_sizeof_def read_numeric_def)
  with assms(1) s'(2) show ?thesis by (intro exI [of _ s']) (simp add: read_one_def)
qed

lemma read_events_ok:
  fixes r :: "('s, 'c) ProtocolReader"
  assumes "parse_trace e kl evs (rd_register r) = Some (ps, reg')" and "run_ops callback ps (rd_client r) = Some c'"
    and "rd_endianness r = e" and "holds (rd_stream r) (concat (map (event_bytes e kl) evs))"
    and "get_klass (rd_register r) WK_EventKlass = Some base_event_klass" and "\<forall>ev\<in>set evs. clear_event clear ev"
  shows "\<exists>s'. read_events sys strm False callback (\<lambda>_. True) n r =
    Some (r\<lparr>rd_register := reg', rd_client := c', rd_stream := s'\<rparr>) \<and> st_stop strm s' \<noteq> None"
  using assms
proof (induction evs arbitrary: n r ps)
  case Nil
  from read_one_end [of r sys False callback] Nil show ?case by (subst read_events.simps) auto
next
  case (Cons ev evs)
  let ?reg = "rd_register r" and ?c = "rd_client r"
  from Cons.prems(1) obtain reg1 ps1 where ok: "readable ?reg kl ev" "announces e ?reg kl ev"
    and reg1: "handle_register_events (parsed ?reg kl ev) ?reg = Some reg1"
    and rest: "parse_trace e kl evs reg1 = Some (ps1, reg')" and ps: "ps = parsed ?reg kl ev # ps1"
    by (auto simp: bind_eq_Some_conv split: if_splits)
  from Cons.prems(2) ps obtain c1 where c1: "callback (parsed ?reg kl ev) ?c = Some c1"
    "run_ops callback ps1 c1 = Some c'" by (auto simp: bind_eq_Some_conv)
  have same: "r\<lparr>rd_stream := s, rd_endianness := e\<rparr> = r\<lparr>rd_stream := s\<rparr>" for s using Cons.prems(3) by (cases r) simp
  from read_one_ok [OF ok Cons.prems(3), of "concat (map (event_bytes e kl) evs)" sys callback] Cons.prems(4,6)
  obtain s1 where s1: "holds s1 (concat (map (event_bytes e kl) evs))"
    "read_one sys strm False callback r =
       do { r \<leftarrow> call_callbacks callback (parsed ?reg kl ev) (r\<lparr>rd_stream := s1\<rparr>); Some (True, r) }"
    by (auto simp: same)
  let ?r = "r\<lparr>rd_stream := s1, rd_register := reg1, rd_client := c1\<rparr>"
  have one: "read_one sys strm False callback r = Some (True, ?r)"
    using s1(2) reg1 c1(1) by (simp add: call_callbacks_def)
  have "get_klass reg1 WK_EventKlass = Some base_event_klass"
    using base_klass_stays [OF reg1 Cons.prems(5)] .
  with Cons.IH [of ?r ps1 "n + 1"] rest c1(2) Cons.prems(3,6) s1(1) obtain s' where
    "read_events sys strm False callback (\<lambda>_. True) (n + 1) ?r =
       Some (?r\<lparr>rd_register := reg', rd_client := c', rd_stream := s'\<rparr>)" "st_stop strm s' \<noteq> None" by auto
  with one show ?case by (subst read_events.simps) auto
qed

end

section \<open>Properties\<close>

text \<open>
  C22. An event of a class the register does not have ends in undefined behaviour: the reader builds an
  event on a null class pointer and asks it for its fields. The documentation of the format says that parsing
  fails then.
\<close>

theorem unknown_class_undefined:
  assumes "file_holds (rd_stream r) (header_bytes (rd_endianness r) kl ev @ bs)"
    and "get_klass (rd_register r) WK_EventKlass = Some base_event_klass"
    and "get_klass (rd_register r) (klass_id (kl (event_klass ev))) = None"
  shows "read_one sys (file_stream files) flat callback r = None"
proof -
  from fs.read_header_ok [where kl = kl, OF assms(1), of sys files "rd_register r" flat] obtain s' where
    "read_fields sys (file_stream files) (rd_register r) flat (rd_endianness r) (ek_fields base_event_klass)
       (new_event (Some (ek_id base_event_klass))) None (rd_stream r) = Some (True, header_event kl ev, None, s')" by blast
  moreover have "klass_id (kl (event_klass ev)) \<noteq> WK_EventKlass" using assms(2,3) by auto
  ultimately show ?thesis
    by (simp add: read_one_def Let_def get_klass_id_header assms(2,3))
qed

theorem unknown_class_undefined_witness:
  "read_one HT_ENDIANNESS_LITTLE (file_stream Map.empty) False (\<lambda>ev c. Some c)
     (new_reader \<lparr>fs_file_name = ''f'', fs_file = Some (le_bytes 4 77 @ le_bytes 8 0 @ le_bytes 8 0, False)\<rparr> ()) = None"
proof (rule unknown_class_undefined [where kl = "\<lambda>_. \<lparr>type_info = None, klass_id = 77\<rparr>" and ev = "HT_Event ''X'' 0 0" and bs = "[]"])
qed (simp_all add: new_reader_def file_holds_open header_bytes_def int_bytes_def KlassRegister_def
    add_klass_def base_event_klass_def endianness_event_klass_def klass_info_event_klass_def klass_field_info_event_klass_def
    get_klass_def well_known_defs)

end
