(* ===== verification/Trace_Metadata.thy ===== *)
theory Trace_Metadata
  imports Trace_Reading Registry
begin

text \<open>
  The description of the event classes at the start of a trace, and what the parser learns from it: after
  the metadata the register of the parser has every class of the library with its fields, and every
  event that conforms to its declaration can be read.
\<close>

section \<open>The classes the metadata is written in\<close>

definition core_known :: "klass_register \<Rightarrow> (klass_ref \<Rightarrow> HT_EventKlass) \<Rightarrow> bool" where
  "core_known reg kl \<longleftrightarrow>
     get_klass reg WK_EventKlass = Some base_event_klass \<and>
     get_klass reg WK_EventKlassInfoEventKlass = Some klass_info_event_klass \<and>
     get_klass reg WK_EventKlassFieldInfoEventKlass = Some klass_field_info_event_klass \<and>
     klass_id (kl ''HT_EventKlassInfoEvent'') = WK_EventKlassInfoEventKlass \<and>
     klass_id (kl ''HT_EventKlassFieldInfoEvent'') = WK_EventKlassFieldInfoEventKlass"

definition no_nul :: "string \<Rightarrow> bool" where
  "no_nul str \<longleftrightarrow> CHR 0x00 \<notin> set str"

text \<open>What the parser makes of a field of the description.\<close>

definition field_of :: "klass_register \<Rightarrow> MKCREFLECT_FieldInfo \<Rightarrow> EventKlassField" where
  "field_of reg info =
     \<lparr>fld_name = fi_field_name info, fld_type_name = fi_field_type info,
      fld_type_id = the (get_type_id (word_of_nat (fi_size info)) (field_data_type info)),
      fld_klass = (if field_data_type info = mkcreflect_code MKCREFLECT_TYPES_STRUCT
                   then map_option ek_id (get_klass_by_name reg (fi_field_type info)) else None)\<rparr>"

definition info_ok :: "MKCREFLECT_FieldInfo \<Rightarrow> bool" where
  "info_ok info \<longleftrightarrow>
     no_nul (fi_field_name info) \<and> no_nul (fi_field_type info) \<and> fi_size info < 2 ^ 64 \<and>
     get_type_id (word_of_nat (fi_size info)) (field_data_type info) \<noteq> None"

lemma u32_num: "(ucast (take_bit 32 (ucast (x :: u32) :: u64)) :: u32) = x"
  by (rule bit_word_eqI) (simp add: bit_simps)

lemma u8_num: "(ucast (take_bit 8 (ucast (x :: u8) :: u64)) :: u8) = x"
  by (rule bit_word_eqI) (simp add: bit_simps)

lemma u64_num: "take_bit 64 (x :: u64) = x"
  by (simp add: take_bit_word_eq_self)

lemma klass_info_read:
  assumes "core_known reg kl" and "no_nul (ti_name ti)"
  shows "readable reg kl (set_header t i (klass_info_template kl k ti))"
    and "announces e reg kl (set_header t i (klass_info_template kl k ti))"
    and "handle_register_events (parsed reg kl (set_header t i (klass_info_template kl k ti))) reg =
      Some (add_klass \<lparr>ek_name = ti_name ti, ek_id = klass_id (kl k), ek_fields = []\<rparr> reg)"
  using assms unsigned_less [of "klass_id (kl k)"]
  by (simp_all add: core_known_def readable_def announces_def parsed_def klass_info_template_def well_known_defs
      klass_info_event_klass_def simple_field_def is_base_def is_numeric_def get_sizeof_def no_nul_def
      handle_register_events_def field_entry_def get_number_def get_string_def u32_num)

lemma field_info_read:
  assumes "core_known reg kl" and "info_ok info"
  shows "readable reg kl (set_header t i (field_info_template kl k info))"
    and "announces e reg kl (set_header t i (field_info_template kl k info))"
    and "handle_register_events (parsed reg kl (set_header t i (field_info_template kl k info))) reg =
      (if is_well_known_klass (klass_id (kl k)) then Some reg else add_klass_field (klass_id (kl k)) (field_of reg info) reg)"
  using assms unsigned_less [of "klass_id (kl k)"] unsigned_less [of "field_data_type info"]
  by (auto simp: core_known_def readable_def announces_def parsed_def field_info_template_def well_known_defs
      klass_field_info_event_klass_def simple_field_def is_base_def is_numeric_def get_sizeof_def no_nul_def
      info_ok_def field_of_def
      handle_register_events_def field_entry_def get_number_def get_string_def u32_num u8_num u64_num)

section \<open>Learning a class\<close>

definition learn_field :: "HT_EventKlassId \<Rightarrow> MKCREFLECT_FieldInfo \<Rightarrow> klass_register \<Rightarrow> klass_register" where
  "learn_field i info reg =
     (if is_well_known_klass i then reg
      else map (\<lambda>(j, k). (j, if j = i then add_field (field_of reg info) k else k)) reg)"

definition learn_klass :: "(klass_ref \<Rightarrow> HT_EventKlass) \<Rightarrow> klass_ref \<Rightarrow> klass_register \<Rightarrow> klass_register" where
  "learn_klass kl k reg =
     (case type_info (kl k) of
        None \<Rightarrow> reg
      | Some ti \<Rightarrow>
          fold (learn_field (klass_id (kl k))) (ti_fields ti)
            (add_klass \<lparr>ek_name = ti_name ti, ek_id = klass_id (kl k), ek_fields = []\<rparr> reg))"

lemma core_known_add_klass: "core_known reg kl \<Longrightarrow> core_known (add_klass k reg) kl"
  by (auto simp: core_known_def add_klass_def get_klass_def)

lemma core_known_learn_field: "core_known reg kl \<Longrightarrow> core_known (learn_field i info reg) kl"
  by (auto simp: core_known_def learn_field_def get_klass_def map_of_update_entry is_well_known_klass_def)

lemma core_known_learn_fields: "core_known reg kl \<Longrightarrow> core_known (fold (learn_field i) infos reg) kl"
  by (induction infos arbitrary: reg) (simp_all add: core_known_learn_field)

lemma map_of_learn_field: "(map_of (learn_field i info reg) j = None) = (map_of reg j = None)"
  by (simp add: learn_field_def map_of_update_entry)

lemma set_header_twice [simp]: "set_header t i (set_header t' i' ev) = set_header t i ev"
  by (induction ev rule: plain_event.induct) simp_all

lemma parse_fields:
  assumes "core_known reg kl" and "\<forall>info\<in>set infos. info_ok info" and "map_of reg (klass_id (kl k)) \<noteq> None"
  shows "\<exists>ps. parse_trace e kl (stamp clk t i (map (field_info_template kl k) infos)) reg =
    Some (ps, fold (learn_field (klass_id (kl k))) infos reg)"
  using assms
proof (induction infos arbitrary: reg t i)
  case (Cons info infos)
  let ?i = "klass_id (kl k)" and ?ev = "set_header (clk t) i (field_info_template kl k info)"
  have "info_ok info" using Cons.prems(2) by simp
  note read = field_info_read [OF Cons.prems(1) this, where t = "clk t" and i = i and k = k]
  have "handle_register_events (parsed reg kl ?ev) reg = Some (learn_field ?i info reg)"
    using read(3) Cons.prems(3) by (auto simp: learn_field_def add_klass_field_def)
  moreover obtain ps where "parse_trace e kl (stamp clk (t + 1) (i + 1) (map (field_info_template kl k) infos))
      (learn_field ?i info reg) = Some (ps, fold (learn_field ?i) infos (learn_field ?i info reg))"
    using Cons.IH [OF core_known_learn_field [OF Cons.prems(1)], of ?i info "t + 1" "i + 1"] Cons.prems
    by (auto simp: map_of_learn_field)
  ultimately show ?case using read(1,2) by simp
qed simp

definition klass_ok :: "(klass_ref \<Rightarrow> HT_EventKlass) \<Rightarrow> klass_ref \<Rightarrow> bool" where
  "klass_ok kl k \<longleftrightarrow>
     (\<exists>ti. type_info (kl k) = Some ti \<and> no_nul (ti_name ti) \<and> (\<forall>info\<in>set (ti_fields ti). info_ok info))"

lemma parse_klass:
  assumes "core_known reg kl" and "klass_ok kl k"
  shows "\<exists>ps. parse_trace e kl (stamp clk t i (klass_templates kl k)) reg = Some (ps, learn_klass kl k reg)"
proof -
  from assms(2) obtain ti where ti: "type_info (kl k) = Some ti" "no_nul (ti_name ti)"
    "\<forall>info\<in>set (ti_fields ti). info_ok info" by (auto simp: klass_ok_def)
  let ?reg = "add_klass \<lparr>ek_name = ti_name ti, ek_id = klass_id (kl k), ek_fields = []\<rparr> reg"
  have "map_of ?reg (klass_id (kl k)) \<noteq> None" by (auto simp: add_klass_def map_add_def)
  from parse_fields [OF core_known_add_klass [OF assms(1)] ti(3) this, of e clk "t + 1" "i + 1"] obtain ps where
    "parse_trace e kl (stamp clk (t + 1) (i + 1) (map (field_info_template kl k) (ti_fields ti))) ?reg =
       Some (ps, learn_klass kl k reg)" by (auto simp: learn_klass_def ti)
  with klass_info_read [OF assms(1) ti(2), where t = "clk t" and i = i and k = k] show ?thesis by (simp add: klass_templates_def ti)
qed

lemma core_known_learn_klass: "core_known reg kl \<Longrightarrow> core_known (learn_klass kl k reg) kl"
  by (simp add: learn_klass_def core_known_learn_fields core_known_add_klass split: option.split)

lemma stamp_append: "stamp clk t i (xs @ ys) = stamp clk t i xs @ stamp clk (t + length xs) (i + word_of_nat (length xs)) ys"
  by (induction xs arbitrary: t i) (simp_all add: algebra_simps)

lemma parse_klasses:
  assumes "core_known reg kl" and "\<forall>k\<in>set ks. klass_ok kl k"
  shows "\<exists>ps. parse_trace e kl (stamp clk t i (concat (map (klass_templates kl) ks))) reg =
    Some (ps, fold (learn_klass kl) ks reg)"
  using assms
proof (induction ks arbitrary: reg t i)
  case (Cons k ks)
  let ?n = "length (klass_templates kl k)"
  obtain ps where ps: "parse_trace e kl (stamp clk t i (klass_templates kl k)) reg = Some (ps, learn_klass kl k reg)"
    using parse_klass [OF Cons.prems(1), of k e clk t i] Cons.prems(2) by auto
  obtain qs where "parse_trace e kl (stamp clk (t + ?n) (i + word_of_nat ?n) (concat (map (klass_templates kl) ks)))
      (learn_klass kl k reg) = Some (qs, fold (learn_klass kl) ks (learn_klass kl k reg))"
    using Cons.IH [OF core_known_learn_klass [OF Cons.prems(1)], of "t + ?n" "i + word_of_nat ?n" k] Cons.prems(2)
    by auto
  with ps show ?case by (simp add: stamp_append parse_trace_append)
qed simp

section \<open>The register after the metadata\<close>

definition reg_wf :: "klass_register \<Rightarrow> bool" where
  "reg_wf reg \<longleftrightarrow> distinct (map fst reg) \<and> distinct (map (\<lambda>(i, k). ek_name k) reg) \<and> (\<forall>(i, k)\<in>set reg. ek_id k = i)"

lemma reg_wf_lookup:
  assumes "reg_wf reg" and "(i, k) \<in> set reg"
  shows "get_klass reg i = Some k" and "get_klass_id reg (ek_name k) = i" and "get_klass_by_name reg (ek_name k) = Some k"
proof -
  show i: "get_klass reg i = Some k" using assms by (simp add: get_klass_def reg_wf_def)
  obtain j l where f: "List.find (\<lambda>(i, l). ek_name l = ek_name k) reg = Some (j, l)"
    using assms(2) by (cases "List.find (\<lambda>(i, l). ek_name l = ek_name k) reg") (auto simp: find_None_iff)
  then have "(j, l) \<in> set reg" "ek_name l = ek_name k" by (auto simp: find_Some_iff in_set_conv_nth)
  then have "(j, l) = (i, k)"
    using assms by (auto simp: reg_wf_def distinct_map inj_on_def)
  with f assms show "get_klass_id reg (ek_name k) = i" by (auto simp: get_klass_id_def reg_wf_def)
  with i show "get_klass_by_name reg (ek_name k) = Some k" by (simp add: get_klass_by_name_def)
qed

lemma find_append: "List.find P (xs @ ys) = (case List.find P xs of None \<Rightarrow> List.find P ys | Some x \<Rightarrow> Some x)"
  by (induction xs) simp_all

text \<open>Replacing the fields of the last class does not change what a search by name finds.\<close>

lemma field_of_last:
  assumes "ek_name k' = ek_name k" and "ek_id k' = ek_id k"
  shows "field_of (reg @ [(i, k')]) = field_of (reg @ [(i, k)])"
proof -
  have "get_klass_id (reg @ [(i, k')]) name = get_klass_id (reg @ [(i, k)]) name" for name
    using assms by (simp add: get_klass_id_def find_append split: option.splits)
  then have "map_option ek_id (get_klass_by_name (reg @ [(i, k')]) name) =
      map_option ek_id (get_klass_by_name (reg @ [(i, k)]) name)" for name
    using assms by (simp add: get_klass_by_name_def get_klass_def map_add_def split: option.splits)
  then show ?thesis by (intro ext) (simp add: field_of_def)
qed

lemma learn_fields_new:
  assumes "map_of reg i = None" and "\<not> is_well_known_klass i" and "distinct (map fi_field_name infos)"
    and "set (map fi_field_name infos) \<inter> set (map fld_name (ek_fields k)) = {}"
  shows "fold (learn_field i) infos (reg @ [(i, k)]) =
    reg @ [(i, k\<lparr>ek_fields := ek_fields k @ map (field_of (reg @ [(i, k)])) infos\<rparr>)]"
  using assms(3,4)
proof (induction infos arbitrary: k)
  case (Cons info infos)
  let ?f = "field_of (reg @ [(i, k)]) info"
  let ?k = "k\<lparr>ek_fields := ek_fields k @ [?f]\<rparr>"
  have name: "fld_name ?f = fi_field_name info" by (simp add: field_of_def)
  have "map (\<lambda>(j, l). (j, if j = i then add_field ?f l else l)) reg = reg"
    using assms(1) by (intro map_idI) (auto simp: map_of_eq_None_iff image_iff)
  then have "learn_field i info (reg @ [(i, k)]) = reg @ [(i, ?k)]"
    using assms(2) Cons.prems(2) name by (auto simp: learn_field_def add_field_def)
  with Cons.IH [of ?k] Cons.prems name field_of_last [of ?k k reg i] show ?case by auto
qed simp

definition fields_match :: "MKCREFLECT_FieldInfo list \<Rightarrow> EventKlassField list \<Rightarrow> bool" where
  "fields_match infos fs \<longleftrightarrow>
     list_all2 (\<lambda>info f. fld_name f = fi_field_name info \<and> fld_type_name f = fi_field_type info \<and>
       get_type_id (word_of_nat (fi_size info)) (field_data_type info) = Some (fld_type_id f)) infos fs"

text \<open>The entry of a class: its name, its identifier and its fields are those of its declaration.\<close>

definition describes :: "(klass_ref \<Rightarrow> HT_EventKlass) \<Rightarrow> klass_ref \<Rightarrow> HT_EventKlassId \<times> EventKlass \<Rightarrow> bool" where
  "describes kl k x \<longleftrightarrow>
     (\<exists>ti. type_info (kl k) = Some ti \<and> fst x = klass_id (kl k) \<and> ek_id (snd x) = klass_id (kl k) \<and>
        ek_name (snd x) = k \<and> fields_match (ti_fields ti) (ek_fields (snd x)))"

text \<open>A class with different field names, none of them \<^verbatim>\<open>timestamp\<close>, that is known under the name of its type.\<close>

definition klass_proper :: "(klass_ref \<Rightarrow> HT_EventKlass) \<Rightarrow> klass_ref \<Rightarrow> bool" where
  "klass_proper kl k \<longleftrightarrow>
     klass_ok kl k \<and> (\<exists>ti. type_info (kl k) = Some ti \<and> ti_name ti = k \<and> distinct (map fi_field_name (ti_fields ti)) \<and>
        ''timestamp'' \<notin> set (map fi_field_name (ti_fields ti)))"

lemma learn_klass_new:
  assumes "klass_proper kl k" and "map_of reg (klass_id (kl k)) = None" and "core_known reg kl"
  shows "\<exists>x. learn_klass kl k reg = reg @ [x] \<and> describes kl k x"
proof -
  let ?i = "klass_id (kl k)"
  from assms(1) obtain ti where ti: "type_info (kl k) = Some ti" "ti_name ti = k"
    "distinct (map fi_field_name (ti_fields ti))" "\<forall>info\<in>set (ti_fields ti). info_ok info"
    by (auto simp: klass_proper_def klass_ok_def)
  let ?k = "\<lparr>ek_name = k, ek_id = ?i, ek_fields = []\<rparr>"
  let ?fs = "map (field_of (reg @ [(?i, ?k)])) (ti_fields ti)"
  have "\<not> is_well_known_klass ?i"
    using assms(2,3) by (auto simp: core_known_def is_well_known_klass_def get_klass_def)
  from learn_fields_new [OF assms(2) this ti(3), of ?k]
  have "learn_klass kl k reg = reg @ [(?i, ?k\<lparr>ek_fields := ?fs\<rparr>)]"
    using assms(2) by (simp add: learn_klass_def ti add_klass_def)
  moreover have "fields_match (ti_fields ti) ?fs"
    using ti(4) by (auto simp: fields_match_def list_all2_map2 list_all2_same field_of_def info_ok_def)
  ultimately show ?thesis by (auto simp: describes_def ti)
qed

lemma learn_klasses_new:
  assumes "\<forall>k\<in>set ks. klass_proper kl k" and "core_known reg kl" and "reg_wf reg"
    and "distinct ks" and "distinct (map (\<lambda>k. klass_id (kl k)) ks)"
    and "\<forall>k\<in>set ks. klass_id (kl k) \<notin> set (map fst reg) \<and> k \<notin> set (map (\<lambda>(i, k). ek_name k) reg)"
  shows "\<exists>xs. fold (learn_klass kl) ks reg = reg @ xs \<and> list_all2 (describes kl) ks xs \<and> reg_wf (reg @ xs)"
  using assms
proof (induction ks arbitrary: reg)
  case (Cons k ks)
  have "map_of reg (klass_id (kl k)) = None" using Cons.prems(6) by (simp add: map_of_eq_None_iff)
  with learn_klass_new [OF _ this Cons.prems(2)] Cons.prems(1) obtain x where
    x: "learn_klass kl k reg = reg @ [x]" "describes kl k x" by auto
  have wf: "reg_wf (reg @ [x])"
    using Cons.prems(3,6) x(2) by (cases x) (auto simp: reg_wf_def describes_def)
  have id: "klass_id (kl l) \<noteq> klass_id (kl k)" if "l \<in> set ks" for l
    using Cons.prems(5) that by (auto simp: image_iff)
  have fresh: "\<forall>l\<in>set ks. klass_id (kl l) \<notin> set (map fst (reg @ [x])) \<and> l \<notin> set (map (\<lambda>(i, k). ek_name k) (reg @ [x]))"
    using Cons.prems(4,6) x(2) id by (cases x) (auto simp: describes_def)
  have "\<exists>xs. fold (learn_klass kl) ks (reg @ [x]) = (reg @ [x]) @ xs \<and> list_all2 (describes kl) ks xs \<and>
      reg_wf ((reg @ [x]) @ xs)"
    using core_known_learn_klass [OF Cons.prems(2), of k] Cons.prems x(1) wf fresh by (intro Cons.IH) simp_all
  then obtain xs where "fold (learn_klass kl) ks (reg @ [x]) = (reg @ [x]) @ xs" "list_all2 (describes kl) ks xs"
    "reg_wf ((reg @ [x]) @ xs)" by blast
  with x show ?case by (intro exI [of _ "x # xs"]) simp
qed simp

section \<open>Events that conform to their declaration\<close>

fun value_conforms :: "MKCREFLECT_FieldInfo \<Rightarrow> field_value \<Rightarrow> bool" where
  "value_conforms info (Integer w n) \<longleftrightarrow> fi_data_type info = MKCREFLECT_TYPES_INTEGER \<and> fi_size info = w \<and> n < 256 ^ w"
| "value_conforms info (String (Some str)) \<longleftrightarrow> fi_data_type info = MKCREFLECT_TYPES_STRING \<and> no_nul str"
| "value_conforms info v \<longleftrightarrow> False"

text \<open>An object of the type \<open>name\<close>, a class of the set \<open>K\<close> or \<^verbatim>\<open>HT_Event\<close> itself.\<close>

fun conforms :: "(klass_ref \<Rightarrow> HT_EventKlass) \<Rightarrow> klass_ref set \<Rightarrow> klass_ref \<Rightarrow> ht_struct \<Rightarrow> bool" where
  "conforms kl K name (HT_Event k t i) \<longleftrightarrow> name = ''HT_Event''"
| "conforms kl K name (Derived b vs) \<longleftrightarrow>
     name \<in> K \<and>
     (case type_info (kl name) of
        None \<Rightarrow> False
      | Some ti \<Rightarrow>
          (case ti_fields ti of
             [] \<Rightarrow> False
           | f # infos \<Rightarrow>
               fi_field_name f = ''base'' \<and> fi_data_type f = MKCREFLECT_TYPES_STRUCT \<and>
               conforms kl K (fi_field_type f) b \<and> list_all2 value_conforms infos vs))"

lemma get_type_id_integer:
  assumes "get_type_id (word_of_nat w) (field_data_type info) = Some t" and "fi_data_type info = MKCREFLECT_TYPES_INTEGER"
    and "w < 2 ^ 64" and "fld_type_id f = t"
  shows "is_numeric f \<and> get_sizeof f = Some w"
proof -
  have unat: "unat (word_of_nat n :: u64) = n" if "n < 2 ^ 64" for n using that by (simp add: unat_of_nat)
  have eq: "(word_of_nat w :: u64) = word_of_nat n \<longleftrightarrow> w = n" if "n < 2 ^ 64" for n
    using unat [OF assms(3)] unat [OF that] by metis
  have "(word_of_nat w :: u64) = 1 \<longleftrightarrow> w = 1" "(word_of_nat w :: u64) = 2 \<longleftrightarrow> w = 2"
    "(word_of_nat w :: u64) = 4 \<longleftrightarrow> w = 4" "(word_of_nat w :: u64) = 8 \<longleftrightarrow> w = 8"
    using eq [of 1] eq [of 2] eq [of 4] eq [of 8] by simp_all
  with assms(1,2,4) show ?thesis
    by (simp add: get_type_id_def field_data_type_def HT_MKCREFLECT_TYPES_EXT_UNSIGNED_INTEGER_def is_numeric_def
        get_sizeof_def split: if_splits)
qed

lemma get_type_id_other:
  assumes "get_type_id n (field_data_type info) = Some t"
  shows "fi_data_type info = MKCREFLECT_TYPES_STRING \<Longrightarrow> t = STRING"
    and "fi_data_type info = MKCREFLECT_TYPES_STRUCT \<Longrightarrow> t = STRUCT"
  using assms by (simp_all add: get_type_id_def field_data_type_def HT_MKCREFLECT_TYPES_EXT_UNSIGNED_INTEGER_def)

lemma value_conforms_typed:
  assumes "value_conforms info v" and "info_ok info"
    and "get_type_id (word_of_nat (fi_size info)) (field_data_type info) = Some (fld_type_id f)"
  shows "value_typed f v"
  using assms get_type_id_integer [OF assms(3)] get_type_id_other [OF assms(3)]
  by (cases "(info, v)" rule: value_conforms.cases) (auto simp: info_ok_def no_nul_def)

lemma values_conform_typed:
  assumes "list_all2 value_conforms infos vs" and "fields_match infos fs" and "\<forall>info\<in>set infos. info_ok info"
  shows "list_all2 value_typed fs vs"
  using assms
proof (induction infos vs arbitrary: fs rule: list_all2_induct)
  case (Cons info infos v vs)
  then show ?case by (cases fs) (auto simp: fields_match_def intro: value_conforms_typed)
qed (simp add: fields_match_def)

lemma fields_match_names: "fields_match infos fs \<Longrightarrow> map fld_name fs = map fi_field_name infos"
  unfolding fields_match_def by (induction rule: list_all2_induct) simp_all

lemma conforms_entry:
  assumes "conforms kl K name (Derived b vs)" and "klass_proper kl name" and "describes kl name x"
  obtains f fs where "ek_fields (snd x) = f # fs" and "is_base f" and "list_all2 value_typed fs vs"
    and "distinct (map fld_name (f # fs))" and "''timestamp'' \<notin> set (map fld_name (f # fs))"
    and "conforms kl K (fld_type_name f) b"
proof -
  from assms(1) obtain ti f0 infos where ti: "type_info (kl name) = Some ti" "ti_fields ti = f0 # infos"
    and f0: "fi_field_name f0 = ''base''" "fi_data_type f0 = MKCREFLECT_TYPES_STRUCT" "conforms kl K (fi_field_type f0) b"
    and vs: "list_all2 value_conforms infos vs" by (auto split: option.splits list.splits)
  from assms(3) ti have "fields_match (f0 # infos) (ek_fields (snd x))" by (simp add: describes_def)
  then obtain f fs where fs: "ek_fields (snd x) = f # fs" "fields_match infos fs" "fld_name f = fi_field_name f0"
    "fld_type_name f = fi_field_type f0"
    "get_type_id (word_of_nat (fi_size f0)) (field_data_type f0) = Some (fld_type_id f)"
    by (auto simp: fields_match_def list_all2_Cons1)
  have "is_base f" using fs f0 get_type_id_other(2) [OF fs(5)] by (simp add: is_base_def)
  moreover have "\<forall>info\<in>set infos. info_ok info" using assms(2) ti by (auto simp: klass_proper_def klass_ok_def)
  then have "list_all2 value_typed fs vs" using vs fs(2) by (intro values_conform_typed)
  moreover have "map fld_name (f # fs) = map fi_field_name (ti_fields ti)"
    using fields_match_names [OF fs(2)] fs(3) ti(2) by simp
  ultimately show thesis
    using that [of f fs] assms(2) fs f0 ti(1) by (auto simp: klass_proper_def)
qed

lemma conforms_fields_typed:
  assumes "conforms kl K name (Derived b vs)" and "\<forall>k\<in>K. \<exists>x\<in>set reg. describes kl k x" and "reg_wf reg"
    and "\<forall>k\<in>K. klass_proper kl k" and "''HT_Event'' \<notin> K" and "describes kl name x"
  shows "fields_typed reg (ek_fields (snd x)) (Derived b vs)"
  using assms(1,6)
proof (induction b arbitrary: name x vs rule: plain_event.induct)
  case (1 k t i)
  then have "klass_proper kl name" using assms(4) by simp
  from conforms_entry [OF 1(1) this 1(2)] obtain f fs where "ek_fields (snd x) = f # fs" "is_base f"
    "list_all2 value_typed fs vs" "distinct (map fld_name (f # fs))" "''timestamp'' \<notin> set (map fld_name (f # fs))"
    "conforms kl K (fld_type_name f) (HT_Event k t i)" .
  then show ?case by simp
next
  case (2 b us)
  then have "klass_proper kl name" using assms(4) by simp
  from conforms_entry [OF 2(2) this 2(3)] obtain f fs where fs: "ek_fields (snd x) = f # fs" "is_base f"
    "list_all2 value_typed fs vs" "distinct (map fld_name (f # fs))" "''timestamp'' \<notin> set (map fld_name (f # fs))"
    and base: "conforms kl K (fld_type_name f) (Derived b us)" .
  from base have "fld_type_name f \<in> K" by simp
  with assms(2) obtain i k where y: "(i, k) \<in> set reg" "describes kl (fld_type_name f) (i, k)" by fastforce
  then have "get_klass_by_name reg (fld_type_name f) = Some k"
    using reg_wf_lookup(3) [OF assms(3) y(1)] by (auto simp: describes_def)
  moreover have "fields_typed reg (ek_fields k) (Derived b us)" using 2(1) [OF base y(2)] by simp
  moreover have "fld_type_name f \<noteq> ''HT_Event''" using \<open>fld_type_name f \<in> K\<close> assms(5) by auto
  ultimately show ?case using fs by simp
qed

section \<open>A trace\<close>

definition core_klasses :: "klass_ref list" where
  "core_klasses = [''HT_EndiannessInfoEvent'', ''HT_Event'', ''HT_EventKlassInfoEvent'', ''HT_EventKlassFieldInfoEvent'']"

text \<open>
  The register of a library that was initialised: the four classes of the format first, as \<^verbatim>\<open>ht_init\<close>
  registers them, then the other classes, whose declarations the parser can represent.
\<close>

definition initialised :: "('w, 's) reg_scheme \<Rightarrow> klass_ref list \<Rightarrow> bool" where
  "initialised s ks \<longleftrightarrow>
     registered s = core_klasses @ ks \<and> klass_ids_ok s \<and>
     type_info (klasses s ''HT_EndiannessInfoEvent'') =
       Some (mkcreflect_type_info ''HT_EndiannessInfoEvent'' HT_EndiannessInfoEvent_decl) \<and>
     (\<forall>k\<in>set core_klasses. klass_ok (klasses s) k) \<and> (\<forall>k\<in>set ks. klass_proper (klasses s) k)"

text \<open>The parser adds the base to the class of the byte order, the only one of the four it does not protect.\<close>

definition core_register :: klass_register where
  "core_register =
     [(WK_EventKlass, base_event_klass),
      (WK_EndiannessInfoEventKlass,
       endianness_event_klass\<lparr>ek_fields := ek_fields endianness_event_klass @
         [\<lparr>fld_name = ''base'', fld_type_name = ''HT_Event'', fld_type_id = STRUCT, fld_klass = Some WK_EventKlass\<rparr>]\<rparr>),
      (WK_EventKlassInfoEventKlass, klass_info_event_klass),
      (WK_EventKlassFieldInfoEventKlass, klass_field_info_event_klass)]"

lemma KlassRegister_eq:
  "KlassRegister =
     [(WK_EventKlass, base_event_klass), (WK_EndiannessInfoEventKlass, endianness_event_klass),
      (WK_EventKlassInfoEventKlass, klass_info_event_klass),
      (WK_EventKlassFieldInfoEventKlass, klass_field_info_event_klass)]"
  by (simp add: KlassRegister_def add_klass_def base_event_klass_def endianness_event_klass_def klass_info_event_klass_def
      klass_field_info_event_klass_def well_known_defs)

lemma initialised_ids:
  assumes "initialised s ks"
  shows "klass_id (klasses s ''HT_EndiannessInfoEvent'') = 0" and "klass_id (klasses s ''HT_Event'') = 1"
    and "klass_id (klasses s ''HT_EventKlassInfoEvent'') = 2" and "klass_id (klasses s ''HT_EventKlassFieldInfoEvent'') = 3"
    and "distinct ks" and "set ks \<inter> set core_klasses = {}"
    and "distinct (map (\<lambda>k. klass_id (klasses s k)) ks)" and "k \<in> set ks \<Longrightarrow> 4 \<le> unat (klass_id (klasses s k))"
proof -
  let ?id = "\<lambda>k. klass_id (klasses s k)" and ?r = "core_klasses @ ks"
  have id: "?id (?r ! i) = word_of_nat i" and len: "length ?r < 2 ^ 32" if "i < length ?r" for i
    using assms that by (auto simp: initialised_def klass_ids_ok_def)
  have unat: "unat (?id (?r ! i)) = i" if "i < length ?r" for i
    using id [OF that] len [of 0] that by (simp add: unat_of_nat core_klasses_def)
  show "?id ''HT_EndiannessInfoEvent'' = 0" "?id ''HT_Event'' = 1" "?id ''HT_EventKlassInfoEvent'' = 2"
    "?id ''HT_EventKlassFieldInfoEvent'' = 3"
    using id [of 0] id [of 1] id [of 2] id [of 3] by (simp_all add: core_klasses_def)
  show "distinct ks" "set ks \<inter> set core_klasses = {}"
    using assms by (auto simp: initialised_def klass_ids_ok_def)
  have nth: "unat (?id (ks ! j)) = j + 4" if "j < length ks" for j
    using unat [of "j + 4"] that by (simp add: core_klasses_def nth_append)
  then show "distinct (map ?id ks)"
    by (simp add: distinct_conv_nth) (metis add_right_cancel)
  show "4 \<le> unat (?id k)" if "k \<in> set ks" using that nth by (auto simp: in_set_conv_nth)
qed

lemma learn_core:
  assumes "initialised s ks"
  shows "fold (learn_klass (klasses s)) core_klasses KlassRegister = core_register"
proof -
  let ?kl = "klasses s"
  note id = initialised_ids(1-4) [OF assms]
  have ti: "type_info (?kl ''HT_EndiannessInfoEvent'') =
      Some (mkcreflect_type_info ''HT_EndiannessInfoEvent'' HT_EndiannessInfoEvent_decl)"
    using assms by (simp add: initialised_def)
  have "learn_klass ?kl ''HT_EndiannessInfoEvent'' KlassRegister = core_register"
    by (simp add: learn_klass_def ti id mkcreflect_type_info_def HT_EndiannessInfoEvent_decl_def mkcreflect_field_info_def
        base_decl_def integer_decl_def learn_field_def is_well_known_klass_def KlassRegister_eq add_klass_def add_field_def
        field_of_def field_data_type_def get_type_id_def HT_MKCREFLECT_TYPES_EXT_UNSIGNED_INTEGER_def Let_def
        get_klass_by_name_def get_klass_id_def get_klass_def core_register_def well_known_defs
        base_event_klass_def endianness_event_klass_def klass_info_event_klass_def klass_field_info_event_klass_def
        simple_field_def)
  moreover have "learn_klass ?kl k reg = reg" if "is_well_known_klass (klass_id (?kl k))" "map_of reg (klass_id (?kl k)) \<noteq> None" for k reg
  proof -
    have "fold (learn_field (klass_id (?kl k))) infos reg = reg" for infos
      using that(1) by (induction infos) (simp_all add: learn_field_def)
    then show ?thesis using that(2) by (auto simp: learn_klass_def add_klass_def split: option.splits)
  qed
  ultimately show ?thesis
    by (simp add: core_klasses_def id is_well_known_klass_def well_known_defs core_register_def)
qed

text \<open>What the register is after the metadata of an initialised library.\<close>

definition learned :: "('w, 's) reg_scheme \<Rightarrow> klass_ref list \<Rightarrow> klass_register" where
  "learned s ks = fold (learn_klass (klasses s)) ks core_register"

lemma core_known_core: "initialised s ks \<Longrightarrow> core_known core_register (klasses s)"
  "initialised s ks \<Longrightarrow> core_known KlassRegister (klasses s)"
  by (simp_all add: core_known_def core_register_def KlassRegister_eq get_klass_def initialised_ids well_known_defs)

lemma learned_describes:
  assumes "initialised s ks"
  shows "reg_wf (learned s ks)" and "core_known (learned s ks) (klasses s)"
    and "\<forall>k\<in>set ks. \<exists>x\<in>set (learned s ks). describes (klasses s) k x"
proof -
  let ?kl = "klasses s"
  note ids = initialised_ids [OF assms]
  have wf: "reg_wf core_register"
    by (simp add: reg_wf_def core_register_def well_known_defs base_event_klass_def endianness_event_klass_def
        klass_info_event_klass_def klass_field_info_event_klass_def)
  have fresh: "\<forall>k\<in>set ks. klass_id (?kl k) \<notin> set (map fst core_register) \<and>
      k \<notin> set (map (\<lambda>(i, k). ek_name k) core_register)"
    using ids(6,8)
    by (force simp: core_register_def core_klasses_def well_known_defs base_event_klass_def endianness_event_klass_def
        klass_info_event_klass_def klass_field_info_event_klass_def)
  have proper: "\<forall>k\<in>set ks. klass_proper ?kl k" using assms by (simp add: initialised_def)
  from learn_klasses_new [OF proper core_known_core(1) [OF assms] wf ids(5,7) fresh] obtain xs where
    xs: "learned s ks = core_register @ xs" "list_all2 (describes ?kl) ks xs" "reg_wf (core_register @ xs)"
    by (auto simp: learned_def)
  then show "reg_wf (learned s ks)" by simp
  show "\<forall>k\<in>set ks. \<exists>x\<in>set (learned s ks). describes ?kl k x"
    using xs(1,2) by (fastforce simp: list_all2_conv_all_nth in_set_conv_nth)
  have "core_known (fold (learn_klass ?kl) ks reg) ?kl" if "core_known reg ?kl" for reg
    using that by (induction ks arbitrary: reg) (simp_all add: core_known_learn_klass)
  then show "core_known (learned s ks) ?kl" using core_known_core(1) [OF assms] by (simp add: learned_def)
qed

text \<open>An event that the library may write: of the class \<^verbatim>\<open>HT_Event\<close> itself or of one of the other classes.\<close>

definition trace_event :: "('w, 's) reg_scheme \<Rightarrow> klass_ref list \<Rightarrow> ht_struct \<Rightarrow> bool" where
  "trace_event s ks ev \<longleftrightarrow> conforms (klasses s) (set ks) (event_klass ev) ev"

lemma trace_event_read:
  assumes "initialised s ks" and "trace_event s ks ev"
  shows "readable (learned s ks) (klasses s) ev" and "announces e (learned s ks) (klasses s) ev"
    and "handle_register_events (parsed (learned s ks) (klasses s) ev) (learned s ks) = Some (learned s ks)"
proof -
  let ?R = "learned s ks" and ?kl = "klasses s" and ?i = "klass_id (klasses s (event_klass ev))"
  note R = learned_describes [OF assms(1)] and ids = initialised_ids [OF assms(1)]
  have base: "get_klass ?R WK_EventKlass = Some base_event_klass" using R(2) by (simp add: core_known_def)
  have "readable ?R ?kl ev \<and> announces e ?R ?kl ev \<and> handle_register_events (parsed ?R ?kl ev) ?R = Some ?R"
  proof (cases ev)
    case (HT_Event k t i)
    with assms(2) have "k = ''HT_Event''" by (simp add: trace_event_def)
    with HT_Event ids(2) base show ?thesis
      by (simp add: readable_def announces_def parsed_def header_event_def handle_register_events_def well_known_defs)
  next
    case (Derived b vs)
    let ?k = "event_klass ev"
    have c: "conforms ?kl (set ks) ?k (Derived b vs)" "?k \<in> set ks" using assms(2) Derived by (simp_all add: trace_event_def)
    with R(3) obtain x where x: "x \<in> set ?R" "describes ?kl ?k x" by blast
    have "''HT_Event'' \<notin> set ks" using ids(6) by (auto simp: core_klasses_def)
    with conforms_fields_typed [OF c(1) R(3,1) _ _ x(2)] assms(1) have
      typed: "fields_typed ?R (ek_fields (snd x)) ev" using Derived by (simp add: initialised_def)
    have get: "get_klass ?R ?i = Some (snd x)" "ek_id (snd x) = ?i"
      using reg_wf_lookup(1) [OF R(1), of "fst x" "snd x"] x by (auto simp: describes_def)
    have ge: "4 \<le> unat ?i" using ids(8) c(2) by blast
    then have ne: "?i \<noteq> 0" "?i \<noteq> 1" "?i \<noteq> 2" "?i \<noteq> 3" by auto
    have "evt_klass (parsed ?R ?kl ev) = Some ?i"
      using get ne Derived by (simp add: parsed_def well_known_defs)
    then show ?thesis
      using base get ne typed by (simp add: readable_def announces_def handle_register_events_def well_known_defs)
  qed
  then show "readable ?R ?kl ev" "announces e ?R ?kl ev"
    "handle_register_events (parsed ?R ?kl ev) ?R = Some ?R" by simp_all
qed

lemma parse_trace_events:
  assumes "initialised s ks" and "\<forall>ev\<in>set evs. trace_event s ks ev"
  shows "parse_trace e (klasses s) evs (learned s ks) = Some (map (parsed (learned s ks) (klasses s)) evs, learned s ks)"
  using assms(2) by (induction evs) (simp_all add: trace_event_read [OF assms(1)])

section \<open>The metadata as events\<close>

definition endianness_event :: "HT_Endianness \<Rightarrow> ht_struct" where
  "endianness_event e = Derived (HT_Event ''HT_EndiannessInfoEvent'' 0 0) [Integer 1 (unat (endianness_code e))]"

definition system_info_event :: "nat \<times> nat \<times> nat \<Rightarrow> ht_struct" where
  "system_info_event version = Derived (HT_Event ''HT_SystemInfoEvent'' 0 0) (HT_VERSION version)"

definition klass_events :: "('w, 's) reg_scheme \<Rightarrow> ht_struct list" where
  "klass_events s = stamp (rt_clock s) (rt_ticks s) (rt_ids s None) (registry_templates s)"

lemma metadata_bytes_events:
  "metadata_bytes version e s =
     concat (map (event_bytes e (klasses s)) (endianness_event e # klass_events s @ [system_info_event version]))"
  by (simp add: metadata_bytes_def registry_bytes_def endianness_event_def klass_events_def system_info_event_def
      del: event_bytes.simps)

lemma parse_klass_events:
  assumes "initialised s ks"
  shows "\<exists>ps. parse_trace e (klasses s) (klass_events s) KlassRegister = Some (ps, learned s ks)"
proof -
  have ok: "\<forall>k\<in>set (core_klasses @ ks). klass_ok (klasses s) k"
    using assms by (auto simp: initialised_def klass_proper_def)
  have reg: "bag_list (event_klass_register s) = core_klasses @ ks"
    using assms by (simp add: initialised_def registered_def)
  from parse_klasses [OF core_known_core(2) [OF assms] ok, of e "rt_clock s" "rt_ticks s" "rt_ids s None"]
  show ?thesis
    by (simp add: klass_events_def registry_templates_def reg learned_def learn_core [OF assms])
qed

text \<open>The event that announces the byte order reads the same in both orders.\<close>

lemma endianness_event_neutral:
  assumes "klass_id (kl ''HT_EndiannessInfoEvent'') = 0"
  shows "event_bytes e kl (endianness_event e') = event_bytes HT_ENDIANNESS_LITTLE kl (endianness_event e')"
proof -
  have "le_bytes w 0 = replicate w 0" for w by (simp add: le_bytes_def map_replicate_const)
  moreover have "le_bytes 1 v = [word_of_nat v]" for v by (simp add: le_bytes_def)
  ultimately show ?thesis
    using assms by (cases e) (simp_all add: endianness_event_def int_bytes_def value_bytes_def)
qed

lemma endianness_event_read:
  assumes "initialised s ks"
  shows "readable KlassRegister (klasses s) (endianness_event e)" and "announces e KlassRegister (klasses s) (endianness_event e)"
    and "handle_register_events (parsed KlassRegister (klasses s) (endianness_event e)) KlassRegister = Some KlassRegister"
proof -
  have "endianness_code e < 2" by (cases e) simp_all
  then show "readable KlassRegister (klasses s) (endianness_event e)" "announces e KlassRegister (klasses s) (endianness_event e)"
    "handle_register_events (parsed KlassRegister (klasses s) (endianness_event e)) KlassRegister = Some KlassRegister"
    using initialised_ids(1) [OF assms]
    by (cases e; simp add: endianness_event_def readable_def announces_def parsed_def KlassRegister_eq get_klass_def
        well_known_defs endianness_event_klass_def simple_field_def is_base_def is_numeric_def get_sizeof_def
        field_entry_def get_number_def handle_register_events_def take_bit_word_eq_self)+
qed

text \<open>The events the callbacks see for the metadata.\<close>

definition metadata_events :: "nat \<times> nat \<times> nat \<Rightarrow> HT_Endianness \<Rightarrow> ('w, 's) reg_scheme \<Rightarrow> ht_struct list" where
  "metadata_events version e s = endianness_event e # klass_events s @ [system_info_event version]"

definition metadata_seen :: "nat \<times> nat \<times> nat \<Rightarrow> HT_Endianness \<Rightarrow> ('w, 's) reg_scheme \<Rightarrow> Event list" where
  "metadata_seen version e s = fst (the (parse_trace e (klasses s) (metadata_events version e s) KlassRegister))"

lemma length_parse_trace: "parse_trace e kl evs reg = Some (ps, reg') \<Longrightarrow> length ps = length evs"
  by (induction evs arbitrary: reg ps) (auto simp: bind_eq_Some_conv split: if_splits)

lemma parse_metadata:
  assumes "initialised s ks" and "trace_event s ks (system_info_event version)"
  shows "parse_trace e (klasses s) (metadata_events version e s) KlassRegister =
    Some (metadata_seen version e s, learned s ks)"
proof -
  obtain ps where ps: "parse_trace e (klasses s) (klass_events s) KlassRegister = Some (ps, learned s ks)"
    using parse_klass_events [OF assms(1)] by blast
  have "parse_trace e (klasses s) [system_info_event version] (learned s ks) =
      Some ([parsed (learned s ks) (klasses s) (system_info_event version)], learned s ks)"
    using parse_trace_events [OF assms(1), of "[system_info_event version]" e] assms(2) by simp
  with ps endianness_event_read [OF assms(1), of e]
  have "\<exists>qs. parse_trace e (klasses s) (metadata_events version e s) KlassRegister = Some (qs, learned s ks)"
    by (simp add: metadata_events_def parse_trace_append)
  then show ?thesis by (auto simp: metadata_seen_def)
qed

lemma parse_whole_trace:
  assumes "initialised s ks" and "trace_event s ks (system_info_event version)" and "\<forall>ev\<in>set evs. trace_event s ks ev"
  shows "parse_trace e (klasses s) (metadata_events version e s @ evs) KlassRegister =
    Some (metadata_seen version e s @ map (parsed (learned s ks) (klasses s)) evs, learned s ks)"
  using parse_metadata [OF assms(1,2)] parse_trace_events [OF assms(1,3)] by (simp add: parse_trace_append)

context byte_stream
begin

text \<open>The reader starts with the little-endian order; the first event tells it the order of the stream.\<close>

lemma read_trace_ok:
  fixes s :: "('w, 'x) reg_scheme"
  assumes init: "initialised s ks" and sys: "trace_event s ks (system_info_event version)"
    and evs: "\<forall>ev\<in>set evs. trace_event s ks ev"
    and h: "holds st (metadata_bytes version e s @ concat (map (event_bytes e (klasses s)) evs))"
    and cb: "run_ops callback (metadata_seen version e s @ map (parsed (learned s ks) (klasses s)) evs) c = Some c'"
    and clr: "\<forall>ev\<in>set (klass_events s @ evs). clear_event clear ev"
  shows "\<exists>st'. read_events sys strm False callback (\<lambda>_. True) n (new_reader st c) =
    Some \<lparr>rd_register = learned s ks, rd_endianness = e, rd_stream = st', rd_client = c'\<rparr> \<and> st_stop strm st' \<noteq> None"
proof -
  let ?kl = "klasses s" and ?r = "new_reader st c" and ?L = HT_ENDIANNESS_LITTLE
  let ?rest = "klass_events s @ [system_info_event version] @ evs"
  note id = initialised_ids(1) [OF init] and read = endianness_event_read [OF init, of e]
  from parse_whole_trace [OF init sys evs, of e] read obtain ps where
    ps: "parse_trace e ?kl ?rest KlassRegister = Some (ps, learned s ks)"
    and seen: "metadata_seen version e s @ map (parsed (learned s ks) ?kl) evs = parsed KlassRegister ?kl (endianness_event e) # ps"
    by (auto simp: metadata_events_def bind_eq_Some_conv)
  from cb obtain c1 where c1: "callback (parsed KlassRegister ?kl (endianness_event e)) c = Some c1"
    "run_ops callback ps c1 = Some c'" unfolding seen by (auto simp: bind_eq_Some_conv)
  have "holds (rd_stream ?r) (event_bytes ?L ?kl (endianness_event e) @ concat (map (event_bytes e ?kl) ?rest))"
    using h endianness_event_neutral [where kl = ?kl, OF id, of e e] by (simp add: metadata_bytes_events new_reader_def)
  moreover have "readable (rd_register ?r) ?kl (endianness_event e)" "announces e (rd_register ?r) ?kl (endianness_event e)"
    using read by (simp_all add: new_reader_def)
  moreover have "rd_endianness ?r = ?L" "klass_id (?kl (event_klass (endianness_event e))) = WK_EndiannessInfoEventKlass"
    using id by (simp_all add: new_reader_def endianness_event_def well_known_defs)
  ultimately obtain s1 where s1: "holds s1 (concat (map (event_bytes e ?kl) ?rest))"
    "read_one sys strm False callback ?r =
       do { r \<leftarrow> call_callbacks callback (parsed KlassRegister ?kl (endianness_event e)) (?r\<lparr>rd_stream := s1, rd_endianness := e\<rparr>);
            Some (True, r) }"
    using read_one_ok [of ?r ?kl "endianness_event e" e ?L "concat (map (event_bytes e ?kl) ?rest)" sys callback]
    by (auto simp: new_reader_def endianness_event_def)
  let ?r1 = "?r\<lparr>rd_stream := s1, rd_endianness := e, rd_client := c1\<rparr>"
  have one: "read_one sys strm False callback ?r = Some (True, ?r1)"
    using s1(2) read(3) c1(1) by (simp add: call_callbacks_def new_reader_def)
  have "\<exists>s'. read_events sys strm False callback (\<lambda>_. True) (n + 1) ?r1 =
      Some (?r1\<lparr>rd_register := learned s ks, rd_client := c', rd_stream := s'\<rparr>) \<and> st_stop strm s' \<noteq> None"
    using ps c1(2) s1(1) core_known_core(2) [OF init] clr
    by (intro read_events_ok [of e ?kl ?rest]) (auto simp: new_reader_def core_known_def system_info_event_def HT_VERSION_def split: prod.splits)
  then show ?thesis using one by (subst read_events.simps) (auto simp: new_reader_def)
qed

text \<open>The reader from its start to its stop, with a callback that records the events.\<close>

lemma trace_read:
  fixes s :: "('w, 'x) reg_scheme"
  assumes init: "initialised s ks" and sys: "trace_event s ks (system_info_event version)"
    and evs: "\<forall>ev\<in>set evs. trace_event s ks ev"
    and start: "st_start strm st0 = Some (True, st)"
    and h: "holds st (metadata_bytes version e s @ concat (map (event_bytes e (klasses s)) evs))"
    and clr: "\<forall>ev\<in>set (klass_events s @ evs). clear_event clear ev"
  shows "\<exists>r. run_reader mach strm False (\<lambda>ev log. Some (log @ [ev])) (\<lambda>_. True) (new_reader st0 []) = Some (True, r) \<and>
           rd_client r = metadata_seen version e s @ map (parsed (rd_register r) (klasses s)) evs \<and>
           length (metadata_seen version e s) = length (metadata_events version e s) \<and>
           (\<forall>k\<in>set ks. \<exists>K ti. get_klass (rd_register r) (klass_id (klasses s k)) = Some K \<and>
              type_info (klasses s k) = Some ti \<and> ek_name K = k \<and> fields_match (ti_fields ti) (ek_fields K))"
proof -
  let ?seen = "metadata_seen version e s @ map (parsed (learned s ks) (klasses s)) evs"
  have "run_ops (\<lambda>ev log. Some (log @ [ev])) ps c = Some (c @ ps)" for ps c :: "Event list"
    by (induction ps arbitrary: c) simp_all
  then obtain st1 st2 where run: "read_events mach strm False (\<lambda>ev log. Some (log @ [ev])) (\<lambda>_. True) 0 (new_reader st []) =
      Some \<lparr>rd_register = learned s ks, rd_endianness = e, rd_stream = st1, rd_client = ?seen\<rparr>" "st_stop strm st1 = Some st2"
    using read_trace_ok [OF init sys evs h _ clr, of "\<lambda>ev log. Some (log @ [ev])" "[]" ?seen mach 0] by auto
  let ?r = "\<lparr>rd_register = learned s ks, rd_endianness = e, rd_stream = st2, rd_client = ?seen\<rparr>"
  have "run_reader mach strm False (\<lambda>ev log. Some (log @ [ev])) (\<lambda>_. True) (new_reader st0 []) = Some (True, ?r)"
    using run start by (simp add: run_reader_def new_reader_def)
  moreover have "length (metadata_seen version e s) = length (metadata_events version e s)"
    using length_parse_trace [OF parse_metadata [OF init sys]] .
  moreover have "\<exists>K ti. get_klass (learned s ks) (klass_id (klasses s k)) = Some K \<and> type_info (klasses s k) = Some ti \<and>
      ek_name K = k \<and> fields_match (ti_fields ti) (ek_fields K)" if "k \<in> set ks" for k
  proof -
    from learned_describes(3) [OF init] that obtain x where "x \<in> set (learned s ks)" "describes (klasses s) k x" by blast
    then show ?thesis
      using reg_wf_lookup(1) [OF learned_describes(1) [OF init], of "fst x" "snd x"] by (auto simp: describes_def)
  qed
  ultimately show ?thesis by (intro exI [of _ ?r]) simp
qed

end

text \<open>The reader on a whole trace file.\<close>

lemma trace_file_read:
  assumes "initialised s ks" and "trace_event s ks (system_info_event version)" and "\<forall>ev\<in>set evs. trace_event s ks ev"
    and "files name = Some (metadata_bytes version e s @ concat (map (event_bytes e (klasses s)) evs))"
  shows "\<exists>r. run_reader sys (file_stream files) False (\<lambda>ev log. Some (log @ [ev])) (\<lambda>_. True)
             (new_reader \<lparr>fs_file_name = name, fs_file = None\<rparr> []) = Some (True, r) \<and>
           rd_client r = metadata_seen version e s @ map (parsed (rd_register r) (klasses s)) evs \<and>
           length (metadata_seen version e s) = length (metadata_events version e s) \<and>
           (\<forall>k\<in>set ks. \<exists>K ti. get_klass (rd_register r) (klass_id (klasses s k)) = Some K \<and>
              type_info (klasses s k) = Some ti \<and> ek_name K = k \<and> fields_match (ti_fields ti) (ek_fields K))"
proof -
  let ?st = "\<lparr>fs_file_name = name, fs_file = Some (the (files name), False)\<rparr>"
  have "file_holds ?st (metadata_bytes version e s @ concat (map (event_bytes e (klasses s)) evs))"
    using assms(4) by (auto simp: file_holds_def)
  moreover have "st_start (file_stream files) \<lparr>fs_file_name = name, fs_file = None\<rparr> = Some (True, ?st)"
    using assms(4) by (simp add: file_stream_def fs_start_def)
  ultimately show ?thesis using fs.trace_read [OF assms(1-3)] by simp
qed

section \<open>Properties\<close>

text \<open>
  C23. Reading back a trace file gives what was written. Take any initialised library, of either byte
  order, with any further classes the format can describe, and a file with the metadata followed by the
  bytes of any events that conform to their declarations. A parser on a machine of either byte
  order reads the file to its end and hands its callbacks the events of the metadata and then
  exactly the written events, in order, each with the class, the timestamp, the identifier and
  the values it was written with, inherited values in the nested base events. Its register then has every class
  of the library under its identifier, with the declared fields.
\<close>

theorem trace_file_roundtrip:
  assumes "initialised s ks" and "trace_event s ks (system_info_event version)" and "\<forall>ev\<in>set evs. trace_event s ks ev"
    and "files name = Some (metadata_bytes version e s @ concat (map (event_bytes e (klasses s)) evs))"
  shows "\<exists>r. run_reader sys (file_stream files) False (\<lambda>ev log. Some (log @ [ev])) (\<lambda>_. True)
             (new_reader \<lparr>fs_file_name = name, fs_file = None\<rparr> []) = Some (True, r) \<and>
           rd_client r = metadata_seen version e s @ map (parsed (rd_register r) (klasses s)) evs \<and>
           length (metadata_seen version e s) = length (metadata_events version e s) \<and>
           (\<forall>k\<in>set ks. \<exists>K ti. get_klass (rd_register r) (klass_id (klasses s k)) = Some K \<and>
              type_info (klasses s k) = Some ti \<and> ek_name K = k \<and> fields_match (ti_fields ti) (ek_fields K))"
  using assms by (rule trace_file_read)

text \<open>The classes of the library itself are proper, so the format describes them completely.\<close>

definition core_decls :: "(klass_ref \<times> field_decl list) list" where
  "core_decls =
     [(''HT_EndiannessInfoEvent'', HT_EndiannessInfoEvent_decl), (''HT_Event'', HT_Event_decl),
      (''HT_EventKlassInfoEvent'', HT_EventKlassInfoEvent_decl),
      (''HT_EventKlassFieldInfoEvent'', HT_EventKlassFieldInfoEvent_decl),
      (''HT_CallstackBaseEvent'', HT_CallstackBaseEvent_decl), (''HT_CallstackIntEvent'', HT_CallstackIntEvent_decl),
      (''HT_CallstackStringEvent'', HT_CallstackStringEvent_decl), (''HT_StringMappingEvent'', HT_StringMappingEvent_decl),
      (''HT_SystemInfoEvent'', HT_SystemInfoEvent_decl)]"

definition decl_ok :: "field_decl \<Rightarrow> bool" where
  "decl_ok d \<longleftrightarrow>
     no_nul (fd_field_name d) \<and> no_nul (fd_c_type d) \<and> member_size d < 2 ^ 64 \<and>
     (fd_data_type d = MKCREFLECT_TYPES_STRUCT \<or> fd_data_type d = MKCREFLECT_TYPES_STRING \<or>
      fd_data_type d = MKCREFLECT_TYPES_POINTER \<or>
      fd_data_type d = MKCREFLECT_TYPES_INTEGER \<and> member_size d \<in> {1, 2, 4, 8})"

lemma decl_info_ok: "decl_ok d \<Longrightarrow> info_ok (mkcreflect_field_info d off)"
  by (auto simp: decl_ok_def info_ok_def mkcreflect_field_info_def field_data_type_def get_type_id_def
      HT_MKCREFLECT_TYPES_EXT_UNSIGNED_INTEGER_def)

lemma decls_klass_ok:
  assumes "type_info (kl k) = Some (mkcreflect_type_info k ds)" and "no_nul k" and "\<forall>d\<in>set ds. decl_ok d"
  shows "klass_ok kl k"
  using assms decl_info_ok
  by (auto simp: klass_ok_def mkcreflect_type_info_def dest!: set_zip_leftD)

lemma decls_klass_proper:
  assumes "type_info (kl k) = Some (mkcreflect_type_info k ds)" and "no_nul k" and "\<forall>d\<in>set ds. decl_ok d"
    and "distinct (map fd_field_name ds)" and "''timestamp'' \<notin> set (map fd_field_name ds)"
  shows "klass_proper kl k"
proof -
  let ?ti = "mkcreflect_type_info k ds"
  have "map fi_field_name (ti_fields ?ti) = map fd_field_name ds"
    by (rule nth_equalityI) (simp_all add: mkcreflect_type_info_def mkcreflect_field_info_def)
  moreover have "ti_name ?ti = k" by (simp add: mkcreflect_type_info_def)
  ultimately show ?thesis
    using decls_klass_ok [where kl = kl and k = k, OF assms(1-3)] assms by (auto simp: klass_proper_def simp del: set_map)
qed

lemma core_decls_ok: "\<forall>(k, ds)\<in>set core_decls. no_nul k \<and> (\<forall>d\<in>set ds. decl_ok d) \<and> distinct (map fd_field_name ds)"
  by (simp add: core_decls_def no_nul_def decl_ok_def HT_EndiannessInfoEvent_decl_def HT_Event_decl_def
      HT_EventKlassInfoEvent_decl_def HT_EventKlassFieldInfoEvent_decl_def HT_CallstackBaseEvent_decl_def
      HT_CallstackIntEvent_decl_def HT_CallstackStringEvent_decl_def HT_StringMappingEvent_decl_def
      HT_SystemInfoEvent_decl_def base_decl_def integer_decl_def string_decl_def member_size_def struct_sizeof_def
      struct_align_def align_up_def)

lemma other_decls_no_timestamp: "(k, ds) \<in> set (drop 4 core_decls) \<Longrightarrow> ''timestamp'' \<notin> set (map fd_field_name ds)"
  by (auto simp: core_decls_def HT_CallstackBaseEvent_decl_def HT_CallstackIntEvent_decl_def HT_CallstackStringEvent_decl_def
      HT_StringMappingEvent_decl_def HT_SystemInfoEvent_decl_def base_decl_def integer_decl_def string_decl_def)

text \<open>The static class objects after the classes of a list were registered.\<close>

definition klass_table :: "(klass_ref \<times> field_decl list) list \<Rightarrow> klass_ref \<Rightarrow> HT_EventKlass" where
  "klass_table decls k =
     (case map_of (zip (map fst decls) (zip [0..<length decls] (map snd decls))) k of
        None \<Rightarrow> \<lparr>type_info = None, klass_id = HT_INVALID_KLASS_ID\<rparr>
      | Some (i, ds) \<Rightarrow> \<lparr>type_info = Some (mkcreflect_type_info k ds), klass_id = word_of_nat i\<rparr>)"

lemma klass_table_nth:
  assumes "distinct (map fst decls)" and "i < length decls" and "decls ! i = (k, ds)"
  shows "klass_table decls k = \<lparr>type_info = Some (mkcreflect_type_info k ds), klass_id = word_of_nat i\<rparr>"
proof -
  have "map_of (zip (map fst decls) (zip [0..<length decls] (map snd decls))) k = Some (i, ds)"
    using assms by (intro map_of_is_SomeI) (auto simp: in_set_zip intro!: exI [of _ i])
  then show ?thesis by (simp add: klass_table_def)
qed

lemma klass_table_info:
  assumes "distinct (map fst decls)" and "(k, ds) \<in> set decls"
  shows "type_info (klass_table decls k) = Some (mkcreflect_type_info k ds)"
proof -
  from assms(2) obtain i where "i < length decls" "decls ! i = (k, ds)" by (auto simp: in_set_conv_nth)
  with klass_table_nth [OF assms(1)] show ?thesis by simp
qed

lemma klass_table_other:
  assumes "k \<notin> set (map fst decls)"
  shows "klass_id (klass_table decls k) = HT_INVALID_KLASS_ID"
proof -
  have none: "map_of (zip (map fst decls) (zip [0..<length decls] (map snd decls))) k = None"
    using assms by (auto simp: map_of_eq_None_iff dest: set_zip_leftD)
  show ?thesis unfolding klass_table_def none by simp
qed

lemma core_decls_distinct: "distinct (map fst core_decls)"
  by (simp add: core_decls_def)

abbreviation core_klass :: "klass_ref \<Rightarrow> HT_EventKlass" where
  "core_klass \<equiv> klass_table core_decls"

lemmas core_klass_info = klass_table_info [OF core_decls_distinct]

definition core_reg_of :: "'w \<Rightarrow> ('w, unit) reg_scheme" where
  "core_reg_of w =
     (demo_reg_of w)
       \<lparr>rt_mem := \<lparr>heap_of = \<lparr>blocks = [1 \<mapsto> 128, 2 \<mapsto> 40], next_addr = 3, refusals = []\<rparr>,
                   realloc_fnc = None, user_data = 0\<rparr>,
        event_klass_register := \<lparr>bag_min_capacity = 8, bag_capacity = 16, bag_size = 9, bag_data = Some 1,
                                 bag_cells = map (\<lambda>(k, ds). Some k) core_decls @ replicate 7 None\<rparr>,
        klasses := core_klass\<rparr>"

abbreviation other_klasses :: "klass_ref list" where
  "other_klasses \<equiv> drop 4 (map fst core_decls)"

lemma core_reg_registered: "registered (core_reg_of w) = core_klasses @ other_klasses"
  by (simp add: registered_def bag_list_def contents_def core_reg_of_def core_klasses_def core_decls_def)

lemma core_reg_ids: "klass_ids_ok (core_reg_of w)"
proof -
  have reg: "registered (core_reg_of w) = map fst core_decls"
    using core_reg_registered [of w] by (simp add: core_klasses_def core_decls_def)
  have kl: "klasses (core_reg_of w) = core_klass" by (simp add: core_reg_of_def)
  have "length core_decls = 9" by (simp add: core_decls_def)
  moreover have "klass_id (core_klass (fst (core_decls ! i))) = word_of_nat i" if "i < length core_decls" for i
    using klass_table_nth [OF core_decls_distinct that] by (cases "core_decls ! i") simp
  ultimately show ?thesis
    unfolding klass_ids_ok_def reg kl using core_decls_distinct klass_table_other by simp
qed

lemma core_reg_initialised: "initialised (core_reg_of w) other_klasses"
proof -
  have kl: "klasses (core_reg_of w) = core_klass" by (simp add: core_reg_of_def)
  have "klass_ok core_klass k" if "(k, ds) \<in> set core_decls" for k ds
    using decls_klass_ok [where kl = core_klass and k = k, OF core_klass_info [OF that]] core_decls_ok that by blast
  then have "\<forall>k\<in>set core_klasses. klass_ok core_klass k"
    by (auto simp: core_klasses_def core_decls_def)
  moreover have "klass_proper core_klass k" if "(k, ds) \<in> set (drop 4 core_decls)" for k ds
  proof (rule decls_klass_proper [where ds = ds])
    from that have "(k, ds) \<in> set core_decls" by (rule in_set_dropD)
    then show "type_info (core_klass k) = Some (mkcreflect_type_info k ds)" "no_nul k" "\<forall>d\<in>set ds. decl_ok d"
      "distinct (map fd_field_name ds)" using core_decls_ok core_klass_info by auto
    show "''timestamp'' \<notin> set (map fd_field_name ds)" using other_decls_no_timestamp [OF that] .
  qed
  then have "\<forall>k\<in>set other_klasses. klass_proper core_klass k" by (auto simp: drop_map)
  moreover have "type_info (core_klass ''HT_EndiannessInfoEvent'') =
      Some (mkcreflect_type_info ''HT_EndiannessInfoEvent'' HT_EndiannessInfoEvent_decl)"
    by (rule core_klass_info) (simp add: core_decls_def)
  ultimately show ?thesis
    using core_reg_ids [of w] core_reg_registered [of w] by (simp only: initialised_def kl)
qed

definition demo_trace :: "ht_struct list" where
  "demo_trace =
     [Derived (HT_Event ''HT_StringMappingEvent'' 10 1) [Integer 8 4096, String (Some ''main'')],
      Derived (Derived (HT_Event ''HT_CallstackIntEvent'' 20 2) [Integer 8 500, Integer 4 1]) [Integer 8 4096],
      HT_Event ''HT_Event'' 30 3]"

lemma core_reg_info: "(k, ds) \<in> set core_decls \<Longrightarrow> type_info (klasses (core_reg_of w) k) = Some (mkcreflect_type_info k ds)"
  by (simp add: core_reg_of_def core_klass_info)

lemma core_infos:
  "type_info (klasses (core_reg_of w) ''HT_StringMappingEvent'') =
     Some (mkcreflect_type_info ''HT_StringMappingEvent'' HT_StringMappingEvent_decl)"
  "type_info (klasses (core_reg_of w) ''HT_CallstackIntEvent'') =
     Some (mkcreflect_type_info ''HT_CallstackIntEvent'' HT_CallstackIntEvent_decl)"
  "type_info (klasses (core_reg_of w) ''HT_CallstackBaseEvent'') =
     Some (mkcreflect_type_info ''HT_CallstackBaseEvent'' HT_CallstackBaseEvent_decl)"
  "type_info (klasses (core_reg_of w) ''HT_SystemInfoEvent'') =
     Some (mkcreflect_type_info ''HT_SystemInfoEvent'' HT_SystemInfoEvent_decl)"
  by (rule core_reg_info, simp add: core_decls_def)+

lemma other_klasses_eq: "other_klasses = [''HT_CallstackBaseEvent'', ''HT_CallstackIntEvent'', ''HT_CallstackStringEvent'',
    ''HT_StringMappingEvent'', ''HT_SystemInfoEvent'']"
  by (simp add: core_decls_def)

lemma demo_trace_events: "\<forall>ev\<in>set demo_trace. trace_event (core_reg_of w) other_klasses ev"
  unfolding other_klasses_eq
  by (simp add: demo_trace_def trace_event_def core_infos mkcreflect_type_info_def HT_StringMappingEvent_decl_def
      HT_CallstackIntEvent_decl_def HT_CallstackBaseEvent_decl_def mkcreflect_field_info_def base_decl_def integer_decl_def
      string_decl_def member_size_def no_nul_def Let_def)

lemma system_info_trace_event:
  assumes "\<forall>n\<in>{a, b, c}. n < 256"
  shows "trace_event (core_reg_of w) other_klasses (system_info_event (a, b, c))"
  using assms unfolding other_klasses_eq
  by (simp add: system_info_event_def HT_VERSION_def trace_event_def core_infos mkcreflect_type_info_def
      HT_SystemInfoEvent_decl_def mkcreflect_field_info_def base_decl_def integer_decl_def member_size_def Let_def)

abbreviation demo_file :: "byte list" where
  "demo_file \<equiv> metadata_bytes (0, 9, 1) HT_ENDIANNESS_BIG (core_reg_of ()) @
     concat (map (event_bytes HT_ENDIANNESS_BIG (klasses (core_reg_of ()))) demo_trace)"

theorem trace_file_roundtrip_witness:
  "\<exists>r. run_reader HT_ENDIANNESS_LITTLE (file_stream [''trace'' \<mapsto> demo_file]) False
     (\<lambda>ev log. Some (log @ [ev])) (\<lambda>_. True) (new_reader \<lparr>fs_file_name = ''trace'', fs_file = None\<rparr> []) = Some (True, r) \<and>
   rd_client r = metadata_seen (0, 9, 1) HT_ENDIANNESS_BIG (core_reg_of ()) @
     map (parsed (rd_register r) (klasses (core_reg_of ()))) demo_trace"
proof -
  have sys: "trace_event (core_reg_of ()) other_klasses (system_info_event (0, 9, 1))"
    by (rule system_info_trace_event) simp
  have "[''trace'' \<mapsto> demo_file] ''trace'' = Some demo_file" by (rule fun_upd_same)
  from trace_file_roundtrip [where s = "core_reg_of ()" and ks = other_klasses and version = "(0, 9, 1)" and evs = demo_trace
      and files = "[''trace'' \<mapsto> demo_file]" and name = "''trace''" and e = HT_ENDIANNESS_BIG and sys = HT_ENDIANNESS_LITTLE,
      OF core_reg_initialised sys demo_trace_events this]
  show ?thesis by blast
qed

end
