(* ===== verification/Task_Scheduler.thy ===== *)
theory Task_Scheduler
  imports Bag Runtime
begin

text \<open>
  \<^verbatim>\<open>lib/task_scheduler.c\<close>: tasks that are run when their time has come.

  The structure \<^verbatim>\<open>HT_TaskScheduler\<close> is passed along as a value; a task is a block of the heap, and
  \<open>task_of\<close> says which task is in it. A callback acts on a state of its own, \<open>sched_world\<close>, and
  returns whether the task is to be run again; it does not use the scheduler that runs it.
  A task identifier is an \<^verbatim>\<open>int32_t\<close>; the counter stops at the largest one.
\<close>

section \<open>Structures\<close>

datatype HT_TaskSchedulingMode = HT_TASK_SCHEDULING_IGNORE_DELAYS | HT_TASK_SCHEDULING_RESTART_TIMER

type_synonym 'w HT_TaskCallback = "nat \<Rightarrow> 'w \<Rightarrow> (bool \<times> 'w) option"

record 'w HT_Task =
  task_callback :: "'w HT_TaskCallback"
  task_user_data :: nat
  task_period :: HT_DurationNs
  task_next_action_ts :: HT_TimestampNs
  task_id :: int
  task_mode :: HT_TaskSchedulingMode

record HT_TaskScheduler =
  sc_addr :: addr
  sc_tasks :: "addr bag"
  sc_next_task_id :: int

record 'w sched_rt = rt +
  task_of :: "addr \<rightharpoonup> 'w HT_Task"
  sched_world :: 'w

definition DEFAULT_INIT_TASK_COUNT :: nat where
  "DEFAULT_INIT_TASK_COUNT = 16"

definition HT_INT32_MAX :: int where
  "HT_INT32_MAX = 2 ^ 31 - 1"

definition HT_TASK_SCHEDULER_INVALID_TASK_ID :: int where
  "HT_TASK_SCHEDULER_INVALID_TASK_ID = - 1"

definition sizeof_HT_TaskScheduler :: nat where
  "sizeof_HT_TaskScheduler = 40"

definition sizeof_HT_Task :: nat where
  "sizeof_HT_Task = 40"

section \<open>Operations\<close>

function greatest_common_divisor :: "HT_DurationNs \<Rightarrow> HT_DurationNs \<Rightarrow> HT_DurationNs" where
  "greatest_common_divisor a b = (if b \<noteq> 0 then greatest_common_divisor b (a mod b) else a)"
  by pat_completeness auto
termination
proof (relation "measure (\<lambda>(a, b). unat b)")
  fix a b :: HT_DurationNs
  assume "b \<noteq> 0"
  then have "0 < unat b" by (simp add: unat_gt_0)
  then show "((b, a mod b), (a, b)) \<in> measure (\<lambda>(a, b). unat b)" by (simp add: unat_mod_distrib)
qed simp

declare greatest_common_divisor.simps [simp del]

definition ht_task_scheduler_create ::
  "addr bag \<Rightarrow> 's rt_scheme \<Rightarrow> (HT_ErrorCode \<times> HT_TaskScheduler option \<times> 's rt_scheme) option" where
  "ht_task_scheduler_create junk s =
     do { (p, m) \<leftarrow> ht_alloc sizeof_HT_TaskScheduler (rt_mem s);
          case p of
            None \<Rightarrow> Some (HT_ERR_OUT_OF_MEMORY, None, s\<lparr>rt_mem := m\<rparr>)
          | Some a \<Rightarrow> do {
              (err, b, m) \<leftarrow> ht_bag_init sizeof_void_ptr junk DEFAULT_INIT_TASK_COUNT m;
              if err \<noteq> HT_ERR_OK
              then do { m \<leftarrow> ht_free (Some a) m; Some (err, None, s\<lparr>rt_mem := m\<rparr>) }
              else Some (err, Some \<lparr>sc_addr = a, sc_tasks = b, sc_next_task_id = 0\<rparr>, s\<lparr>rt_mem := m\<rparr>) } }"

text \<open>A task is read through the pointer in the bag; its block has to be live.\<close>

definition read_task :: "addr \<Rightarrow> ('w, 's) sched_rt_scheme \<Rightarrow> 'w HT_Task option" where
  "read_task a s = (if live (rt_mem s) a \<noteq> None then task_of s a else None)"

function free_tasks_from ::
  "nat \<Rightarrow> HT_TaskScheduler \<Rightarrow> 's rt_scheme \<Rightarrow> 's rt_scheme option" where
  "free_tasks_from i sc s =
     (if i < bag_size (sc_tasks sc)
      then do { a \<leftarrow> ht_bag_nth (sc_tasks sc) i (rt_mem s);
                m \<leftarrow> ht_free (Some a) (rt_mem s);
                free_tasks_from (i + 1) sc (s\<lparr>rt_mem := m\<rparr>) }
      else Some s)"
  by pat_completeness auto
termination
  by (relation "measure (\<lambda>(i, sc, s). bag_size (sc_tasks sc) - i)") auto

declare free_tasks_from.simps [simp del]

definition ht_task_scheduler_destroy :: "HT_TaskScheduler \<Rightarrow> 's rt_scheme \<Rightarrow> 's rt_scheme option" where
  "ht_task_scheduler_destroy sc s =
     do { s \<leftarrow> free_tasks_from 0 sc s;
          (b, m) \<leftarrow> ht_bag_deinit (sc_tasks sc) (rt_mem s);
          m \<leftarrow> ht_free (Some (sc_addr sc)) m;
          Some (s\<lparr>rt_mem := m\<rparr>) }"

definition ht_task_scheduler_schedule_task ::
  "HT_TaskScheduler \<Rightarrow> HT_TaskSchedulingMode \<Rightarrow> HT_DurationNs \<Rightarrow> 'w HT_TaskCallback option \<Rightarrow> nat \<Rightarrow>
   ('w, 's) sched_rt_scheme \<Rightarrow> (int \<times> HT_TaskScheduler \<times> ('w, 's) sched_rt_scheme) option" where
  "ht_task_scheduler_schedule_task sc mode period callback ud s =
     (case callback of
        None \<Rightarrow> Some (HT_TASK_SCHEDULER_INVALID_TASK_ID, sc, s)
      | Some cb \<Rightarrow>
          if sc_next_task_id sc = HT_INT32_MAX then Some (HT_TASK_SCHEDULER_INVALID_TASK_ID, sc, s)
          else do {
            (p, m) \<leftarrow> ht_alloc sizeof_HT_Task (rt_mem s);
            let s = s\<lparr>rt_mem := m\<rparr>;
            case p of
              None \<Rightarrow> Some (HT_TASK_SCHEDULER_INVALID_TASK_ID, sc, s)
            | Some a \<Rightarrow> do {
                let (now, s) = ht_monotonic_clock_get_timestamp s;
                let task = \<lparr>task_callback = cb, task_user_data = ud, task_period = period,
                            task_next_action_ts = now + period, task_id = sc_next_task_id sc, task_mode = mode\<rparr>;
                let s = s\<lparr>task_of := (task_of s)(a \<mapsto> task)\<rparr>;
                (err, b, m) \<leftarrow> ht_bag_add sizeof_void_ptr (sc_tasks sc) a (rt_mem s);
                let sc = sc\<lparr>sc_tasks := b, sc_next_task_id := sc_next_task_id sc + 1\<rparr>;
                let s = s\<lparr>rt_mem := m\<rparr>;
                Some (if err \<noteq> HT_ERR_OK then HT_TASK_SCHEDULER_INVALID_TASK_ID else task_id task, sc, s) } })"

text \<open>
  \<^verbatim>\<open>ht_task_scheduler_tick\<close>: after the removal of a task the same position is looked at again,
  since the last task has moved there.
\<close>

lemma bag_size_remove_nth: "ht_bag_remove_nth es b n m = Some (b', m') \<Longrightarrow> 0 < bag_size b \<and> bag_size b' = bag_size b - 1"
  by (auto simp: ht_bag_remove_nth_def ht_bag_set_def ht_bag_resize_def bind_eq_Some_conv Let_def
      split: if_splits option.splits)

definition next_action ::
  "'w HT_Task \<Rightarrow> ('w, 's) sched_rt_scheme \<Rightarrow> HT_TimestampNs \<times> ('w, 's) sched_rt_scheme" where
  "next_action task s =
     (if task_mode task = HT_TASK_SCHEDULING_IGNORE_DELAYS then (task_next_action_ts task + task_period task, s)
      else let (now, s) = ht_monotonic_clock_get_timestamp s in (now + task_period task, s))"

function tick_from ::
  "nat \<Rightarrow> HT_TaskScheduler \<Rightarrow> ('w, 's) sched_rt_scheme \<Rightarrow> (HT_TaskScheduler \<times> ('w, 's) sched_rt_scheme) option" where
  "tick_from i sc s =
     (if i < bag_size (sc_tasks sc)
      then do {
        a \<leftarrow> ht_bag_nth (sc_tasks sc) i (rt_mem s);
        let (now, s) = ht_monotonic_clock_get_timestamp s;
        task \<leftarrow> read_task a s;
        if task_next_action_ts task > now then tick_from (i + 1) sc s
        else do {
          (again, w) \<leftarrow> task_callback task (task_user_data task) (sched_world s);
          let s = s\<lparr>sched_world := w\<rparr>;
          if \<not> again
          then do {
            (b, m) \<leftarrow> ht_bag_remove_nth sizeof_void_ptr (sc_tasks sc) i (rt_mem s);
            m \<leftarrow> ht_free (Some a) m;
            tick_from i (sc\<lparr>sc_tasks := b\<rparr>) (s\<lparr>rt_mem := m\<rparr>) }
          else do {
            let (ts, s) = next_action task s;
            tick_from (i + 1) sc (s\<lparr>task_of := (task_of s)(a \<mapsto> task\<lparr>task_next_action_ts := ts\<rparr>)\<rparr>) } } }
      else Some (sc, s))"
  by pat_completeness auto
termination
  by (relation "measure (\<lambda>(i, sc, s). bag_size (sc_tasks sc) - i)") (auto dest!: bag_size_remove_nth)

declare tick_from.simps [simp del]

definition ht_task_scheduler_tick ::
  "HT_TaskScheduler \<Rightarrow> ('w, 's) sched_rt_scheme \<Rightarrow> (HT_TaskScheduler \<times> ('w, 's) sched_rt_scheme) option" where
  "ht_task_scheduler_tick sc s = tick_from 0 sc s"

function remove_task_entry_from :: "nat \<Rightarrow> addr \<Rightarrow> addr bag \<Rightarrow> mem \<Rightarrow> (addr bag \<times> mem) option" where
  "remove_task_entry_from i task b m =
     (if i < bag_size b
      then do { a \<leftarrow> ht_bag_nth b i m;
                (b, m) \<leftarrow> (if a = task then ht_bag_remove_nth sizeof_void_ptr b i m else Some (b, m));
                remove_task_entry_from (i + 1) task b m }
      else Some (b, m))"
  by pat_completeness auto
termination
  by (relation "measure (\<lambda>(i, task, b, m). bag_size b - i)") (auto dest!: bag_size_remove_nth split: if_splits)

declare remove_task_entry_from.simps [simp del]

definition ht_task_scheduler_remove_task_entry :: "addr bag \<Rightarrow> addr \<Rightarrow> mem \<Rightarrow> (addr bag \<times> mem) option" where
  "ht_task_scheduler_remove_task_entry b task m = remove_task_entry_from 0 task b m"

function remove_task_from ::
  "nat \<Rightarrow> HT_TaskScheduler \<Rightarrow> int \<Rightarrow> ('w, 's) sched_rt_scheme \<Rightarrow>
   (bool \<times> HT_TaskScheduler \<times> ('w, 's) sched_rt_scheme) option" where
  "remove_task_from i sc tid s =
     (if i < bag_size (sc_tasks sc)
      then do {
        a \<leftarrow> ht_bag_nth (sc_tasks sc) i (rt_mem s);
        task \<leftarrow> read_task a s;
        if task_id task = tid
        then do {
          (b, m) \<leftarrow> ht_task_scheduler_remove_task_entry (sc_tasks sc) a (rt_mem s);
          m \<leftarrow> ht_free (Some a) m;
          Some (True, sc\<lparr>sc_tasks := b\<rparr>, s\<lparr>rt_mem := m\<rparr>) }
        else remove_task_from (i + 1) sc tid s }
      else Some (False, sc, s))"
  by pat_completeness auto
termination
  by (relation "measure (\<lambda>(i, sc, tid, s). bag_size (sc_tasks sc) - i)") auto

declare remove_task_from.simps [simp del]

definition ht_task_scheduler_remove_task ::
  "HT_TaskScheduler \<Rightarrow> int \<Rightarrow> ('w, 's) sched_rt_scheme \<Rightarrow> (bool \<times> HT_TaskScheduler \<times> ('w, 's) sched_rt_scheme) option" where
  "ht_task_scheduler_remove_task sc tid s = (if tid < 0 then Some (False, sc, s) else remove_task_from 0 sc tid s)"

function tick_period_from ::
  "nat \<Rightarrow> HT_DurationNs \<Rightarrow> HT_TaskScheduler \<Rightarrow> ('w, 's) sched_rt_scheme \<Rightarrow> HT_DurationNs option" where
  "tick_period_from i perfect_period sc s =
     (if i < bag_size (sc_tasks sc)
      then do {
        a \<leftarrow> ht_bag_nth (sc_tasks sc) i (rt_mem s);
        task \<leftarrow> read_task a s;
        tick_period_from (i + 1)
          (if task_period task = 0 then perfect_period
           else if perfect_period = 0 then task_period task
           else greatest_common_divisor perfect_period (task_period task)) sc s }
      else Some perfect_period)"
  by pat_completeness auto
termination
  by (relation "measure (\<lambda>(i, p, sc, s). bag_size (sc_tasks sc) - i)") auto

declare tick_period_from.simps [simp del]

definition ht_task_scheduler_get_optimal_tick_period ::
  "HT_TaskScheduler \<Rightarrow> ('w, 's) sched_rt_scheme \<Rightarrow> HT_DurationNs option" where
  "ht_task_scheduler_get_optimal_tick_period sc s = tick_period_from 0 0 sc s"

section \<open>The invariant\<close>

definition tasks :: "HT_TaskScheduler \<Rightarrow> ('w, 's) sched_rt_scheme \<Rightarrow> 'w HT_Task list" where
  "tasks sc s = map (\<lambda>a. the (task_of s a)) (bag_list (sc_tasks sc))"

definition sched_mem_ok :: "HT_TaskScheduler \<Rightarrow> 's rt_scheme \<Rightarrow> bool" where
  "sched_mem_ok sc s \<longleftrightarrow>
     alloc_wf (rt_mem s) \<and> bag_inv sizeof_void_ptr (sc_tasks sc) (rt_mem s) \<and> distinct (bag_list (sc_tasks sc)) \<and>
     live (rt_mem s) (sc_addr sc) \<noteq> None \<and> sc_addr sc \<noteq> bag_block (sc_tasks sc) \<and>
     (\<forall>a\<in>set (bag_list (sc_tasks sc)).
        live (rt_mem s) a \<noteq> None \<and> a \<noteq> sc_addr sc \<and> a \<noteq> bag_block (sc_tasks sc))"

definition sched_inv :: "HT_TaskScheduler \<Rightarrow> ('w, 's) sched_rt_scheme \<Rightarrow> bool" where
  "sched_inv sc s \<longleftrightarrow>
     sched_mem_ok sc s \<and> (\<forall>a\<in>set (bag_list (sc_tasks sc)). task_of s a \<noteq> None) \<and>
     distinct (map task_id (tasks sc s)) \<and> sc_next_task_id sc \<le> HT_INT32_MAX \<and>
     (\<forall>t\<in>set (tasks sc s). 0 \<le> task_id t \<and> task_id t < sc_next_task_id sc) \<and> 0 \<le> sc_next_task_id sc"

text \<open>The blocks a scheduler owns.\<close>

definition sched_blocks :: "HT_TaskScheduler \<Rightarrow> addr set" where
  "sched_blocks sc = insert (sc_addr sc) (insert (bag_block (sc_tasks sc)) (set (bag_list (sc_tasks sc))))"

lemma sched_blocks_live: "sched_mem_ok sc s \<Longrightarrow> sched_blocks sc \<subseteq> dom (live (rt_mem s))"
  using bag_inv_block by (fastforce simp: sched_mem_ok_def sched_blocks_def)

lemma sched_own: "sched_inv sc s \<Longrightarrow> live m = live (rt_mem s) \<Longrightarrow> footprint (sched_blocks sc) (rt_mem s) (sched_blocks sc) m"
  unfolding sched_inv_def by (rule footprint_same [OF _ sched_blocks_live]) simp_all

lemma sched_inv_size:
  assumes "sched_mem_ok sc s"
  shows "bag_size (sc_tasks sc) = length (bag_list (sc_tasks sc))"
  using assms length_bag_list by (fastforce simp: sched_mem_ok_def)

lemma sched_nth:
  assumes "sched_inv sc s" and "i < length (bag_list (sc_tasks sc))"
  shows "ht_bag_nth (sc_tasks sc) i (rt_mem s) = Some (bag_list (sc_tasks sc) ! i)"
    and "rt_mem s' = rt_mem s \<Longrightarrow> task_of s' = task_of s \<Longrightarrow>
      read_task (bag_list (sc_tasks sc) ! i) s' = Some (tasks sc s ! i)"
proof -
  let ?a = "bag_list (sc_tasks sc) ! i"
  have a: "?a \<in> set (bag_list (sc_tasks sc))" using assms(2) by simp
  show "ht_bag_nth (sc_tasks sc) i (rt_mem s) = Some ?a"
    using assms by (intro ptr_bag.nth_law) (auto simp: sched_inv_def sched_mem_ok_def)
  have "live (rt_mem s) ?a \<noteq> None" "task_of s ?a \<noteq> None"
    using assms(1) a by (auto simp: sched_inv_def sched_mem_ok_def)
  then show "read_task ?a s' = Some (tasks sc s ! i)" if "rt_mem s' = rt_mem s" "task_of s' = task_of s"
    using assms(2) that by (auto simp: read_task_def tasks_def)
qed

text \<open>Removing a task and releasing its block.\<close>

lemma sched_remove:
  assumes inv: "sched_mem_ok sc s" and n: "n < length (bag_list (sc_tasks sc))"
  obtains b m where "ht_bag_remove_nth sizeof_void_ptr (sc_tasks sc) n (rt_mem s) = Some (b, m)"
    and "alloc_wf m" and "bag_inv sizeof_void_ptr b m" and "bag_list b = swap_remove n (bag_list (sc_tasks sc))"
    and "moved (bag_block (sc_tasks sc)) (rt_mem s) (bag_block b) m"
  using ptr_bag.remove_law [of "sc_tasks sc" "rt_mem s" n] assms by (auto simp: sched_mem_ok_def)

lemma set_swap_remove:
  assumes "distinct xs" and "n < length xs"
  shows "distinct (swap_remove n xs)" and "set (swap_remove n xs) = set xs - {xs ! n}"
proof -
  have "mset (swap_remove n xs) = mset_set (set xs) - {#xs ! n#}"
    using mset_swap_remove [OF assms(2)] mset_set_set [OF assms(1)] by simp
  also have "\<dots> = mset_set (set xs - {xs ! n})" using assms(2) by (simp add: mset_set_Diff)
  finally show set: "set (swap_remove n xs) = set xs - {xs ! n}" by (metis finite_Diff finite_set_mset_mset_set List.finite_set set_mset_mset)
  have "card (set xs) = length xs" using assms(1) by (rule distinct_card)
  then have "card (set (swap_remove n xs)) = length (swap_remove n xs)" using assms(2) by (simp add: set)
  then show "distinct (swap_remove n xs)" by (rule card_distinct)
qed

lemma sched_removed:
  assumes inv: "sched_mem_ok sc s" and n: "n < length (bag_list (sc_tasks sc))"
  obtains b m m' where "ht_bag_remove_nth sizeof_void_ptr (sc_tasks sc) n (rt_mem s) = Some (b, m)"
    and "ht_free (Some (bag_list (sc_tasks sc) ! n)) m = Some m'"
    and "bag_list b = swap_remove n (bag_list (sc_tasks sc))"
    and "sched_mem_ok (sc\<lparr>sc_tasks := b\<rparr>) (s\<lparr>rt_mem := m'\<rparr>)"
    and "footprint (sched_blocks sc) (rt_mem s) (sched_blocks (sc\<lparr>sc_tasks := b\<rparr>)) m'"
proof -
  let ?b = "sc_tasks sc" and ?L = "bag_list (sc_tasks sc)"
  from sched_remove [OF assms] obtain b m where run: "ht_bag_remove_nth sizeof_void_ptr ?b n (rt_mem s) = Some (b, m)"
    and wf: "alloc_wf m" and bag: "bag_inv sizeof_void_ptr b m" and list: "bag_list b = swap_remove n ?L"
    and mv: "moved (bag_block ?b) (rt_mem s) (bag_block b) m" .
  have dist: "distinct ?L" using inv by (simp add: sched_mem_ok_def)
  have keep: "live m a = live (rt_mem s) a \<and> a \<noteq> bag_block b"
    if "live (rt_mem s) a \<noteq> None" "a \<noteq> bag_block ?b" for a
    using moved_frame [OF mv that(2,1)] moved_fresh [OF mv that(2,1)] by auto
  let ?a = "?L ! n"
  have a: "?a \<in> set ?L" using n by simp
  have la: "live m ?a \<noteq> None" "?a \<noteq> bag_block b" using keep [of ?a] inv a by (auto simp: sched_mem_ok_def)
  from ht.free_law [OF wf la(1)] obtain m' where m': "ht_free (Some ?a) m = Some m'" "alloc_wf m'"
    "live m' = (live m)(?a := None)" by blast
  have "bag_inv sizeof_void_ptr b m'" using bag la(2) m'(3) by (intro bag_inv_frame [OF bag]) auto
  then have "sched_mem_ok (sc\<lparr>sc_tasks := b\<rparr>) (s\<lparr>rt_mem := m'\<rparr>)"
    using inv m' keep set_swap_remove [OF dist n] a by (auto simp: sched_mem_ok_def list)
  moreover have "footprint (sched_blocks sc) (rt_mem s) (sched_blocks (sc\<lparr>sc_tasks := b\<rparr>)) m'"
  proof -
    let ?B = "insert (sc_addr sc) (set ?L)"
    have B: "?B \<subseteq> dom (live (rt_mem s))" "{bag_block ?b} \<inter> ?B = {}" using inv by (auto simp: sched_mem_ok_def)
    note one = footprint_extend [OF moved_footprint [OF mv] this]
    have "insert (sc_addr sc) (insert (bag_block b) (set ?L - {?a})) \<subseteq> dom (live m)"
      "{?a} \<inter> insert (sc_addr sc) (insert (bag_block b) (set ?L - {?a})) = {}"
      using one la inv a by (auto simp: footprint_def sched_mem_ok_def)
    from footprint_extend [OF footprint_free [OF m'(3)] this] one
    have "footprint ({bag_block ?b} \<union> ?B) (rt_mem s) (insert (sc_addr sc) (insert (bag_block b) (set ?L - {?a}))) m'"
      using a by (auto simp: insert_absorb insert_commute intro: footprint_trans)
    then show ?thesis by (simp add: sched_blocks_def list set_swap_remove [OF dist n] insert_commute)
  qed
  ultimately show thesis using run m'(1) list that by blast
qed

lemma map_swap_remove: "n < length xs \<Longrightarrow> map f (swap_remove n xs) = swap_remove n (map f xs)"
  by (cases "xs = []") (simp_all add: swap_remove_alt map_update take_map last_map)

lemma swap_remove_split:
  assumes "n < length xs"
  shows "take n (swap_remove n xs) = take n xs" and "mset (drop n (swap_remove n xs)) = mset (drop (Suc n) xs)"
proof -
  show t: "take n (swap_remove n xs) = take n xs" using assms by (simp add: swap_remove_alt)
  have "mset xs = mset (take n xs) + {#xs ! n#} + mset (drop (Suc n) xs)"
    using assms by (metis id_take_nth_drop mset_append mset.simps(2) add_mset_add_single union_mset_add_mset_right union_mset_add_mset_left)
  moreover have "mset (swap_remove n xs) = mset (take n xs) + mset (drop n (swap_remove n xs))"
    by (metis append_take_drop_id mset_append t)
  ultimately show "mset (drop n (swap_remove n xs)) = mset (drop (Suc n) xs)"
    using mset_swap_remove [OF assms] by simp
qed

section \<open>What a tick does\<close>

text \<open>One task, with the number of clock readings so far and the state of the callbacks.\<close>

definition run_task ::
  "(nat \<Rightarrow> HT_TimestampNs) \<Rightarrow> 'w HT_Task \<Rightarrow> nat \<times> 'w \<Rightarrow> ('w HT_Task option \<times> nat \<times> 'w) option" where
  "run_task clk task st =
     (case st of (k, w) \<Rightarrow>
        if task_next_action_ts task > clk k then Some (Some task, k + 1, w)
        else do {
          (again, w) \<leftarrow> task_callback task (task_user_data task) w;
          if \<not> again then Some (None, k + 1, w)
          else if task_mode task = HT_TASK_SCHEDULING_IGNORE_DELAYS
          then Some (Some (task\<lparr>task_next_action_ts := task_next_action_ts task + task_period task\<rparr>), k + 1, w)
          else Some (Some (task\<lparr>task_next_action_ts := clk (k + 1) + task_period task\<rparr>), k + 2, w) })"

fun run_tasks ::
  "(nat \<Rightarrow> HT_TimestampNs) \<Rightarrow> 'w HT_Task list \<Rightarrow> nat \<times> 'w \<Rightarrow> ('w HT_Task list \<times> nat \<times> 'w) option" where
  "run_tasks clk [] st = Some ([], st)"
| "run_tasks clk (t # ts) st =
     do { (r, st) \<leftarrow> run_task clk t st;
          (rs, st) \<leftarrow> run_tasks clk ts st;
          Some ((case r of None \<Rightarrow> rs | Some t \<Rightarrow> t # rs), st) }"

definition callbacks_return :: "'w HT_Task list \<Rightarrow> bool" where
  "callbacks_return ts \<longleftrightarrow> (\<forall>t\<in>set ts. \<forall>w. task_callback t (task_user_data t) w \<noteq> None)"

text \<open>The three things that can happen to a task.\<close>

lemma sched_same:
  assumes "rt_mem s' = rt_mem s" and "task_of s' = task_of s"
  shows "sched_inv sc s' = sched_inv sc s" and "tasks sc s' = tasks sc s"
  using assms by (simp_all add: sched_inv_def sched_mem_ok_def tasks_def)

lemma sched_update:
  assumes inv: "sched_inv sc s" and i: "i < length (tasks sc s)" and t: "task_id t = task_id (tasks sc s ! i)"
  defines "s' \<equiv> s\<lparr>task_of := (task_of s)(bag_list (sc_tasks sc) ! i \<mapsto> t)\<rparr>"
  shows "tasks sc s' = (tasks sc s)[i := t]" and "sched_inv sc s'"
proof -
  let ?L = "bag_list (sc_tasks sc)"
  have len: "i < length ?L" using i by (simp add: tasks_def)
  have dist: "distinct ?L" using inv by (simp add: sched_inv_def sched_mem_ok_def)
  show ts: "tasks sc s' = (tasks sc s)[i := t]"
    using len dist by (intro nth_equalityI) (auto simp: tasks_def s'_def nth_list_update nth_eq_iff_index_eq)
  have ids: "map task_id (tasks sc s') = map task_id (tasks sc s)"
    using t i by (simp add: ts map_update) (metis list_update_id nth_map)
  then have "(\<forall>t\<in>set (tasks sc s'). P (task_id t)) = (\<forall>t\<in>set (tasks sc s). P (task_id t))" for P
    by (metis (no_types, lifting) imageE image_eqI list.set_map)
  from this [of "\<lambda>x. 0 \<le> x \<and> x < sc_next_task_id sc"] show "sched_inv sc s'"
    using inv ids unfolding sched_inv_def by (auto simp: s'_def sched_mem_ok_def)
qed

lemma sched_inv_removed:
  assumes inv: "sched_inv sc s" and i: "i < length (tasks sc s)" and b: "bag_list b = swap_remove i (bag_list (sc_tasks sc))"
    and mem: "sched_mem_ok (sc\<lparr>sc_tasks := b\<rparr>) (s\<lparr>rt_mem := m\<rparr>)"
  shows "tasks (sc\<lparr>sc_tasks := b\<rparr>) (s\<lparr>rt_mem := m\<rparr>) = swap_remove i (tasks sc s)"
    and "sched_inv (sc\<lparr>sc_tasks := b\<rparr>) (s\<lparr>rt_mem := m\<rparr>)"
proof -
  let ?ts = "tasks sc s" and ?L = "bag_list (sc_tasks sc)"
  have len: "i < length ?L" using i by (simp add: tasks_def)
  show ts: "tasks (sc\<lparr>sc_tasks := b\<rparr>) (s\<lparr>rt_mem := m\<rparr>) = swap_remove i ?ts"
    using len by (simp add: tasks_def b map_swap_remove)
  have "distinct ?L" using inv by (simp add: sched_inv_def sched_mem_ok_def)
  note L = set_swap_remove [OF this len]
  have ids: "map task_id (swap_remove i ?ts) = swap_remove i (map task_id ?ts)" using i by (rule map_swap_remove)
  have "distinct (map task_id ?ts)" "i < length (map task_id ?ts)" using inv i by (simp_all add: sched_inv_def)
  note I = set_swap_remove [OF this]
  have "set (swap_remove i ?ts) \<subseteq> set ?ts"
    using mset_swap_remove [OF i] by (metis set_mset_mset set_mset_mono diff_subset_eq_self)
  then show "sched_inv (sc\<lparr>sc_tasks := b\<rparr>) (s\<lparr>rt_mem := m\<rparr>)"
    using inv mem L I unfolding sched_inv_def ts by (auto simp: b ids)
qed

text \<open>The state after one task: what stays of it, if anything.\<close>

lemma tick_step:
  assumes inv: "sched_inv sc s" and i: "i < length (tasks sc s)" and cb: "callbacks_return (tasks sc s)"
  shows "\<exists>r k w sc' s' j. run_task (rt_clock s) (tasks sc s ! i) (rt_ticks s, sched_world s) = Some (r, k, w) \<and>
    tick_from i sc s = tick_from j sc' s' \<and> sched_inv sc' s' \<and> rt_ticks s' = k \<and> sched_world s' = w \<and>
    rt_clock s' = rt_clock s \<and> callbacks_return (tasks sc' s') \<and> footprint (sched_blocks sc) (rt_mem s) (sched_blocks sc') (rt_mem s') \<and>
    take j (tasks sc' s') = take i (tasks sc s) @ (case r of None \<Rightarrow> [] | Some t \<Rightarrow> [t]) \<and>
    mset (drop j (tasks sc' s')) = mset (drop (Suc i) (tasks sc s)) \<and> j \<le> length (tasks sc' s')"
proof -
  let ?ts = "tasks sc s" and ?L = "bag_list (sc_tasks sc)" and ?t = "tasks sc s ! i" and ?clk = "rt_clock s"
  have len: "i < length ?L" "i < bag_size (sc_tasks sc)"
    using i sched_inv_size [of sc s] inv by (simp_all add: tasks_def sched_inv_def)
  let ?s1 = "s\<lparr>rt_ticks := rt_ticks s + 1\<rparr>"
  note nth = sched_nth(1) [OF inv len(1)] and rd = sched_nth(2) [OF inv len(1), of ?s1]
  have take: "take (Suc i) ?ts = take i ?ts @ [?t]" using i by (simp add: take_Suc_conv_app_nth)
  note own = sched_own [OF inv refl]
  show ?thesis
  proof (cases "task_next_action_ts ?t > ?clk (rt_ticks s)")
    case True
    have "run_task ?clk ?t (rt_ticks s, sched_world s) = Some (Some ?t, rt_ticks s + 1, sched_world s)"
      using True by (simp add: run_task_def)
    moreover have "tick_from i sc s = tick_from (Suc i) sc ?s1"
      using len nth rd True by (subst tick_from.simps) (simp add: ht_monotonic_clock_get_timestamp_def)
    moreover have "sched_inv sc ?s1" "tasks sc ?s1 = ?ts"
      using sched_same [of ?s1 s sc] inv by simp_all
    ultimately show ?thesis
      using i cb take own
      by (intro exI [of _ "Some ?t"] exI [of _ "rt_ticks s + 1"] exI [of _ "sched_world s"] exI [of _ sc] exI [of _ ?s1]
          exI [of _ "Suc i"]) simp
  next
    case due: False
    obtain again w where call: "task_callback ?t (task_user_data ?t) (sched_world s) = Some (again, w)"
      using cb i by (fastforce simp: callbacks_return_def)
    let ?s2 = "?s1\<lparr>sched_world := w\<rparr>"
    have inv2: "sched_inv sc ?s2" and ts2: "tasks sc ?s2 = ?ts"
      using sched_same [of ?s2 s sc] inv by simp_all
    show ?thesis
    proof (cases again)
      case False
      have "sched_mem_ok sc ?s2" using inv2 by (simp add: sched_inv_def)
      from sched_removed [OF this len(1)] obtain b m m' where
        run: "ht_bag_remove_nth sizeof_void_ptr (sc_tasks sc) i (rt_mem ?s2) = Some (b, m)"
        "ht_free (Some (?L ! i)) m = Some m'" and b: "bag_list b = swap_remove i ?L"
        and mem: "sched_mem_ok (sc\<lparr>sc_tasks := b\<rparr>) (?s2\<lparr>rt_mem := m'\<rparr>)"
        and fp: "footprint (sched_blocks sc) (rt_mem ?s2) (sched_blocks (sc\<lparr>sc_tasks := b\<rparr>)) m'" .
      note new = sched_inv_removed [OF inv2 _ b mem, unfolded ts2, OF i]
      have "run_task ?clk ?t (rt_ticks s, sched_world s) = Some (None, rt_ticks s + 1, w)"
        using due call False by (simp add: run_task_def)
      moreover have "tick_from i sc s = tick_from i (sc\<lparr>sc_tasks := b\<rparr>) (?s2\<lparr>rt_mem := m'\<rparr>)"
        using len nth rd due call False run
        by (subst tick_from.simps) (simp add: ht_monotonic_clock_get_timestamp_def)
      moreover have "callbacks_return (swap_remove i ?ts)"
        using cb mset_swap_remove [OF i] unfolding callbacks_return_def by (metis in_diffD set_mset_mset)
      ultimately show ?thesis
        using new swap_remove_split [OF i] i fp
        by (intro exI [of _ None] exI [of _ "rt_ticks s + 1"] exI [of _ w] exI [of _ "sc\<lparr>sc_tasks := b\<rparr>"]
            exI [of _ "?s2\<lparr>rt_mem := m'\<rparr>"] exI [of _ i]) simp
    next
      case True
      obtain ts k where nx: "next_action ?t ?s2 = (ts, ?s2\<lparr>rt_ticks := k\<rparr>)"
        and run: "run_task ?clk ?t (rt_ticks s, sched_world s) = Some (Some (?t\<lparr>task_next_action_ts := ts\<rparr>), k, w)"
        using due call True
        by (cases "task_mode ?t") (simp_all add: next_action_def run_task_def ht_monotonic_clock_get_timestamp_def)
      let ?t' = "?t\<lparr>task_next_action_ts := ts\<rparr>" and ?s3 = "?s2\<lparr>rt_ticks := k\<rparr>"
      let ?s4 = "?s3\<lparr>task_of := (task_of ?s3)(?L ! i \<mapsto> ?t')\<rparr>"
      have inv3: "sched_inv sc ?s3" and ts3: "tasks sc ?s3 = ?ts"
        using sched_same [of ?s3 s sc] inv by simp_all
      note new = sched_update [OF inv3, unfolded ts3, OF i, of ?t']
      have "tick_from i sc s = tick_from (Suc i) sc ?s4"
        using len nth rd due call True nx
        by (subst tick_from.simps) (simp add: ht_monotonic_clock_get_timestamp_def)
      moreover have "callbacks_return (?ts[i := ?t'])"
        using cb i unfolding callbacks_return_def by (auto dest!: set_update_subset_insert [THEN subsetD])
      ultimately show ?thesis
        using new run i own
        by (intro exI [of _ "Some ?t'"] exI [of _ k] exI [of _ w] exI [of _ sc] exI [of _ ?s4] exI [of _ "Suc i"])
          (simp add: take_Suc_conv_app_nth)
    qed
  qed
qed

lemma tick_from_ok:
  assumes "sched_inv sc s" and "i \<le> length (tasks sc s)" and "callbacks_return (tasks sc s)"
  shows "\<exists>sc' s' order kept. tick_from i sc s = Some (sc', s') \<and> sched_inv sc' s' \<and>
    mset order = mset (drop i (tasks sc s)) \<and>
    run_tasks (rt_clock s) order (rt_ticks s, sched_world s) = Some (kept, rt_ticks s', sched_world s') \<and>
    mset (tasks sc' s') = mset (take i (tasks sc s) @ kept) \<and> callbacks_return (tasks sc' s') \<and>
    footprint (sched_blocks sc) (rt_mem s) (sched_blocks sc') (rt_mem s')"
  using assms
proof (induction "length (drop i (tasks sc s))" arbitrary: i sc s)
  case 0
  then have "\<not> i < bag_size (sc_tasks sc)" using sched_inv_size [of sc s] by (simp add: tasks_def sched_inv_def)
  then have "tick_from i sc s = Some (sc, s)" by (subst tick_from.simps) simp
  moreover note sched_own [OF 0(2) refl]
  ultimately show ?case using 0 by (intro exI [of _ sc] exI [of _ s] exI [of _ "[]"]) simp
next
  case (Suc n)
  then have i: "i < length (tasks sc s)" by simp
  from tick_step [OF Suc.prems(1) i Suc.prems(3)] obtain r k w sc1 s1 j where
    one: "run_task (rt_clock s) (tasks sc s ! i) (rt_ticks s, sched_world s) = Some (r, k, w)"
    and eq: "tick_from i sc s = tick_from j sc1 s1" and inv: "sched_inv sc1 s1" and k: "rt_ticks s1 = k" "sched_world s1 = w"
    and clk: "rt_clock s1 = rt_clock s" and cb: "callbacks_return (tasks sc1 s1)"
    and fp1: "footprint (sched_blocks sc) (rt_mem s) (sched_blocks sc1) (rt_mem s1)"
    and take: "take j (tasks sc1 s1) = take i (tasks sc s) @ (case r of None \<Rightarrow> [] | Some t \<Rightarrow> [t])"
    and drop: "mset (drop j (tasks sc1 s1)) = mset (drop (Suc i) (tasks sc s))" and j: "j \<le> length (tasks sc1 s1)" by blast
  have "n = length (drop j (tasks sc1 s1))" using Suc.hyps(2) mset_eq_length [OF drop] by simp
  from Suc.hyps(1) [OF this inv j cb] obtain sc' s' order kept where
    run: "tick_from j sc1 s1 = Some (sc', s')" "sched_inv sc' s'" and order: "mset order = mset (drop j (tasks sc1 s1))"
    and rest: "run_tasks (rt_clock s) order (k, w) = Some (kept, rt_ticks s', sched_world s')"
    and kept: "mset (tasks sc' s') = mset (take j (tasks sc1 s1) @ kept)" and cb': "callbacks_return (tasks sc' s')"
    and fp: "footprint (sched_blocks sc1) (rt_mem s1) (sched_blocks sc') (rt_mem s')" unfolding clk k by blast
  let ?kept = "case r of None \<Rightarrow> kept | Some t \<Rightarrow> t # kept"
  have "run_tasks (rt_clock s) (tasks sc s ! i # order) (rt_ticks s, sched_world s) = Some (?kept, rt_ticks s', sched_world s')"
    using one rest by simp
  moreover have "mset (tasks sc s ! i # order) = mset (drop i (tasks sc s))"
    using order drop i by (simp flip: Cons_nth_drop_Suc)
  moreover have "mset (tasks sc' s') = mset (take i (tasks sc s) @ ?kept)"
    using kept take by (cases r) simp_all
  ultimately show ?case using eq run cb' footprint_trans [OF fp1 fp] by metis
qed

section \<open>Periods\<close>

lemma unat_greatest_common_divisor: "unat (greatest_common_divisor a b) = gcd (unat a) (unat b)"
proof (induction a b rule: greatest_common_divisor.induct)
  case (1 a b)
  show ?case
  proof (cases "b = 0")
    case False
    with 1 show ?thesis
      by (subst greatest_common_divisor.simps) (simp add: unat_mod_distrib gcd_red_nat [of "unat a"])
  qed (subst greatest_common_divisor.simps, simp)
qed

lemma tick_period_from_ok:
  assumes "sched_inv sc s" and "i \<le> length (tasks sc s)"
  shows "\<exists>p'. tick_period_from i p sc s = Some p' \<and>
    unat p' = gcd (unat p) (Gcd (set (map (\<lambda>t. unat (task_period t)) (drop i (tasks sc s)))))"
  using assms
proof (induction "length (drop i (tasks sc s))" arbitrary: i p)
  case 0
  then have "\<not> i < bag_size (sc_tasks sc)" using sched_inv_size [of sc s] by (simp add: tasks_def sched_inv_def)
  with 0 show ?case by (subst tick_period_from.simps) simp
next
  case (Suc n)
  then have i: "i < length (tasks sc s)" by simp
  then have len: "i < length (bag_list (sc_tasks sc))" "i < bag_size (sc_tasks sc)"
    using sched_inv_size [of sc s] Suc.prems(1) by (simp_all add: tasks_def sched_inv_def)
  let ?t = "tasks sc s ! i"
  let ?p = "if task_period ?t = 0 then p else if p = 0 then task_period ?t else greatest_common_divisor p (task_period ?t)"
  have step: "tick_period_from i p sc s = tick_period_from (Suc i) ?p sc s"
    using len sched_nth(1) [OF Suc.prems(1) len(1)] sched_nth(2) [OF Suc.prems(1) len(1) refl refl]
    by (subst tick_period_from.simps) simp
  have "n = length (drop (Suc i) (tasks sc s))" "Suc i \<le> length (tasks sc s)" using Suc.hyps(2) i by simp_all
  from Suc.hyps(1) [OF this(1) Suc.prems(1) this(2), of ?p] obtain p' where p': "tick_period_from (Suc i) ?p sc s = Some p'"
    "unat p' = gcd (unat ?p) (Gcd (set (map (\<lambda>t. unat (task_period t)) (drop (Suc i) (tasks sc s)))))" by blast
  have "unat ?p = gcd (unat p) (unat (task_period ?t))" by (simp add: unat_greatest_common_divisor)
  with p' step i show ?case by (simp add: gcd.assoc flip: Cons_nth_drop_Suc)
qed

section \<open>Removing a task\<close>

lemma remove_task_entry_absent:
  assumes "bag_inv sizeof_void_ptr b m" and "a \<notin> set (drop i (bag_list b))" and "i \<le> length (bag_list b)"
  shows "remove_task_entry_from i a b m = Some (b, m)"
  using assms
proof (induction "length (drop i (bag_list b))" arbitrary: i)
  case 0
  then have "\<not> i < bag_size b" using length_bag_list [of sizeof_void_ptr b m] by simp
  then show ?case by (subst remove_task_entry_from.simps) simp
next
  case (Suc n)
  then have i: "i < length (bag_list b)" "i < bag_size b" using length_bag_list [of sizeof_void_ptr b m] by auto
  have "bag_list b ! i \<noteq> a" using Suc.prems(2) i(1) by (auto simp flip: Cons_nth_drop_Suc)
  moreover have "a \<notin> set (drop (Suc i) (bag_list b))" using Suc.prems(2) i(1) by (auto simp flip: Cons_nth_drop_Suc)
  ultimately show ?case
    using Suc.hyps(1) [of "Suc i"] Suc.hyps(2) Suc.prems i ptr_bag.nth_law [OF Suc.prems(1) i(1)]
    by (subst remove_task_entry_from.simps) simp
qed

lemma remove_task_entry_ok:
  assumes "sched_mem_ok sc s" and "n < length (bag_list (sc_tasks sc))"
    and run: "ht_bag_remove_nth sizeof_void_ptr (sc_tasks sc) n (rt_mem s) = Some (b, m)"
  shows "ht_task_scheduler_remove_task_entry (sc_tasks sc) (bag_list (sc_tasks sc) ! n) (rt_mem s) = Some (b, m)"
proof -
  let ?L = "bag_list (sc_tasks sc)"
  have dist: "distinct ?L" and bag: "bag_inv sizeof_void_ptr (sc_tasks sc) (rt_mem s)"
    using assms(1) by (simp_all add: sched_mem_ok_def)
  have size: "bag_size (sc_tasks sc) = length ?L" using sched_inv_size [OF assms(1)] .
  from sched_remove [OF assms(1,2)] run have b: "bag_inv sizeof_void_ptr b m" "bag_list b = swap_remove n ?L"
    by auto
  have "remove_task_entry_from j (?L ! n) (sc_tasks sc) (rt_mem s) = Some (b, m)" if "j \<le> n" for j
    using that
  proof (induction "n - j" arbitrary: j)
    case 0
    then have "j = n" by simp
    moreover have "remove_task_entry_from (Suc n) (?L ! n) b m = Some (b, m)"
    proof (cases "Suc n \<le> length (bag_list b)")
      case True
      have "?L ! n \<notin> set (bag_list b)" using set_swap_remove(2) [OF dist assms(2)] b(2) by simp
      then show ?thesis using b(1) True by (intro remove_task_entry_absent) (auto dest: in_set_dropD)
    next
      case False
      then have "\<not> Suc n < bag_size b" using length_bag_list [OF b(1)] by simp
      then show ?thesis by (subst remove_task_entry_from.simps) simp
    qed
    ultimately show ?case
      using run size assms(2) ptr_bag.nth_law [OF bag assms(2)]
      by (subst remove_task_entry_from.simps) simp
  next
    case (Suc d)
    then have j: "j < n" "j < length ?L" using assms(2) by simp_all
    then have "?L ! j \<noteq> ?L ! n" using dist assms(2) by (simp add: nth_eq_iff_index_eq)
    with Suc j show ?case
      using ptr_bag.nth_law [OF bag j(2)] size by (subst remove_task_entry_from.simps) simp
  qed
  from this [of 0] show ?thesis by (simp add: ht_task_scheduler_remove_task_entry_def)
qed

lemma mset_remove_key:
  assumes "distinct (map f xs)" and "n < length xs"
  shows "mset xs - {#xs ! n#} = filter_mset (\<lambda>x. f x \<noteq> f (xs ! n)) (mset xs)"
proof -
  have xs: "xs = take n xs @ xs ! n # drop (Suc n) xs" using assms(2) by (rule id_take_nth_drop)
  have "\<forall>x\<in>set (take n xs @ drop (Suc n) xs). f x \<noteq> f (xs ! n)"
    using assms(1) by (subst (asm) xs) (auto simp: image_iff)
  then have "filter (\<lambda>x. f x \<noteq> f (xs ! n)) (take n xs @ xs ! n # drop (Suc n) xs) = take n xs @ drop (Suc n) xs"
    by (simp add: filter_id_conv)
  then have "filter_mset (\<lambda>x. f x \<noteq> f (xs ! n)) (mset xs) = mset (take n xs @ drop (Suc n) xs)"
    using xs by (metis mset_filter)
  moreover have "mset xs - {#xs ! n#} = mset (take n xs @ drop (Suc n) xs)" by (subst (1) xs) simp
  ultimately show ?thesis by simp
qed

lemma remove_task_from_ok:
  assumes "sched_inv sc s" and "i \<le> length (tasks sc s)" and "tid \<notin> set (map task_id (take i (tasks sc s)))"
  shows "\<exists>sc' s'. remove_task_from i sc tid s = Some (tid \<in> set (map task_id (tasks sc s)), sc', s') \<and>
    sched_inv sc' s' \<and> mset (tasks sc' s') = filter_mset (\<lambda>t. task_id t \<noteq> tid) (mset (tasks sc s)) \<and>
    footprint (sched_blocks sc) (rt_mem s) (sched_blocks sc') (rt_mem s')"
  using assms
proof (induction "length (drop i (tasks sc s))" arbitrary: i)
  case 0
  then have "\<not> i < bag_size (sc_tasks sc)" using sched_inv_size [of sc s] by (simp add: tasks_def sched_inv_def)
  moreover have "filter_mset (\<lambda>t. task_id t \<noteq> tid) (mset (tasks sc s)) = mset (tasks sc s)"
    using 0 by (auto simp: filter_mset_eq_conv)
  moreover note sched_own [OF 0(2) refl]
  ultimately show ?case using 0 by (subst remove_task_from.simps) auto
next
  case (Suc n)
  let ?L = "bag_list (sc_tasks sc)" and ?t = "tasks sc s ! i"
  have i: "i < length (tasks sc s)" using Suc.hyps(2) by simp
  then have len: "i < length ?L" "i < bag_size (sc_tasks sc)"
    using sched_inv_size [of sc s] Suc.prems(1) by (simp_all add: tasks_def sched_inv_def)
  note nth = sched_nth(1) [OF Suc.prems(1) len(1)] and rd = sched_nth(2) [OF Suc.prems(1) len(1) refl refl]
  show ?case
  proof (cases "task_id ?t = tid")
    case True
    have mem: "sched_mem_ok sc s" using Suc.prems(1) by (simp add: sched_inv_def)
    from sched_removed [OF this len(1)] obtain b m m' where
      run: "ht_bag_remove_nth sizeof_void_ptr (sc_tasks sc) i (rt_mem s) = Some (b, m)"
      "ht_free (Some (?L ! i)) m = Some m'" and b: "bag_list b = swap_remove i ?L"
      and ok: "sched_mem_ok (sc\<lparr>sc_tasks := b\<rparr>) (s\<lparr>rt_mem := m'\<rparr>)"
      and fp: "footprint (sched_blocks sc) (rt_mem s) (sched_blocks (sc\<lparr>sc_tasks := b\<rparr>)) m'" .
    note new = sched_inv_removed [OF Suc.prems(1) i b ok]
    have "distinct (map task_id (tasks sc s))" using Suc.prems(1) by (simp add: sched_inv_def)
    note rm = mset_remove_key [OF this i]
    have "remove_task_from i sc tid s = Some (True, sc\<lparr>sc_tasks := b\<rparr>, s\<lparr>rt_mem := m'\<rparr>)"
      using len nth rd True run remove_task_entry_ok [OF mem len(1) run(1)]
      by (subst remove_task_from.simps) simp
    moreover have "tid \<in> set (map task_id (tasks sc s))" using True i by force
    ultimately show ?thesis
      using new rm True mset_swap_remove [OF i] fp
      by (intro exI [of _ "sc\<lparr>sc_tasks := b\<rparr>"] exI [of _ "s\<lparr>rt_mem := m'\<rparr>"]) simp
  next
    case False
    have "remove_task_from i sc tid s = remove_task_from (Suc i) sc tid s"
      using len nth rd False by (subst remove_task_from.simps) simp
    moreover have "tid \<notin> set (map task_id (take (Suc i) (tasks sc s)))"
      using Suc.prems(3) False i by (auto simp: take_Suc_conv_app_nth)
    moreover have "n = length (drop (Suc i) (tasks sc s))" "Suc i \<le> length (tasks sc s)" using Suc.hyps(2) i by simp_all
    ultimately show ?thesis using Suc.hyps(1) [of "Suc i"] Suc.prems(1) by simp
  qed
qed

section \<open>Scheduling and destruction\<close>

text \<open>The reasons for which no task is added, and what is left in each case.\<close>

definition schedule_refused ::
  "'w HT_TaskCallback option \<Rightarrow> HT_TaskScheduler \<Rightarrow> ('w, 's) sched_rt_scheme \<Rightarrow> HT_TaskScheduler \<Rightarrow> ('w, 's) sched_rt_scheme \<Rightarrow> bool" where
  "schedule_refused callback sc s sc' s' \<longleftrightarrow>
     (callback = None \<or> sc_next_task_id sc = HT_INT32_MAX) \<and> sc' = sc \<and> s' = s \<or>
     (\<exists>m. ht_alloc sizeof_HT_Task (rt_mem s) = Some (None, m) \<and> sc' = sc \<and> s' = s\<lparr>rt_mem := m\<rparr> \<and> live m = live (rt_mem s)) \<or>
     (\<exists>a m m'. ht_alloc sizeof_HT_Task (rt_mem s) = Some (Some a, m) \<and>
        ht_bag_add sizeof_void_ptr (sc_tasks sc) a m = Some (HT_ERR_OUT_OF_MEMORY, sc_tasks sc, m') \<and>
        sc' = sc\<lparr>sc_next_task_id := sc_next_task_id sc + 1\<rparr> \<and> rt_mem s' = m' \<and>
        live (rt_mem s) a = None \<and> live m' = (live (rt_mem s))(a \<mapsto> sizeof_HT_Task))"

lemma schedule_ok:
  assumes inv: "sched_inv sc s"
  shows "\<exists>tid sc' s'. ht_task_scheduler_schedule_task sc mode period callback ud s = Some (tid, sc', s') \<and> sched_inv sc' s' \<and>
    (if tid = HT_TASK_SCHEDULER_INVALID_TASK_ID then tasks sc' s' = tasks sc s \<and> schedule_refused callback sc s sc' s'
     else tid = sc_next_task_id sc \<and> sc_next_task_id sc' = tid + 1 \<and> footprint (sched_blocks sc) (rt_mem s) (sched_blocks sc') (rt_mem s') \<and>
       (\<exists>cb. callback = Some cb \<and> tasks sc' s' = tasks sc s @
          [\<lparr>task_callback = cb, task_user_data = ud, task_period = period,
            task_next_action_ts = rt_clock s (rt_ticks s) + period, task_id = tid, task_mode = mode\<rparr>]))"
proof (cases "callback = None \<or> sc_next_task_id sc = HT_INT32_MAX")
  case True
  then show ?thesis using inv by (cases callback) (auto simp: ht_task_scheduler_schedule_task_def schedule_refused_def)
next
  case False
  then obtain cb where cb: "callback = Some cb" and max: "sc_next_task_id sc \<noteq> HT_INT32_MAX" by auto
  let ?L = "bag_list (sc_tasks sc)" and ?id = "sc_next_task_id sc"
  have mem: "alloc_wf (rt_mem s)" "bag_inv sizeof_void_ptr (sc_tasks sc) (rt_mem s)"
    using inv by (simp_all add: sched_inv_def sched_mem_ok_def)
  have id: "?id \<noteq> HT_TASK_SCHEDULER_INVALID_TASK_ID" "?id < HT_INT32_MAX"
    using inv max by (simp_all add: sched_inv_def HT_TASK_SCHEDULER_INVALID_TASK_ID_def)
  show ?thesis
  proof (cases rule: ht.alloc_cases [OF mem(1), of sizeof_HT_Task])
    case (1 m)
    then have "sched_inv sc (s\<lparr>rt_mem := m\<rparr>)" "tasks sc (s\<lparr>rt_mem := m\<rparr>) = tasks sc s"
      using inv bag_inv_same_live [OF mem(2) 1(3)] by (simp_all add: sched_inv_def sched_mem_ok_def tasks_def)
    with 1 cb max show ?thesis
      by (intro exI [of _ HT_TASK_SCHEDULER_INVALID_TASK_ID] exI [of _ sc] exI [of _ "s\<lparr>rt_mem := m\<rparr>"])
        (simp add: ht_task_scheduler_schedule_task_def schedule_refused_def)
  next
    case (2 a m)
    let ?t = "\<lparr>task_callback = cb, task_user_data = ud, task_period = period,
            task_next_action_ts = rt_clock s (rt_ticks s) + period, task_id = ?id, task_mode = mode\<rparr>"
    let ?s = "s\<lparr>rt_mem := m, rt_ticks := rt_ticks s + 1, task_of := (task_of s)(a \<mapsto> ?t)\<rparr>"
    have keep: "live m x = live (rt_mem s) x \<and> x \<noteq> a" if "live (rt_mem s) x \<noteq> None" for x using 2 that by auto
    have bag: "bag_inv sizeof_void_ptr (sc_tasks sc) m"
      using keep bag_inv_block [OF mem(2)] by (intro bag_inv_frame [OF mem(2)]) auto
    have fresh: "a \<notin> set ?L" "a \<noteq> bag_block (sc_tasks sc)" "a \<noteq> sc_addr sc"
      using inv 2(3) bag_inv_block [OF mem(2)] by (auto simp: sched_inv_def sched_mem_ok_def)
    have old: "map (\<lambda>x. the (task_of ?s x)) ?L = tasks sc s"
      using fresh(1) by (auto simp: tasks_def)
    have live: "live m x \<noteq> None \<and> x \<noteq> a" if "x \<in> set ?L \<or> x = sc_addr sc" for x
      using keep [of x] that inv by (auto simp: sched_inv_def sched_mem_ok_def)
    show ?thesis
    proof (cases rule: ptr_bag.add_cases [OF bag 2(2), of a])
      case (1 m')
      let ?sc = "sc\<lparr>sc_next_task_id := ?id + 1\<rparr>" and ?s' = "?s\<lparr>rt_mem := m'\<rparr>"
      have "ht_task_scheduler_schedule_task sc mode period callback ud s = Some (HT_TASK_SCHEDULER_INVALID_TASK_ID, ?sc, ?s')"
        using 1 2 cb max by (simp add: ht_task_scheduler_schedule_task_def ht_monotonic_clock_get_timestamp_def)
      moreover have "tasks ?sc ?s' = tasks sc s" using old by (simp add: tasks_def)
      moreover have "sched_inv ?sc ?s'"
        using inv id live 1 bag_inv_same_live [OF bag 1(3)] \<open>tasks ?sc ?s' = tasks sc s\<close>
        by (auto simp: sched_inv_def sched_mem_ok_def)
      moreover have "schedule_refused callback sc s ?sc ?s'"
        unfolding schedule_refused_def using 1 2
        by (intro disjI2 exI [of _ a] exI [of _ m] exI [of _ m']) simp
      ultimately show ?thesis
        by (intro exI [of _ HT_TASK_SCHEDULER_INVALID_TASK_ID] exI [of _ ?sc] exI [of _ ?s']) simp
    next
      case new: (2 b m')
      let ?sc = "sc\<lparr>sc_tasks := b, sc_next_task_id := ?id + 1\<rparr>" and ?s' = "?s\<lparr>rt_mem := m'\<rparr>"
      have "ht_task_scheduler_schedule_task sc mode period callback ud s = Some (?id, ?sc, ?s')"
        using new 2 cb max by (simp add: ht_task_scheduler_schedule_task_def ht_monotonic_clock_get_timestamp_def)
      moreover have ts: "tasks ?sc ?s' = tasks sc s @ [?t]" using old new(4) by (simp add: tasks_def)
      moreover have "live m' x \<noteq> None \<and> x \<noteq> bag_block b" if "x \<in> set ?L \<or> x = sc_addr sc \<or> x = a" for x
      proof -
        have "live m x \<noteq> None" "x \<noteq> bag_block (sc_tasks sc)"
          using live [of x] that fresh 2 inv by (auto simp: sched_inv_def sched_mem_ok_def)
        then show ?thesis using moved_frame [OF new(5)] moved_fresh [OF new(5)] by metis
      qed
      then have "sched_mem_ok ?sc ?s'" using inv new fresh by (auto simp: sched_inv_def sched_mem_ok_def)
      then have "sched_inv ?sc ?s'"
        using inv id new(4) unfolding sched_inv_def ts by (auto simp: sched_inv_def)
      moreover have "footprint (sched_blocks sc) (rt_mem s) (sched_blocks ?sc) m'"
      proof -
        have "sched_blocks sc \<subseteq> dom (live (rt_mem s))" using inv by (intro sched_blocks_live) (simp add: sched_inv_def)
        from footprint_extend [OF footprint_alloc [OF 2(3,4)] this] have one: "footprint (sched_blocks sc) (rt_mem s) (insert a (sched_blocks sc)) m" by simp
        let ?B = "insert a (insert (sc_addr sc) (set ?L))"
        have "?B \<subseteq> dom (live m)" "{bag_block (sc_tasks sc)} \<inter> ?B = {}"
          using one fresh inv by (auto simp: footprint_def sched_blocks_def sched_inv_def sched_mem_ok_def)
        from footprint_extend [OF moved_footprint [OF new(5)] this] have "footprint (insert a (sched_blocks sc)) m (sched_blocks ?sc) m'"
          by (simp add: sched_blocks_def new(4) insert_commute)
        with one show ?thesis by (rule footprint_trans)
      qed
      ultimately show ?thesis using cb id by (intro exI [of _ ?id] exI [of _ ?sc] exI [of _ ?s']) simp
    qed
  qed
qed

lemma free_tasks_ok:
  assumes "alloc_wf (rt_mem s)" and "bag_inv sizeof_void_ptr (sc_tasks sc) (rt_mem s)"
    and "\<forall>a\<in>set (drop i (bag_list (sc_tasks sc))). live (rt_mem s) a \<noteq> None \<and> a \<noteq> bag_block (sc_tasks sc)"
    and "distinct (bag_list (sc_tasks sc))" and "i \<le> length (bag_list (sc_tasks sc))"
  shows "\<exists>m. free_tasks_from i sc s = Some (s\<lparr>rt_mem := m\<rparr>) \<and> alloc_wf m \<and>
    live m = (live (rt_mem s)) |` (- set (drop i (bag_list (sc_tasks sc)))) \<and> bag_inv sizeof_void_ptr (sc_tasks sc) m"
  using assms
proof (induction "length (drop i (bag_list (sc_tasks sc)))" arbitrary: i s)
  case 0
  then have "\<not> i < bag_size (sc_tasks sc)" using length_bag_list [OF 0(3)] by simp
  with 0 show ?case by (subst free_tasks_from.simps) (auto intro!: exI [of _ "rt_mem s"])
next
  case (Suc n)
  let ?L = "bag_list (sc_tasks sc)"
  have i: "i < length ?L" "i < bag_size (sc_tasks sc)" using Suc.hyps(2) length_bag_list [OF Suc.prems(2)] by simp_all
  then have d: "drop i ?L = ?L ! i # drop (Suc i) ?L" by (simp add: Cons_nth_drop_Suc)
  have "live (rt_mem s) (?L ! i) \<noteq> None" "?L ! i \<noteq> bag_block (sc_tasks sc)" using Suc.prems(3) d by auto
  from ht.free_law [OF Suc.prems(1) this(1)] this(2) obtain m where
    m: "ht_free (Some (?L ! i)) (rt_mem s) = Some m" "alloc_wf m" "live m = (live (rt_mem s))(?L ! i := None)" by blast
  have bag: "bag_inv sizeof_void_ptr (sc_tasks sc) m"
    using m(3) \<open>?L ! i \<noteq> bag_block (sc_tasks sc)\<close> by (intro bag_inv_frame [OF Suc.prems(2)]) auto
  have "?L ! i \<notin> set (drop (Suc i) ?L)" using Suc.prems(4) d by (metis distinct.simps(2) distinct_drop)
  then have "\<forall>a\<in>set (drop (Suc i) ?L). live m a \<noteq> None \<and> a \<noteq> bag_block (sc_tasks sc)" using Suc.prems(3) d m(3) by auto
  moreover have "n = length (drop (Suc i) ?L)" using Suc.hyps(2) by simp
  ultimately obtain m' where
    "free_tasks_from (Suc i) sc (s\<lparr>rt_mem := m\<rparr>) = Some (s\<lparr>rt_mem := m'\<rparr>)" "alloc_wf m'"
    "live m' = (live m) |` (- set (drop (Suc i) ?L))" "bag_inv sizeof_void_ptr (sc_tasks sc) m'"
    using Suc.hyps(1) [of "Suc i" "s\<lparr>rt_mem := m\<rparr>"] Suc.prems(4) m(2) bag i by auto
  moreover have "(live m) |` (- set (drop (Suc i) ?L)) = (live (rt_mem s)) |` (- set (drop i ?L))"
    unfolding d m(3) by (auto simp: restrict_map_def fun_eq_iff)
  ultimately show ?case
    using i m ptr_bag.nth_law [OF Suc.prems(2) i(1)] by (subst free_tasks_from.simps) auto
qed

lemma destroy_ok:
  assumes "sched_mem_ok sc s"
  shows "\<exists>m. ht_task_scheduler_destroy sc s = Some (s\<lparr>rt_mem := m\<rparr>) \<and>
    live m = (live (rt_mem s)) |` (- (set (bag_list (sc_tasks sc)) \<union> {bag_block (sc_tasks sc), sc_addr sc}))"
proof -
  from free_tasks_ok [of s sc 0] assms obtain m1 where
    m1: "free_tasks_from 0 sc s = Some (s\<lparr>rt_mem := m1\<rparr>)" "alloc_wf m1"
    "live m1 = (live (rt_mem s)) |` (- set (bag_list (sc_tasks sc)))" "bag_inv sizeof_void_ptr (sc_tasks sc) m1"
    by (auto simp: sched_mem_ok_def)
  from ptr_bag.deinit_law [OF m1(4,2)] obtain b m2 where
    m2: "ht_bag_deinit (sc_tasks sc) m1 = Some (b, m2)" "alloc_wf m2" "live m2 = (live m1)(bag_block (sc_tasks sc) := None)"
    by blast
  have "live m2 (sc_addr sc) \<noteq> None" using assms m1 m2 by (auto simp: sched_mem_ok_def restrict_map_def)
  from ht.free_law [OF m2(2) this] obtain m3 where m3: "ht_free (Some (sc_addr sc)) m2 = Some m3"
    "live m3 = (live m2)(sc_addr sc := None)" by blast
  then show ?thesis
    using m1 m2 m3 by (intro exI [of _ m3]) (auto simp: ht_task_scheduler_destroy_def restrict_map_def fun_eq_iff)
qed

section \<open>Properties\<close>

text \<open>
  C25. A new task gets an identifier no other task of the scheduler has or had, is appended to the tasks,
  and is due one period after the current time; the only new block is that of the task. The invalid identifier is returned for three reasons only. Without
  a callback, or when the identifiers are used up, nothing changes. When the block of the task is refused, nothing changes but the
  allocator. When the array cannot grow, the tasks are as before, but the identifier is used up and the block of the task
  is lost. The scheduler is well-formed afterwards: different tasks in different live blocks with different identifiers.
\<close>

theorem scheduled_task_gets_new_id:
  assumes "sched_inv sc s"
  shows "\<exists>tid sc' s'. ht_task_scheduler_schedule_task sc mode period callback ud s = Some (tid, sc', s') \<and> sched_inv sc' s' \<and>
    (if tid = HT_TASK_SCHEDULER_INVALID_TASK_ID then tasks sc' s' = tasks sc s \<and> schedule_refused callback sc s sc' s'
     else tid \<notin> set (map task_id (tasks sc s)) \<and> tid < sc_next_task_id sc' \<and> callback \<noteq> None \<and>
       footprint (sched_blocks sc) (rt_mem s) (sched_blocks sc') (rt_mem s') \<and>
       tasks sc' s' = tasks sc s @
         [\<lparr>task_callback = the callback, task_user_data = ud, task_period = period,
           task_next_action_ts = rt_clock s (rt_ticks s) + period, task_id = tid, task_mode = mode\<rparr>])"
proof -
  from schedule_ok [OF assms, of mode period callback ud] obtain tid sc' s' where
    run: "ht_task_scheduler_schedule_task sc mode period callback ud s = Some (tid, sc', s')" "sched_inv sc' s'"
    and res: "if tid = HT_TASK_SCHEDULER_INVALID_TASK_ID then tasks sc' s' = tasks sc s \<and> schedule_refused callback sc s sc' s'
     else tid = sc_next_task_id sc \<and> sc_next_task_id sc' = tid + 1 \<and> footprint (sched_blocks sc) (rt_mem s) (sched_blocks sc') (rt_mem s') \<and>
       (\<exists>cb. callback = Some cb \<and> tasks sc' s' = tasks sc s @
          [\<lparr>task_callback = cb, task_user_data = ud, task_period = period,
            task_next_action_ts = rt_clock s (rt_ticks s) + period, task_id = tid, task_mode = mode\<rparr>])" by blast
  have "sc_next_task_id sc \<notin> set (map task_id (tasks sc s))" using assms by (fastforce simp: sched_inv_def)
  with run res show ?thesis
    by (intro exI [of _ tid] exI [of _ sc'] exI [of _ s']) (auto split: if_splits)
qed

definition demo_task :: "nat \<Rightarrow> HT_TimestampNs \<Rightarrow> int \<Rightarrow> nat list HT_Task" where
  "demo_task period ts i =
     \<lparr>task_callback = (\<lambda>ud w. Some (i \<noteq> 0, w @ [ud])), task_user_data = nat i, task_period = word_of_nat period,
      task_next_action_ts = ts, task_id = i, task_mode = HT_TASK_SCHEDULING_RESTART_TIMER\<rparr>"

definition demo_sched_state :: "nat list sched_rt" where
  "demo_sched_state =
     \<lparr>rt_mem = \<lparr>heap_of = \<lparr>blocks = [1 \<mapsto> 40, 2 \<mapsto> 128, 3 \<mapsto> 40, 4 \<mapsto> 40], next_addr = 5, refusals = []\<rparr>,
                realloc_fnc = None, user_data = 0\<rparr>,
      rt_locks = Map.empty, rt_ids = (\<lambda>_. 0), rt_clock = (\<lambda>n. 100 + word_of_nat n), rt_ticks = 0, rt_last_thread = 0,
      task_of = [3 \<mapsto> demo_task 10 50 0, 4 \<mapsto> demo_task 15 60 1], sched_world = []\<rparr>"

definition demo_sched :: HT_TaskScheduler where
  "demo_sched =
     \<lparr>sc_addr = 1,
      sc_tasks = \<lparr>bag_min_capacity = 16, bag_capacity = 16, bag_size = 2, bag_data = Some 2,
                  bag_cells = Some 3 # Some 4 # replicate 14 None\<rparr>,
      sc_next_task_id = 2\<rparr>"

lemma demo_sched_list: "bag_list (sc_tasks demo_sched) = [3, 4]"
  by (simp add: demo_sched_def bag_list_def contents_def numeral_eq_Suc)

lemma demo_sched_tasks: "tasks demo_sched demo_sched_state = [demo_task 10 50 0, demo_task 15 60 1]"
  by (simp add: tasks_def demo_sched_list demo_sched_state_def)

lemma demo_sched_inv: "sched_inv demo_sched demo_sched_state"
proof -
  have "\<exists>k. Suc 0 = 2 ^ k" by (rule exI [of _ 0]) simp
  then have "bag_inv sizeof_void_ptr (sc_tasks demo_sched) (rt_mem demo_sched_state)"
    by (simp add: bag_inv_def demo_sched_def demo_sched_state_def live_def sizeof_void_ptr_def PTRDIFF_MAX_def filled_def
        nth_Cons')
  moreover have "alloc_wf (rt_mem demo_sched_state)" by (simp add: alloc_wf_def heap_ok_def demo_sched_state_def)
  ultimately have "sched_mem_ok demo_sched demo_sched_state"
    by (simp add: sched_mem_ok_def demo_sched_list) (simp add: demo_sched_def demo_sched_state_def live_def bag_block_def)
  then show ?thesis
    by (simp add: sched_inv_def demo_sched_list demo_sched_tasks)
      (simp add: demo_sched_def demo_sched_state_def demo_task_def HT_INT32_MAX_def)
qed

theorem scheduled_task_gets_new_id_witness:
  "\<exists>tid sc' s'. ht_task_scheduler_schedule_task demo_sched HT_TASK_SCHEDULING_IGNORE_DELAYS 25
     (Some (\<lambda>ud w. Some (True, w))) 7 demo_sched_state = Some (tid, sc', s') \<and> sched_inv sc' s' \<and> tid \<notin> {0, 1}"
proof -
  have ids: "set (map task_id (tasks demo_sched demo_sched_state)) = {0, 1}"
    by (simp add: demo_sched_tasks demo_task_def)
  from scheduled_task_gets_new_id [OF demo_sched_inv, of HT_TASK_SCHEDULING_IGNORE_DELAYS 25 "Some (\<lambda>ud w. Some (True, w))" 7]
  show ?thesis unfolding ids
    by (auto simp: HT_TASK_SCHEDULER_INVALID_TASK_ID_def split: if_splits)
qed

text \<open>
  C24. A tick ends, and it examines every task of the scheduler exactly once, in some order that
  the removals determine: a task that is not due stays as it is; a due task is run once, and is removed
  if its callback asks for that, or gets its next time, counted from the time it was due or from the
  time after the callback, depending on its mode. No due task is skipped when another one is removed. The tasks that stay may be in
  another order, since the last task takes the place of one that is removed. The block of a removed task is released, and no block outside
  the scheduler is touched. The callbacks are those that return and do not use the scheduler.
\<close>

theorem tick_examines_every_task_once:
  assumes "sched_inv sc s" and "callbacks_return (tasks sc s)"
  shows "\<exists>sc' s' order kept. ht_task_scheduler_tick sc s = Some (sc', s') \<and> sched_inv sc' s' \<and>
    mset order = mset (tasks sc s) \<and>
    run_tasks (rt_clock s) order (rt_ticks s, sched_world s) = Some (kept, rt_ticks s', sched_world s') \<and>
    mset (tasks sc' s') = mset kept \<and> footprint (sched_blocks sc) (rt_mem s) (sched_blocks sc') (rt_mem s')"
  using tick_from_ok [OF assms(1) _ assms(2), of 0] by (simp add: ht_task_scheduler_tick_def) blast

theorem tick_examines_every_task_once_witness:
  "\<exists>sc' s' order kept. ht_task_scheduler_tick demo_sched demo_sched_state = Some (sc', s') \<and>
     mset order = {#demo_task 10 50 0, demo_task 15 60 1#} \<and>
     run_tasks (\<lambda>n. 100 + word_of_nat n) order (0, []) = Some (kept, rt_ticks s', sched_world s')"
proof -
  have "callbacks_return (tasks demo_sched demo_sched_state)"
    by (auto simp: callbacks_return_def demo_sched_tasks demo_task_def)
  moreover have "rt_clock demo_sched_state = (\<lambda>n. 100 + word_of_nat n)" "rt_ticks demo_sched_state = 0"
    "sched_world demo_sched_state = []" by (simp_all add: demo_sched_state_def)
  ultimately show ?thesis
    using tick_examines_every_task_once [OF demo_sched_inv] by (fastforce simp: demo_sched_tasks)
qed

lemma remove_task_ok:
  assumes "sched_inv sc s"
  shows "\<exists>sc' s'. ht_task_scheduler_remove_task sc tid s = Some (tid \<in> set (map task_id (tasks sc s)), sc', s') \<and>
    sched_inv sc' s' \<and> mset (tasks sc' s') = filter_mset (\<lambda>t. task_id t \<noteq> tid) (mset (tasks sc s)) \<and>
    footprint (sched_blocks sc) (rt_mem s) (sched_blocks sc') (rt_mem s')"
proof (cases "tid < 0")
  case True
  then have "tid \<notin> set (map task_id (tasks sc s))" using assms by (fastforce simp: sched_inv_def)
  moreover from this have "filter_mset (\<lambda>t. task_id t \<noteq> tid) (mset (tasks sc s)) = mset (tasks sc s)"
    by (auto simp: filter_mset_eq_conv)
  ultimately show ?thesis using True assms sched_own [OF assms refl] by (simp add: ht_task_scheduler_remove_task_def)
next
  case False
  then show ?thesis using remove_task_from_ok [OF assms, of 0 tid] by (simp add: ht_task_scheduler_remove_task_def)
qed

text \<open>
  C26. Removing a task by its identifier takes exactly that task out of the scheduler and says whether there
  was one; all other tasks stay, and the scheduler is well-formed afterwards. The block of the task is released: what the scheduler owned
  before and does not own any more is not live, and no block outside the scheduler is touched.
\<close>

theorem remove_task_removes_exactly:
  assumes "sched_inv sc s"
  shows "\<exists>sc' s'. ht_task_scheduler_remove_task sc tid s = Some (tid \<in> set (map task_id (tasks sc s)), sc', s') \<and>
    sched_inv sc' s' \<and> mset (tasks sc' s') = filter_mset (\<lambda>t. task_id t \<noteq> tid) (mset (tasks sc s)) \<and>
    live (rt_mem s') |` (- sched_blocks sc') = live (rt_mem s) |` (- sched_blocks sc)"
  using remove_task_ok [OF assms, of tid] unfolding footprint_def by blast

theorem remove_task_removes_exactly_witness:
  "\<exists>sc' s'. ht_task_scheduler_remove_task demo_sched 1 demo_sched_state = Some (True, sc', s') \<and>
     mset (tasks sc' s') = {#demo_task 10 50 0#}"
  using remove_task_removes_exactly [OF demo_sched_inv, of 1] by (auto simp: demo_sched_tasks demo_task_def)

text \<open>
  C27. The optimal tick period is the greatest common divisor of the periods of all tasks, where periods of zero
  do not count; without any it is zero. In particular the loop that computes a divisor
  ends, and computes the mathematical one.
\<close>

theorem optimal_tick_period_is_gcd:
  assumes "sched_inv sc s"
  shows "\<exists>p. ht_task_scheduler_get_optimal_tick_period sc s = Some p \<and>
    unat p = Gcd ((\<lambda>t. unat (task_period t)) ` set (tasks sc s))"
  using tick_period_from_ok [OF assms, of 0 0] by (simp add: ht_task_scheduler_get_optimal_tick_period_def)

theorem optimal_tick_period_is_gcd_witness:
  "ht_task_scheduler_get_optimal_tick_period demo_sched demo_sched_state = Some 5"
proof -
  from optimal_tick_period_is_gcd [OF demo_sched_inv] obtain p where
    p: "ht_task_scheduler_get_optimal_tick_period demo_sched demo_sched_state = Some p"
    "unat p = Gcd ((\<lambda>t. unat (task_period t)) ` set (tasks demo_sched demo_sched_state))" by blast
  have "gcd (10 :: nat) 15 = 5" by code_simp
  then have "unat p = unat (5 :: u64)" using p(2) by (simp add: demo_sched_tasks demo_task_def)
  then have "p = 5" by (rule unsigned_word_eqI)
  with p(1) show ?thesis by simp
qed

lemma create_ok:
  fixes s :: "('w, 's) sched_rt_scheme"
  assumes wf: "alloc_wf (rt_mem s)"
  shows "\<exists>err sc m. ht_task_scheduler_create junk s = Some (err, sc, s\<lparr>rt_mem := m\<rparr>) \<and> alloc_wf m \<and>
    (case sc of
       None \<Rightarrow> err = HT_ERR_OUT_OF_MEMORY \<and> live m = live (rt_mem s)
     | Some sc \<Rightarrow> err = HT_ERR_OK \<and> sched_inv sc (s\<lparr>rt_mem := m\<rparr>) \<and> tasks sc (s\<lparr>rt_mem := m\<rparr>) = [] \<and>
         live (rt_mem s) = (live m) |` (- {bag_block (sc_tasks sc), sc_addr sc}))"
proof (cases rule: ht.alloc_cases [OF wf, of sizeof_HT_TaskScheduler])
  case (1 m)
  then show ?thesis
    by (intro exI [of _ HT_ERR_OUT_OF_MEMORY] exI [of _ None] exI [of _ m]) (simp add: ht_task_scheduler_create_def)
next
  case a: (2 a m)
  have sizes: "0 < sizeof_void_ptr" "sizeof_void_ptr \<le> sizeof_void_ptr" "0 < DEFAULT_INIT_TASK_COUNT"
    "DEFAULT_INIT_TASK_COUNT * sizeof_void_ptr \<le> PTRDIFF_MAX"
    by (simp_all add: sizeof_void_ptr_def DEFAULT_INIT_TASK_COUNT_def PTRDIFF_MAX_def)
  show ?thesis
  proof (cases rule: bag_init_cases [OF a(2) sizes, of junk])
    case (1 b' m1)
    then have "live m1 a \<noteq> None" using a(4) by simp
    from ht.free_law [OF 1(2) this] obtain m2 where "ht_free (Some a) m1 = Some m2" "alloc_wf m2"
      "live m2 = (live m1)(a := None)" by blast
    with a 1 show ?thesis
      by (intro exI [of _ HT_ERR_OUT_OF_MEMORY] exI [of _ None] exI [of _ m2])
        (simp add: ht_task_scheduler_create_def fun_upd_idem)
  next
    case (2 b m1)
    let ?sc = "\<lparr>sc_addr = a, sc_tasks = b, sc_next_task_id = 0\<rparr>"
    have "bag_block b \<noteq> a" using 2(6) a(4) by auto
    then have "sched_inv ?sc (s\<lparr>rt_mem := m1\<rparr>)"
      using 2 a by (simp add: sched_inv_def sched_mem_ok_def tasks_def HT_INT32_MAX_def)
    moreover have "live (rt_mem s) = (live m1) |` (- {bag_block b, a})"
      using 2(6,7) a(3,4) by (auto simp: restrict_map_def fun_eq_iff split: if_splits)
    ultimately show ?thesis
      using a 2 by (intro exI [of _ HT_ERR_OK] exI [of _ "Some ?sc"] exI [of _ m1])
        (simp add: ht_task_scheduler_create_def tasks_def)
  qed
qed

section \<open>The life of a scheduler\<close>

text \<open>
  A scheduler is created, used and destroyed. The flags of the result say for each operation whether it went well: only
  scheduling can fail.
\<close>

datatype 'w sched_op =
  Schedule HT_TaskSchedulingMode HT_DurationNs "'w HT_TaskCallback option" nat | Remove int | Tick

fun sched_step ::
  "'w sched_op \<Rightarrow> HT_TaskScheduler \<times> ('w, 's) sched_rt_scheme \<Rightarrow> (bool \<times> HT_TaskScheduler \<times> ('w, 's) sched_rt_scheme) option" where
  "sched_step (Schedule mode period callback ud) (sc, s) =
     do { (tid, sc, s) \<leftarrow> ht_task_scheduler_schedule_task sc mode period callback ud s;
          Some (tid \<noteq> HT_TASK_SCHEDULER_INVALID_TASK_ID, sc, s) }"
| "sched_step (Remove tid) (sc, s) = do { (_, sc, s) \<leftarrow> ht_task_scheduler_remove_task sc tid s; Some (True, sc, s) }"
| "sched_step Tick (sc, s) = do { (sc, s) \<leftarrow> ht_task_scheduler_tick sc s; Some (True, sc, s) }"

fun run_sched ::
  "'w sched_op list \<Rightarrow> HT_TaskScheduler \<times> ('w, 's) sched_rt_scheme \<Rightarrow> (bool list \<times> HT_TaskScheduler \<times> ('w, 's) sched_rt_scheme) option" where
  "run_sched [] (sc, s) = Some ([], sc, s)"
| "run_sched (opn # ops) (sc, s) =
     do { (ok, sc, s) \<leftarrow> sched_step opn (sc, s);
          (oks, sc, s) \<leftarrow> run_sched ops (sc, s);
          Some (ok # oks, sc, s) }"

definition scheduler_life ::
  "addr bag \<Rightarrow> 'w sched_op list \<Rightarrow> ('w, 's) sched_rt_scheme \<Rightarrow> (HT_ErrorCode \<times> bool list \<times> ('w, 's) sched_rt_scheme) option" where
  "scheduler_life junk ops s =
     do { (err, sc, s) \<leftarrow> ht_task_scheduler_create junk s;
          case sc of
            None \<Rightarrow> Some (err, [], s)
          | Some sc \<Rightarrow> do {
              (oks, sc, s) \<leftarrow> run_sched ops (sc, s);
              s \<leftarrow> ht_task_scheduler_destroy sc s;
              Some (err, oks, s) } }"

fun op_returns :: "'w sched_op \<Rightarrow> bool" where
  "op_returns (Schedule mode period callback ud) \<longleftrightarrow> (\<forall>cb w. callback = Some cb \<longrightarrow> cb ud w \<noteq> None)"
| "op_returns _ \<longleftrightarrow> True"

text \<open>One operation, with the blocks that are lost by it.\<close>

lemma sched_step_ok:
  assumes inv: "sched_inv sc s" and cb: "callbacks_return (tasks sc s)" and opn: "op_returns opn"
  shows "\<exists>ok sc' s' lost. sched_step opn (sc, s) = Some (ok, sc', s') \<and> sched_inv sc' s' \<and> callbacks_return (tasks sc' s') \<and>
    finite lost \<and> card lost \<le> (if ok then 0 else 1) \<and> lost \<inter> sched_blocks sc' = {} \<and>
    footprint (sched_blocks sc) (rt_mem s) (lost \<union> sched_blocks sc') (rt_mem s')"
proof (cases opn)
  case (Schedule mode period callback ud)
  from schedule_ok [OF inv, of mode period callback ud] obtain tid sc' s' where
    run: "ht_task_scheduler_schedule_task sc mode period callback ud s = Some (tid, sc', s')" "sched_inv sc' s'"
    and res: "if tid = HT_TASK_SCHEDULER_INVALID_TASK_ID then tasks sc' s' = tasks sc s \<and> schedule_refused callback sc s sc' s'
     else tid = sc_next_task_id sc \<and> sc_next_task_id sc' = tid + 1 \<and> footprint (sched_blocks sc) (rt_mem s) (sched_blocks sc') (rt_mem s') \<and>
       (\<exists>cb. callback = Some cb \<and> tasks sc' s' = tasks sc s @
          [\<lparr>task_callback = cb, task_user_data = ud, task_period = period,
            task_next_action_ts = rt_clock s (rt_ticks s) + period, task_id = tid, task_mode = mode\<rparr>])" by blast
  show ?thesis
  proof (cases "tid = HT_TASK_SCHEDULER_INVALID_TASK_ID")
    case False
    with res cb opn Schedule have "callbacks_return (tasks sc' s')" by (auto simp: callbacks_return_def)
    with False res run Schedule show ?thesis
      by (intro exI [of _ True] exI [of _ sc'] exI [of _ s'] exI [of _ "{}"]) simp
  next
    case True
    with res have same: "tasks sc' s' = tasks sc s" and ref: "schedule_refused callback sc s sc' s'" by simp_all
    obtain lost where lost: "finite lost" "card lost \<le> 1" "lost \<inter> sched_blocks sc' = {}"
      "footprint (sched_blocks sc) (rt_mem s) (lost \<union> sched_blocks sc') (rt_mem s')"
    proof (cases "sc' = sc \<and> live (rt_mem s') = live (rt_mem s)")
      case True
      with sched_own [OF inv, of "rt_mem s'"] show thesis by (intro that [of "{}"]) simp_all
    next
      case False
      with ref obtain a where a: "sc' = sc\<lparr>sc_next_task_id := sc_next_task_id sc + 1\<rparr>" "live (rt_mem s) a = None"
        "live (rt_mem s') = (live (rt_mem s))(a \<mapsto> sizeof_HT_Task)" by (auto simp: schedule_refused_def)
      have own: "sched_blocks sc \<subseteq> dom (live (rt_mem s))" using inv by (intro sched_blocks_live) (simp add: sched_inv_def)
      from footprint_extend [OF footprint_alloc [OF a(2,3)] this] own a(1,2) show thesis
        by (intro that [of "{a}"]) (auto simp: sched_blocks_def)
    qed
    with True run same cb Schedule show ?thesis
      by (intro exI [of _ False] exI [of _ sc'] exI [of _ s'] exI [of _ lost]) simp
  qed
next
  case (Remove tid)
  from remove_task_ok [OF inv, of tid] obtain sc' s' where
    run: "ht_task_scheduler_remove_task sc tid s = Some (tid \<in> set (map task_id (tasks sc s)), sc', s')" "sched_inv sc' s'"
    and ts: "mset (tasks sc' s') = filter_mset (\<lambda>t. task_id t \<noteq> tid) (mset (tasks sc s))"
    and fp: "footprint (sched_blocks sc) (rt_mem s) (sched_blocks sc') (rt_mem s')" by blast
  have "set (tasks sc' s') \<subseteq> set (tasks sc s)" using ts by (metis multiset_filter_subset set_mset_mono set_mset_mset)
  then have "callbacks_return (tasks sc' s')" using cb by (auto simp: callbacks_return_def)
  with run fp Remove show ?thesis by (intro exI [of _ True] exI [of _ sc'] exI [of _ s'] exI [of _ "{}"]) simp
next
  case Tick
  from tick_from_ok [OF inv _ cb, of 0] obtain sc' s' where "tick_from 0 sc s = Some (sc', s')" "sched_inv sc' s'"
    "callbacks_return (tasks sc' s')" "footprint (sched_blocks sc) (rt_mem s) (sched_blocks sc') (rt_mem s')" by auto
  with Tick show ?thesis
    by (intro exI [of _ True] exI [of _ sc'] exI [of _ s'] exI [of _ "{}"]) (simp add: ht_task_scheduler_tick_def)
qed

lemma run_sched_length: "run_sched ops (sc, s) = Some (oks, sc', s') \<Longrightarrow> length oks = length ops"
  by (induction ops arbitrary: sc s oks) (auto simp: bind_eq_Some_conv)

lemma run_sched_ok:
  assumes "sched_inv sc s" and "callbacks_return (tasks sc s)" and "\<forall>opn\<in>set ops. op_returns opn"
  shows "\<exists>oks sc' s' lost. run_sched ops (sc, s) = Some (oks, sc', s') \<and> sched_inv sc' s' \<and>
    finite lost \<and> card lost \<le> length (filter Not oks) \<and> lost \<inter> sched_blocks sc' = {} \<and>
    footprint (sched_blocks sc) (rt_mem s) (lost \<union> sched_blocks sc') (rt_mem s')"
  using assms
proof (induction ops arbitrary: sc s)
  case Nil
  then show ?case using sched_own [OF Nil(1) refl] by (intro exI [of _ "[]"] exI [of _ sc] exI [of _ s] exI [of _ "{}"]) simp
next
  case (Cons opn ops)
  from sched_step_ok [OF Cons.prems(1,2), of opn] Cons.prems(3) obtain ok sc1 s1 lost where
    one: "sched_step opn (sc, s) = Some (ok, sc1, s1)" "sched_inv sc1 s1" "callbacks_return (tasks sc1 s1)"
    and lost: "finite lost" "card lost \<le> (if ok then 0 else 1)" "lost \<inter> sched_blocks sc1 = {}"
    and fp: "footprint (sched_blocks sc) (rt_mem s) (lost \<union> sched_blocks sc1) (rt_mem s1)" by auto
  from Cons.IH [OF one(2,3)] Cons.prems(3) obtain oks sc2 s2 lost' where
    rest: "run_sched ops (sc1, s1) = Some (oks, sc2, s2)" "sched_inv sc2 s2"
    and lost': "finite lost'" "card lost' \<le> length (filter Not oks)" "lost' \<inter> sched_blocks sc2 = {}"
    and fp': "footprint (sched_blocks sc1) (rt_mem s1) (lost' \<union> sched_blocks sc2) (rt_mem s2)" by auto
  have live: "lost \<subseteq> dom (live (rt_mem s1))" "sched_blocks sc1 \<inter> lost = {}" using fp lost(3) by (auto simp: footprint_def)
  have "lost \<inter> (lost' \<union> sched_blocks sc2) = {}" using footprint_frame(2) [OF fp'] live by blast
  moreover have "footprint (sched_blocks sc) (rt_mem s) ((lost \<union> lost') \<union> sched_blocks sc2) (rt_mem s2)"
    using footprint_trans [OF fp, of "lost' \<union> sched_blocks sc2 \<union> lost" "rt_mem s2"] footprint_extend [OF fp' live]
    by (simp add: Un_ac)
  moreover have "card (lost \<union> lost') \<le> length (filter Not (ok # oks))"
    using card_Un_le [of lost lost'] lost(2) lost'(2) by (simp split: if_splits)
  ultimately show ?case
    using one(1) rest lost(1) lost'(1,3)
    by (intro exI [of _ "ok # oks"] exI [of _ sc2] exI [of _ s2] exI [of _ "lost \<union> lost'"]) auto
qed

text \<open>
  C28. A scheduler is created, used by any sequence of scheduling, removals and ticks, and destroyed: every operation returns, for every pattern of
  refused allocations. When memory runs out at the creation there is an error code and the heap is as it was. Otherwise every block the scheduler
  allocated is released, each once, and no other block is; except that each call that failed to schedule a task may
  have lost one block. So when no call failed the heap is exactly as it was before. The callbacks are those that return and do not use the scheduler.
\<close>

theorem scheduler_owns_its_blocks:
  assumes wf: "alloc_wf (rt_mem s)" and ops: "\<forall>opn\<in>set ops. op_returns opn"
  shows "\<exists>err oks s' lost. scheduler_life junk ops s = Some (err, oks, s') \<and>
    (if err = HT_ERR_OK then length oks = length ops else oks = []) \<and>
    finite lost \<and> card lost \<le> length (filter Not oks) \<and> lost \<inter> dom (live (rt_mem s)) = {} \<and>
    live (rt_mem s') |` (- lost) = live (rt_mem s)"
proof -
  from create_ok [OF wf, of junk] obtain err r m where
    create: "ht_task_scheduler_create junk s = Some (err, r, s\<lparr>rt_mem := m\<rparr>)" and
    r: "case r of
       None \<Rightarrow> err = HT_ERR_OUT_OF_MEMORY \<and> live m = live (rt_mem s)
     | Some sc \<Rightarrow> err = HT_ERR_OK \<and> sched_inv sc (s\<lparr>rt_mem := m\<rparr>) \<and> tasks sc (s\<lparr>rt_mem := m\<rparr>) = [] \<and>
         live (rt_mem s) = (live m) |` (- {bag_block (sc_tasks sc), sc_addr sc})" by blast
  show ?thesis
  proof (cases r)
    case None
    with create r show ?thesis
      by (intro exI [of _ err] exI [of _ "[]"] exI [of _ "s\<lparr>rt_mem := m\<rparr>"] exI [of _ "{}"]) (simp add: scheduler_life_def restrict_map_def)
  next
    case (Some sc)
    let ?s = "s\<lparr>rt_mem := m\<rparr>"
    from r Some have inv: "sched_inv sc ?s" and ts: "tasks sc ?s = []" and err: "err = HT_ERR_OK"
      and old: "live (rt_mem s) = (live m) |` (- {bag_block (sc_tasks sc), sc_addr sc})" by simp_all
    have "bag_list (sc_tasks sc) = []" using ts by (simp add: tasks_def)
    then have old': "live (rt_mem s) = live m |` (- sched_blocks sc)" using old by (simp add: sched_blocks_def insert_commute)
    have "callbacks_return (tasks sc ?s)" using ts by (simp add: callbacks_return_def)
    from run_sched_ok [OF inv this ops] obtain oks sc' s' lost where
      run: "run_sched ops (sc, ?s) = Some (oks, sc', s')" "sched_inv sc' s'" and lost: "finite lost" "card lost \<le> length (filter Not oks)"
      "lost \<inter> sched_blocks sc' = {}" and fp: "footprint (sched_blocks sc) m (lost \<union> sched_blocks sc') (rt_mem s')" by auto
    from run(2) destroy_ok [of sc' s'] obtain m' where del: "ht_task_scheduler_destroy sc' s' = Some (s'\<lparr>rt_mem := m'\<rparr>)"
      and m': "live m' = live (rt_mem s') |` (- sched_blocks sc')" by (auto simp: sched_inv_def sched_blocks_def insert_commute)
    have eq: "live m' |` (- lost) = live (rt_mem s)"
      using fp unfolding old' m' footprint_def by (simp add: restrict_restrict Int_commute)
    then have "lost \<inter> dom (live (rt_mem s)) = {}" by (auto simp flip: eq)
    moreover have "length oks = length ops" using run(1) by (rule run_sched_length)
    ultimately show ?thesis
      using create Some run(1) del err lost eq
      by (intro exI [of _ err] exI [of _ oks] exI [of _ "s'\<lparr>rt_mem := m'\<rparr>"] exI [of _ lost]) (simp add: scheduler_life_def)
  qed
qed

text \<open>A scheduler with one task, which a tick runs and removes.\<close>

definition demo_life :: "nat list sched_op list" where
  "demo_life = [Schedule HT_TASK_SCHEDULING_RESTART_TIMER 0 (Some (\<lambda>ud w. Some (False, w @ [ud]))) 7, Tick, Remove 3]"

theorem scheduler_owns_its_blocks_witness:
  "\<exists>err oks s' lost. scheduler_life (sc_tasks demo_sched) demo_life demo_sched_state = Some (err, oks, s') \<and>
    (if err = HT_ERR_OK then length oks = length demo_life else oks = []) \<and>
    finite lost \<and> card lost \<le> length (filter Not oks) \<and> lost \<inter> dom (live (rt_mem demo_sched_state)) = {} \<and>
    live (rt_mem s') |` (- lost) = live (rt_mem demo_sched_state)"
proof (rule scheduler_owns_its_blocks)
  show "alloc_wf (rt_mem demo_sched_state)" using demo_sched_inv by (simp add: sched_inv_def sched_mem_ok_def)
  show "\<forall>opn\<in>set demo_life. op_returns opn" unfolding demo_life_def by auto
qed

end
