(* ===== verification/Decimal.thy ===== *)
theory Decimal
  imports Prelude
begin

text \<open>
  The decimal numerals of the C and C++ libraries: what \<^verbatim>\<open>std::to_string\<close> and the output operators print for an
  integer, and how \<^verbatim>\<open>strtoul\<close>, the input operator of a stream and the conversion \<^verbatim>\<open>%u\<close> read one. All three
  take an optional sign and digits; they differ in the space they skip and in what they do with a number that is too large.
\<close>

section \<open>Printing\<close>

definition digit_char :: "nat \<Rightarrow> char" where
  "digit_char d = char_of (48 + d)"

fun to_decimal :: "nat \<Rightarrow> string" where
  "to_decimal n = (if n < 10 then [digit_char n] else to_decimal (n div 10) @ [digit_char (n mod 10)])"

declare to_decimal.simps [simp del]

text \<open>A signed integer of \<open>w\<close> bytes, given by its bits.\<close>

definition signed_value :: "nat \<Rightarrow> u64 \<Rightarrow> int" where
  "signed_value w v =
     (let n = unat (take_bit (8 * w) v) in if n < 2 ^ (8 * w - 1) then int n else int n - 2 ^ (8 * w))"

definition to_decimal_int :: "int \<Rightarrow> string" where
  "to_decimal_int i = (if i < 0 then CHR ''-'' # to_decimal (nat (- i)) else to_decimal (nat i))"

section \<open>Reading\<close>

definition is_digit :: "char \<Rightarrow> bool" where
  "is_digit c \<longleftrightarrow> 48 \<le> (of_char c :: nat) \<and> (of_char c :: nat) \<le> 57"

definition digit_value :: "char \<Rightarrow> nat" where
  "digit_value c = of_char c - 48"

definition decimal_value :: "string \<Rightarrow> nat" where
  "decimal_value ds = foldl (\<lambda>n c. 10 * n + digit_value c) 0 ds"

definition is_space :: "char \<Rightarrow> bool" where
  "is_space c \<longleftrightarrow> c = CHR '' '' \<or> (9 \<le> (of_char c :: nat) \<and> (of_char c :: nat) \<le> 13)"

text \<open>The optional sign and the digits at the start of a text: whether there is a minus, the digits, and the rest.\<close>

definition scan_unsigned :: "string \<Rightarrow> bool \<times> string \<times> string" where
  "scan_unsigned s =
     (let (neg, s) = (case s of
            [] \<Rightarrow> (False, [])
          | c # s' \<Rightarrow> if c = CHR ''-'' then (True, s') else if c = CHR ''+'' then (False, s') else (False, s))
      in (neg, takeWhile is_digit s, dropWhile is_digit s))"

definition ULONG_MAX :: nat where
  "ULONG_MAX = 2 ^ 64 - 1"

text \<open>
  \<^verbatim>\<open>strtoul\<close> with base 10: the value, whether \<^verbatim>\<open>errno\<close> is \<^verbatim>\<open>ERANGE\<close>, and the number of characters that
  were used, which is 0 where no number was found.
\<close>

definition strtoul :: "string \<Rightarrow> u64 \<times> bool \<times> nat" where
  "strtoul s =
     (let (neg, ds, rest) = scan_unsigned (dropWhile is_space s); n = decimal_value ds in
      if ds = [] then (0, False, 0)
      else if n > ULONG_MAX then (- 1, True, length s - length rest)
      else (if neg then - word_of_nat n else word_of_nat n, False, length s - length rest))"

text \<open>
  The input operator for \<^verbatim>\<open>uint64_t\<close>: the number and the rest of the text. It fails without digits and
  for a number that is too large.
\<close>

definition read_uint64 :: "string \<Rightarrow> (u64 \<times> string) option" where
  "read_uint64 s =
     (let (neg, ds, rest) = scan_unsigned (dropWhile is_space s); n = decimal_value ds in
      if ds = [] \<or> n > ULONG_MAX then None
      else Some (if neg then - word_of_nat n else word_of_nat n, rest))"

section \<open>Lemmas\<close>

lemma of_digit_char: "d < 10 \<Longrightarrow> (of_char (digit_char d) :: nat) = 48 + d"
  by (simp add: digit_char_def)

lemma digit_char_ok [simp]: "d < 10 \<Longrightarrow> is_digit (digit_char d)" "d < 10 \<Longrightarrow> digit_value (digit_char d) = d"
  by (simp_all add: is_digit_def digit_value_def of_digit_char)

lemma to_decimal_nonempty [simp]: "to_decimal n \<noteq> []"
  by (subst to_decimal.simps) simp

lemma to_decimal_digits: "\<forall>c \<in> set (to_decimal n). is_digit c"
proof (induction n rule: to_decimal.induct)
  case (1 n)
  then show ?case by (subst to_decimal.simps) auto
qed

lemma decimal_value_to_decimal [simp]: "decimal_value (to_decimal n) = n"
proof (induction n rule: to_decimal.induct)
  case (1 n)
  show ?case
  proof (cases "n < 10")
    case True
    then show ?thesis by (subst to_decimal.simps) (simp add: decimal_value_def)
  next
    case False
    have "decimal_value (to_decimal n) = 10 * decimal_value (to_decimal (n div 10)) + n mod 10"
      using False by (subst to_decimal.simps) (simp add: decimal_value_def)
    then show ?thesis using 1 [OF False] by simp
  qed
qed

lemma to_decimal_inj: "to_decimal m = to_decimal n \<Longrightarrow> m = n"
  by (metis decimal_value_to_decimal)

lemma digit_not_special: "is_digit c \<Longrightarrow> \<not> is_space c \<and> c \<noteq> CHR ''-'' \<and> c \<noteq> CHR ''+''"
  by (auto simp: is_digit_def is_space_def)

lemma takeWhile_all: "\<forall>c \<in> set xs. P c \<Longrightarrow> ys = [] \<or> \<not> P (hd ys) \<Longrightarrow> takeWhile P (xs @ ys) = xs \<and> dropWhile P (xs @ ys) = ys"
  by (cases ys) (auto simp: takeWhile_append dropWhile_append takeWhile_eq_all_conv)

lemma scan_to_decimal:
  assumes "rest = [] \<or> \<not> is_digit (hd rest)"
  shows "scan_unsigned (to_decimal n @ rest) = (False, to_decimal n, rest)"
proof -
  obtain c cs where c: "to_decimal n = c # cs" by (metis to_decimal_nonempty neq_Nil_conv)
  have "is_digit c" using to_decimal_digits [of n] c by simp
  then show ?thesis
    using takeWhile_all [OF to_decimal_digits [of n] assms] digit_not_special [of c]
    by (simp add: scan_unsigned_def c)
qed

lemma to_decimal_no_space: "dropWhile is_space (to_decimal n @ rest) = to_decimal n @ rest"
proof -
  obtain c cs where c: "to_decimal n = c # cs" by (metis to_decimal_nonempty neq_Nil_conv)
  have "is_digit c" using to_decimal_digits [of n] c by simp
  then show ?thesis using digit_not_special [of c] by (simp add: c)
qed

lemma read_uint64_to_decimal:
  assumes "rest = [] \<or> \<not> is_digit (hd rest)"
  shows "read_uint64 (to_decimal (unat v) @ rest) = Some (v, rest)"
proof -
  have "unat v < 2 ^ 64" using unsigned_less [of v] by simp
  then have "unat v \<le> ULONG_MAX" by (simp add: ULONG_MAX_def)
  then show ?thesis using scan_to_decimal [OF assms, of "unat v"] by (simp add: read_uint64_def to_decimal_no_space)
qed

lemma strtoul_to_decimal: "strtoul (to_decimal (unat v)) = (v, False, length (to_decimal (unat v)))"
proof -
  have "unat v < 2 ^ 64" using unsigned_less [of v] by simp
  then have "unat v \<le> ULONG_MAX" by (simp add: ULONG_MAX_def)
  then show ?thesis using scan_to_decimal [of "[]" "unat v"] to_decimal_no_space [of "unat v" "[]"]
    by (simp add: strtoul_def)
qed

end
