(* ===== verification/Tracepoint_Map.thy ===== *)
theory Tracepoint_Map
  imports Decimal
begin

text \<open>
  \<^verbatim>\<open>client/tracepoint_map.cpp\<close>: the names of the numeric labels, from map files and from the trace.

  The parameter \<open>files\<close> gives the contents of the files that can be opened. Next to the map, the state has the lines that were
  written to \<^verbatim>\<open>std::cerr\<close>.
\<close>

record MapInfo =
  mi_label :: string
  mi_category :: string

datatype Category = Unknown | Lua | Native

definition category_to_string :: "Category \<Rightarrow> string" where
  "category_to_string category = (case category of Lua \<Rightarrow> ''lua'' | Native \<Rightarrow> ''native'' | Unknown \<Rightarrow> ''default'')"

record TracepointMap =
  tm_input_map :: "u64 \<rightharpoonup> MapInfo"
  tm_cerr :: "string list"

section \<open>Map files\<close>

text \<open>The input operator for a string: skip space, then take characters up to the next space. It fails at the end of the file.\<close>

definition read_word :: "string \<Rightarrow> (string \<times> string) option" where
  "read_word s =
     (let s = dropWhile is_space s in
      if s = [] then None else Some (takeWhile (\<lambda>c. \<not> is_space c) s, dropWhile (\<lambda>c. \<not> is_space c) s))"

text \<open>The condition of the loop: category, label and number.\<close>

definition read_entry :: "string \<Rightarrow> (MapInfo \<times> u64 \<times> string) option" where
  "read_entry s =
     do { (category, s) \<leftarrow> read_word s;
          (label_str, s) \<leftarrow> read_word s;
          (label, s) \<leftarrow> read_uint64 s;
          Some (\<lparr>mi_label = label_str, mi_category = category\<rparr>, label, s) }"

lemma read_word_length: "read_word s = Some (w, r) \<Longrightarrow> length r < length s"
proof -
  assume *: "read_word s = Some (w, r)"
  let ?s = "dropWhile is_space s"
  from * obtain c cs where c: "?s = c # cs" and r: "r = dropWhile (\<lambda>c. \<not> is_space c) ?s"
    by (cases ?s) (auto simp: read_word_def Let_def)
  have "\<not> is_space c" using hd_dropWhile [of is_space s] c by simp
  then have "r = dropWhile (\<lambda>c. \<not> is_space c) cs" using c r by simp
  then have "length r \<le> length cs" using length_dropWhile_le by metis
  also have "length cs < length ?s" using c by simp
  also have "\<dots> \<le> length s" by (rule length_dropWhile_le)
  finally show ?thesis .
qed

lemma read_uint64_length: "read_uint64 s = Some (v, r) \<Longrightarrow> length r \<le> length s"
proof -
  assume *: "read_uint64 s = Some (v, r)"
  have "length (snd (snd (scan_unsigned t))) \<le> length t" for t
    using length_dropWhile_le [of is_digit t] length_dropWhile_le [of is_digit "tl t"]
    by (cases t) (auto simp: scan_unsigned_def intro: le_trans)
  from this [of "dropWhile is_space s"] * show ?thesis
    using length_dropWhile_le [of is_space s]
    by (auto simp: read_uint64_def Let_def split: prod.splits if_splits intro: le_trans)
qed

lemma read_entry_length:
  assumes "read_entry s = Some (info, label, r)"
  shows "length r < length s"
proof -
  from assms obtain w1 r1 w2 r2 where "read_word s = Some (w1, r1)" "read_word r1 = Some (w2, r2)"
    "read_uint64 r2 = Some (label, r)" by (auto simp: read_entry_def bind_eq_Some_conv)
  then have "length r1 < length s" "length r2 < length r1" "length r \<le> length r2"
    by (auto dest: read_word_length read_uint64_length)
  then show ?thesis by simp
qed

function load_entries :: "string \<Rightarrow> TracepointMap \<Rightarrow> TracepointMap" where
  "load_entries s m =
     (case read_entry s of
        None \<Rightarrow> m
      | Some (info, label, rest) \<Rightarrow> load_entries rest (m\<lparr>tm_input_map := (tm_input_map m)(label \<mapsto> info)\<rparr>))"
  by pat_completeness auto
termination
  by (relation "measure (\<lambda>(s, m). length s)") (auto dest: read_entry_length)

declare load_entries.simps [simp del]

definition load_map :: "(string \<Rightarrow> string option) \<Rightarrow> string \<Rightarrow> TracepointMap \<Rightarrow> bool \<times> TracepointMap" where
  "load_map files map_file m =
     (case files map_file of None \<Rightarrow> (False, m) | Some s \<Rightarrow> (True, load_entries s m))"

text \<open>\<^verbatim>\<open>std::string::find\<close> for one character; \<^term>\<open>None\<close> is \<^verbatim>\<open>npos\<close>.\<close>

definition find_char :: "char \<Rightarrow> string \<Rightarrow> nat \<Rightarrow> nat option" where
  "find_char c s start =
     (let pos = start + length (takeWhile (\<lambda>x. x \<noteq> c) (drop start s)) in
      if pos < length s then Some pos else None)"

lemma find_char_bound: "find_char c s start = Some pos \<Longrightarrow> start \<le> pos \<and> pos < length s"
  by (auto simp: find_char_def Let_def split: if_splits)

definition load_or_complain :: "(string \<Rightarrow> string option) \<Rightarrow> string \<Rightarrow> TracepointMap \<Rightarrow> TracepointMap" where
  "load_or_complain files path m =
     (case load_map files path m of
        (ok, m) \<Rightarrow> if \<not> ok then m\<lparr>tm_cerr := tm_cerr m @ [''unable to load map file '' @ path]\<rparr> else m)"

text \<open>
  The loop of \<^verbatim>\<open>load_maps\<close>. The last part of the list is the one after which no comma is found; \<^verbatim>\<open>substr\<close> would throw
  for a start after the end of the string, which the loop never reaches.
\<close>

function load_maps_from :: "(string \<Rightarrow> string option) \<Rightarrow> string \<Rightarrow> nat \<Rightarrow> TracepointMap \<Rightarrow> TracepointMap option" where
  "load_maps_from files map_files start m =
     (if start > length map_files then None
      else case find_char (CHR '','') map_files start of
        None \<Rightarrow> Some (load_or_complain files (drop start map_files) m)
      | Some pos \<Rightarrow> load_maps_from files map_files (start + (pos - start) + 1)
            (load_or_complain files (take (pos - start) (drop start map_files)) m))"
  by pat_completeness auto
termination
  by (relation "measure (\<lambda>(files, map_files, start, m). Suc (length map_files) - start)")
    (auto dest: find_char_bound)

declare load_maps_from.simps [simp del]

definition load_maps :: "(string \<Rightarrow> string option) \<Rightarrow> string \<Rightarrow> TracepointMap \<Rightarrow> TracepointMap option" where
  "load_maps files map_files m = load_maps_from files map_files 0 m"

section \<open>Entries\<close>

definition add_map_entry :: "u64 \<Rightarrow> string \<Rightarrow> TracepointMap \<Rightarrow> TracepointMap" where
  "add_map_entry i label m =
     m\<lparr>tm_input_map := (tm_input_map m)(i \<mapsto> \<lparr>mi_label = label, mi_category = category_to_string Unknown\<rparr>)\<rparr>"

definition get_label_info :: "u64 \<Rightarrow> TracepointMap \<Rightarrow> MapInfo \<times> TracepointMap" where
  "get_label_info label m =
     (case tm_input_map m label of
        Some info \<Rightarrow> (info, m)
      | None \<Rightarrow>
          let info = \<lparr>mi_label = to_decimal (unat label), mi_category = category_to_string Unknown\<rparr> in
          (info, m\<lparr>tm_input_map := (tm_input_map m)(label \<mapsto> info),
                   tm_cerr := tm_cerr m @ [''Cannot find mapping for label '' @ to_decimal (unat label)]\<rparr>))"

section \<open>Reading what was written\<close>

definition newline :: char where
  "newline = CHR 0x0A"

definition print_entry :: "string \<times> string \<times> u64 \<Rightarrow> string" where
  "print_entry e = (case e of (category, label_str, label) \<Rightarrow>
     category @ '' '' @ label_str @ '' '' @ to_decimal (unat label) @ [newline])"

definition is_word :: "string \<Rightarrow> bool" where
  "is_word s \<longleftrightarrow> s \<noteq> [] \<and> (\<forall>c \<in> set s. \<not> is_space c)"

definition entry_ok :: "string \<times> string \<times> u64 \<Rightarrow> bool" where
  "entry_ok e \<longleftrightarrow> (case e of (category, label_str, label) \<Rightarrow> is_word category \<and> is_word label_str)"

definition put_entry :: "string \<times> string \<times> u64 \<Rightarrow> TracepointMap \<Rightarrow> TracepointMap" where
  "put_entry e m = (case e of (category, label_str, label) \<Rightarrow>
     m\<lparr>tm_input_map := (tm_input_map m)(label \<mapsto> \<lparr>mi_label = label_str, mi_category = category\<rparr>)\<rparr>)"

lemma read_word_ok:
  assumes "is_word w" and "\<forall>c \<in> set sp. is_space c" and "is_space c"
  shows "read_word (sp @ w @ c # rest) = Some (w, c # rest)"
proof -
  have "dropWhile is_space (sp @ w @ c # rest) = w @ c # rest"
    using assms by (cases w) (auto simp: is_word_def dropWhile_append)
  then show ?thesis using takeWhile_all [of w "\<lambda>c. \<not> is_space c" "c # rest"] assms by (simp add: read_word_def is_word_def)
qed

lemma read_entry_ok:
  assumes "entry_ok e" and "\<forall>c \<in> set sp. is_space c"
  shows "\<exists>category label_str label. e = (category, label_str, label) \<and> read_entry (sp @ print_entry e @ rest) =
    Some (\<lparr>mi_label = label_str, mi_category = category\<rparr>, label, newline # rest)"
proof -
  obtain category label_str label where e: "e = (category, label_str, label)" by (cases e)
  have sp: "is_space (CHR '' '')" "is_space newline" "\<not> is_digit newline"
    by (simp_all add: is_space_def newline_def is_digit_def)
  have w: "is_word category" "is_word label_str" using assms(1) by (simp_all add: entry_ok_def e)
  have 1: "read_word (sp @ print_entry e @ rest) =
    Some (category, CHR '' '' # label_str @ CHR '' '' # to_decimal (unat label) @ newline # rest)"
    using read_word_ok [OF w(1) assms(2) sp(1)] by (simp add: print_entry_def e)
  have 2: "read_word (CHR '' '' # label_str @ CHR '' '' # to_decimal (unat label) @ newline # rest) =
    Some (label_str, CHR '' '' # to_decimal (unat label) @ newline # rest)"
    using read_word_ok [OF w(2), of "'' ''"] sp(1) by simp
  have 3: "read_uint64 (CHR '' '' # to_decimal (unat label) @ newline # rest) = Some (label, newline # rest)"
    using read_uint64_to_decimal [of "newline # rest" label] sp
    by (simp add: read_uint64_def to_decimal_no_space)
  have "read_entry (sp @ print_entry e @ rest) =
    Some (\<lparr>mi_label = label_str, mi_category = category\<rparr>, label, newline # rest)"
    unfolding read_entry_def 1 by (simp add: 2 3)
  with e show ?thesis by blast
qed

lemma read_entry_space: "\<forall>c \<in> set sp. is_space c \<Longrightarrow> read_entry sp = None"
  by (simp add: read_entry_def read_word_def dropWhile_eq_Nil_conv)

lemma load_entries_ok:
  "\<forall>e \<in> set es. entry_ok e \<Longrightarrow> \<forall>c \<in> set sp. is_space c \<Longrightarrow>
   load_entries (sp @ concat (map print_entry es)) m = fold put_entry es m"
proof (induction es arbitrary: sp m)
  case Nil
  then show ?case by (simp add: load_entries.simps [of sp] read_entry_space)
next
  case (Cons e es)
  from read_entry_ok [of e sp "concat (map print_entry es)"] Cons.prems obtain category label_str label where
    e: "e = (category, label_str, label)" "read_entry (sp @ print_entry e @ concat (map print_entry es)) =
      Some (\<lparr>mi_label = label_str, mi_category = category\<rparr>, label, [newline] @ concat (map print_entry es))" by auto
  have "\<forall>c \<in> set [newline]. is_space c" by (simp add: is_space_def newline_def)
  from Cons.IH [OF _ this, of "put_entry e m"] Cons.prems(1)
  have rest: "load_entries ([newline] @ concat (map print_entry es)) (put_entry e m) = fold put_entry es (put_entry e m)"
    by simp
  have "load_entries (sp @ print_entry e @ concat (map print_entry es)) m =
    load_entries ([newline] @ concat (map print_entry es)) (put_entry e m)"
    unfolding load_entries.simps [of "sp @ print_entry e @ concat (map print_entry es)"] e(2)
    by (simp add: put_entry_def e(1))
  with rest show ?case by simp
qed

fun join_commas :: "string list \<Rightarrow> string" where
  "join_commas [] = ''''"
| "join_commas [p] = p"
| "join_commas (p # ps) = p @ CHR '','' # join_commas ps"

lemma find_char_first:
  assumes "CHR '','' \<notin> set p"
  shows "find_char (CHR '','') (pre @ p @ CHR '','' # rest) (length pre) = Some (length pre + length p)"
    and "find_char (CHR '','') (pre @ p) (length pre) = None"
proof -
  have "takeWhile (\<lambda>x. x \<noteq> CHR '','') (p @ CHR '','' # rest) = p" for rest
    using assms by (auto simp: takeWhile_append takeWhile_eq_all_conv)
  moreover have "takeWhile (\<lambda>x. x \<noteq> CHR '','') p = p" using assms by (auto simp: takeWhile_eq_all_conv)
  then have "length (takeWhile (\<lambda>x. x \<noteq> CHR '','') p) = length p" by (rule arg_cong)
  ultimately show "find_char (CHR '','') (pre @ p @ CHR '','' # rest) (length pre) = Some (length pre + length p)"
    "find_char (CHR '','') (pre @ p) (length pre) = None" by (simp_all add: find_char_def del: takeWhile_eq_all_conv)
qed

lemma load_maps_from_ok:
  "ps \<noteq> [] \<Longrightarrow> \<forall>p \<in> set ps. CHR '','' \<notin> set p \<Longrightarrow>
   load_maps_from files (pre @ join_commas ps) (length pre) m = Some (fold (load_or_complain files) ps m)"
proof (induction ps arbitrary: pre m rule: join_commas.induct)
  case (2 p)
  then show ?case using find_char_first(2) [of p pre] by (simp add: load_maps_from.simps [of files "pre @ p"])
next
  case (3 p q ps)
  have "load_maps_from files ((pre @ p @ '','') @ join_commas (q # ps)) (length (pre @ p @ '','')) (load_or_complain files p m) =
    Some (fold (load_or_complain files) (q # ps) (load_or_complain files p m))"
    using "3.IH" [of "pre @ p @ '',''"] "3.prems"(2) by simp
  then show ?case
    using find_char_first(1) [of p pre "join_commas (q # ps)"] "3.prems"(2)
    by (subst load_maps_from.simps) (simp add: add.assoc)
qed simp

text \<open>
  C31. Map files are read as they are written. For a comma-separated list of files, each of which is missing or has lines
  with a category, a label and a number, loading ends without an exception and gives the entries of all files
  in the order of the list, a later entry replacing an earlier one; a file that cannot be opened is reported and skipped.
\<close>

theorem map_files_roundtrip:
  assumes "ps \<noteq> []" and "\<forall>p \<in> set ps. CHR '','' \<notin> set p" and "\<forall>p \<in> set ps. \<forall>e \<in> set (entries p). entry_ok e"
    and "\<forall>p \<in> set ps. files p = (if p \<in> missing then None else Some (concat (map print_entry (entries p))))"
  shows "load_maps files (join_commas ps) m =
    Some (fold (\<lambda>p m. if p \<in> missing then m\<lparr>tm_cerr := tm_cerr m @ [''unable to load map file '' @ p]\<rparr>
                      else fold put_entry (entries p) m) ps m)"
proof -
  have "load_or_complain files p = (\<lambda>m. if p \<in> missing then m\<lparr>tm_cerr := tm_cerr m @ [''unable to load map file '' @ p]\<rparr>
      else fold put_entry (entries p) m)" if "p \<in> set ps" for p
    using that assms(3,4) load_entries_ok [of "entries p" "[]"]
    by (auto simp: load_or_complain_def load_map_def fun_eq_iff)
  then have "fold (load_or_complain files) ps m = fold (\<lambda>p m. if p \<in> missing
      then m\<lparr>tm_cerr := tm_cerr m @ [''unable to load map file '' @ p]\<rparr> else fold put_entry (entries p) m) ps m"
    by (intro fold_cong) auto
  then show ?thesis using load_maps_from_ok [OF assms(1,2), of files "[]" m] by (simp add: load_maps_def)
qed

theorem map_files_roundtrip_witness:
  "load_maps (\<lambda>p. if p = ''a.map'' then Some (print_entry (''lua'', ''main'', 7)) else None) ''a.map,b.map''
     \<lparr>tm_input_map = Map.empty, tm_cerr = []\<rparr> =
   Some \<lparr>tm_input_map = [7 \<mapsto> \<lparr>mi_label = ''main'', mi_category = ''lua''\<rparr>],
         tm_cerr = [''unable to load map file b.map'']\<rparr>"
proof -
  have "join_commas [''a.map'', ''b.map''] = ''a.map,b.map''" by simp
  then show ?thesis
    using map_files_roundtrip [of "[''a.map'', ''b.map'']" "\<lambda>_. [(''lua'', ''main'', 7)]"
        "\<lambda>p. if p = ''a.map'' then Some (print_entry (''lua'', ''main'', 7)) else None" "{''b.map''}"
        "\<lparr>tm_input_map = Map.empty, tm_cerr = []\<rparr>"]
    by (simp add: entry_ok_def is_word_def is_space_def put_entry_def)
qed

end
