(* ===== verification/Converter.thy ===== *)
theory Converter
  imports Tracepoint_Map Klass_Register
begin

text \<open>
  \<^verbatim>\<open>client/converter.cpp\<close> and \<^verbatim>\<open>client/chrome_trace_converter.cpp\<close>: the labels of events, and the conversion to the JSON
  format of the Chrome trace viewer.

  A null pointer where a string is needed is undefined. The values of an event are an unordered map; the parameter \<open>walk\<close> is the
  order in which a loop goes through them. The output stream keeps what was written to it; writes to a stream that is not open, or
  whose second opening failed, are lost.
\<close>

section \<open>The base of the converters\<close>

record Converter =
  cv_tracepoint_map :: TracepointMap
  cv_mapping_klass_id :: HT_EventKlassId

definition mapping_klass_name :: string where
  "mapping_klass_name = ''HT_StringMappingEvent''"

definition new_converter :: Converter where
  "new_converter = \<lparr>cv_tracepoint_map = \<lparr>tm_input_map = Map.empty, tm_cerr = []\<rparr>, cv_mapping_klass_id = 0\<rparr>"

definition set_tracepoint_map ::
  "(string \<Rightarrow> string option) \<Rightarrow> string \<Rightarrow> 's Converter_scheme \<Rightarrow> (bool \<times> 's Converter_scheme) option" where
  "set_tracepoint_map files map_files c =
     do { m \<leftarrow> load_maps files map_files (cv_tracepoint_map c); Some (True, c\<lparr>cv_tracepoint_map := m\<rparr>) }"

definition try_setting_mapping_klass_id :: "Event \<Rightarrow> 's Converter_scheme \<Rightarrow> 's Converter_scheme option" where
  "try_setting_mapping_klass_id ev c =
     do { k \<leftarrow> evt_klass ev;
          if k = WK_EventKlassInfoEventKlass
          then do { name \<leftarrow> get_string ''event_klass_name'' ev;
                    name \<leftarrow> name;
                    if name = mapping_klass_name
                    then do { i \<leftarrow> get_number 4 ''info_klass_id'' ev; Some (c\<lparr>cv_mapping_klass_id := ucast i\<rparr>) }
                    else Some c }
          else Some c }"

definition convert_value_to_string ::
  "EventKlassField \<times> FieldType \<Rightarrow> 's Converter_scheme \<Rightarrow> (string \<times> 's Converter_scheme) option" where
  "convert_value_to_string v c =
     (case fld_type_id (fst v) of
        UINT64 \<Rightarrow>
          (case snd v of
             Num n \<Rightarrow> (case get_label_info n (cv_tracepoint_map c) of
                         (info, m) \<Rightarrow> Some (mi_label info, c\<lparr>cv_tracepoint_map := m\<rparr>))
           | _ \<Rightarrow> None)
      | STRING \<Rightarrow> (case snd v of Str (Some s) \<Rightarrow> Some (s, c) | _ \<Rightarrow> None)
      | _ \<Rightarrow> Some (''invalid label type'', c))"

definition get_label :: "Event \<Rightarrow> 's Converter_scheme \<Rightarrow> (string \<times> 's Converter_scheme) option" where
  "get_label ev c =
     (if cv_mapping_klass_id c = 0
      then do { c \<leftarrow> try_setting_mapping_klass_id ev c; Some ('''', c) }
      else do {
        k \<leftarrow> evt_klass ev;
        if k = cv_mapping_klass_id c
        then do { i \<leftarrow> get_number 8 ''identifier'' ev;
                  label \<leftarrow> get_string ''label'' ev;
                  label \<leftarrow> label;
                  Some ('''', c\<lparr>cv_tracepoint_map := add_map_entry i label (cv_tracepoint_map c)\<rparr>) }
        else if has_value ''label'' ev
        then do { v \<leftarrow> map_of (evt_values ev) ''label''; convert_value_to_string v c }
        else if has_value ''name'' ev
        then do { name \<leftarrow> get_string ''name'' ev; name \<leftarrow> name; Some (name, c) }
        else Some ('''', c) })"

section \<open>The Chrome format\<close>

definition ns_to_ms :: "u64 \<Rightarrow> u64" where
  "ns_to_ms nano_secs = nano_secs div 1000"

definition get_value_or_default :: "nat \<Rightarrow> string \<Rightarrow> u64 \<Rightarrow> Event \<Rightarrow> u64 option" where
  "get_value_or_default w key default_value ev =
     (if has_value key ev then get_number w key ev else Some default_value)"

definition unsigned_json :: "nat \<Rightarrow> FieldType \<Rightarrow> string option" where
  "unsigned_json w v = (case v of Num n \<Rightarrow> Some (to_decimal (unat (take_bit (8 * w) n))) | _ \<Rightarrow> None)"

definition signed_json :: "nat \<Rightarrow> FieldType \<Rightarrow> string option" where
  "signed_json w v = (case v of Num n \<Rightarrow> Some (to_decimal_int (signed_value w n)) | _ \<Rightarrow> None)"

definition get_json_value :: "EventKlassField \<times> FieldType \<Rightarrow> string option" where
  \<open>get_json_value v =
     (case fld_type_id (fst v) of
        UINT8 \<Rightarrow> unsigned_json 1 (snd v) | INT8 \<Rightarrow> signed_json 1 (snd v)
      | UINT16 \<Rightarrow> unsigned_json 2 (snd v) | INT16 \<Rightarrow> signed_json 2 (snd v)
      | UINT32 \<Rightarrow> unsigned_json 4 (snd v) | INT32 \<Rightarrow> signed_json 4 (snd v)
      | UINT64 \<Rightarrow> unsigned_json 8 (snd v) | INT64 \<Rightarrow> signed_json 8 (snd v)
      | STRING \<Rightarrow> (case snd v of Str (Some s) \<Rightarrow> Some (''"'' @ s @ ''"'') | _ \<Rightarrow> None)
      | _ \<Rightarrow> Some ''"unsupported type"'')\<close>

definition core_fields :: "string list" where
  "core_fields = [''thread_id'', ''timestamp'', ''klass_id'', ''id'', ''label'', ''duration'']"

type_synonym entry = "string \<times> EventKlassField \<times> FieldType"

text \<open>The loop of \<^verbatim>\<open>_get_args\<close>, with \<^verbatim>\<open>is_first\<close> and the text so far.\<close>

fun get_args_from :: "entry list \<Rightarrow> bool \<Rightarrow> string \<Rightarrow> string option" where
  "get_args_from [] is_first ret = Some ret"
| \<open>get_args_from ((name, v) # values) is_first ret =
     (if name \<in> set core_fields then get_args_from values is_first ret
      else do {
        let (is_first, ret) = (if is_first then (False, ret) else (is_first, ret @ '',''));
        json \<leftarrow> get_json_value v;
        get_args_from values is_first (ret @ ''"'' @ name @ ''": '' @ json) })\<close>

definition get_args :: "(entry list \<Rightarrow> entry list) \<Rightarrow> Event \<Rightarrow> string option" where
  "get_args walk ev = get_args_from (walk (evt_values ev)) True ''''"

record ChromeTraceConverter = Converter +
  ch_is_open :: bool
  ch_good :: bool
  ch_written :: string
  ch_first_event_saved :: bool

definition new_chrome_converter :: ChromeTraceConverter where
  "new_chrome_converter =
     \<lparr>cv_tracepoint_map = cv_tracepoint_map new_converter, cv_mapping_klass_id = cv_mapping_klass_id new_converter,
      ch_is_open = False, ch_good = True, ch_written = '''', ch_first_event_saved = False\<rparr>"

definition ch_put :: "string \<Rightarrow> ChromeTraceConverter \<Rightarrow> ChromeTraceConverter" where
  "ch_put s c = (if ch_is_open c \<and> ch_good c then c\<lparr>ch_written := ch_written c @ s\<rparr> else c\<lparr>ch_good := False\<rparr>)"

text \<open>\<open>can_open\<close> says which files can be opened for writing.\<close>

definition chrome_init ::
  "(string \<Rightarrow> bool) \<Rightarrow> string \<Rightarrow> ChromeTraceConverter \<Rightarrow> bool \<times> ChromeTraceConverter" where
  \<open>chrome_init can_open file_name c =
     (let c = c\<lparr>ch_first_event_saved := False\<rparr>;
          c = (if ch_is_open c then c\<lparr>ch_good := False\<rparr>
               else if can_open file_name then c\<lparr>ch_is_open := True, ch_good := True, ch_written := ''''\<rparr>
               else c\<lparr>ch_good := False\<rparr>)
      in if ch_is_open c then (True, ch_put ''{"traceEvents": ['' c) else (False, c))\<close>

definition event_json :: "(entry list \<Rightarrow> entry list) \<Rightarrow> string \<Rightarrow> Event \<Rightarrow> string option" where
  \<open>event_json walk label ev =
     do { dur \<leftarrow> get_value_or_default 8 ''duration'' 0 ev;
          tid \<leftarrow> get_value_or_default 4 ''thread_id'' 0 ev;
          args \<leftarrow> get_args walk ev;
          Some (''{"name": "'' @ label @ ''", "ph": "X", "ts": '' @ to_decimal (unat (ns_to_ms (evt_timestamp ev))) @
                '', "dur": '' @ to_decimal (unat (ns_to_ms dur)) @
                '', "pid": 0, "tid": '' @ to_decimal (unat tid) @
                '', "args": {'' @ args @ ''}'' @ ''}'') }\<close>

definition chrome_process_event ::
  "(entry list \<Rightarrow> entry list) \<Rightarrow> Event \<Rightarrow> ChromeTraceConverter \<Rightarrow> ChromeTraceConverter option" where
  "chrome_process_event walk ev c =
     do { (label, c) \<leftarrow> get_label ev c;
          if label = '''' then Some c
          else do {
            let c = (if ch_first_event_saved c then ch_put '','' c else c\<lparr>ch_first_event_saved := True\<rparr>);
            s \<leftarrow> event_json walk label ev;
            Some (ch_put s c) } }"

definition chrome_stop :: "ChromeTraceConverter \<Rightarrow> ChromeTraceConverter" where
  "chrome_stop c = (if ch_is_open c then (ch_put '']}'' c)\<lparr>ch_is_open := False\<rparr> else c)"

section \<open>Labels\<close>

text \<open>
  The specification of labels: the identifier of the mapping class, 0 until it is known, and the name of every
  number.
\<close>

type_synonym naming = "HT_EventKlassId \<times> (u64 \<Rightarrow> string)"

definition name_in :: "TracepointMap \<Rightarrow> u64 \<Rightarrow> string" where
  "name_in m l = (case tm_input_map m l of Some info \<Rightarrow> mi_label info | None \<Rightarrow> to_decimal (unat l))"

definition text_of :: "string \<Rightarrow> Event \<Rightarrow> string" where
  "text_of key ev = (case get_string key ev of Some (Some s) \<Rightarrow> s | _ \<Rightarrow> '''')"

definition number_of :: "nat \<Rightarrow> string \<Rightarrow> Event \<Rightarrow> u64" where
  "number_of w key ev = (case get_number w key ev of Some n \<Rightarrow> n | None \<Rightarrow> 0)"

definition announces_mapping :: "Event \<Rightarrow> bool" where
  "announces_mapping ev \<longleftrightarrow>
     evt_klass ev = Some WK_EventKlassInfoEventKlass \<and> text_of ''event_klass_name'' ev = mapping_klass_name"

fun learn_name :: "naming \<Rightarrow> Event \<Rightarrow> naming" where
  "learn_name (k, names) ev =
     (if k = 0 then (if announces_mapping ev then ucast (number_of 4 ''info_klass_id'' ev) else 0, names)
      else if evt_klass ev = Some k then (k, names(number_of 8 ''identifier'' ev := text_of ''label'' ev))
      else (k, names))"

fun label_in :: "naming \<Rightarrow> Event \<Rightarrow> string" where
  "label_in (k, names) ev =
     (if k = 0 \<or> evt_klass ev = Some k then ''''
      else case map_of (evt_values ev) ''label'' of
        Some (field, v) \<Rightarrow>
          (if fld_type_id field = UINT64 then names (number_of 8 ''label'' ev)
           else if fld_type_id field = STRING then text_of ''label'' ev
           else ''invalid label type'')
      | None \<Rightarrow> if has_value ''name'' ev then text_of ''name'' ev else '''')"

fun event_labels :: "naming \<Rightarrow> Event list \<Rightarrow> string list" where
  "event_labels nm [] = []"
| "event_labels nm (ev # evs) = label_in nm ev # event_labels (learn_name nm ev) evs"

text \<open>The fields that the code reads without a test are there and have the type that the code expects.\<close>

definition has_text :: "string \<Rightarrow> Event \<Rightarrow> bool" where
  "has_text key ev \<longleftrightarrow> (\<exists>s. get_string key ev = Some (Some s))"

definition has_number :: "nat \<Rightarrow> string \<Rightarrow> Event \<Rightarrow> bool" where
  "has_number w key ev \<longleftrightarrow> get_number w key ev \<noteq> None"

fun event_ok :: "naming \<Rightarrow> Event \<Rightarrow> bool" where
  "event_ok (k, names) ev \<longleftrightarrow> evt_klass ev \<noteq> None \<and>
     (if k = 0
      then evt_klass ev = Some WK_EventKlassInfoEventKlass \<longrightarrow>
             has_text ''event_klass_name'' ev \<and> (announces_mapping ev \<longrightarrow> has_number 4 ''info_klass_id'' ev)
      else if evt_klass ev = Some k then has_number 8 ''identifier'' ev \<and> has_text ''label'' ev
      else case map_of (evt_values ev) ''label'' of
        Some (field, v) \<Rightarrow>
          (fld_type_id field = UINT64 \<longrightarrow> has_number 8 ''label'' ev) \<and>
          (fld_type_id field = STRING \<longrightarrow> has_text ''label'' ev)
      | None \<Rightarrow> has_value ''name'' ev \<longrightarrow> has_text ''name'' ev)"

fun events_ok :: "naming \<Rightarrow> Event list \<Rightarrow> bool" where
  "events_ok nm [] \<longleftrightarrow> True"
| "events_ok nm (ev # evs) \<longleftrightarrow> event_ok nm ev \<and> events_ok (learn_name nm ev) evs"

definition naming_of :: "'s Converter_scheme \<Rightarrow> naming" where
  "naming_of c = (cv_mapping_klass_id c, name_in (cv_tracepoint_map c))"

lemma get_label_info_ok:
  "get_label_info l m = (info, m') \<Longrightarrow> mi_label info = name_in m l \<and> name_in m' = name_in m"
  by (auto simp: get_label_info_def name_in_def Let_def fun_eq_iff split: option.splits if_splits)

lemma name_in_add: "name_in (add_map_entry i label m) = (name_in m)(i := label)"
  by (auto simp: add_map_entry_def name_in_def)

lemma get_number_ok: "has_number w key ev \<Longrightarrow> get_number w key ev = Some (number_of w key ev)"
  by (auto simp: has_number_def number_of_def)

lemma get_string_ok: "has_text key ev \<Longrightarrow> get_string key ev = Some (Some (text_of key ev))"
  by (auto simp: has_text_def text_of_def)

text \<open>Only the base of a converter is read and changed.\<close>

definition rebased :: "Event \<Rightarrow> 's Converter_scheme \<Rightarrow> 's Converter_scheme \<Rightarrow> bool" where
  "rebased ev c c' \<longleftrightarrow> (\<exists>m k. c' = c\<lparr>cv_tracepoint_map := m, cv_mapping_klass_id := k\<rparr>) \<and>
     naming_of c' = learn_name (naming_of c) ev"

lemma rebasedI:
  "naming_of (c\<lparr>cv_tracepoint_map := m, cv_mapping_klass_id := k\<rparr>) = learn_name (naming_of c) ev \<Longrightarrow>
   rebased ev c (c\<lparr>cv_tracepoint_map := m, cv_mapping_klass_id := k\<rparr>)"
  by (auto simp: rebased_def)

lemma rebased_map: "(k, name_in m) = learn_name (naming_of c) ev \<Longrightarrow> k = cv_mapping_klass_id c \<Longrightarrow> rebased ev c (c\<lparr>cv_tracepoint_map := m\<rparr>)"
  using rebasedI [where c = c and m = m and k = "cv_mapping_klass_id c" and ev = ev] by (simp add: naming_of_def)

lemma rebased_same: "naming_of c = learn_name (naming_of c) ev \<Longrightarrow> rebased ev c c"
  using rebased_map [where k = "cv_mapping_klass_id c" and m = "cv_tracepoint_map c" and c = c and ev = ev] by (simp add: naming_of_def)

lemma get_label_unknown:
  assumes ok: "event_ok (naming_of c) ev" and k: "cv_mapping_klass_id c = 0"
  shows "\<exists>c'. get_label ev c = Some (label_in (naming_of c) ev, c') \<and> rebased ev c c'"
proof (cases "announces_mapping ev")
  case True
  then have "has_text ''event_klass_name'' ev" "has_number 4 ''info_klass_id'' ev"
    using ok k by (auto simp: naming_of_def announces_mapping_def)
  then have "get_label ev c = Some ('''', c\<lparr>cv_mapping_klass_id := ucast (number_of 4 ''info_klass_id'' ev)\<rparr>)"
    using True k by (simp add: get_label_def try_setting_mapping_klass_id_def announces_mapping_def get_string_ok get_number_ok)
  moreover have "rebased ev c (c\<lparr>cv_mapping_klass_id := ucast (number_of 4 ''info_klass_id'' ev)\<rparr>)"
    using rebasedI [where c = c and m = "cv_tracepoint_map c" and k = "ucast (number_of 4 ''info_klass_id'' ev)" and ev = ev] k True
    by (simp add: naming_of_def)
  ultimately show ?thesis using k by (simp add: naming_of_def)
next
  case False
  from ok k obtain i where i: "evt_klass ev = Some i" by (auto simp: naming_of_def)
  have "get_label ev c = Some ('''', c)"
  proof (cases "i = WK_EventKlassInfoEventKlass")
    case True
    then have "has_text ''event_klass_name'' ev" using ok k i by (auto simp: naming_of_def)
    then show ?thesis using False True i k
      by (simp add: get_label_def try_setting_mapping_klass_id_def announces_mapping_def get_string_ok)
  qed (simp add: get_label_def try_setting_mapping_klass_id_def k i)
  moreover have "rebased ev c c" using k False by (intro rebased_same) (simp add: naming_of_def)
  ultimately show ?thesis using k by (simp add: naming_of_def)
qed

lemma get_label_mapping:
  assumes ok: "event_ok (naming_of c) ev" and k: "cv_mapping_klass_id c \<noteq> 0" "evt_klass ev = Some (cv_mapping_klass_id c)"
  shows "\<exists>c'. get_label ev c = Some (label_in (naming_of c) ev, c') \<and> rebased ev c c'"
proof -
  have "has_number 8 ''identifier'' ev" "has_text ''label'' ev" using ok k by (simp_all add: naming_of_def)
  then have "get_label ev c = Some ('''', c\<lparr>cv_tracepoint_map :=
      add_map_entry (number_of 8 ''identifier'' ev) (text_of ''label'' ev) (cv_tracepoint_map c)\<rparr>)"
    using k by (simp add: get_label_def get_string_ok get_number_ok)
  moreover have "rebased ev c (c\<lparr>cv_tracepoint_map :=
      add_map_entry (number_of 8 ''identifier'' ev) (text_of ''label'' ev) (cv_tracepoint_map c)\<rparr>)"
    using k by (intro rebased_map [of "cv_mapping_klass_id c"]) (simp_all add: naming_of_def name_in_add)
  ultimately show ?thesis using k by (simp add: naming_of_def)
qed

lemma get_label_other:
  assumes ok: "event_ok (naming_of c) ev" and k: "cv_mapping_klass_id c \<noteq> 0" "evt_klass ev \<noteq> Some (cv_mapping_klass_id c)"
  shows "\<exists>c'. get_label ev c = Some (label_in (naming_of c) ev, c') \<and> rebased ev c c'"
proof -
  from ok obtain i where i: "evt_klass ev = Some i" by (auto simp: naming_of_def)
  have stay: "naming_of c = learn_name (naming_of c) ev" using k by (simp add: naming_of_def)
  then have same: "rebased ev c c" by (rule rebased_same)
  show ?thesis
  proof (cases "map_of (evt_values ev) ''label''")
    case None
    then show ?thesis using ok k i same
      by (cases "has_value ''name'' ev") (auto simp: get_label_def naming_of_def has_value_def get_string_ok)
  next
    case (Some fv)
    obtain field v where fv: "fv = (field, v)" by force
    have run: "get_label ev c = convert_value_to_string (field, v) c"
      using k i Some fv by (auto simp: get_label_def has_value_def)
    consider "fld_type_id field = UINT64" | "fld_type_id field = STRING" | "fld_type_id field \<noteq> UINT64" "fld_type_id field \<noteq> STRING"
      by blast
    then show ?thesis
    proof cases
      case 1
      then have "has_number 8 ''label'' ev" using ok k i Some fv by (auto simp: naming_of_def)
      then obtain n where n: "v = Num n" "number_of 8 ''label'' ev = n"
        using Some fv by (cases v) (auto simp: has_number_def number_of_def get_number_def take_bit_word_eq_self)
      obtain info m where m: "get_label_info n (cv_tracepoint_map c) = (info, m)" by force
      have "rebased ev c (c\<lparr>cv_tracepoint_map := m\<rparr>)"
        using get_label_info_ok [OF m] k by (intro rebased_map [of "cv_mapping_klass_id c"]) (simp_all add: naming_of_def)
      then show ?thesis using run 1 n m get_label_info_ok [OF m] k Some fv by (simp add: convert_value_to_string_def naming_of_def)
    next
      case 2
      then have "has_text ''label'' ev" using ok k i Some fv by (auto simp: naming_of_def)
      then obtain t where "v = Str (Some t)" "text_of ''label'' ev = t"
        using Some fv by (cases v) (auto simp: has_text_def text_of_def get_string_def)
      then show ?thesis using run 2 same k Some fv by (simp add: convert_value_to_string_def naming_of_def)
    next
      case 3
      then show ?thesis using run same k Some fv
        by (auto simp: convert_value_to_string_def naming_of_def split: FieldTypeId.split)
    qed
  qed
qed

lemma get_label_ok:
  assumes "event_ok (naming_of c) ev"
  shows "\<exists>c'. get_label ev c = Some (label_in (naming_of c) ev, c') \<and> rebased ev c c'"
  using get_label_unknown [OF assms] get_label_mapping [OF assms] get_label_other [OF assms] by blast

section \<open>Properties of the labels\<close>

fun get_labels :: "Event list \<Rightarrow> 's Converter_scheme \<Rightarrow> (string list \<times> 's Converter_scheme) option" where
  "get_labels [] c = Some ([], c)"
| "get_labels (ev # evs) c = do { (l, c) \<leftarrow> get_label ev c; (ls, c) \<leftarrow> get_labels evs c; Some (l # ls, c) }"

lemma get_labels_ok:
  "events_ok (naming_of c) evs \<Longrightarrow> \<exists>c'. get_labels evs c = Some (event_labels (naming_of c) evs, c')"
proof (induction evs arbitrary: c)
  case (Cons ev evs)
  from get_label_ok [of c ev] Cons.prems obtain c1 where
    c1: "get_label ev c = Some (label_in (naming_of c) ev, c1)" "naming_of c1 = learn_name (naming_of c) ev"
    by (auto simp: rebased_def)
  from Cons.IH [of c1] Cons.prems c1 show ?case by auto
qed simp

text \<open>
  C32. A converter gives every event the label that the trace and the map files say: nothing before the trace has described the class of
  mapping events; from then on the name that the last mapping event with the number gave it, without one the name from the map files, and
  without that the number itself. The entry that the lookup of an unknown number leaves in the map
  never changes a later label, and a mapping event that comes after it still takes effect.
\<close>

theorem labels_follow_the_mappings:
  assumes "events_ok (naming_of c) evs"
  shows "\<exists>c'. get_labels evs c = Some (event_labels (naming_of c) evs, c')"
  using get_labels_ok [OF assms] .

definition number_field :: "string \<Rightarrow> FieldTypeId \<Rightarrow> u64 \<Rightarrow> entry" where
  "number_field name t v = (name, simple_field name ''int'' t, Num v)"

definition text_field :: "string \<Rightarrow> string \<Rightarrow> entry" where
  "text_field name s = (name, simple_field name ''char*'' STRING, Str (Some s))"

lemmas demo_field_simps = number_field_def text_field_def simple_field_def

definition demo_describe :: Event where
  "demo_describe = Event (Some 2) [number_field ''info_klass_id'' UINT32 7,
     text_field ''event_klass_name'' ''HT_StringMappingEvent''] 1"

definition demo_mapping :: "u64 \<Rightarrow> string \<Rightarrow> Event" where
  "demo_mapping i s = Event (Some 7) [number_field ''identifier'' UINT64 i, text_field ''label'' s] 2"

definition demo_labelled :: "u64 \<Rightarrow> Event" where
  "demo_labelled l = Event (Some 5) [number_field ''label'' UINT64 l, number_field ''duration'' UINT64 3000] 5000"

lemmas demo_event_defs = demo_describe_def demo_mapping_def demo_labelled_def demo_field_simps

lemma demo_numbers:
  "number_of 4 ''info_klass_id'' demo_describe = 7" "number_of 8 ''identifier'' (demo_mapping i s) = i"
  "number_of 8 ''label'' (demo_labelled l) = l"
  by (simp_all add: number_of_def get_number_def demo_event_defs take_bit_word_eq_self)

lemma demo_texts:
  "text_of ''event_klass_name'' demo_describe = mapping_klass_name" "text_of ''label'' (demo_mapping i s) = s"
  by (simp_all add: text_of_def get_string_def demo_event_defs mapping_klass_name_def)

lemma demo_has:
  "has_text ''event_klass_name'' demo_describe" "has_number 4 ''info_klass_id'' demo_describe"
  "has_number 8 ''identifier'' (demo_mapping i s)" "has_text ''label'' (demo_mapping i s)" "has_number 8 ''label'' (demo_labelled l)"
  by (simp_all add: has_text_def has_number_def get_string_def get_number_def demo_event_defs)

lemma demo_klasses:
  "evt_klass demo_describe = Some 2" "evt_klass (demo_mapping i s) = Some 7" "evt_klass (demo_labelled l) = Some 5"
  "map_of (evt_values (demo_labelled l)) ''label'' = Some (simple_field ''label'' ''int'' UINT64, Num l)"
  by (simp_all add: demo_event_defs)

lemma demo_announces: "announces_mapping demo_describe"
  by (simp add: announces_mapping_def demo_texts demo_klasses well_known_defs)

lemmas demo_label_simps = demo_numbers demo_texts demo_has demo_klasses demo_announces simple_field_def

theorem labels_follow_the_mappings_witness:
  "\<exists>c'. get_labels [demo_labelled 4, demo_describe, demo_labelled 4, demo_mapping 4 ''f'', demo_labelled 4] new_converter =
     Some (['''', '''', ''4'', '''', ''f''], c')"
proof -
  let ?evs = "[demo_labelled 4, demo_describe, demo_labelled 4, demo_mapping 4 ''f'', demo_labelled 4]"
  have name: "naming_of new_converter = (0, \<lambda>l. to_decimal (unat l))"
    by (simp add: naming_of_def new_converter_def name_in_def fun_eq_iff)
  have four: "to_decimal 4 = ''4''" by code_simp
  have "\<not> announces_mapping (demo_labelled 4)" by (simp add: announces_mapping_def demo_klasses well_known_defs)
  then have "events_ok (naming_of new_converter) ?evs" "event_labels (naming_of new_converter) ?evs = ['''', '''', ''4'', '''', ''f'']"
    by (simp_all add: name demo_label_simps four well_known_defs)
  then show ?thesis using labels_follow_the_mappings [of new_converter ?evs] by simp
qed

section \<open>The Chrome trace file\<close>

lemma join_commas_snoc: "ps \<noteq> [] \<Longrightarrow> join_commas (ps @ [p]) = join_commas ps @ CHR '','' # p"
  by (induction ps rule: join_commas.induct) auto

definition typed_value :: "EventKlassField \<times> FieldType \<Rightarrow> bool" where
  "typed_value v \<longleftrightarrow> (is_numeric (fst v) \<longrightarrow> (\<exists>n. snd v = Num n)) \<and> (fld_type_id (fst v) = STRING \<longrightarrow> (\<exists>s. snd v = Str (Some s)))"

definition json_ok :: "Event \<Rightarrow> bool" where
  "json_ok ev \<longleftrightarrow> (has_value ''duration'' ev \<longrightarrow> has_number 8 ''duration'' ev) \<and>
     (has_value ''thread_id'' ev \<longrightarrow> has_number 4 ''thread_id'' ev) \<and> (\<forall>(name, v) \<in> set (evt_values ev). typed_value v)"

lemma get_json_value_ok: "typed_value v \<Longrightarrow> get_json_value v \<noteq> None"
  by (cases "fld_type_id (fst v)")
    (auto simp: typed_value_def get_json_value_def unsigned_json_def signed_json_def is_numeric_def)

lemma get_args_from_ok: "\<forall>(name, v) \<in> set es. typed_value v \<Longrightarrow> get_args_from es is_first ret \<noteq> None"
proof (induction es arbitrary: is_first ret)
  case (Cons e es)
  obtain name v where e: "e = (name, v)" by (cases e)
  then obtain j where "get_json_value v = Some j" using get_json_value_ok [of v] Cons.prems by auto
  then show ?case using Cons.IH Cons.prems by (simp add: e Let_def split del: if_split) (simp split: if_split)
qed simp

lemma event_json_ok:
  assumes "json_ok ev" and "\<forall>es. mset (walk es) = mset es"
  shows "\<exists>s. event_json walk label ev = Some s"
proof -
  have "set (walk (evt_values ev)) = set (evt_values ev)" using assms(2) by (metis mset_eq_setD)
  then obtain args where "get_args walk ev = Some args"
    using get_args_from_ok [of "walk (evt_values ev)" True "[]"] assms(1) by (auto simp: get_args_def json_ok_def)
  moreover obtain dur where "get_value_or_default 8 ''duration'' 0 ev = Some dur"
    using assms(1) by (cases "has_value ''duration'' ev") (auto simp: get_value_or_default_def json_ok_def has_number_def)
  moreover obtain tid where "get_value_or_default 4 ''thread_id'' 0 ev = Some tid"
    using assms(1) by (cases "has_value ''thread_id'' ev") (auto simp: get_value_or_default_def json_ok_def has_number_def)
  ultimately show ?thesis by (simp add: event_json_def)
qed

definition chrome_records :: "(entry list \<Rightarrow> entry list) \<Rightarrow> naming \<Rightarrow> Event list \<Rightarrow> string list" where
  "chrome_records walk nm evs =
     map (\<lambda>(l, ev). the (event_json walk l ev)) (filter (\<lambda>(l, ev). l \<noteq> '''') (zip (event_labels nm evs) evs))"

definition chrome_header :: string where
  \<open>chrome_header = ''{"traceEvents": [''\<close>

definition chrome_wrote :: "ChromeTraceConverter \<Rightarrow> string list \<Rightarrow> bool" where
  "chrome_wrote c recs \<longleftrightarrow> ch_is_open c \<and> ch_good c \<and> ch_first_event_saved c = (recs \<noteq> []) \<and>
     ch_written c = chrome_header @ join_commas recs"

lemma chrome_process_ok:
  assumes w: "chrome_wrote c recs" and ok: "event_ok (naming_of c) ev" "json_ok ev" and walk: "\<forall>es. mset (walk es) = mset es"
  shows "\<exists>c'. chrome_process_event walk ev c = Some c' \<and> naming_of c' = learn_name (naming_of c) ev \<and>
    chrome_wrote c' (recs @ chrome_records walk (naming_of c) [ev])"
proof -
  from get_label_ok [OF ok(1)] obtain m k where
    lab: "get_label ev c = Some (label_in (naming_of c) ev, c\<lparr>cv_tracepoint_map := m, cv_mapping_klass_id := k\<rparr>)"
    and nm: "naming_of (c\<lparr>cv_tracepoint_map := m, cv_mapping_klass_id := k\<rparr>) = learn_name (naming_of c) ev"
    by (auto simp: rebased_def)
  obtain r where r: "event_json walk (label_in (naming_of c) ev) ev = Some r" using event_json_ok [OF ok(2) walk] by blast
  show ?thesis
  proof (cases "label_in (naming_of c) ev = ''''")
    case True
    then show ?thesis using lab nm w by (auto simp: chrome_process_event_def chrome_records_def chrome_wrote_def)
  next
    case False
    then show ?thesis using lab nm w r
      by (cases "recs = []")
        (auto simp: chrome_process_event_def chrome_records_def chrome_wrote_def ch_put_def naming_of_def join_commas_snoc)
  qed
qed

lemma chrome_records_Cons:
  "chrome_records walk nm (ev # evs) = chrome_records walk nm [ev] @ chrome_records walk (learn_name nm ev) evs"
  by (simp add: chrome_records_def)

lemma chrome_run_ok:
  "chrome_wrote c recs \<Longrightarrow> events_ok (naming_of c) evs \<Longrightarrow> \<forall>ev \<in> set evs. json_ok ev \<Longrightarrow> \<forall>es. mset (walk es) = mset es \<Longrightarrow>
   \<exists>c'. run_ops (chrome_process_event walk) evs c = Some c' \<and> chrome_wrote c' (recs @ chrome_records walk (naming_of c) evs)"
proof (induction evs arbitrary: c recs)
  case Nil
  then show ?case by (simp add: chrome_records_def)
next
  case (Cons ev evs)
  from chrome_process_ok [OF Cons.prems(1), of ev walk] Cons.prems obtain c1 where
    c1: "chrome_process_event walk ev c = Some c1" "naming_of c1 = learn_name (naming_of c) ev"
      "chrome_wrote c1 (recs @ chrome_records walk (naming_of c) [ev])" by auto
  from Cons.IH [OF c1(3)] Cons.prems(2-4) c1(1,2) show ?case
    by (simp add: chrome_records_Cons [of walk "naming_of c" ev evs])
qed

text \<open>
  C33. The file that the Chrome converter writes is one JSON array: the header, then for every event that has a label one object, in the order of
  the events and with one comma between two of them, then the closing brackets. No event is lost or repeated,
  and stopping again, as the destructor does, adds nothing.
\<close>

theorem chrome_file_has_one_record_per_event:
  assumes "\<not> ch_is_open c" and "can_open name" and "events_ok (naming_of c) evs" and "\<forall>ev \<in> set evs. json_ok ev"
    and "\<forall>es. mset (walk es) = mset es"
  shows "\<exists>c1 c2. chrome_init can_open name c = (True, c1) \<and> run_ops (chrome_process_event walk) evs c1 = Some c2 \<and>
    ch_written (chrome_stop c2) = chrome_header @ join_commas (chrome_records walk (naming_of c) evs) @ '']}'' \<and>
    chrome_stop (chrome_stop c2) = chrome_stop c2"
proof -
  obtain c1 where c1: "chrome_init can_open name c = (True, c1)" "chrome_wrote c1 []" "naming_of c1 = naming_of c"
    using assms(1,2) by (simp add: chrome_init_def ch_put_def chrome_wrote_def chrome_header_def naming_of_def)
  from chrome_run_ok [OF c1(2), of evs walk] assms(3-5) c1(3) obtain c2 where
    "run_ops (chrome_process_event walk) evs c1 = Some c2" "chrome_wrote c2 (chrome_records walk (naming_of c) evs)" by auto
  then show ?thesis using c1(1) by (auto simp: chrome_stop_def ch_put_def chrome_wrote_def)
qed

definition demo_record :: string where
  \<open>demo_record = ''{"name": "f", "ph": "X", "ts": 5, "dur": 3, "pid": 0, "tid": 0, "args": {}}''\<close>

theorem chrome_file_has_one_record_per_event_witness:
  \<open>\<exists>c1 c2. chrome_init (\<lambda>_. True) ''out'' new_chrome_converter = (True, c1) \<and>
     run_ops (chrome_process_event (\<lambda>es. es)) [demo_describe, demo_mapping 4 ''f'', demo_labelled 4] c1 = Some c2 \<and>
     ch_written (chrome_stop c2) =
       ''{"traceEvents": [{"name": "f", "ph": "X", "ts": 5, "dur": 3, "pid": 0, "tid": 0, "args": {}}]}''\<close>
proof -
  let ?evs = "[demo_describe, demo_mapping 4 ''f'', demo_labelled 4]"
  have name: "naming_of new_chrome_converter = (0, \<lambda>l. to_decimal (unat l))"
    by (simp add: naming_of_def new_chrome_converter_def new_converter_def name_in_def fun_eq_iff)
  have ok: "events_ok (naming_of new_chrome_converter) ?evs"
    by (simp add: name demo_label_simps well_known_defs)
  have json: "\<forall>ev \<in> set ?evs. json_ok ev"
    by (simp add: json_ok_def has_value_def has_number_def get_number_def typed_value_def is_numeric_def demo_event_defs)
  have "ns_to_ms 5000 = 5" "ns_to_ms 3000 = 3" by (simp_all add: ns_to_ms_def)
  moreover have "to_decimal 5 = ''5''" "to_decimal 3 = ''3''" "to_decimal 0 = ''0''" by code_simp+
  ultimately have "the (event_json (\<lambda>es. es) ''f'' (demo_labelled 4)) = demo_record"
    by (simp add: event_json_def get_value_or_default_def has_value_def get_number_def get_args_def core_fields_def
        demo_labelled_def demo_field_simps take_bit_word_eq_self demo_record_def)
  then have "chrome_records (\<lambda>es. es) (naming_of new_chrome_converter) ?evs = [demo_record]"
    by (simp add: chrome_records_def name demo_label_simps well_known_defs)
  then show ?thesis
    using chrome_file_has_one_record_per_event [OF _ _ ok json, of "\<lambda>_. True" "''out''" "\<lambda>es. es"]
    by (auto simp: new_chrome_converter_def chrome_header_def demo_record_def)
qed

end
