(* ===== verification/Call_Graph.thy ===== *)
theory Call_Graph
  imports Prelude
begin

text \<open>
  \<^verbatim>\<open>client/call_graph.hpp\<close> and \<^verbatim>\<open>client/call_graph.cpp\<close>: the tree of calls that the client builds from
  the events of one thread.

  The nodes that the shared pointers of the code refer to are a list, and a pointer is the position in
  it; a weak pointer to a parent is the position of the parent, whose node is
  kept alive by the calls of the roots. A list of calls holds a pointer and an \<^verbatim>\<open>int\<close>, how often it was
  called; the increment is undefined where it would overflow.
\<close>

section \<open>Structures\<close>

record NodeData =
  nd_label :: string
  nd_start_ts :: u64
  nd_stop_ts :: u64

definition new_node_data :: "string \<Rightarrow> u64 \<Rightarrow> u64 \<Rightarrow> NodeData" where
  "new_node_data name start dur = \<lparr>nd_label = name, nd_start_ts = start, nd_stop_ts = start + dur\<rparr>"

definition get_duration :: "NodeData \<Rightarrow> u64" where
  "get_duration d = nd_stop_ts d - nd_start_ts d"

type_synonym calls = "(nat \<times> nat) list"

record TreeNode =
  tn_data :: NodeData
  tn_total_duration :: u64
  tn_total_children_duration :: u64
  tn_children :: calls
  tn_parent :: "nat option"

definition new_tree_node :: "NodeData \<Rightarrow> TreeNode" where
  "new_tree_node d = \<lparr>tn_data = d, tn_total_duration = get_duration d, tn_total_children_duration = 0,
     tn_children = [], tn_parent = None\<rparr>"

record CallGraph =
  cg_nodes :: "TreeNode list"
  cg_root_calls :: calls
  cg_current_call :: "nat option"

definition new_call_graph :: CallGraph where
  "new_call_graph = \<lparr>cg_nodes = [], cg_root_calls = [], cg_current_call = None\<rparr>"

section \<open>Operations\<close>

definition deref :: "nat \<Rightarrow> CallGraph \<Rightarrow> TreeNode option" where
  "deref i g = (if i < length (cg_nodes g) then Some (cg_nodes g ! i) else None)"

definition set_node :: "nat \<Rightarrow> TreeNode \<Rightarrow> CallGraph \<Rightarrow> CallGraph" where
  "set_node i node g = g\<lparr>cg_nodes := (cg_nodes g)[i := node]\<rparr>"

text \<open>The search for a call with the label; the result is its position in the list.\<close>

fun find_call :: "calls \<Rightarrow> string \<Rightarrow> CallGraph \<Rightarrow> nat \<Rightarrow> nat option option" where
  "find_call [] label g j = Some None"
| "find_call ((i, n) # calls) label g j =
     do { node \<leftarrow> deref i g;
          if nd_label (tn_data node) = label then Some (Some j) else find_call calls label g (j + 1) }"

definition INT_MAX :: nat where
  "INT_MAX = 2 ^ 31 - 1"

definition add_new_call ::
  "NodeData \<Rightarrow> nat option \<Rightarrow> calls \<Rightarrow> CallGraph \<Rightarrow> (nat \<times> calls \<times> CallGraph) option" where
  "add_new_call d parent calls g =
     do { found \<leftarrow> find_call calls (nd_label d) g 0;
          case found of
            Some j \<Rightarrow> do {
              let (i, n) = calls ! j;
              node \<leftarrow> deref i g;
              let node = node\<lparr>tn_total_duration := tn_total_duration node + get_duration d\<rparr>;
              let node = node\<lparr>tn_data := d\<rparr>;
              if n = INT_MAX then None
              else Some (i, calls[j := (i, n + 1)], set_node i node g) }
          | None \<Rightarrow> do {
              let node = (new_tree_node d)\<lparr>tn_parent := parent\<rparr>;
              let i = length (cg_nodes g);
              Some (i, calls @ [(i, 1)], g\<lparr>cg_nodes := cg_nodes g @ [node]\<rparr>) } }"

definition add_new_calltree :: "NodeData \<Rightarrow> CallGraph \<Rightarrow> CallGraph option" where
  "add_new_calltree d g =
     do { (i, calls, g) \<leftarrow> add_new_call d None (cg_root_calls g) g;
          Some (g\<lparr>cg_root_calls := calls, cg_current_call := Some i\<rparr>) }"

definition add_new_event_call :: "nat \<Rightarrow> NodeData \<Rightarrow> CallGraph \<Rightarrow> CallGraph option" where
  "add_new_event_call caller d g =
     do { node \<leftarrow> deref caller g;
          let node = node\<lparr>tn_total_children_duration := tn_total_children_duration node + get_duration d\<rparr>;
          let g = set_node caller node g;
          (i, calls, g) \<leftarrow> add_new_call d (Some caller) (tn_children node) g;
          node \<leftarrow> deref caller g;
          Some ((set_node caller (node\<lparr>tn_children := calls\<rparr>) g)\<lparr>cg_current_call := Some i\<rparr>) }"

definition contains_event :: "NodeData \<Rightarrow> NodeData \<Rightarrow> bool" where
  "contains_event c d \<longleftrightarrow> nd_start_ts c \<le> nd_start_ts d \<and> nd_stop_ts d \<le> nd_stop_ts c"

partial_function (option) try_add_event_to_existing_calltree ::
  "NodeData \<Rightarrow> CallGraph \<Rightarrow> (bool \<times> CallGraph) option" where
  "try_add_event_to_existing_calltree d g =
     (case cg_current_call g of
        None \<Rightarrow> Some (False, g)
      | Some i \<Rightarrow> do {
          node \<leftarrow> deref i g;
          if contains_event (tn_data node) d
          then do { g \<leftarrow> add_new_event_call i d g; Some (True, g) }
          else try_add_event_to_existing_calltree d (g\<lparr>cg_current_call := tn_parent node\<rparr>) })"

definition add_event :: "NodeData \<Rightarrow> CallGraph \<Rightarrow> CallGraph option" where
  "add_event d g =
     do { (added, g) \<leftarrow> try_add_event_to_existing_calltree d g;
          if \<not> added then add_new_calltree d g else Some g }"

text \<open>
  \<^verbatim>\<open>std::sort\<close> is the parameter \<open>srt\<close>: it puts the events in the order of their start, and may put
  events with the same start in any order.
\<close>

definition sorts_events :: "(NodeData list \<Rightarrow> NodeData list) \<Rightarrow> bool" where
  "sorts_events srt \<longleftrightarrow> (\<forall>es. mset (srt es) = mset es \<and> sorted (map nd_start_ts (srt es)))"

definition make_call_graph :: "(NodeData list \<Rightarrow> NodeData list) \<Rightarrow> NodeData list \<Rightarrow> CallGraph \<Rightarrow> (calls \<times> CallGraph) option" where
  "make_call_graph srt events g = do { g \<leftarrow> run_ops add_event (srt events) g; Some (cg_root_calls g, g) }"

section \<open>The paths of the events\<close>

text \<open>
  The specification works on the stack of the calls that are open, innermost first: an event closes the calls that
  do not contain it. Its path is the list of labels of the event and of the calls that are left.
\<close>

definition enclosing :: "NodeData \<Rightarrow> NodeData list \<Rightarrow> NodeData list" where
  "enclosing e stk = dropWhile (\<lambda>c. \<not> contains_event c e) stk"

definition path_in :: "NodeData list \<Rightarrow> NodeData \<Rightarrow> string list" where
  "path_in stk e = map nd_label (e # enclosing e stk)"

fun place :: "NodeData list \<Rightarrow> NodeData list \<Rightarrow> (string list \<times> NodeData) list" where
  "place stk [] = []"
| "place stk (e # es) = (path_in stk e, e) # place (e # enclosing e stk) es"

definition count_at :: "(string list \<times> NodeData) list \<Rightarrow> string list \<Rightarrow> nat" where
  "count_at h p = length (filter (\<lambda>(q, e). q = p) h)"

definition time_at :: "(string list \<times> NodeData) list \<Rightarrow> string list \<Rightarrow> u64" where
  "time_at h p = sum_list (map (\<lambda>(q, e). if q = p then get_duration e else 0) h)"

definition time_below :: "(string list \<times> NodeData) list \<Rightarrow> string list \<Rightarrow> u64" where
  "time_below h p = sum_list (map (\<lambda>(q, e). if q \<noteq> [] \<and> tl q = p then get_duration e else 0) h)"

section \<open>The graph as a table of paths\<close>

definition calls_of :: "CallGraph \<Rightarrow> nat option \<Rightarrow> calls" where
  "calls_of g c = (case c of None \<Rightarrow> cg_root_calls g | Some i \<Rightarrow> tn_children (cg_nodes g ! i))"

definition path_of :: "string list list \<Rightarrow> nat option \<Rightarrow> string list" where
  "path_of paths c = (case c of None \<Rightarrow> [] | Some i \<Rightarrow> paths ! i)"

definition caller_ok :: "CallGraph \<Rightarrow> nat option \<Rightarrow> bool" where
  "caller_ok g c \<longleftrightarrow> (case c of None \<Rightarrow> True | Some i \<Rightarrow> i < length (cg_nodes g))"

definition node_ok :: "CallGraph \<Rightarrow> string list list \<Rightarrow> nat \<Rightarrow> bool" where
  "node_ok g paths i \<longleftrightarrow>
     (let node = cg_nodes g ! i in
        paths ! i = nd_label (tn_data node) # path_of paths (tn_parent node) \<and>
        (case tn_parent node of None \<Rightarrow> True | Some p \<Rightarrow> p < i))"

definition calls_ok :: "CallGraph \<Rightarrow> nat option \<Rightarrow> bool" where
  "calls_ok g c \<longleftrightarrow> distinct (map fst (calls_of g c)) \<and>
     fst ` set (calls_of g c) = {i. i < length (cg_nodes g) \<and> tn_parent (cg_nodes g ! i) = c}"

text \<open>
  \<open>paths\<close> names the nodes of the graph: every node has a path of its own, the path of its parent extended with
  its label; a node is in the list of calls of its parent and in no other.
\<close>

definition path_table :: "CallGraph \<Rightarrow> string list list \<Rightarrow> bool" where
  "path_table g paths \<longleftrightarrow> length paths = length (cg_nodes g) \<and> distinct paths \<and>
     (\<forall>i < length paths. node_ok g paths i) \<and> calls_ok g None \<and> (\<forall>i < length paths. calls_ok g (Some i))"

text \<open>The graph accounts for the events \<open>h\<close>, given with their paths.\<close>

definition accounts :: "CallGraph \<Rightarrow> string list list \<Rightarrow> (string list \<times> NodeData) list \<Rightarrow> bool" where
  "accounts g paths h \<longleftrightarrow> set paths = fst ` set h \<and>
     (\<forall>i < length paths. tn_total_duration (cg_nodes g ! i) = time_at h (paths ! i) \<and>
        tn_total_children_duration (cg_nodes g ! i) = time_below h (paths ! i)) \<and>
     (\<forall>c. caller_ok g c \<longrightarrow> (\<forall>(i, n) \<in> set (calls_of g c). n = count_at h (paths ! i)))"

primrec chain :: "TreeNode list \<Rightarrow> NodeData list \<Rightarrow> nat option \<Rightarrow> bool" where
  "chain ns [] c \<longleftrightarrow> c = None"
| "chain ns (d # ds) c \<longleftrightarrow> (\<exists>i. c = Some i \<and> i < length ns \<and> tn_data (ns ! i) = d \<and> chain ns ds (tn_parent (ns ! i)))"

section \<open>One more event\<close>

lemma time_at_snoc: "time_at (h @ [(q, e)]) p = time_at h p + (if q = p then get_duration e else 0)"
  by (simp add: time_at_def)

lemma time_below_snoc:
  "time_below (h @ [(q, e)]) p = time_below h p + (if q \<noteq> [] \<and> tl q = p then get_duration e else 0)"
  by (simp add: time_below_def)

lemma count_at_snoc: "count_at (h @ [(q, e)]) p = count_at h p + (if q = p then 1 else 0)"
  by (simp add: count_at_def)

lemma time_at_none: "p \<notin> fst ` set h \<Longrightarrow> time_at h p = 0"
  unfolding time_at_def by (induction h) auto

lemma time_below_none: "\<forall>q \<in> fst ` set h. q = [] \<or> tl q \<noteq> p \<Longrightarrow> time_below h p = 0"
  unfolding time_below_def by (induction h) auto

lemma count_at_none: "p \<notin> fst ` set h \<Longrightarrow> count_at h p = 0"
  unfolding count_at_def by (induction h) auto

lemma count_at_le: "count_at h p \<le> length h"
  by (simp add: count_at_def)

lemma path_table_node:
  assumes "path_table g paths" and "i < length (cg_nodes g)"
  shows "paths ! i = nd_label (tn_data (cg_nodes g ! i)) # path_of paths (tn_parent (cg_nodes g ! i))"
    and "tn_parent (cg_nodes g ! i) = Some p \<Longrightarrow> p < i"
  using assms by (auto simp: path_table_def node_ok_def Let_def)

lemma parent_ok:
  assumes "path_table g paths" and "i < length (cg_nodes g)"
  shows "caller_ok g (tn_parent (cg_nodes g ! i))"
  using path_table_node(2) [OF assms] assms(2)
  by (cases "tn_parent (cg_nodes g ! i)") (auto simp: caller_ok_def less_trans)

lemma path_of_inj:
  assumes tab: "path_table g paths" and c: "caller_ok g c" and c': "caller_ok g c'" and eq: "path_of paths c = path_of paths c'"
  shows "c = c'"
proof (cases c)
  case None
  with eq c' show ?thesis using path_table_node(1) [OF tab] by (cases c') (auto simp: path_of_def caller_ok_def)
next
  case (Some i)
  then have i: "i < length (cg_nodes g)" using c by (simp add: caller_ok_def)
  with Some eq path_table_node(1) [OF tab i] obtain j where j: "c' = Some j"
    by (cases c') (auto simp: path_of_def)
  with c' have "j < length (cg_nodes g)" by (simp add: caller_ok_def)
  with i Some j eq tab show ?thesis by (auto simp: path_of_def path_table_def nth_eq_iff_index_eq)
qed

lemma calls_ok_of: "path_table g paths \<Longrightarrow> caller_ok g c \<Longrightarrow> calls_ok g c"
  by (cases c) (auto simp: path_table_def caller_ok_def)

lemma accountsI:
  assumes "set paths = fst ` set h"
    and "\<And>k. k < length paths \<Longrightarrow> tn_total_duration (cg_nodes g ! k) = time_at h (paths ! k)"
    and "\<And>k. k < length paths \<Longrightarrow> tn_total_children_duration (cg_nodes g ! k) = time_below h (paths ! k)"
    and "\<And>c k m. caller_ok g c \<Longrightarrow> (k, m) \<in> set (calls_of g c) \<Longrightarrow> m = count_at h (paths ! k)"
  shows "accounts g paths h"
  using assms unfolding accounts_def by blast

lemma accountsD:
  assumes "accounts g paths h"
  shows "set paths = fst ` set h"
    and "k < length paths \<Longrightarrow> tn_total_duration (cg_nodes g ! k) = time_at h (paths ! k)"
    and "k < length paths \<Longrightarrow> tn_total_children_duration (cg_nodes g ! k) = time_below h (paths ! k)"
    and "caller_ok g c \<Longrightarrow> (k, m) \<in> set (calls_of g c) \<Longrightarrow> m = count_at h (paths ! k)"
  using assms unfolding accounts_def by blast+

text \<open>What an event does to the graph when its path has a node, and when it has none.\<close>

definition bumped :: "CallGraph \<Rightarrow> nat option \<Rightarrow> NodeData \<Rightarrow> nat \<Rightarrow> CallGraph \<Rightarrow> bool" where
  "bumped g c d i g' \<longleftrightarrow> length (cg_nodes g') = length (cg_nodes g) \<and>
     (\<forall>k < length (cg_nodes g).
        tn_parent (cg_nodes g' ! k) = tn_parent (cg_nodes g ! k) \<and>
        tn_data (cg_nodes g' ! k) = (if k = i then d else tn_data (cg_nodes g ! k)) \<and>
        tn_total_duration (cg_nodes g' ! k) = tn_total_duration (cg_nodes g ! k) + (if k = i then get_duration d else 0) \<and>
        tn_total_children_duration (cg_nodes g' ! k) =
          tn_total_children_duration (cg_nodes g ! k) + (if c = Some k then get_duration d else 0)) \<and>
     (\<forall>c'. caller_ok g c' \<longrightarrow> map fst (calls_of g' c') = map fst (calls_of g c') \<and>
        (\<forall>(k, m) \<in> set (calls_of g' c'). \<exists>m0. (k, m0) \<in> set (calls_of g c') \<and> m = m0 + (if k = i then 1 else 0)))"

definition grown :: "CallGraph \<Rightarrow> nat option \<Rightarrow> NodeData \<Rightarrow> CallGraph \<Rightarrow> bool" where
  "grown g c d g' \<longleftrightarrow> length (cg_nodes g') = Suc (length (cg_nodes g)) \<and>
     (\<forall>k < length (cg_nodes g).
        tn_parent (cg_nodes g' ! k) = tn_parent (cg_nodes g ! k) \<and>
        tn_data (cg_nodes g' ! k) = tn_data (cg_nodes g ! k) \<and>
        tn_total_duration (cg_nodes g' ! k) = tn_total_duration (cg_nodes g ! k) \<and>
        tn_total_children_duration (cg_nodes g' ! k) =
          tn_total_children_duration (cg_nodes g ! k) + (if c = Some k then get_duration d else 0)) \<and>
     cg_nodes g' ! length (cg_nodes g) = (new_tree_node d)\<lparr>tn_parent := c\<rparr> \<and>
     (\<forall>c'. caller_ok g c' \<longrightarrow> calls_of g' c' = calls_of g c' @ (if c' = c then [(length (cg_nodes g), 1)] else []))"

lemma bumpedD:
  assumes "bumped g c d i g'"
  shows "length (cg_nodes g') = length (cg_nodes g)"
    and "k < length (cg_nodes g) \<Longrightarrow> tn_parent (cg_nodes g' ! k) = tn_parent (cg_nodes g ! k)"
    and "k < length (cg_nodes g) \<Longrightarrow> tn_data (cg_nodes g' ! k) = (if k = i then d else tn_data (cg_nodes g ! k))"
    and "k < length (cg_nodes g) \<Longrightarrow> tn_total_duration (cg_nodes g' ! k) =
      tn_total_duration (cg_nodes g ! k) + (if k = i then get_duration d else 0)"
    and "k < length (cg_nodes g) \<Longrightarrow> tn_total_children_duration (cg_nodes g' ! k) =
      tn_total_children_duration (cg_nodes g ! k) + (if c = Some k then get_duration d else 0)"
    and "caller_ok g c' \<Longrightarrow> map fst (calls_of g' c') = map fst (calls_of g c')"
    and "caller_ok g c' \<Longrightarrow> (k, m) \<in> set (calls_of g' c') \<Longrightarrow>
      \<exists>m0. (k, m0) \<in> set (calls_of g c') \<and> m = m0 + (if k = i then 1 else 0)"
  using assms unfolding bumped_def by blast+

lemma grownD:
  assumes "grown g c d g'"
  shows "length (cg_nodes g') = Suc (length (cg_nodes g))"
    and "k < length (cg_nodes g) \<Longrightarrow> tn_parent (cg_nodes g' ! k) = tn_parent (cg_nodes g ! k)"
    and "k < length (cg_nodes g) \<Longrightarrow> tn_data (cg_nodes g' ! k) = tn_data (cg_nodes g ! k)"
    and "k < length (cg_nodes g) \<Longrightarrow> tn_total_duration (cg_nodes g' ! k) = tn_total_duration (cg_nodes g ! k)"
    and "k < length (cg_nodes g) \<Longrightarrow> tn_total_children_duration (cg_nodes g' ! k) =
      tn_total_children_duration (cg_nodes g ! k) + (if c = Some k then get_duration d else 0)"
    and "cg_nodes g' ! length (cg_nodes g) = (new_tree_node d)\<lparr>tn_parent := c\<rparr>"
    and "caller_ok g c' \<Longrightarrow>
      calls_of g' c' = calls_of g c' @ (if c' = c then [(length (cg_nodes g), 1)] else [])"
  using assms unfolding grown_def by blast+

lemma caller_ok_length: "length (cg_nodes g') = length (cg_nodes g) \<Longrightarrow> caller_ok g' c = caller_ok g c"
  by (simp add: caller_ok_def split: option.split)

lemma map_fst_set: "map fst xs = map fst ys \<Longrightarrow> fst ` set xs = fst ` set ys"
  by (metis set_map)

lemma bumped_table:
  assumes tab: "path_table g paths" and i: "i < length (cg_nodes g)" "nd_label (tn_data (cg_nodes g ! i)) = nd_label d"
    and b: "bumped g c d i g'"
  shows "path_table g' paths"
proof -
  have len: "length (cg_nodes g') = length (cg_nodes g)" using b by (simp add: bumped_def)
  have node: "node_ok g' paths k" if k: "k < length paths" for k
    using tab b i k by (auto simp: path_table_def node_ok_def bumped_def Let_def)
  have calls: "calls_ok g' c'" if c': "caller_ok g c'" for c'
  proof -
    from b c' have eq: "map fst (calls_of g' c') = map fst (calls_of g c')" by (simp add: bumped_def)
    have "{k. k < length (cg_nodes g') \<and> tn_parent (cg_nodes g' ! k) = c'} =
      {k. k < length (cg_nodes g) \<and> tn_parent (cg_nodes g ! k) = c'}" using b by (auto simp: bumped_def)
    then show ?thesis using calls_ok_of [OF tab c'] map_fst_set [OF eq] by (simp add: calls_ok_def eq)
  qed
  show ?thesis using tab node calls len by (auto simp: path_table_def caller_ok_def)
qed

lemma bumped_accounts:
  assumes tab: "path_table g paths" and acc: "accounts g paths h" and i: "i < length (cg_nodes g)"
    and c: "tn_parent (cg_nodes g ! i) = c" and b: "bumped g c d i g'"
  shows "accounts g' paths (h @ [(paths ! i, d)])"
proof (rule accountsI)
  have n: "length paths = length (cg_nodes g)" and dist: "distinct paths" using tab by (auto simp: path_table_def)
  have path: "paths ! i \<noteq> []" "tl (paths ! i) = path_of paths c"
    using path_table_node(1) [OF tab i] c by simp_all
  have same: "(paths ! i = paths ! k) = (k = i)" if "k < length paths" for k
    using that i n dist by (auto simp: nth_eq_iff_index_eq)
  have below: "(path_of paths c = paths ! k) = (c = Some k)" if k: "k < length paths" for k
    using path_of_inj [OF tab parent_ok [OF tab i], of "Some k"] k n c by (auto simp: path_of_def caller_ok_def)
  have "paths ! i \<in> fst ` set h" using nth_mem [of i paths] i n accountsD(1) [OF acc] by simp
  then show "set paths = fst ` set (h @ [(paths ! i, d)])" using accountsD(1) [OF acc] by auto
  fix k assume k: "k < length paths"
  have k': "k < length (cg_nodes g)" using k n by simp
  show "tn_total_duration (cg_nodes g' ! k) = time_at (h @ [(paths ! i, d)]) (paths ! k)"
    using bumpedD(4) [OF b k'] accountsD(2) [OF acc k] same [OF k] by (simp add: time_at_snoc)
  show "tn_total_children_duration (cg_nodes g' ! k) = time_below (h @ [(paths ! i, d)]) (paths ! k)"
    using bumpedD(5) [OF b k'] accountsD(3) [OF acc k] below [OF k] path by (simp add: time_below_snoc)
next
  fix c' k m assume c': "caller_ok g' c'" and km: "(k, m) \<in> set (calls_of g' c')"
  have n: "length paths = length (cg_nodes g)" and dist: "distinct paths" using tab by (auto simp: path_table_def)
  have c': "caller_ok g c'" using c' caller_ok_length [OF bumpedD(1) [OF b]] by simp
  from bumpedD(7) [OF b this km] obtain m0 where m0: "(k, m0) \<in> set (calls_of g c')" "m = m0 + (if k = i then 1 else 0)"
    by blast
  have "k \<in> fst ` set (calls_of g c')" using m0(1) by force
  then have "k < length paths" using calls_ok_of [OF tab c'] n by (simp add: calls_ok_def)
  then have "(paths ! i = paths ! k) = (k = i)" using i n dist by (auto simp: nth_eq_iff_index_eq)
  then show "m = count_at (h @ [(paths ! i, d)]) (paths ! k)"
    using m0(2) accountsD(4) [OF acc c' m0(1)] by (simp add: count_at_snoc)
qed

lemma fresh_path:
  assumes tab: "path_table g paths" and c: "caller_ok g c"
    and no: "\<And>k. k \<in> fst ` set (calls_of g c) \<Longrightarrow> nd_label (tn_data (cg_nodes g ! k)) \<noteq> l"
  shows "l # path_of paths c \<notin> set paths"
proof
  assume "l # path_of paths c \<in> set paths"
  then obtain k where k: "k < length (cg_nodes g)" "paths ! k = l # path_of paths c"
    using tab by (metis in_set_conv_nth path_table_def)
  from path_table_node(1) [OF tab k(1)] k(2)
  have l: "nd_label (tn_data (cg_nodes g ! k)) = l" and p: "path_of paths (tn_parent (cg_nodes g ! k)) = path_of paths c"
    by simp_all
  have "tn_parent (cg_nodes g ! k) = c" using path_of_inj [OF tab parent_ok [OF tab k(1)] c p] .
  then have "k \<in> fst ` set (calls_of g c)" using calls_ok_of [OF tab c] k(1) by (simp add: calls_ok_def)
  with no l show False by blast
qed

lemma grown_calls_new: "grown g c d g' \<Longrightarrow> calls_of g' (Some (length (cg_nodes g))) = []"
  by (simp add: calls_of_def grownD(6) new_tree_node_def)

lemma grown_caller_ok:
  assumes "grown g c d g'"
  shows "caller_ok g' c' \<longleftrightarrow> caller_ok g c' \<or> c' = Some (length (cg_nodes g))"
  using grownD(1) [OF assms] by (cases c') (auto simp: caller_ok_def)

lemma path_of_append: "caller_ok g c \<Longrightarrow> length paths = length (cg_nodes g) \<Longrightarrow> path_of (paths @ [p]) c = path_of paths c"
  by (auto simp: path_of_def caller_ok_def nth_append split: option.splits)

lemma grown_calls_ok:
  assumes tab: "path_table g paths" and c: "caller_ok g c" and gr: "grown g c d g'" and c': "caller_ok g' c'"
  shows "calls_ok g' c'"
proof (cases "c' = Some (length (cg_nodes g))")
  case True
  have "tn_parent (cg_nodes g' ! k) \<noteq> c'" if "k < length (cg_nodes g')" for k
  proof (cases "k < length (cg_nodes g)")
    case k: True
    then show ?thesis using parent_ok [OF tab k] grownD(2) [OF gr k] True by (auto simp: caller_ok_def)
  next
    case False
    then have "k = length (cg_nodes g)" using that grownD(1) [OF gr] by simp
    then show ?thesis using grownD(6) [OF gr] c True by (auto simp: caller_ok_def new_tree_node_def)
  qed
  then show ?thesis using grown_calls_new [OF gr] True by (auto simp: calls_ok_def)
next
  case False
  then have ok: "caller_ok g c'" using c' grown_caller_ok [OF gr] by blast
  let ?n = "length (cg_nodes g)"
  have old: "distinct (map fst (calls_of g c'))"
    "fst ` set (calls_of g c') = {k. k < ?n \<and> tn_parent (cg_nodes g ! k) = c'}"
    using calls_ok_of [OF tab ok] by (simp_all add: calls_ok_def)
  have "{k. k < length (cg_nodes g') \<and> tn_parent (cg_nodes g' ! k) = c'} =
    {k. k < ?n \<and> tn_parent (cg_nodes g ! k) = c'} \<union> (if c' = c then {?n} else {})"
    using grownD(1,2,6) [OF gr] by (auto simp: less_Suc_eq new_tree_node_def)
  then show ?thesis using old grownD(7) [OF gr ok] by (cases "c' = c") (auto simp: calls_ok_def)
qed

lemma grown_table:
  assumes tab: "path_table g paths" and c: "caller_ok g c" and new: "nd_label d # path_of paths c \<notin> set paths"
    and gr: "grown g c d g'"
  shows "path_table g' (paths @ [nd_label d # path_of paths c])"
proof -
  let ?p = "nd_label d # path_of paths c"
  have n: "length paths = length (cg_nodes g)" and dist: "distinct paths" using tab by (auto simp: path_table_def)
  have node: "node_ok g' (paths @ [?p]) k" if k: "k < length (cg_nodes g')" for k
  proof (cases "k < length (cg_nodes g)")
    case True
    then show ?thesis
      using path_table_node [OF tab True] path_of_append [OF parent_ok [OF tab True] n, of ?p]
        grownD(2,3) [OF gr True] n
      by (auto simp: node_ok_def Let_def nth_append split: option.split)
  next
    case False
    then have "k = length (cg_nodes g)" using k grownD(1) [OF gr] by simp
    then show ?thesis using grownD(6) [OF gr] path_of_append [OF c n, of ?p] c n
      by (auto simp: node_ok_def Let_def new_tree_node_def caller_ok_def nth_append split: option.split)
  qed
  show ?thesis
    unfolding path_table_def
    using n dist new grownD(1) [OF gr] node grown_calls_ok [OF tab c gr] by (auto simp: caller_ok_def)
qed

lemma grown_accounts:
  assumes tab: "path_table g paths" and acc: "accounts g paths h" and c: "caller_ok g c"
    and new: "nd_label d # path_of paths c \<notin> set paths" and gr: "grown g c d g'"
  shows "accounts g' (paths @ [nd_label d # path_of paths c]) (h @ [(nd_label d # path_of paths c, d)])"
proof (rule accountsI)
  let ?p = "nd_label d # path_of paths c"
  have n: "length paths = length (cg_nodes g)" using tab by (auto simp: path_table_def)
  have below: "(path_of paths c = paths ! k) = (c = Some k)" if k: "k < length paths" for k
    using path_of_inj [OF tab c, of "Some k"] k n by (auto simp: path_of_def caller_ok_def)
  have none: "time_at h ?p = 0" using new time_at_none [of ?p h] accountsD(1) [OF acc] by simp
  have "tl q \<noteq> ?p" if q: "q \<in> set paths" for q
  proof
    assume tl: "tl q = ?p"
    from q n obtain k where k: "k < length (cg_nodes g)" "q = paths ! k" by (metis in_set_conv_nth)
    with tl path_table_node(1) [OF tab k(1)] have "path_of paths (tn_parent (cg_nodes g ! k)) = ?p" by simp
    then have "?p \<in> set paths" using parent_ok [OF tab k(1)] n
      by (cases "tn_parent (cg_nodes g ! k)") (simp_all add: path_of_def caller_ok_def, metis nth_mem)
    with new show False by blast
  qed
  then have none_below: "time_below h ?p = 0" using time_below_none [of h ?p] accountsD(1) [OF acc] by simp
  show "set (paths @ [?p]) = fst ` set (h @ [(?p, d)])" using accountsD(1) [OF acc] by auto
  fix k assume k: "k < length (paths @ [?p])"
  show "tn_total_duration (cg_nodes g' ! k) = time_at (h @ [(?p, d)]) ((paths @ [?p]) ! k)"
  proof (cases "k < length paths")
    case True
    then have "?p \<noteq> paths ! k" using new by (metis nth_mem)
    then show ?thesis using True n grownD(4) [OF gr, of k] accountsD(2) [OF acc True]
      by (simp add: time_at_snoc nth_append)
  next
    case False
    then have "k = length paths" using k by simp
    then show ?thesis using grownD(6) [OF gr] n none by (simp add: time_at_snoc new_tree_node_def nth_append)
  qed
  show "tn_total_children_duration (cg_nodes g' ! k) = time_below (h @ [(?p, d)]) ((paths @ [?p]) ! k)"
  proof (cases "k < length paths")
    case True
    then show ?thesis using n grownD(5) [OF gr, of k] accountsD(3) [OF acc True] below [OF True]
      by (simp add: time_below_snoc nth_append)
  next
    case False
    then have "k = length paths" using k by simp
    moreover have "path_of paths c \<noteq> ?p" by simp
    ultimately show ?thesis using grownD(6) [OF gr] n none_below by (simp add: time_below_snoc new_tree_node_def nth_append)
  qed
next
  let ?p = "nd_label d # path_of paths c"
  have n: "length paths = length (cg_nodes g)" using tab by (auto simp: path_table_def)
  fix c' k m assume c': "caller_ok g' c'" and km: "(k, m) \<in> set (calls_of g' c')"
  have ok: "caller_ok g c'" using c' km grown_caller_ok [OF gr] grown_calls_new [OF gr] by auto
  show "m = count_at (h @ [(?p, d)]) ((paths @ [?p]) ! k)"
  proof (cases "(k, m) \<in> set (calls_of g c')")
    case True
    then have "k \<in> fst ` set (calls_of g c')" by force
    then have k: "k < length paths" using calls_ok_of [OF tab ok] n by (simp add: calls_ok_def)
    then have "?p \<noteq> paths ! k" using new by (metis nth_mem)
    then show ?thesis using accountsD(4) [OF acc ok True] k by (simp add: count_at_snoc nth_append)
  next
    case False
    then have "k = length paths" "m = 1" using km grownD(7) [OF gr ok] n by (auto split: if_splits)
    then show ?thesis using count_at_none [of ?p h] new accountsD(1) [OF acc] by (simp add: count_at_snoc nth_append)
  qed
qed

section \<open>The operations\<close>

lemma find_call_ok:
  assumes "\<forall>k \<in> fst ` set calls. k < length (cg_nodes g)"
  obtains (found) j where "find_call calls l g m = Some (Some (m + j))" "j < length calls"
      "nd_label (tn_data (cg_nodes g ! fst (calls ! j))) = l"
    | (absent) "find_call calls l g m = Some None"
      "\<And>k. k \<in> fst ` set calls \<Longrightarrow> nd_label (tn_data (cg_nodes g ! k)) \<noteq> l"
  using assms
proof (induction calls arbitrary: m thesis)
  case (Cons e calls)
  obtain i n where e: "e = (i, n)" by force
  have i: "i < length (cg_nodes g)" using Cons.prems(3) e by simp
  show ?case
  proof (cases "nd_label (tn_data (cg_nodes g ! i)) = l")
    case True
    then show ?thesis using Cons.prems(1) [of 0] i by (simp add: e deref_def)
  next
    case False
    have rest: "\<forall>k \<in> fst ` set calls. k < length (cg_nodes g)" using Cons.prems(3) by simp
    show ?thesis
    proof (rule Cons.IH [of "m + 1"])
      fix j assume "find_call calls l g (m + 1) = Some (Some (m + 1 + j))" "j < length calls"
        "nd_label (tn_data (cg_nodes g ! fst (calls ! j))) = l"
      then show thesis using Cons.prems(1) [of "Suc j"] False i by (simp add: e deref_def)
    next
      assume "find_call calls l g (m + 1) = Some None"
        "\<And>k. k \<in> fst ` set calls \<Longrightarrow> nd_label (tn_data (cg_nodes g ! k)) \<noteq> l"
      then show thesis using Cons.prems(2) False i by (auto simp: e deref_def)
    qed (use rest in blast)
  qed
qed simp

lemma bumpedI:
  assumes tab: "path_table g paths" and c: "caller_ok g c" and j: "j < length (calls_of g c)" "calls_of g c ! j = (i, n)"
    and nodes: "cg_nodes g' = ns" "length ns = length (cg_nodes g)"
    and data: "\<And>k. k < length ns \<Longrightarrow>
        tn_parent (ns ! k) = tn_parent (cg_nodes g ! k) \<and>
        tn_data (ns ! k) = (if k = i then d else tn_data (cg_nodes g ! k)) \<and>
        tn_total_duration (ns ! k) = tn_total_duration (cg_nodes g ! k) + (if k = i then get_duration d else 0) \<and>
        tn_total_children_duration (ns ! k) =
          tn_total_children_duration (cg_nodes g ! k) + (if c = Some k then get_duration d else 0)"
    and calls: "\<And>c'. caller_ok g c' \<Longrightarrow>
      calls_of g' c' = (if c' = c then (calls_of g c)[j := (i, n + 1)] else calls_of g c')"
  shows "bumped g c d i g'"
proof -
  have dist: "distinct (map fst (calls_of g c))" using calls_ok_of [OF tab c] by (simp add: calls_ok_def)
  have fst: "map fst ((calls_of g c)[j := (i, n + 1)]) = map fst (calls_of g c)"
    using j by (metis fst_conv list_update_id map_update)
  have parent: "tn_parent (cg_nodes g ! k) = c'" if "caller_ok g c'" "(k, m) \<in> set (calls_of g c')" for k m c'
    using calls_ok_of [OF tab that(1)] that(2) by (auto simp: calls_ok_def dest: set_mp [OF equalityD1])
  have i: "tn_parent (cg_nodes g ! i) = c" using parent [OF c, of i n] j by (metis nth_mem)
  have upd: "\<exists>m0. (k, m0) \<in> set (calls_of g c) \<and> m = m0 + (if k = i then 1 else 0)"
    if km: "(k, m) \<in> set ((calls_of g c)[j := (i, n + 1)])" for k m
  proof -
    from km obtain q where q: "q < length (calls_of g c)" "(calls_of g c)[j := (i, n + 1)] ! q = (k, m)"
      by (metis in_set_conv_nth length_list_update)
    show ?thesis
    proof (cases "q = j")
      case True
      then show ?thesis using q j nth_mem [of j "calls_of g c"] by auto
    next
      case False
      then have eq: "calls_of g c ! q = (k, m)" using q by simp
      with False q(1) j dist have "k \<noteq> i" by (metis distinct_conv_nth fst_conv length_map nth_map)
      then show ?thesis using eq q(1) nth_mem by fastforce
    qed
  qed
  have other: "\<exists>m0. (k, m0) \<in> set (calls_of g c') \<and> m = m0 + (if k = i then 1 else 0)"
    if "caller_ok g c'" "c' \<noteq> c" "(k, m) \<in> set (calls_of g c')" for c' k m
    using that parent [OF that(1,3)] i by auto
  show ?thesis
    unfolding bumped_def nodes(1) using nodes(2) data calls fst upd other by (auto split: if_splits)
qed

definition add_call :: "nat option \<Rightarrow> NodeData \<Rightarrow> CallGraph \<Rightarrow> CallGraph option" where
  "add_call c d g = (case c of None \<Rightarrow> add_new_calltree d g | Some i \<Rightarrow> add_new_event_call i d g)"

definition added :: "CallGraph \<Rightarrow> nat option \<Rightarrow> NodeData \<Rightarrow> CallGraph \<Rightarrow> bool" where
  "added g c d g' \<longleftrightarrow>
     (\<exists>i < length (cg_nodes g). tn_parent (cg_nodes g ! i) = c \<and> nd_label (tn_data (cg_nodes g ! i)) = nd_label d \<and>
        bumped g c d i g' \<and> cg_current_call g' = Some i) \<or>
     (\<forall>k \<in> fst ` set (calls_of g c). nd_label (tn_data (cg_nodes g ! k)) \<noteq> nd_label d) \<and>
        grown g c d g' \<and> cg_current_call g' = Some (length (cg_nodes g))"

lemma calls_range:
  assumes "path_table g paths" and "caller_ok g c"
  shows "\<forall>k \<in> fst ` set (calls_of g c). k < length (cg_nodes g) \<and> tn_parent (cg_nodes g ! k) = c"
  using calls_ok_of [OF assms] by (auto simp: calls_ok_def)

lemma add_calltree_ok:
  assumes tab: "path_table g paths" and few: "\<And>k n. (k, n) \<in> set (cg_root_calls g) \<Longrightarrow> n < INT_MAX"
  shows "\<exists>g'. add_new_calltree d g = Some g' \<and> added g None d g'"
proof -
  have root: "calls_of g None = cg_root_calls g" "caller_ok g None" by (simp_all add: calls_of_def caller_ok_def)
  have range: "\<forall>k \<in> fst ` set (cg_root_calls g). k < length (cg_nodes g) \<and> tn_parent (cg_nodes g ! k) = None"
    using calls_range [OF tab root(2)] by (simp add: root)
  then have range': "\<forall>k \<in> fst ` set (cg_root_calls g). k < length (cg_nodes g)" by blast
  from range' show ?thesis
  proof (cases rule: find_call_ok [where l = "nd_label d" and m = 0])
    case (found j)
    obtain i n where jn: "cg_root_calls g ! j = (i, n)" by force
    then have mem: "(i, n) \<in> set (cg_root_calls g)" using found(2) by (metis nth_mem)
    then have i: "i < length (cg_nodes g)" "tn_parent (cg_nodes g ! i) = None" using range by force+
    let ?node = "(cg_nodes g ! i)\<lparr>tn_total_duration := tn_total_duration (cg_nodes g ! i) + get_duration d, tn_data := d\<rparr>"
    let ?g = "(set_node i ?node g)\<lparr>cg_root_calls := (cg_root_calls g)[j := (i, n + 1)], cg_current_call := Some i\<rparr>"
    have run: "add_new_calltree d g = Some ?g"
      using found(1) jn i(1) few [OF mem] by (simp add: add_new_calltree_def add_new_call_def deref_def)
    have "bumped g None d i ?g"
      by (rule bumpedI [OF tab root(2), where j = j and n = n and ns = "(cg_nodes g)[i := ?node]"])
        (use found(2) jn i(1) in \<open>auto simp: root calls_of_def set_node_def nth_list_update caller_ok_def split: option.splits\<close>)
    then show ?thesis using run i found(3) jn by (auto simp: added_def)
  next
    case absent
    let ?g = "g\<lparr>cg_nodes := cg_nodes g @ [(new_tree_node d)\<lparr>tn_parent := None\<rparr>],
      cg_root_calls := cg_root_calls g @ [(length (cg_nodes g), 1)], cg_current_call := Some (length (cg_nodes g))\<rparr>"
    have run: "add_new_calltree d g = Some ?g"
      using absent(1) by (simp add: add_new_calltree_def add_new_call_def Let_def)
    have "grown g None d ?g"
      by (auto simp: grown_def nth_append calls_of_def caller_ok_def split: option.splits)
    then show ?thesis using run absent(2) by (auto simp: added_def root)
  qed
qed

lemma add_event_call_ok:
  assumes tab: "path_table g paths" and p: "p < length (cg_nodes g)"
    and few: "\<And>k n. (k, n) \<in> set (calls_of g (Some p)) \<Longrightarrow> n < INT_MAX"
  shows "\<exists>g'. add_new_event_call p d g = Some g' \<and> added g (Some p) d g'"
proof -
  let ?N = "cg_nodes g"
  let ?cs = "tn_children (?N ! p)"
  have caller: "calls_of g (Some p) = ?cs" "caller_ok g (Some p)" using p by (simp_all add: calls_of_def caller_ok_def)
  have range: "\<forall>k \<in> fst ` set ?cs. k < length ?N \<and> tn_parent (?N ! k) = Some p"
    using calls_range [OF tab caller(2)] by (simp add: caller)
  define q where "q = (?N ! p)\<lparr>tn_total_children_duration := tn_total_children_duration (?N ! p) + get_duration d\<rparr>"
  define g0 where "g0 = set_node p q g"
  have g0: "cg_nodes g0 = ?N[p := q]" by (simp add: g0_def set_node_def)
  have q: "tn_children q = ?cs" "tn_data q = tn_data (?N ! p)" "tn_parent q = tn_parent (?N ! p)"
    "tn_total_duration q = tn_total_duration (?N ! p)" by (simp_all add: q_def)
  have label: "tn_data (cg_nodes g0 ! k) = tn_data (?N ! k)" for k
    using p by (cases "k = p") (simp_all add: g0 q)
  have run: "add_new_event_call p d g =
    do { (i, calls, g) \<leftarrow> add_new_call d (Some p) ?cs g0; node \<leftarrow> deref p g;
         Some ((set_node p (node\<lparr>tn_children := calls\<rparr>) g)\<lparr>cg_current_call := Some i\<rparr>) }"
    using p by (simp add: add_new_event_call_def deref_def q_def g0_def)
  from range g0 have "\<forall>k \<in> fst ` set ?cs. k < length (cg_nodes g0)" by simp
  then show ?thesis
  proof (cases rule: find_call_ok [where l = "nd_label d" and m = 0])
    case (found j)
    obtain i n where jn: "?cs ! j = (i, n)" by force
    then have mem: "(i, n) \<in> set ?cs" using found(2) by (metis nth_mem)
    then have i: "i < length ?N" "tn_parent (?N ! i) = Some p" using range by force+
    have "p < i" using path_table_node(2) [OF tab i] .
    then have ip: "i \<noteq> p" by simp
    let ?node = "(?N ! i)\<lparr>tn_total_duration := tn_total_duration (?N ! i) + get_duration d, tn_data := d\<rparr>"
    let ?ns = "?N[p := q\<lparr>tn_children := ?cs[j := (i, n + 1)]\<rparr>, i := ?node]"
    let ?g = "g\<lparr>cg_nodes := ?ns, cg_current_call := Some i\<rparr>"
    have "add_new_event_call p d g = Some ?g"
      using found(1) jn i(1) p ip few [of i n] mem
      by (simp add: run add_new_call_def deref_def caller g0 set_node_def g0_def list_update_swap [of i p])
    moreover have "bumped g (Some p) d i ?g"
    proof (rule bumpedI [OF tab caller(2), where j = j and n = n and ns = ?ns])
      fix k assume "k < length ?ns"
      then show "tn_parent (?ns ! k) = tn_parent (?N ! k) \<and> tn_data (?ns ! k) = (if k = i then d else tn_data (?N ! k)) \<and>
        tn_total_duration (?ns ! k) = tn_total_duration (?N ! k) + (if k = i then get_duration d else 0) \<and>
        tn_total_children_duration (?ns ! k) =
          tn_total_children_duration (?N ! k) + (if Some p = Some k then get_duration d else 0)"
        using ip by (auto simp: nth_list_update q_def)
    next
      fix c' assume "caller_ok g c'"
      then show "calls_of ?g c' = (if c' = Some p then (calls_of g (Some p))[j := (i, n + 1)] else calls_of g c')"
        using ip i(1) by (auto simp: caller calls_of_def nth_list_update caller_ok_def split: option.splits)
    qed (use found(2) jn in \<open>simp_all add: caller\<close>)
    ultimately show ?thesis using i found(3) jn by (auto simp: added_def label)
  next
    case absent
    let ?ns = "?N[p := q\<lparr>tn_children := ?cs @ [(length ?N, 1)]\<rparr>] @ [(new_tree_node d)\<lparr>tn_parent := Some p\<rparr>]"
    let ?g = "g\<lparr>cg_nodes := ?ns, cg_current_call := Some (length ?N)\<rparr>"
    have "add_new_event_call p d g = Some ?g"
      using absent(1) p
      by (simp add: run add_new_call_def Let_def deref_def g0 set_node_def g0_def nth_append list_update_append1)
    moreover have "grown g (Some p) d ?g"
      using p by (auto simp: grown_def nth_append nth_list_update q_def calls_of_def caller_ok_def split: option.splits)
    ultimately show ?thesis using absent(2) by (auto simp: added_def caller label)
  qed
qed

lemma add_call_ok:
  assumes "path_table g paths" and "caller_ok g c" and "\<And>k n. (k, n) \<in> set (calls_of g c) \<Longrightarrow> n < INT_MAX"
  shows "\<exists>g'. add_call c d g = Some g' \<and> added g c d g'"
  using assms add_calltree_ok [of g paths d] add_event_call_ok [of g paths _ d]
  by (cases c) (auto simp: add_call_def caller_ok_def calls_of_def)

lemma added_accounts:
  assumes tab: "path_table g paths" and acc: "accounts g paths h" and c: "caller_ok g c" and a: "added g c d g'"
  shows "\<exists>paths'. path_table g' paths' \<and> accounts g' paths' (h @ [(nd_label d # path_of paths c, d)])"
proof -
  consider i where "i < length (cg_nodes g)" "tn_parent (cg_nodes g ! i) = c"
      "nd_label (tn_data (cg_nodes g ! i)) = nd_label d" "bumped g c d i g'"
    | "\<forall>k \<in> fst ` set (calls_of g c). nd_label (tn_data (cg_nodes g ! k)) \<noteq> nd_label d" "grown g c d g'"
    using a unfolding added_def by blast
  then show ?thesis
  proof cases
    case 1
    then have "paths ! i = nd_label d # path_of paths c" using path_table_node(1) [OF tab 1(1)] by simp
    then show ?thesis using bumped_table [OF tab 1(1,3,4)] bumped_accounts [OF tab acc 1(1,2,4)] by auto
  next
    case 2
    from 2(1) have "nd_label d # path_of paths c \<notin> set paths" by (intro fresh_path [OF tab c]) blast
    then show ?thesis using grown_table [OF tab c _ 2(2)] grown_accounts [OF tab acc c _ 2(2)] by blast
  qed
qed

section \<open>The loop over the parents\<close>

lemma chain_path:
  assumes "path_table g paths" and "chain (cg_nodes g) stk c"
  shows "caller_ok g c \<and> path_of paths c = map nd_label stk"
  using assms(2)
proof (induction stk arbitrary: c)
  case Nil
  then show ?case by (simp add: caller_ok_def path_of_def)
next
  case (Cons d stk)
  then obtain i where i: "c = Some i" "i < length (cg_nodes g)" "tn_data (cg_nodes g ! i) = d"
    "chain (cg_nodes g) stk (tn_parent (cg_nodes g ! i))" by auto
  with Cons.IH path_table_node(1) [OF assms(1) i(2)] show ?case by (simp add: caller_ok_def path_of_def)
qed

lemma chain_cong:
  assumes tab: "path_table g paths" and b: "b \<le> length (cg_nodes g)" "b \<le> length ns"
    and same: "\<And>k. k < b \<Longrightarrow> tn_parent (ns ! k) = tn_parent (cg_nodes g ! k) \<and> tn_data (ns ! k) = tn_data (cg_nodes g ! k)"
  shows "chain (cg_nodes g) stk c \<Longrightarrow> (\<And>i. c = Some i \<Longrightarrow> i < b) \<Longrightarrow> chain ns stk c"
proof (induction stk arbitrary: c)
  case (Cons d stk)
  then obtain i where i: "c = Some i" "tn_data (cg_nodes g ! i) = d"
    "chain (cg_nodes g) stk (tn_parent (cg_nodes g ! i))" by auto
  have ib: "i < b" using Cons.prems(2) i(1) .
  have "chain ns stk (tn_parent (cg_nodes g ! i))"
  proof (rule Cons.IH [OF i(3)])
    fix p assume "tn_parent (cg_nodes g ! i) = Some p"
    then have "p < i" using path_table_node(2) [OF tab, of i p] ib b(1) by simp
    with ib show "p < b" by simp
  qed
  then show ?case using i ib b(2) same [OF ib] by simp
qed simp

lemma added_chain:
  assumes tab: "path_table g paths" and ch: "chain (cg_nodes g) stk c" and a: "added g c d g'"
  shows "chain (cg_nodes g') (d # stk) (cg_current_call g')"
proof -
  consider i where "i < length (cg_nodes g)" "tn_parent (cg_nodes g ! i) = c" "bumped g c d i g'" "cg_current_call g' = Some i"
    | "grown g c d g'" "cg_current_call g' = Some (length (cg_nodes g))"
    using a unfolding added_def by blast
  then show ?thesis
  proof cases
    case 1
    have "chain (cg_nodes g') stk c"
    proof (rule chain_cong [OF tab, where b = i])
      fix k assume "k < i"
      then show "tn_parent (cg_nodes g' ! k) = tn_parent (cg_nodes g ! k) \<and> tn_data (cg_nodes g' ! k) = tn_data (cg_nodes g ! k)"
        using bumpedD(2,3) [OF 1(3), of k] 1(1) by simp
    next
      fix p assume "c = Some p"
      then show "p < i" using path_table_node(2) [OF tab 1(1), of p] 1(2) by simp
    qed (use 1(1) bumpedD(1) [OF 1(3)] ch in auto)
    then show ?thesis using bumpedD(1-3) [OF 1(3)] 1 by simp
  next
    case 2
    have "chain (cg_nodes g') stk c"
    proof (rule chain_cong [OF tab, where b = "length (cg_nodes g)"])
      fix p assume "c = Some p"
      then show "p < length (cg_nodes g)" using chain_path [OF tab ch] by (simp add: caller_ok_def)
    qed (use grownD(1-3) [OF 2(1)] ch in auto)
    then show ?thesis using grownD(1,6) [OF 2(1)] 2(2) by (simp add: new_tree_node_def)
  qed
qed

lemma current_irrelevant:
  "calls_of (g\<lparr>cg_current_call := c\<rparr>) = calls_of g" "caller_ok (g\<lparr>cg_current_call := c\<rparr>) = caller_ok g"
  "path_table (g\<lparr>cg_current_call := c\<rparr>) paths = path_table g paths"
  "accounts (g\<lparr>cg_current_call := c\<rparr>) paths h = accounts g paths h"
  "added (g\<lparr>cg_current_call := c\<rparr>) c' d g' = added g c' d g'"
proof -
  show calls: "calls_of (g\<lparr>cg_current_call := c\<rparr>) = calls_of g" by (simp add: fun_eq_iff calls_of_def split: option.split)
  show ok: "caller_ok (g\<lparr>cg_current_call := c\<rparr>) = caller_ok g" by (simp add: fun_eq_iff caller_ok_def split: option.split)
  show "path_table (g\<lparr>cg_current_call := c\<rparr>) paths = path_table g paths"
    by (simp add: path_table_def node_ok_def calls_ok_def calls)
  show "accounts (g\<lparr>cg_current_call := c\<rparr>) paths h = accounts g paths h" by (simp add: accounts_def calls ok)
  show "added (g\<lparr>cg_current_call := c\<rparr>) c' d g' = added g c' d g'"
    by (simp add: added_def bumped_def grown_def calls ok)
qed

text \<open>The loop stops at the innermost open call that contains the event, or at the roots.\<close>

lemma add_event_add_call:
  "chain (cg_nodes g) stk (cg_current_call g) \<Longrightarrow>
   \<exists>c. chain (cg_nodes g) (enclosing d stk) c \<and> add_event d g = add_call c d (g\<lparr>cg_current_call := c\<rparr>)"
proof (induction stk arbitrary: g)
  case Nil
  then have none: "cg_current_call g = None" by simp
  then have "add_event d g = add_new_calltree d g"
    by (simp add: add_event_def try_add_event_to_existing_calltree.simps [of d g])
  moreover have "g\<lparr>cg_current_call := None\<rparr> = g" using none by simp
  ultimately show ?case by (intro exI [of _ None]) (simp add: enclosing_def add_call_def)
next
  case (Cons e stk)
  then obtain i where i: "cg_current_call g = Some i" "i < length (cg_nodes g)" "tn_data (cg_nodes g ! i) = e"
    "chain (cg_nodes g) stk (tn_parent (cg_nodes g ! i))" by auto
  show ?case
  proof (cases "contains_event e d")
    case True
    have "add_event d g = add_new_event_call i d g"
      using i True by (cases "add_new_event_call i d g")
        (simp_all add: add_event_def try_add_event_to_existing_calltree.simps [of d g] deref_def)
    moreover have same: "g\<lparr>cg_current_call := Some i\<rparr> = g" using i(1) by simp
    have "add_call (Some i) d (g\<lparr>cg_current_call := Some i\<rparr>) = add_new_event_call i d g"
      unfolding same by (simp add: add_call_def)
    moreover have "chain (cg_nodes g) (enclosing d (e # stk)) (Some i)" using Cons.prems i(1) True by (simp add: enclosing_def)
    ultimately show ?thesis by metis
  next
    case False
    let ?g = "g\<lparr>cg_current_call := tn_parent (cg_nodes g ! i)\<rparr>"
    have "add_event d g = add_event d ?g"
      using i False by (simp add: add_event_def try_add_event_to_existing_calltree.simps [of d g] deref_def)
    then show ?thesis using Cons.IH [of ?g] i(4) False by (simp add: enclosing_def)
  qed
qed

definition graph_inv :: "CallGraph \<Rightarrow> (string list \<times> NodeData) list \<Rightarrow> NodeData list \<Rightarrow> bool" where
  "graph_inv g h stk \<longleftrightarrow> chain (cg_nodes g) stk (cg_current_call g) \<and> (\<exists>paths. path_table g paths \<and> accounts g paths h)"

lemma add_event_ok:
  assumes inv: "graph_inv g h stk" and few: "length h < INT_MAX"
  shows "\<exists>g'. add_event d g = Some g' \<and> graph_inv g' (h @ [(path_in stk d, d)]) (d # enclosing d stk)"
proof -
  from inv obtain paths where ch: "chain (cg_nodes g) stk (cg_current_call g)"
    and tab: "path_table g paths" and acc: "accounts g paths h" by (auto simp: graph_inv_def)
  from add_event_add_call [OF ch, of d] obtain c where c: "chain (cg_nodes g) (enclosing d stk) c"
    "add_event d g = add_call c d (g\<lparr>cg_current_call := c\<rparr>)" by blast
  have ok: "caller_ok g c" "path_of paths c = map nd_label (enclosing d stk)" using chain_path [OF tab c(1)] by simp_all
  have "n < INT_MAX" if "(k, n) \<in> set (calls_of g c)" for k n
    using accountsD(4) [OF acc ok(1) that] count_at_le [of h "paths ! k"] few by simp
  with add_call_ok [of "g\<lparr>cg_current_call := c\<rparr>" paths c d] tab ok(1) obtain g' where
    g': "add_call c d (g\<lparr>cg_current_call := c\<rparr>) = Some g'" "added g c d g'" by (auto simp: current_irrelevant)
  have "chain (cg_nodes g') (d # enclosing d stk) (cg_current_call g')" by (rule added_chain [OF tab c(1) g'(2)])
  moreover from added_accounts [OF tab acc ok(1) g'(2)] ok(2)
  have "\<exists>paths'. path_table g' paths' \<and> accounts g' paths' (h @ [(path_in stk d, d)])" by (simp add: path_in_def)
  ultimately show ?thesis using c(2) g'(1) by (simp add: graph_inv_def)
qed

lemma add_events_ok:
  "graph_inv g h stk \<Longrightarrow> length h + length es \<le> INT_MAX \<Longrightarrow>
   \<exists>g' stk'. run_ops add_event es g = Some g' \<and> graph_inv g' (h @ place stk es) stk'"
proof (induction es arbitrary: g h stk)
  case (Cons e es)
  from add_event_ok [OF Cons.prems(1), of e] Cons.prems(2) obtain g1 where
    g1: "add_event e g = Some g1" "graph_inv g1 (h @ [(path_in stk e, e)]) (e # enclosing e stk)" by auto
  from Cons.IH [OF g1(2)] Cons.prems(2) g1(1) show ?case by simp
qed auto

lemma new_graph_inv: "graph_inv new_call_graph [] []"
  by (auto simp: graph_inv_def new_call_graph_def path_table_def accounts_def calls_ok_def calls_of_def
      caller_ok_def split: option.splits)

lemma make_call_graph_ok:
  assumes "sorts_events srt" and "length events \<le> INT_MAX"
  shows "\<exists>g paths. make_call_graph srt events new_call_graph = Some (cg_root_calls g, g) \<and>
    path_table g paths \<and> accounts g paths (place [] (srt events))"
proof -
  have "mset (srt events) = mset events" using assms(1) by (simp add: sorts_events_def)
  then have "length (srt events) = length events" by (rule mset_eq_length)
  then obtain g stk where "run_ops add_event (srt events) new_call_graph = Some g" "graph_inv g (place [] (srt events)) stk"
    using add_events_ok [OF new_graph_inv, of "srt events"] assms(2) by auto
  then show ?thesis by (auto simp: make_call_graph_def graph_inv_def)
qed

section \<open>Properties\<close>

text \<open>
  C29. The call graph accounts for every event of a thread, whatever the events are and however the sort
  orders events with the same start: \<^verbatim>\<open>make\<close> returns, every path of the
  calls has exactly one node, which is listed by its parent and by nobody else. The node counts the
  events with its path, its total duration is the sum of their durations, and the duration of its children is the sum over the events
  directly below it.
\<close>

theorem call_graph_accounts_for_every_event:
  assumes "sorts_events srt" and "length events \<le> INT_MAX"
  shows "\<exists>g paths. make_call_graph srt events new_call_graph = Some (cg_root_calls g, g) \<and>
    path_table g paths \<and> accounts g paths (place [] (srt events))"
  using make_call_graph_ok [OF assms] .

definition demo_calls :: "NodeData list" where
  "demo_calls = [new_node_data ''g'' 10 5, new_node_data ''f'' 0 100, new_node_data ''g'' 20 7]"

definition stable_sort :: "NodeData list \<Rightarrow> NodeData list" where
  "stable_sort es = sort_key nd_start_ts es"

lemma stable_sort_sorts: "sorts_events stable_sort"
  by (simp add: sorts_events_def stable_sort_def)

lemma demo_place:
  "place [] (stable_sort demo_calls) =
     [([''f''], new_node_data ''f'' 0 100), ([''g'', ''f''], new_node_data ''g'' 10 5),
      ([''g'', ''f''], new_node_data ''g'' 20 7)]"
  by (simp add: stable_sort_def demo_calls_def new_node_data_def path_in_def enclosing_def contains_event_def)

theorem call_graph_accounts_for_every_event_witness:
  "\<exists>g paths. make_call_graph stable_sort demo_calls new_call_graph = Some (cg_root_calls g, g) \<and> path_table g paths \<and>
     set paths = {[''f''], [''g'', ''f'']} \<and>
     (\<forall>i < length paths. paths ! i = [''f''] \<longrightarrow>
        tn_total_duration (cg_nodes g ! i) = 100 \<and> tn_total_children_duration (cg_nodes g ! i) = 12)"
proof -
  from call_graph_accounts_for_every_event [OF stable_sort_sorts, of demo_calls] obtain g paths where
    g: "make_call_graph stable_sort demo_calls new_call_graph = Some (cg_root_calls g, g)" "path_table g paths"
    and acc: "accounts g paths (place [] (stable_sort demo_calls))"
    by (auto simp: demo_calls_def INT_MAX_def)
  have "set paths = {[''f''], [''g'', ''f'']}" using accountsD(1) [OF acc] by (auto simp: demo_place)
  moreover have "tn_total_duration (cg_nodes g ! i) = 100" "tn_total_children_duration (cg_nodes g ! i) = 12"
    if "i < length paths" "paths ! i = [''f'']" for i
    using accountsD(2,3) [OF acc that(1)] that(2)
    by (simp_all add: demo_place time_at_def time_below_def get_duration_def new_node_data_def)
  ultimately show ?thesis using g by blast
qed

section \<open>Nested calls\<close>

text \<open>
  The calls of a thread nest: of two calls, the one that starts later is inside the other or starts when the
  other has stopped.
\<close>

definition follows :: "NodeData \<Rightarrow> NodeData \<Rightarrow> bool" where
  "follows d e \<longleftrightarrow> nd_start_ts d \<le> nd_start_ts e \<and> (contains_event d e \<or> nd_stop_ts d \<le> nd_start_ts e)"

definition well_nested :: "NodeData list \<Rightarrow> bool" where
  "well_nested es \<longleftrightarrow> sorted_wrt follows es \<and> (\<forall>e \<in> set es. nd_start_ts e < nd_stop_ts e)"

definition callers :: "NodeData list \<Rightarrow> NodeData \<Rightarrow> NodeData list" where
  "callers past e = rev (filter (\<lambda>d. contains_event d e) past)"

definition with_callers :: "NodeData list \<Rightarrow> (string list \<times> NodeData) list" where
  "with_callers es = map (\<lambda>i. (map nd_label (es ! i # callers (take i es) (es ! i)), es ! i)) [0..<length es]"

lemma dropWhile_filter: "sorted_wrt (\<lambda>x y. P x \<longrightarrow> P y) xs \<Longrightarrow> dropWhile (\<lambda>x. \<not> P x) xs = filter P xs"
proof (induction xs)
  case (Cons x xs)
  show ?case
  proof (cases "P x")
    case True
    with Cons.prems have "\<forall>y \<in> set xs. P y" by simp
    then show ?thesis using True by (simp add: filter_id_conv)
  qed (use Cons in auto)
qed simp

lemma contains_trans: "contains_event c d \<Longrightarrow> contains_event d e \<Longrightarrow> contains_event c e"
  by (auto simp: contains_event_def intro: order_trans)

text \<open>A call that encloses a later event encloses everything that starts in between.\<close>

lemma contains_between:
  assumes "follows d f" and "nd_start_ts f \<le> nd_start_ts e" and "nd_start_ts e < nd_stop_ts e" and "contains_event d e"
  shows "contains_event d f"
  using assms by (auto simp: follows_def contains_event_def)

lemma enclosing_callers:
  assumes nest: "well_nested (past @ [f, e])"
  shows "enclosing e (f # callers past f) = callers (past @ [f]) e"
proof -
  from nest have order: "\<And>d. d \<in> set past \<Longrightarrow> follows d f" "follows f e" "sorted_wrt follows past"
    and pos: "nd_start_ts e < nd_stop_ts e" "nd_start_ts f < nd_stop_ts f"
    by (auto simp: well_nested_def sorted_wrt_append)
  have fe: "nd_start_ts f \<le> nd_start_ts e" using order(2) by (simp add: follows_def)
  have earlier: "contains_event d f" if "d \<in> set past" "contains_event d e" for d
    using contains_between [OF order(1) [OF that(1)] fe pos(1) that(2)] .
  show ?thesis
  proof (cases "contains_event f e")
    case True
    then have "filter (\<lambda>d. contains_event d f) past = filter (\<lambda>d. contains_event d e) past"
      using earlier by (auto intro!: filter_cong dest: contains_trans)
    then show ?thesis using True by (simp add: enclosing_def callers_def)
  next
    case False
    let ?X = "filter (\<lambda>d. contains_event d f) past"
    have "sorted_wrt (\<lambda>d' d. contains_event d e \<longrightarrow> contains_event d' e) ?X"
    proof (rule sorted_wrt_mono_rel [OF _ sorted_wrt_filter [OF order(3)]])
      fix d' d assume "d' \<in> set ?X" "d \<in> set ?X" and f: "follows d' d"
      then have "contains_event d' f" "nd_start_ts d \<le> nd_start_ts f" by (auto simp: contains_event_def)
      then have "contains_event d' d" using contains_between [OF f _ pos(2)] by blast
      then show "contains_event d e \<longrightarrow> contains_event d' e" by (blast intro: contains_trans)
    qed
    then have "dropWhile (\<lambda>d. \<not> contains_event d e) (rev ?X) = filter (\<lambda>d. contains_event d e) (rev ?X)"
      by (intro dropWhile_filter) (simp add: sorted_wrt_rev)
    moreover have "filter (\<lambda>d. contains_event d e \<and> contains_event d f) (rev past) = filter (\<lambda>d. contains_event d e) (rev past)"
      using earlier by (auto intro!: filter_cong)
    ultimately show ?thesis using False by (simp add: enclosing_def callers_def rev_filter conj_commute)
  qed
qed

lemma place_callers:
  "well_nested (past @ f # es) \<Longrightarrow>
   place (f # callers past f) es =
     map (\<lambda>i. (map nd_label (es ! i # callers (past @ f # take i es) (es ! i)), es ! i)) [0..<length es]"
proof (induction es arbitrary: past f)
  case (Cons e es)
  have "well_nested (past @ [f, e])" using Cons.prems by (auto simp: well_nested_def sorted_wrt_append)
  then have enc: "enclosing e (f # callers past f) = callers (past @ [f]) e" by (rule enclosing_callers)
  have "place (e # callers (past @ [f]) e) es =
    map (\<lambda>i. (map nd_label (es ! i # callers ((past @ [f]) @ e # take i es) (es ! i)), es ! i)) [0..<length es]"
    using Cons.IH [of "past @ [f]" e] Cons.prems by simp
  then show ?case
    by (simp add: enc path_in_def map_upt_Suc del: upt_Suc)
qed simp

lemma place_nested:
  assumes "well_nested es"
  shows "place [] es = with_callers es"
proof (cases es)
  case (Cons e es')
  have "place (e # callers [] e) es' =
    map (\<lambda>i. (map nd_label (es' ! i # callers ([] @ e # take i es') (es' ! i)), es' ! i)) [0..<length es']"
    using place_callers [of "[]" e es'] assms Cons by simp
  then show ?thesis
    by (simp add: with_callers_def Cons path_in_def enclosing_def callers_def map_upt_Suc del: upt_Suc)
qed (simp add: with_callers_def)

text \<open>
  C30. When the calls of a thread nest, a node of the graph that \<^verbatim>\<open>make\<close> returns stands for a chain of calls as it happened in the traced
  program: there is one node for every label with the labels of exactly the calls that contain the event, innermost first, and the node
  has the number and the total duration of the events with that chain, and the duration of the calls made directly from it. The hypothesis is on the
  events in the order of the sort: each lasts some time, and of two of them the later one is inside the earlier one or starts when that one has stopped.
\<close>

theorem nested_events_get_their_callers:
  assumes "sorts_events srt" and "length events \<le> INT_MAX" and "well_nested (srt events)"
  shows "\<exists>g paths. make_call_graph srt events new_call_graph = Some (cg_root_calls g, g) \<and>
    path_table g paths \<and> accounts g paths (with_callers (srt events))"
  using make_call_graph_ok [OF assms(1,2)] by (simp only: place_nested [OF assms(3)])

theorem nested_events_get_their_callers_witness:
  "\<exists>g paths. make_call_graph stable_sort demo_calls new_call_graph = Some (cg_root_calls g, g) \<and> path_table g paths \<and>
     set paths = {[''f''], [''g'', ''f'']}"
proof -
  have srt: "stable_sort demo_calls = [new_node_data ''f'' 0 100, new_node_data ''g'' 10 5, new_node_data ''g'' 20 7]"
    by (simp add: stable_sort_def demo_calls_def new_node_data_def)
  have nest: "well_nested (stable_sort demo_calls)"
    by (simp add: srt well_nested_def follows_def contains_event_def new_node_data_def)
  have paths: "fst ` set (with_callers (stable_sort demo_calls)) = {[''f''], [''g'', ''f'']}"
    by (simp add: srt with_callers_def callers_def contains_event_def new_node_data_def upt_rec)
  have "length demo_calls \<le> INT_MAX" by (simp add: demo_calls_def INT_MAX_def)
  from nested_events_get_their_callers [OF stable_sort_sorts this nest] show ?thesis
    using accountsD(1) paths by metis
qed

end
