(* ===== verification/Callgrind_Converter.thy ===== *)
theory Callgrind_Converter
  imports Converter Call_Graph
begin

text \<open>
  \<^verbatim>\<open>client/callgrind_converter.cpp\<close>: the events of every thread are collected, and when the conversion stops the call graph of
  each thread is written to a file of its own, in the format of callgrind.

  The map from threads to events is an association list; \<open>walk\<close> is the order in which the final loop goes through it.
  \<open>can_open\<close> says which files can be opened for writing; what is written is recorded in \<open>cg_files\<close>.
\<close>

section \<open>Operations\<close>

record CallgrindConverter = Converter +
  cg_file_name :: string
  cg_events :: "(u32 \<times> NodeData list) list"
  cg_files :: "string \<rightharpoonup> string"
  cg_cerr :: "string list"

definition new_callgrind_converter :: CallgrindConverter where
  "new_callgrind_converter =
     \<lparr>cv_tracepoint_map = cv_tracepoint_map new_converter, cv_mapping_klass_id = cv_mapping_klass_id new_converter,
      cg_file_name = '''', cg_events = [], cg_files = Map.empty, cg_cerr = []\<rparr>"

definition callgrind_header :: string where
  "callgrind_header = ''# callgrind format''"

definition callgrind_init :: "string \<Rightarrow> CallgrindConverter \<Rightarrow> bool \<times> CallgrindConverter" where
  "callgrind_init file_name c = (True, c\<lparr>cg_file_name := file_name\<rparr>)"

text \<open>\<^verbatim>\<open>_events[thread_id].emplace_back(...)\<close>: the subscript adds an empty vector for a new thread.\<close>

definition emplace_event :: "u32 \<Rightarrow> NodeData \<Rightarrow> (u32 \<times> NodeData list) list \<Rightarrow> (u32 \<times> NodeData list) list" where
  "emplace_event t d evs =
     (let evs = (if t \<in> fst ` set evs then evs else evs @ [(t, [])])
      in map (\<lambda>(u, ds). (u, if u = t then ds @ [d] else ds)) evs)"

definition callgrind_process_event :: "Event \<Rightarrow> CallgrindConverter \<Rightarrow> CallgrindConverter option" where
  "callgrind_process_event ev c =
     do { (label, c) \<leftarrow> get_label ev c;
          if label = '''' then Some c
          else do {
            thread_id \<leftarrow> get_value_or_default 4 ''thread_id'' 0 ev;
            let start_ts = evt_timestamp ev;
            duration \<leftarrow> get_value_or_default 8 ''duration'' 0 ev;
            Some (c\<lparr>cg_events := emplace_event (ucast thread_id) (new_node_data label start_ts duration) (cg_events c)\<rparr>) } }"

definition child_text :: "string \<Rightarrow> TreeNode \<Rightarrow> nat \<Rightarrow> string" where
  "child_text child_label child n =
     ''cfn='' @ child_label @ [newline] @ ''calls='' @ to_decimal n @ '' 1'' @ [newline] @
     ''1 '' @ to_decimal (unat (tn_total_duration child)) @ [newline]"

definition function_text :: "string \<Rightarrow> TreeNode \<Rightarrow> string" where
  "function_text name node =
     ''fn='' @ name @ [newline] @
     ''1 '' @ to_decimal (unat (tn_total_duration node - tn_total_children_duration node)) @ [newline]"

text \<open>The loop over the children of a function: what is written, and the children for the queue.\<close>

fun print_children :: "calls \<Rightarrow> string \<Rightarrow> CallGraph \<Rightarrow> (string \<times> (nat \<times> string) list) option" where
  "print_children [] name g = Some ('''', [])"
| "print_children ((i, n) # children) name g =
     do { child \<leftarrow> deref i g;
          let child_label = nd_label (tn_data child) @ ''()'' @ [CHR 0x27] @ name;
          (out, queue) \<leftarrow> print_children children name g;
          Some (child_text child_label child n @ out, (i, child_label) # queue) }"

text \<open>The loop over the queue of functions.\<close>

partial_function (option) print_queue :: "(nat \<times> string) list \<Rightarrow> CallGraph \<Rightarrow> string \<Rightarrow> string option" where
  "print_queue queue g out =
     (case queue of
        [] \<Rightarrow> Some out
      | fnc # rest \<Rightarrow> do {
          node \<leftarrow> deref (fst fnc) g;
          (text, new) \<leftarrow> print_children (tn_children node) (snd fnc) g;
          print_queue (rest @ new) g (out @ function_text (snd fnc) node @ text) })"

lemma print_queue_Nil [simp]: "print_queue [] g out = Some out"
  by (simp add: print_queue.simps)

definition print_function :: "CallGraph \<Rightarrow> nat \<Rightarrow> string \<Rightarrow> string option" where
  "print_function g root out =
     do { node \<leftarrow> deref root g; print_queue [(root, nd_label (tn_data node) @ ''()'')] g out }"

definition thread_prologue :: "u32 \<Rightarrow> string" where
  "thread_prologue t = callgrind_header @ [newline] @ ''thread: '' @ to_decimal (unat t) @ [newline, newline] @
     ''events: Duration'' @ [newline]"

definition thread_file_name :: "string \<Rightarrow> u32 \<Rightarrow> string" where
  "thread_file_name file_name t = file_name @ ''.'' @ to_decimal (unat t)"

text \<open>The body of the loop of \<^verbatim>\<open>stop\<close>. The events of the thread are sorted in place.\<close>

definition write_thread ::
  "(NodeData list \<Rightarrow> NodeData list) \<Rightarrow> (string \<Rightarrow> bool) \<Rightarrow> u32 \<times> NodeData list \<Rightarrow> CallgrindConverter \<Rightarrow> CallgrindConverter option" where
  "write_thread srt can_open thread c =
     do { (root_calls, g) \<leftarrow> make_call_graph srt (snd thread) new_call_graph;
          let c = c\<lparr>cg_events := map (\<lambda>(u, ds). (u, if u = fst thread then srt ds else ds)) (cg_events c)\<rparr>;
          let name = thread_file_name (cg_file_name c) (fst thread);
          if can_open name
          then do { out \<leftarrow> run_ops (\<lambda>root. print_function g (fst root)) root_calls (thread_prologue (fst thread));
                    Some (c\<lparr>cg_files := (cg_files c)(name \<mapsto> out)\<rparr>) }
          else Some (c\<lparr>cg_cerr := cg_cerr c @ [''Can'' @ [CHR 0x27] @ ''t open file: '' @ name]\<rparr>) }"

definition callgrind_stop ::
  "(NodeData list \<Rightarrow> NodeData list) \<Rightarrow> ((u32 \<times> NodeData list) list \<Rightarrow> (u32 \<times> NodeData list) list) \<Rightarrow> (string \<Rightarrow> bool) \<Rightarrow>
   CallgrindConverter \<Rightarrow> CallgrindConverter option" where
  "callgrind_stop srt walk can_open c = run_ops (write_thread srt can_open) (walk (cg_events c)) c"

section \<open>The order of the functions\<close>

fun fn_name :: "string list \<Rightarrow> string" where
  "fn_name [] = ''''"
| "fn_name [l] = l @ ''()''"
| "fn_name (l # ls) = l @ ''()'' @ [CHR 0x27] @ fn_name ls"

definition node_text :: "CallGraph \<Rightarrow> nat \<times> string \<Rightarrow> string" where
  "node_text g fnc =
     (let node = cg_nodes g ! fst fnc in
      function_text (snd fnc) node @
      concat (map (\<lambda>(i, n). let child = cg_nodes g ! i in
        child_text (nd_label (tn_data child) @ ''()'' @ [CHR 0x27] @ snd fnc) child n) (tn_children node)))"

definition child_entries :: "CallGraph \<Rightarrow> nat \<times> string \<Rightarrow> (nat \<times> string) list" where
  "child_entries g fnc =
     map (\<lambda>(i, n). (i, nd_label (tn_data (cg_nodes g ! i)) @ ''()'' @ [CHR 0x27] @ snd fnc)) (tn_children (cg_nodes g ! fst fnc))"

lemma print_children_ok:
  "\<forall>i \<in> fst ` set children. i < length (cg_nodes g) \<Longrightarrow>
   print_children children name g =
     Some (concat (map (\<lambda>(i, n). let child = cg_nodes g ! i in
             child_text (nd_label (tn_data child) @ ''()'' @ [CHR 0x27] @ name) child n) children),
           map (\<lambda>(i, n). (i, nd_label (tn_data (cg_nodes g ! i)) @ ''()'' @ [CHR 0x27] @ name)) children)"
  by (induction children) (auto simp: deref_def Let_def)

text \<open>The nodes that the loop has visited and the ones in its queue are the root and the children of the visited ones.\<close>

definition bfs_inv :: "CallGraph \<Rightarrow> string list list \<Rightarrow> nat \<Rightarrow> nat list \<Rightarrow> (nat \<times> string) list \<Rightarrow> bool" where
  "bfs_inv g paths r visited queue \<longleftrightarrow>
     distinct (visited @ map fst queue) \<and>
     (\<forall>i. i \<in> set (visited @ map fst queue) \<longleftrightarrow>
        i < length (cg_nodes g) \<and> (i = r \<or> tn_parent (cg_nodes g ! i) \<in> Some ` set visited)) \<and>
     (\<forall>fnc \<in> set queue. snd fnc = fn_name (paths ! fst fnc))"

lemma child_entries_fst: "map fst (child_entries g fnc) = map fst (tn_children (cg_nodes g ! fst fnc))"
  by (simp add: child_entries_def case_prod_beta)

lemma bfs_step:
  assumes tab: "path_table g paths" and r: "tn_parent (cg_nodes g ! r) = None" and inv: "bfs_inv g paths r visited (fnc # queue)"
  shows "bfs_inv g paths r (visited @ [fst fnc]) (queue @ child_entries g fnc)"
proof -
  let ?i = "fst fnc"
  let ?N = "cg_nodes g"
  from inv have dist: "distinct (visited @ ?i # map fst queue)"
    and mem: "\<And>k. k \<in> set (visited @ ?i # map fst queue) \<longleftrightarrow>
      k < length ?N \<and> (k = r \<or> tn_parent (?N ! k) \<in> Some ` set visited)"
    and names: "snd fnc = fn_name (paths ! ?i)" "\<forall>f \<in> set queue. snd f = fn_name (paths ! fst f)"
    by (auto simp: bfs_inv_def)
  have i: "?i < length ?N" using mem [of ?i] by simp
  have kids: "distinct (map fst (tn_children (?N ! ?i)))"
    "fst ` set (tn_children (?N ! ?i)) = {k. k < length ?N \<and> tn_parent (?N ! k) = Some ?i}"
    using tab i by (auto simp: path_table_def calls_ok_def calls_of_def)
  have new: "k \<notin> set (visited @ ?i # map fst queue)" if k: "k < length ?N" "tn_parent (?N ! k) = Some ?i" for k
  proof
    assume "k \<in> set (visited @ ?i # map fst queue)"
    then have "?i \<in> set visited" using mem [of k] k r by auto
    with dist show False by simp
  qed
  have "distinct ((visited @ [?i]) @ map fst (queue @ child_entries g fnc))"
    using dist kids new by (auto simp: child_entries_fst simp flip: set_map)
  moreover have "k \<in> set ((visited @ [?i]) @ map fst (queue @ child_entries g fnc)) \<longleftrightarrow>
      k < length ?N \<and> (k = r \<or> tn_parent (?N ! k) \<in> Some ` set (visited @ [?i]))" for k
    using mem [of k] kids(2) by (auto simp: child_entries_fst simp flip: set_map)
  moreover have "snd f = fn_name (paths ! fst f)" if f: "f \<in> set (queue @ child_entries g fnc)" for f
  proof (cases "f \<in> set queue")
    case False
    with f obtain k n where k: "(k, n) \<in> set (tn_children (?N ! ?i))"
      "f = (k, nd_label (tn_data (?N ! k)) @ ''()'' @ [CHR 0x27] @ snd fnc)" by (auto simp: child_entries_def)
    then have "k < length ?N" "tn_parent (?N ! k) = Some ?i" using kids(2) by force+
    then have "paths ! k = nd_label (tn_data (?N ! k)) # paths ! ?i" "paths ! ?i \<noteq> []"
      using path_table_node(1) [OF tab] i by (simp_all add: path_of_def)
    then show ?thesis using k(2) names(1) by (cases "paths ! ?i") simp_all
  qed (use names in auto)
  ultimately show ?thesis by (simp add: bfs_inv_def)
qed

lemma print_queue_ok:
  assumes tab: "path_table g paths" and r: "tn_parent (cg_nodes g ! r) = None"
  shows "bfs_inv g paths r visited queue \<Longrightarrow>
    \<exists>fncs. print_queue queue g out = Some (out @ concat (map (node_text g) fncs)) \<and>
      bfs_inv g paths r (visited @ map fst fncs) [] \<and> (\<forall>f \<in> set fncs. snd f = fn_name (paths ! fst f))"
proof (induction "length (cg_nodes g) - length visited" arbitrary: visited queue out)
  case 0
  have sub: "set (visited @ map fst queue) \<subseteq> {..<length (cg_nodes g)}" using "0.prems" by (auto simp: bfs_inv_def)
  have "length (visited @ map fst queue) = card (set (visited @ map fst queue))"
    using "0.prems" by (metis bfs_inv_def distinct_card)
  also have "\<dots> \<le> length (cg_nodes g)" using card_mono [OF _ sub] by simp
  finally have "length visited + length queue \<le> length (cg_nodes g)" by simp
  then have "length queue = 0" using "0.hyps" by linarith
  then have "queue = []" by simp
  then show ?case using "0.prems" by (intro exI [of _ "[]"]) simp
next
  case (Suc d)
  show ?case
  proof (cases queue)
    case Nil
    then show ?thesis using Suc.prems by (intro exI [of _ "[]"]) simp
  next
    case (Cons fnc rest)
    have i: "fst fnc < length (cg_nodes g)" and name: "snd fnc = fn_name (paths ! fst fnc)"
      using Suc.prems Cons by (auto simp: bfs_inv_def)
    have "\<forall>k \<in> fst ` set (tn_children (cg_nodes g ! fst fnc)). k < length (cg_nodes g)"
      using calls_range [OF tab, of "Some (fst fnc)"] i by (auto simp: caller_ok_def calls_of_def)
    then have step: "print_queue queue g out = print_queue (rest @ child_entries g fnc) g (out @ node_text g fnc)"
      using i by (simp add: Cons print_queue.simps [of "fnc # rest"] deref_def print_children_ok node_text_def child_entries_def Let_def)
    have inv: "bfs_inv g paths r (visited @ [fst fnc]) (rest @ child_entries g fnc)"
      using bfs_step [OF tab r] Suc.prems Cons by simp
    have "d = length (cg_nodes g) - length (visited @ [fst fnc])" using Suc.hyps(2) by simp
    from Suc.hyps(1) [OF this inv, of "out @ node_text g fnc"] obtain fncs where
      "print_queue (rest @ child_entries g fnc) g (out @ node_text g fnc) =
         Some ((out @ node_text g fnc) @ concat (map (node_text g) fncs))"
      "bfs_inv g paths r ((visited @ [fst fnc]) @ map fst fncs) []" "\<forall>f \<in> set fncs. snd f = fn_name (paths ! fst f)" by blast
    then show ?thesis using step name by (intro exI [of _ "fnc # fncs"]) simp
  qed
qed

section \<open>All functions of a thread\<close>

text \<open>The nodes of \<open>seen\<close> are the roots \<open>rs\<close> and everything below them.\<close>

definition below_roots :: "CallGraph \<Rightarrow> nat list \<Rightarrow> nat list \<Rightarrow> bool" where
  "below_roots g rs seen \<longleftrightarrow> distinct seen \<and>
     (\<forall>i. i \<in> set seen \<longleftrightarrow> i < length (cg_nodes g) \<and> (i \<in> set rs \<or> tn_parent (cg_nodes g ! i) \<in> Some ` set seen))"

lemma below_rootsD:
  "below_roots g rs seen \<Longrightarrow>
   i \<in> set seen \<longleftrightarrow> i < length (cg_nodes g) \<and> (i \<in> set rs \<or> tn_parent (cg_nodes g ! i) \<in> Some ` set seen)"
  unfolding below_roots_def by blast

lemma below_roots_disjoint:
  assumes tab: "path_table g paths" and a: "below_roots g rs seen" and b: "below_roots g [r] seen'"
    and roots: "\<forall>k \<in> set (r # rs). tn_parent (cg_nodes g ! k) = None" and r: "r \<notin> set rs"
  shows "\<not> (i \<in> set seen \<and> i \<in> set seen')"
proof (induction i rule: less_induct)
  case (less i)
  show ?case
  proof
    assume *: "i \<in> set seen \<and> i \<in> set seen'"
    then have i: "i < length (cg_nodes g)" using below_rootsD [OF a] by blast
    show False
    proof (cases "tn_parent (cg_nodes g ! i)")
      case None
      then have "i \<in> set rs" "i = r" using * below_rootsD [OF a, of i] below_rootsD [OF b, of i] by auto
      with r show False by simp
    next
      case (Some p)
      then have "p \<in> set seen" "p \<in> set seen'"
        using * roots below_rootsD [OF a, of i] below_rootsD [OF b, of i] by auto
      moreover have "p < i" using path_table_node(2) [OF tab i Some] .
      ultimately show False using less.IH by blast
    qed
  qed
qed

lemma below_roots_append:
  assumes tab: "path_table g paths" and a: "below_roots g rs seen" and b: "below_roots g [r] seen'"
    and roots: "\<forall>k \<in> set (r # rs). tn_parent (cg_nodes g ! k) = None" and r: "r \<notin> set rs"
  shows "below_roots g (rs @ [r]) (seen @ seen')"
proof -
  have "distinct (seen @ seen')"
  proof -
    have "set seen \<inter> set seen' = {}" using below_roots_disjoint [OF assms] by blast
    moreover have "distinct seen" "distinct seen'" using a b by (simp_all add: below_roots_def)
    ultimately show ?thesis by simp
  qed
  moreover have "i \<in> set (seen @ seen') \<longleftrightarrow>
    i < length (cg_nodes g) \<and> (i \<in> set (rs @ [r]) \<or> tn_parent (cg_nodes g ! i) \<in> Some ` set (seen @ seen'))" for i
    unfolding set_append image_Un using below_rootsD [OF a, of i] below_rootsD [OF b, of i] by (simp only: Un_iff set_simps) blast
  ultimately show ?thesis unfolding below_roots_def by blast
qed

lemma below_all_roots:
  assumes tab: "path_table g paths" and a: "below_roots g (map fst (cg_root_calls g)) seen"
  shows "mset seen = mset [0..<length (cg_nodes g)]"
proof -
  have root: "fst ` set (cg_root_calls g) = {i. i < length (cg_nodes g) \<and> tn_parent (cg_nodes g ! i) = None}"
    using tab by (simp add: path_table_def calls_ok_def calls_of_def)
  have "i < length (cg_nodes g) \<Longrightarrow> i \<in> set seen" for i
  proof (induction i rule: less_induct)
    case (less i)
    show ?case
    proof (cases "tn_parent (cg_nodes g ! i)")
      case None
      then have "i \<in> fst ` set (cg_root_calls g)" using root less.prems by simp
      then show ?thesis using below_rootsD [OF a, of i] less.prems by simp
    next
      case (Some p)
      then have "p < i" using path_table_node(2) [OF tab less.prems] by simp
      then have "p \<in> set seen" using less.IH less.prems by simp
      then show ?thesis using below_rootsD [OF a, of i] less.prems Some by simp
    qed
  qed
  moreover have "i < length (cg_nodes g)" if "i \<in> set seen" for i using that below_rootsD [OF a, of i] by blast
  ultimately have "set seen = set [0..<length (cg_nodes g)]" unfolding set_upt atLeast0LessThan by blast
  moreover have "distinct seen" using a by (simp add: below_roots_def)
  ultimately show ?thesis using set_eq_iff_mset_eq_distinct [of seen] by (metis distinct_upt)
qed

lemma print_function_ok:
  assumes tab: "path_table g paths" and r: "r < length (cg_nodes g)" "tn_parent (cg_nodes g ! r) = None"
  shows "\<exists>fncs. print_function g r out = Some (out @ concat (map (node_text g) fncs)) \<and>
    below_roots g [r] (map fst fncs) \<and> (\<forall>f \<in> set fncs. snd f = fn_name (paths ! fst f))"
proof -
  let ?q = "[(r, nd_label (tn_data (cg_nodes g ! r)) @ ''()'')]"
  have "paths ! r = [nd_label (tn_data (cg_nodes g ! r))]" using path_table_node(1) [OF tab r(1)] r(2) by (simp add: path_of_def)
  then have "bfs_inv g paths r [] ?q" using r by (auto simp: bfs_inv_def)
  from print_queue_ok [OF tab r(2) this, of out] show ?thesis
    using r(1) by (auto simp: print_function_def deref_def bfs_inv_def below_roots_def)
qed

lemma print_roots_ok:
  assumes tab: "path_table g paths"
  shows "distinct (map fst rs) \<Longrightarrow> \<forall>r \<in> fst ` set rs. r < length (cg_nodes g) \<and> tn_parent (cg_nodes g ! r) = None \<Longrightarrow>
    \<exists>fncs. run_ops (\<lambda>root. print_function g (fst root)) rs out = Some (out @ concat (map (node_text g) fncs)) \<and>
      below_roots g (map fst rs) (map fst fncs) \<and> (\<forall>f \<in> set fncs. snd f = fn_name (paths ! fst f))"
proof (induction rs rule: rev_induct)
  case Nil
  then show ?case by (intro exI [of _ "[]"]) (simp add: below_roots_def)
next
  case (snoc x rs)
  then obtain fncs where fncs: "run_ops (\<lambda>root. print_function g (fst root)) rs out = Some (out @ concat (map (node_text g) fncs))"
    "below_roots g (map fst rs) (map fst fncs)" "\<forall>f \<in> set fncs. snd f = fn_name (paths ! fst f)" by auto
  have x: "fst x < length (cg_nodes g)" "tn_parent (cg_nodes g ! fst x) = None" using snoc.prems(2) by auto
  from print_function_ok [OF tab x, of "out @ concat (map (node_text g) fncs)"] obtain new where
    new: "print_function g (fst x) (out @ concat (map (node_text g) fncs)) =
        Some (out @ concat (map (node_text g) (fncs @ new)))"
      "below_roots g [fst x] (map fst new)" "\<forall>f \<in> set new. snd f = fn_name (paths ! fst f)" by auto
  have "below_roots g (map fst rs @ [fst x]) (map fst fncs @ map fst new)"
    using snoc.prems by (intro below_roots_append [OF tab fncs(2) new(2)]) auto
  then show ?case using fncs(1,3) new(1,3) by (intro exI [of _ "fncs @ new"]) (auto simp: run_ops_append)
qed

text \<open>A report of a thread: its functions in some order, each of them once, under the names of their call paths.\<close>

definition thread_report :: "(NodeData list \<Rightarrow> NodeData list) \<Rightarrow> u32 \<times> NodeData list \<Rightarrow> string \<Rightarrow> bool" where
  "thread_report srt thread out \<longleftrightarrow> (\<exists>g paths fncs. path_table g paths \<and> accounts g paths (place [] (srt (snd thread))) \<and>
     mset fncs = mset (map (\<lambda>i. (i, fn_name (paths ! i))) [0..<length paths]) \<and>
     out = thread_prologue (fst thread) @ concat (map (node_text g) fncs))"

lemma print_graph_ok:
  assumes tab: "path_table g paths"
  shows "\<exists>fncs. run_ops (\<lambda>root. print_function g (fst root)) (cg_root_calls g) out = Some (out @ concat (map (node_text g) fncs)) \<and>
    mset fncs = mset (map (\<lambda>i. (i, fn_name (paths ! i))) [0..<length paths])"
proof -
  have "\<forall>r \<in> fst ` set (cg_root_calls g). r < length (cg_nodes g) \<and> tn_parent (cg_nodes g ! r) = None"
    using calls_range [OF tab, of None] by (simp add: caller_ok_def calls_of_def)
  moreover have "distinct (map fst (cg_root_calls g))" using tab by (simp add: path_table_def calls_ok_def calls_of_def)
  ultimately obtain fncs where fncs: "run_ops (\<lambda>root. print_function g (fst root)) (cg_root_calls g) out = Some (out @ concat (map (node_text g) fncs))"
    "below_roots g (map fst (cg_root_calls g)) (map fst fncs)" "\<forall>f \<in> set fncs. snd f = fn_name (paths ! fst f)"
    using print_roots_ok [OF tab, of "cg_root_calls g" out] by blast
  have "length paths = length (cg_nodes g)" using tab by (simp add: path_table_def)
  moreover have "map (\<lambda>i. (i, fn_name (paths ! i))) (map fst fncs) = fncs"
    using fncs(3) by (auto intro!: map_idI simp: o_def prod_eq_iff)
  then have "mset fncs = image_mset (\<lambda>i. (i, fn_name (paths ! i))) (mset (map fst fncs))" by (metis mset_map)
  ultimately show ?thesis using fncs(1) below_all_roots [OF tab fncs(2)] by (metis mset_map)
qed

lemma write_thread_ok:
  assumes srt: "sorts_events srt" and few: "length (snd thread) \<le> INT_MAX"
    and can: "can_open (thread_file_name (cg_file_name c) (fst thread))"
  shows "\<exists>out evs. thread_report srt thread out \<and> write_thread srt can_open thread c =
    Some (c\<lparr>cg_events := evs, cg_files := (cg_files c)(thread_file_name (cg_file_name c) (fst thread) \<mapsto> out)\<rparr>)"
proof -
  from make_call_graph_ok [OF srt few] obtain g paths where
    g: "make_call_graph srt (snd thread) new_call_graph = Some (cg_root_calls g, g)" "path_table g paths"
      "accounts g paths (place [] (srt (snd thread)))" by blast
  from print_graph_ok [OF g(2), of "thread_prologue (fst thread)"] obtain fncs where
    fncs: "run_ops (\<lambda>root. print_function g (fst root)) (cg_root_calls g) (thread_prologue (fst thread)) =
        Some (thread_prologue (fst thread) @ concat (map (node_text g) fncs))"
      "mset fncs = mset (map (\<lambda>i. (i, fn_name (paths ! i))) [0..<length paths])" by blast
  let ?out = "thread_prologue (fst thread) @ concat (map (node_text g) fncs)"
  have "thread_report srt thread ?out" unfolding thread_report_def using g fncs(2) by blast
  moreover have "write_thread srt can_open thread c =
    Some (c\<lparr>cg_events := map (\<lambda>(u, ds). (u, if u = fst thread then srt ds else ds)) (cg_events c),
      cg_files := (cg_files c)(thread_file_name (cg_file_name c) (fst thread) \<mapsto> ?out)\<rparr>)"
    using can by (simp add: write_thread_def g fncs(1) Let_def)
  ultimately show ?thesis by blast
qed

lemma thread_file_name_inj: "thread_file_name f t = thread_file_name f u \<Longrightarrow> t = u"
  by (simp add: thread_file_name_def) (metis to_decimal_inj unsigned_word_eqI)

lemma write_threads_ok:
  assumes srt: "sorts_events srt"
  shows "distinct (map fst threads) \<Longrightarrow> \<forall>thread \<in> set threads. length (snd thread) \<le> INT_MAX \<Longrightarrow>
    \<forall>thread \<in> set threads. can_open (thread_file_name (cg_file_name c) (fst thread)) \<Longrightarrow>
    \<exists>evs files. run_ops (write_thread srt can_open) threads c = Some (c\<lparr>cg_events := evs, cg_files := files\<rparr>) \<and>
      (\<forall>n. n \<notin> (\<lambda>thread. thread_file_name (cg_file_name c) (fst thread)) ` set threads \<longrightarrow> files n = cg_files c n) \<and>
      (\<forall>thread \<in> set threads. \<exists>out. files (thread_file_name (cg_file_name c) (fst thread)) = Some out \<and> thread_report srt thread out)"
proof (induction threads arbitrary: c)
  case Nil
  then show ?case by (intro exI [of _ "cg_events c"] exI [of _ "cg_files c"]) simp
next
  case (Cons thread threads)
  let ?n = "\<lambda>thread. thread_file_name (cg_file_name c) (fst thread)"
  from write_thread_ok [OF srt, of thread can_open c] Cons.prems obtain out evs where
    out: "thread_report srt thread out"
    "write_thread srt can_open thread c = Some (c\<lparr>cg_events := evs, cg_files := (cg_files c)(?n thread \<mapsto> out)\<rparr>)" by auto
  let ?c = "c\<lparr>cg_events := evs, cg_files := (cg_files c)(?n thread \<mapsto> out)\<rparr>"
  have "distinct (map fst threads)" "\<forall>t \<in> set threads. length (snd t) \<le> INT_MAX"
    "\<forall>t \<in> set threads. can_open (thread_file_name (cg_file_name ?c) (fst t))" using Cons.prems by simp_all
  from Cons.IH [OF this] obtain evs' files where
    files: "run_ops (write_thread srt can_open) threads ?c = Some (?c\<lparr>cg_events := evs', cg_files := files\<rparr>)"
    "\<forall>n. n \<notin> (\<lambda>t. thread_file_name (cg_file_name ?c) (fst t)) ` set threads \<longrightarrow> files n = cg_files ?c n"
    "\<forall>t \<in> set threads. \<exists>out. files (thread_file_name (cg_file_name ?c) (fst t)) = Some out \<and> thread_report srt t out" by blast
  have new: "?n thread \<notin> ?n ` set threads"
  proof
    assume "?n thread \<in> ?n ` set threads"
    then obtain t where t: "t \<in> set threads" "?n thread = ?n t" by blast
    from thread_file_name_inj [OF t(2)] have "fst thread \<in> fst ` set threads" using t(1) by simp
    then show False using Cons.prems(1) by simp
  qed
  have "run_ops (write_thread srt can_open) (thread # threads) c = Some (c\<lparr>cg_events := evs', cg_files := files\<rparr>)"
    using out(2) files(1) by simp
  moreover have "files (?n thread) = Some out" using files(2) new by simp
  ultimately show ?case using files(2,3) out(1) by (intro exI [of _ evs'] exI [of _ files]) simp
qed

text \<open>
  C34. The callgrind converter writes one file per thread. The file of a thread has every function of the call graph of its events once, under a name
  that spells out its callers, with its own time, which is the total without the time of the calls below it, and with one entry per callee. The loops
  that build and print the graph end.
\<close>

theorem callgrind_file_per_thread:
  assumes "sorts_events srt" and "mset (walk (cg_events c)) = mset (cg_events c)" and "distinct (map fst (cg_events c))"
    and "\<forall>thread \<in> set (cg_events c). length (snd thread) \<le> INT_MAX \<and> can_open (thread_file_name (cg_file_name c) (fst thread))"
  shows "\<exists>c'. callgrind_stop srt walk can_open c = Some c' \<and> (\<forall>thread \<in> set (cg_events c).
    \<exists>g paths fncs. path_table g paths \<and> accounts g paths (place [] (srt (snd thread))) \<and>
      mset fncs = mset (map (\<lambda>i. (i, fn_name (paths ! i))) [0..<length paths]) \<and>
      cg_files c' (thread_file_name (cg_file_name c) (fst thread)) =
        Some (thread_prologue (fst thread) @ concat (map (node_text g) fncs)))"
proof -
  have set: "set (walk (cg_events c)) = set (cg_events c)" using assms(2) by (metis mset_eq_setD)
  have "mset (map fst (walk (cg_events c))) = mset (map fst (cg_events c))" using assms(2) by simp
  then have "distinct (map fst (walk (cg_events c)))" using assms(3) by (metis mset_eq_imp_distinct_iff)
  from write_threads_ok [OF assms(1) this, of can_open c] assms(4) set show ?thesis
    unfolding callgrind_stop_def thread_report_def by fastforce
qed

theorem callgrind_file_per_thread_witness:
  "\<exists>c' out. callgrind_stop stable_sort (\<lambda>es. es) (\<lambda>_. True)
     (new_callgrind_converter\<lparr>cg_file_name := ''out'', cg_events := [(3, demo_calls)]\<rparr>) = Some c' \<and>
     cg_files c' ''out.3'' = Some (thread_prologue 3 @ out)"
proof -
  let ?c = "new_callgrind_converter\<lparr>cg_file_name := ''out'', cg_events := [(3, demo_calls)]\<rparr>"
  have "to_decimal 3 = ''3''" by code_simp
  then have "thread_file_name ''out'' 3 = ''out.3''" by (simp add: thread_file_name_def)
  then show ?thesis
    using callgrind_file_per_thread [OF stable_sort_sorts, of "\<lambda>es. es" ?c "\<lambda>_. True"]
    by (fastforce simp: demo_calls_def INT_MAX_def)
qed

end
