(* ===== verification/Features.thy ===== *)
theory Features
  imports Timeline Stack Hash_Map Endianness
begin

text \<open>
  The two features that come with the library: \<^verbatim>\<open>lib/feature_callstack.c\<close> and \<^verbatim>\<open>lib/feature_cached_string.c\<close>, with the
  functions that \<^verbatim>\<open>HT_FEATURE_DEFINE\<close> of \<^verbatim>\<open>feature.h\<close> generates for them, and the scoped tracepoints
  of \<^verbatim>\<open>lib/scoped_tracepoint.c\<close>.

  A feature object is in the table of features of a timeline, as a value with the address of its block. \<^verbatim>\<open>repr\<close> and
  \<open>object\<close> are the object representation of the platform: the bytes of a structure and the structure that bytes represent.
  The memory of a new object is not initialised; its contents are the arguments \<open>junk\<close>.
\<close>

section \<open>Feature objects\<close>

text \<open>
  A label of the string cache: a string of the program, at an address of its own, or a copy in a block
  of the heap.
\<close>

datatype cached_label = Static_Label u64 string | Dynamic_Label addr string

fun label_text :: "cached_label \<Rightarrow> string" where
  "label_text (Static_Label p s) = s"
| "label_text (Dynamic_Label a s) = s"

record HT_FeatureCallstack =
  fc_addr :: addr
  fc_stack :: ht_stack

record HT_FeatureCachedString =
  fs_addr :: addr
  fs_lock :: "addr option"
  fs_dynamic_hashes :: "cached_label hash_map"
  fs_static_hashes :: "cached_label hash_map"

datatype feature = Callstack HT_FeatureCallstack | CachedString HT_FeatureCachedString

type_synonym timeline = "feature HT_Timeline"

text \<open>A pointer and a stack: a bag of four words, a pointer and three sizes.\<close>

definition sizeof_HT_FeatureCallstack :: nat where
  "sizeof_HT_FeatureCallstack = 72"

text \<open>Two pointers and two tables of 512 buckets with two bags of four words.\<close>

definition sizeof_HT_FeatureCachedString :: nat where
  "sizeof_HT_FeatureCachedString = 16 + 2 * (512 * 64)"

text \<open>\<^verbatim>\<open>HT_FeatureCallstack_from_timeline\<close> and \<^verbatim>\<open>HT_FeatureCachedString_from_timeline\<close>, for a caller that uses the pointer.\<close>

definition callstack_of :: "timeline \<Rightarrow> ('w, 's) reg_scheme \<Rightarrow> HT_FeatureCallstack option" where
  "callstack_of line s =
     do { f \<leftarrow> ht_timeline_get_feature line ''HT_FeatureCallstack'' s;
          f \<leftarrow> f;
          (case f of Callstack c \<Rightarrow> Some c | CachedString c \<Rightarrow> None) }"

definition cached_string_of :: "timeline \<Rightarrow> ('w, 's) reg_scheme \<Rightarrow> HT_FeatureCachedString option" where
  "cached_string_of line s =
     do { f \<leftarrow> ht_timeline_get_feature line ''HT_FeatureCachedString'' s;
          f \<leftarrow> f;
          (case f of Callstack c \<Rightarrow> None | CachedString c \<Rightarrow> Some c) }"

text \<open>An update of the object that the pointer refers to.\<close>

definition put_feature :: "string \<Rightarrow> feature \<Rightarrow> ('w, 's) reg_scheme \<Rightarrow> timeline \<Rightarrow> timeline" where
  "put_feature klass f s line = line\<lparr>tl_features := (tl_features line)[unat (feature_ids s klass) := Some f]\<rparr>"

section \<open>The call stack\<close>

definition ht_feature_callstack_create ::
  "ht_stack \<Rightarrow> 's rt_scheme \<Rightarrow> (HT_ErrorCode \<times> HT_FeatureCallstack option \<times> 's rt_scheme) option" where
  "ht_feature_callstack_create junk s =
     do { (p, m) \<leftarrow> ht_alloc sizeof_HT_FeatureCallstack (rt_mem s);
          case p of
            None \<Rightarrow> Some (HT_ERR_OUT_OF_MEMORY, None, s\<lparr>rt_mem := m\<rparr>)
          | Some a \<Rightarrow> do {
              (err, st, m) \<leftarrow> ht_stack_init junk 1024 32 m;
              if err \<noteq> HT_ERR_OK
              then do { m \<leftarrow> ht_free (Some a) m; Some (err, None, s\<lparr>rt_mem := m\<rparr>) }
              else Some (err, Some \<lparr>fc_addr = a, fc_stack = st\<rparr>, s\<lparr>rt_mem := m\<rparr>) } }"

definition ht_feature_callstack_destroy :: "HT_FeatureCallstack \<Rightarrow> 's rt_scheme \<Rightarrow> 's rt_scheme option" where
  "ht_feature_callstack_destroy f s =
     do { (st, m) \<leftarrow> ht_stack_deinit (fc_stack f) (rt_mem s);
          m \<leftarrow> ht_free (Some (fc_addr f)) m;
          Some (s\<lparr>rt_mem := m\<rparr>) }"

definition callstack_klass :: "(feature, 'w, 's) feature_klass" where
  "callstack_klass =
     \<lparr>fk_name = ''HT_FeatureCallstack'',
      fk_destroy = (\<lambda>f s. case f of Callstack c \<Rightarrow> ht_feature_callstack_destroy c s | CachedString c \<Rightarrow> None)\<rparr>"

definition ht_feature_callstack_enable ::
  "ht_stack \<Rightarrow> timeline \<Rightarrow> ('w, 's) reg_scheme \<Rightarrow> (HT_ErrorCode \<times> timeline \<times> ('w, 's) reg_scheme) option" where
  "ht_feature_callstack_enable junk line s =
     do { (err, f, s) \<leftarrow> ht_feature_callstack_create junk s;
          case f of
            None \<Rightarrow> Some (err, line, s)
          | Some f \<Rightarrow> ht_timeline_set_feature line callstack_klass (Callstack f) s }"

text \<open>
  The event that the caller gives is stamped and copied to the stack; the error of the push is not looked at.
\<close>

definition ht_feature_callstack_start ::
  "(ht_struct \<Rightarrow> byte list) \<Rightarrow> timeline \<Rightarrow> ht_struct \<Rightarrow> ('w, 's) reg_scheme \<Rightarrow> (timeline \<times> ('w, 's) reg_scheme) option" where
  "ht_feature_callstack_start repr line event s =
     do { f \<leftarrow> callstack_of line s;
          let (event, s) = ht_timeline_init_event line event s;
          ti \<leftarrow> type_info (klasses s (event_klass event));
          (_, st, m) \<leftarrow> ht_stack_push (fc_stack f) (take (ti_size ti) (repr event)) (rt_mem s);
          Some (put_feature ''HT_FeatureCallstack'' (Callstack (f\<lparr>fc_stack := st\<rparr>)) s line, s\<lparr>rt_mem := m\<rparr>) }"

text \<open>The fields \<^verbatim>\<open>duration\<close> and \<^verbatim>\<open>thread_id\<close> of the \<^verbatim>\<open>HT_CallstackBaseEvent\<close> in an event, and its timestamp.\<close>

fun set_callstack :: "u64 \<Rightarrow> u32 \<Rightarrow> ht_struct \<Rightarrow> ht_struct option" where
  "set_callstack d t (HT_Event k ts i) = None"
| "set_callstack d t (Derived (HT_Event k ts i) fs) =
     (case fs of
        _ # _ # rest \<Rightarrow> Some (Derived (HT_Event k ts i) (Integer 8 (unat d) # Integer 4 (unat t) # rest))
      | _ \<Rightarrow> None)"
| "set_callstack d t (Derived (Derived b bs) fs) =
     do { base \<leftarrow> set_callstack d t (Derived b bs); Some (Derived base fs) }"

fun header_timestamp :: "ht_struct \<Rightarrow> HT_TimestampNs" where
  "header_timestamp (HT_Event k t i) = t"
| "header_timestamp (Derived b fs) = header_timestamp b"

definition ht_feature_callstack_stop ::
  "HT_Endianness \<Rightarrow> (ht_struct \<Rightarrow> byte list) \<Rightarrow> (byte list \<Rightarrow> ht_struct) \<Rightarrow> HT_ThreadId \<Rightarrow> timeline \<Rightarrow> ('w, 's) reg_scheme \<Rightarrow>
   (HT_ThreadId \<times> timeline \<times> ('w, 's) reg_scheme) option" where
  "ht_feature_callstack_stop e repr object tls line s =
     do { f \<leftarrow> callstack_of line s;
          off \<leftarrow> ht_stack_top (fc_stack f) (rt_mem s);
          bs \<leftarrow> stack_read (fc_stack f) off (stack_size (fc_stack f) - off) (rt_mem s);
          let event = object bs;
          let (now, s) = ht_monotonic_clock_get_timestamp s;
          let (tid, tls, s) = ht_thread_get_current_thread_id tls s;
          event \<leftarrow> set_callstack (now - header_timestamp event) tid event;
          st \<leftarrow> stack_write (fc_stack f) off (take (length bs) (repr event)) (rt_mem s);
          let line = put_feature ''HT_FeatureCallstack'' (Callstack (f\<lparr>fc_stack := st\<rparr>)) s line;
          (line, s) \<leftarrow> ht_timeline_push_event e repr line event s;
          f \<leftarrow> callstack_of line s;
          (st, m) \<leftarrow> ht_stack_pop (fc_stack f) (rt_mem s);
          Some (tls, put_feature ''HT_FeatureCallstack'' (Callstack (f\<lparr>fc_stack := st\<rparr>)) s line, s\<lparr>rt_mem := m\<rparr>) }"

text \<open>
  A local variable of the type of the event: its class is set, and the label; the other fields are not, and hold \<open>d0\<close>, \<open>t0\<close> and
  the timestamp and identifier that the call of \<^verbatim>\<open>ht_timeline_init_event\<close> replaces.
\<close>

definition ht_feature_callstack_start_int ::
  "(ht_struct \<Rightarrow> byte list) \<Rightarrow> nat \<times> nat \<Rightarrow> timeline \<Rightarrow> u64 \<Rightarrow> ('w, 's) reg_scheme \<Rightarrow> (timeline \<times> ('w, 's) reg_scheme) option" where
  "ht_feature_callstack_start_int repr junk line label s =
     ht_feature_callstack_start repr line
       (Derived (Derived (HT_Event ''HT_CallstackIntEvent'' 0 0) [Integer 8 (fst junk), Integer 4 (snd junk)])
          [Integer 8 (unat label)]) s"

definition ht_feature_callstack_start_string ::
  "(ht_struct \<Rightarrow> byte list) \<Rightarrow> nat \<times> nat \<Rightarrow> timeline \<Rightarrow> string option \<Rightarrow> ('w, 's) reg_scheme \<Rightarrow> (timeline \<times> ('w, 's) reg_scheme) option" where
  "ht_feature_callstack_start_string repr junk line label s =
     ht_feature_callstack_start repr line
       (Derived (Derived (HT_Event ''HT_CallstackStringEvent'' 0 0) [Integer 8 (fst junk), Integer 4 (snd junk)])
          [String label]) s"

text \<open>The functions behind the scoped tracepoints of C.\<close>

definition ht_callstack_timeline_scoped_cleanup ::
  "HT_Endianness \<Rightarrow> (ht_struct \<Rightarrow> byte list) \<Rightarrow> (byte list \<Rightarrow> ht_struct) \<Rightarrow> HT_ThreadId \<Rightarrow> timeline \<Rightarrow> ('w, 's) reg_scheme \<Rightarrow>
   (HT_ThreadId \<times> timeline \<times> ('w, 's) reg_scheme) option" where
  "ht_callstack_timeline_scoped_cleanup e repr object tls line s = ht_feature_callstack_stop e repr object tls line s"

definition ht_callstack_timeline_int_start_and_ret ::
  "(ht_struct \<Rightarrow> byte list) \<Rightarrow> nat \<times> nat \<Rightarrow> timeline \<Rightarrow> u64 \<Rightarrow> ('w, 's) reg_scheme \<Rightarrow> (timeline \<times> ('w, 's) reg_scheme) option" where
  "ht_callstack_timeline_int_start_and_ret repr junk line label s = ht_feature_callstack_start_int repr junk line label s"

definition ht_callstack_timeline_string_start_and_ret ::
  "(ht_struct \<Rightarrow> byte list) \<Rightarrow> nat \<times> nat \<Rightarrow> timeline \<Rightarrow> string option \<Rightarrow> ('w, 's) reg_scheme \<Rightarrow> (timeline \<times> ('w, 's) reg_scheme) option" where
  "ht_callstack_timeline_string_start_and_ret repr junk line label s = ht_feature_callstack_start_string repr junk line label s"

section \<open>Frames\<close>

lemma stack_inv_frame:
  assumes "stack_inv st m" and "\<And>q. q \<in> stack_blocks st \<Longrightarrow> live m' q = live m q"
  shows "stack_inv st m'"
proof -
  have same: "live m' (bag_block (sizes_stack st)) = live m (bag_block (sizes_stack st))"
    "live m' (stack_block st) = live m (stack_block st)" by (rule assms(2), simp add: stack_blocks_def)+
  have "bag_inv sizeof_void_ptr (sizes_stack st) m" using assms(1) by (simp add: stack_inv_def)
  then have "bag_inv sizeof_void_ptr (sizes_stack st) m'" by (rule bag_inv_frame) (rule same)
  moreover note same(2)
  ultimately show ?thesis using assms(1) by (simp add: stack_inv_def)
qed

text \<open>A push needs no memory while the records fit into the block that the stack started with.\<close>

lemma stack_push_room:
  assumes inv: "stack_inv st m" and wf: "alloc_wf m" and holds: "stack_holds st fs"
    and room: "length (concat fs) + length bs \<le> stack_min_capacity st" "length fs < bag_min_capacity (sizes_stack st)"
    and small: "stack_size st + length bs < 2 ^ 62" and run: "ht_stack_push st bs m = Some (err, st', m')"
  shows "err = HT_ERR_OK"
proof -
  let ?b = "sizes_stack st"
  have bag: "bag_inv sizeof_void_ptr ?b m" using inv by (simp add: stack_inv_def)
  have size: "stack_size st = length (concat fs)" by (rule stack_holds_size [OF inv holds])
  obtain k where k: "stack_capacity st = stack_min_capacity st * 2 ^ k" using inv by (auto simp: stack_inv_def)
  have "stack_min_capacity st \<le> stack_capacity st" unfolding k by simp
  moreover have "stack_capacity st < SIZE_MODULUS" using inv by (auto simp: stack_inv_def PTRDIFF_MAX_def SIZE_MODULUS_def)
  ultimately have fits: "\<not> size_sub (stack_capacity st) (stack_size st) < length bs"
    using room(1) size by (simp add: size_sub_le)
  obtain k' where k': "bag_capacity ?b = bag_min_capacity ?b * 2 ^ k'" using bag by (auto simp: bag_inv_def)
  have "bag_min_capacity ?b \<le> bag_capacity ?b" unfolding k' by simp
  moreover have "bag_size ?b = length fs"
    using length_bag_list [OF bag] holds by (simp add: stack_holds_def offsets_def)
  ultimately have "bag_capacity ?b \<noteq> bag_size ?b" using room(2) by simp
  with run fits show ?thesis
    by (auto simp: ht_stack_push_def ht_bag_add_def bind_eq_Some_conv split: if_splits)
qed

lemma bag_resize_min: "ht_bag_resize es b n m = Some (ok, b', m') \<Longrightarrow> bag_min_capacity b' = bag_min_capacity b"
  by (auto simp: ht_bag_resize_def bind_eq_Some_conv split: option.splits)

lemma bag_add_min: "ht_bag_add es b v m = Some (err, b', m') \<Longrightarrow> bag_min_capacity b' = bag_min_capacity b"
  by (auto simp: ht_bag_add_def ht_bag_set_def bind_eq_Some_conv split: if_splits dest: bag_resize_min)

lemma bag_remove_min: "ht_bag_remove_nth es b n m = Some (b', m') \<Longrightarrow> bag_min_capacity b' = bag_min_capacity b"
  by (auto simp: ht_bag_remove_nth_def ht_bag_set_def Let_def bind_eq_Some_conv split: if_splits dest!: bag_resize_min)

lemma stack_resize_min:
  "ht_stack_resize st n m = Some (ok, st', m') \<Longrightarrow>
   stack_min_capacity st' = stack_min_capacity st \<and> sizes_stack st' = sizes_stack st"
  by (auto simp: ht_stack_resize_def bind_eq_Some_conv split: option.splits)

lemma stack_write_min:
  "stack_write st off bs m = Some st' \<Longrightarrow> \<exists>cells. st' = st\<lparr>stack_cells := cells\<rparr>"
  by (auto simp: stack_write_def split: option.splits if_splits)

lemma stack_push_min:
  assumes "ht_stack_push st bs m = Some (err, st', m')"
  shows "stack_min_capacity st' = stack_min_capacity st \<and> bag_min_capacity (sizes_stack st') = bag_min_capacity (sizes_stack st)"
proof -
  from assms obtain ok st1 m1 where 1: "(if size_sub (stack_capacity st) (stack_size st) < length bs
     then do { factor \<leftarrow> grow_factor (stack_capacity st) (stack_size st) (length bs) 2;
               ht_stack_resize st (size_mul (stack_capacity st) factor) m }
     else Some (True, st, m)) = Some (ok, st1, m1)"
    and rest: "(if \<not> ok then Some (HT_ERR_OUT_OF_MEMORY, st1, m1)
      else do { (err, b, m) \<leftarrow> ht_bag_add sizeof_void_ptr (sizes_stack st1) (stack_size st1) m1;
        let s = st1\<lparr>sizes_stack := b\<rparr>;
        if err \<noteq> HT_ERR_OK then Some (err, s, m)
        else do { s \<leftarrow> stack_write s (stack_size s) bs m;
                  Some (HT_ERR_OK, s\<lparr>stack_size := stack_size s + length bs\<rparr>, m) } }) = Some (err, st', m')"
    unfolding ht_stack_push_def bind_eq_Some_conv by auto
  from 1 have st1: "stack_min_capacity st1 = stack_min_capacity st" "sizes_stack st1 = sizes_stack st"
    by (auto simp: bind_eq_Some_conv split: if_splits dest: stack_resize_min)
  show ?thesis using rest st1
    by (auto simp: bind_eq_Some_conv Let_def split: if_splits dest!: bag_add_min stack_write_min)
qed

lemma stack_pop_min:
  assumes "ht_stack_pop st m = Some (st', m')"
  shows "stack_min_capacity st' = stack_min_capacity st \<and> bag_min_capacity (sizes_stack st') = bag_min_capacity (sizes_stack st)"
proof -
  from assms obtain top b m1 where b: "ht_bag_remove_nth sizeof_void_ptr (sizes_stack st) (bag_size (sizes_stack st) - 1) m = Some (b, m1)"
    and rest: "(let s = st\<lparr>stack_size := top, sizes_stack := b\<rparr> in
      if stack_capacity s > stack_min_capacity s \<and> stack_size s < stack_capacity s div 4
      then do { (_, s, m) \<leftarrow> ht_stack_resize s (stack_capacity s div 2) m1; Some (s, m) }
      else Some (s, m1)) = Some (st', m')"
    by (auto simp: ht_stack_pop_def Let_def bind_eq_Some_conv)
  show ?thesis using rest bag_remove_min [OF b]
    by (auto simp: Let_def bind_eq_Some_conv split: if_splits dest!: stack_resize_min)
qed

text \<open>The blocks that a timeline uses when it takes an event.\<close>

definition line_blocks :: "'f HT_Timeline \<Rightarrow> 'w container \<Rightarrow> addr set" where
  "line_blocks line k = set_option (tl_buffer line) \<union> {bag_block (entries k)}"

lemma timeline_inv_frame:
  assumes inv: "timeline_inv line k s" and wf: "alloc_wf m"
    and same: "\<And>q. q \<in> line_blocks line k \<Longrightarrow> live m q = live (rt_mem s) q"
  shows "timeline_inv line k (s\<lparr>rt_mem := m\<rparr>)"
  using assms
  by (auto simp: timeline_inv_def timeline_core_def buffer_live_def listener_bag_inv_def line_blocks_def split: option.splits)

lemma line_blocks_live: "timeline_inv line k s \<Longrightarrow> line_blocks line k \<subseteq> dom (live (rt_mem s))"
  by (auto simp: timeline_inv_def timeline_core_def buffer_live_def listener_bag_inv_def line_blocks_def split: option.splits)

lemma timeline_inv_features: "timeline_inv (line\<lparr>tl_features := fs\<rparr>) k s = timeline_inv line k s"
  by (simp add: timeline_inv_def timeline_core_def buffer_live_def)

lemma timeline_inv_clock:
  "timeline_inv line k (s\<lparr>rt_ticks := n\<rparr>) = timeline_inv line k s"
  "timeline_inv line k (s\<lparr>rt_ids := i\<rparr>) = timeline_inv line k s"
  "timeline_inv line k (s\<lparr>rt_last_thread := t\<rparr>) = timeline_inv line k s"
  by (simp_all add: timeline_inv_def timeline_core_def buffer_live_def split: option.split)

lemma stack_write_top:
  assumes inv: "stack_inv st m" and holds: "stack_holds st (fs @ [f])" and len: "length f' = length f"
  shows "\<exists>st'. stack_write st (length (concat fs)) f' m = Some st' \<and> stack_inv st' m \<and> stack_holds st' (fs @ [f']) \<and>
    stack_blocks st' = stack_blocks st \<and> stack_min_capacity st' = stack_min_capacity st \<and> sizes_stack st' = sizes_stack st"
proof -
  let ?o = "length (concat fs)"
  let ?cells = "write_cells ?o f' (stack_cells st)"
  have size: "stack_size st = ?o + length f'" using stack_holds_size [OF inv holds] len by simp
  have fl: "filled (stack_size st) (stack_cells st)" using inv by (simp add: stack_inv_def)
  then have le: "?o + length f' \<le> length (stack_cells st)" by (simp add: filled_def size)
  have pre: "filled ?o (stack_cells st)" using filled_mono [OF fl] size by simp
  have old: "contents ?o (stack_cells st) = concat fs"
    using contents_take [of ?o "stack_size st" "stack_cells st"] holds size by (simp add: stack_holds_def)
  have new: "filled (?o + length f') ?cells \<and> contents (?o + length f') ?cells = concat fs @ f'"
    using write_cells_append [OF pre le] old by simp
  let ?st = "st\<lparr>stack_cells := ?cells\<rparr>"
  have run: "stack_write st ?o f' m = Some ?st" using inv le by (simp add: stack_write_def stack_inv_def)
  have "stack_inv ?st m" using inv new le by (simp add: stack_inv_def stack_block_def size)
  moreover have "stack_holds ?st (fs @ [f'])"
    using holds new size len by (simp add: stack_holds_def offsets_snoc)
  moreover have "stack_blocks ?st = stack_blocks st" by (simp add: stack_blocks_def stack_block_def)
  ultimately show ?thesis using run by simp
qed

section \<open>The call stack as a list of open calls\<close>

definition callstack_index :: "('w, 's) reg_scheme \<Rightarrow> nat" where
  "callstack_index s = unat (feature_ids s ''HT_FeatureCallstack'')"

text \<open>The stack of a call stack feature holds the objects of the events \<open>opens\<close> and is apart from the blocks of the timeline.\<close>

definition stack_for :: "(ht_struct \<Rightarrow> byte list) \<Rightarrow> addr set \<Rightarrow> ht_stack \<Rightarrow> ht_struct list \<Rightarrow> mem \<Rightarrow> bool" where
  "stack_for repr others st opens m \<longleftrightarrow> stack_inv st m \<and> stack_holds st (map repr opens) \<and>
     stack_min_capacity st = 1024 \<and> bag_min_capacity (sizes_stack st) = 32 \<and> stack_blocks st \<inter> others = {}"

definition callstack_inv ::
  "(ht_struct \<Rightarrow> byte list) \<Rightarrow> timeline \<Rightarrow> 'w container \<Rightarrow> ('w, 's) reg_scheme \<Rightarrow> ht_struct list \<Rightarrow> bool" where
  "callstack_inv repr line k s opens \<longleftrightarrow> timeline_inv line k s \<and> callstack_index s < length (tl_features line) \<and>
     (\<exists>f. tl_features line ! callstack_index s = Some (Callstack f) \<and>
        stack_for repr (line_blocks line k) (fc_stack f) opens (rt_mem s))"

lemma callstack_of_ok:
  assumes "callstack_index s < length (tl_features line)" and "tl_features line ! callstack_index s = Some (Callstack f)"
  shows "callstack_of line s = Some f"
  using assms by (simp add: callstack_of_def ht_timeline_get_feature_def callstack_index_def)

lemma put_callstack:
  "put_feature ''HT_FeatureCallstack'' f s line = line\<lparr>tl_features := (tl_features line)[callstack_index s := Some f]\<rparr>"
  by (simp add: put_feature_def callstack_index_def)

lemma line_blocks_features [simp]: "line_blocks (line\<lparr>tl_features := fs\<rparr>) k = line_blocks line k"
  by (simp add: line_blocks_def)

lemma callstack_inv_put:
  assumes "timeline_inv line k s'" and "callstack_index s' < length (tl_features line)"
    and "stack_for repr (line_blocks line k) st opens (rt_mem s')"
  shows "callstack_inv repr (put_feature ''HT_FeatureCallstack'' (Callstack (f\<lparr>fc_stack := st\<rparr>)) s' line) k s' opens"
  using assms by (auto simp: callstack_inv_def put_callstack timeline_inv_features)

lemma stack_blocks_disjoint:
  assumes "footprint (stack_blocks st) m (stack_blocks st') m'" and "stack_blocks st \<inter> A = {}" and "A \<subseteq> dom (live m)"
  shows "stack_blocks st' \<inter> A = {}" and "q \<in> A \<Longrightarrow> live m' q = live m q"
proof -
  have *: "live m q \<noteq> None" "q \<notin> stack_blocks st" if "q \<in> A" for q using assms(2,3) that by auto
  then show "stack_blocks st' \<inter> A = {}" using footprint_frame(2) [OF assms(1)] by blast
  show "q \<in> A \<Longrightarrow> live m' q = live m q" using footprint_frame(1) [OF assms(1)] * by blast
qed

lemma callstack_start_ok:
  fixes s :: "('w, 's) reg_scheme"
  assumes inv: "callstack_inv repr line k s opens" and ti: "type_info (klasses s (event_klass ev)) = Some ti"
    and ev': "ev' = set_header (rt_clock s (rt_ticks s)) (rt_ids s (tl_id_provider line)) ev"
    and size: "length (repr ev') = ti_size ti"
    and room: "length (concat (map repr opens)) + ti_size ti \<le> 1024" "length opens < 32"
  shows "\<exists>fs m. ht_feature_callstack_start repr line ev s = Some (line\<lparr>tl_features := fs\<rparr>,
      s\<lparr>rt_ticks := rt_ticks s + 1, rt_ids := (rt_ids s)(tl_id_provider line := rt_ids s (tl_id_provider line) + 1), rt_mem := m\<rparr>) \<and>
    callstack_inv repr (line\<lparr>tl_features := fs\<rparr>) k
      (s\<lparr>rt_ticks := rt_ticks s + 1, rt_ids := (rt_ids s)(tl_id_provider line := rt_ids s (tl_id_provider line) + 1), rt_mem := m\<rparr>)
      (opens @ [ev'])"
proof -
  let ?s = "s\<lparr>rt_ticks := rt_ticks s + 1, rt_ids := (rt_ids s)(tl_id_provider line := rt_ids s (tl_id_provider line) + 1)\<rparr>"
  from inv obtain f where line: "timeline_inv line k s" and idx: "callstack_index s < length (tl_features line)"
    and f: "tl_features line ! callstack_index s = Some (Callstack f)"
    and st: "stack_inv (fc_stack f) (rt_mem s)" "stack_holds (fc_stack f) (map repr opens)"
      "stack_min_capacity (fc_stack f) = 1024" "bag_min_capacity (sizes_stack (fc_stack f)) = 32"
      "stack_blocks (fc_stack f) \<inter> line_blocks line k = {}"
    by (auto simp: callstack_inv_def stack_for_def)
  have wf: "alloc_wf (rt_mem s)" using line by (simp add: timeline_inv_def timeline_core_def)
  have small: "stack_size (fc_stack f) + length (repr ev') < 2 ^ 62"
    using stack_holds_size [OF st(1,2)] room(1) size by simp
  from stack_push_ok [OF st(1) wf st(2) small] obtain err st' m where
    push: "ht_stack_push (fc_stack f) (repr ev') (rt_mem s) = Some (err, st', m)" and wf': "alloc_wf m" and inv': "stack_inv st' m"
    and fp: "footprint (stack_blocks (fc_stack f)) (rt_mem s) (stack_blocks st') m"
    and res: "if err = HT_ERR_OK then stack_holds st' (map repr opens @ [repr ev'])
              else err = HT_ERR_OUT_OF_MEMORY \<and> stack_holds st' (map repr opens)" by blast
  have "err = HT_ERR_OK"
    using stack_push_room [OF st(1) wf st(2) _ _ small push] room size st(3,4) by simp
  then have holds: "stack_holds st' (map repr (opens @ [ev']))" using res by simp
  note frame = stack_blocks_disjoint [OF fp st(5) line_blocks_live [OF line]]
  have klass: "event_klass (set_header t i ev) = event_klass ev" for t i by (induction ev) simp_all
  have run: "ht_feature_callstack_start repr line ev s =
      Some (put_feature ''HT_FeatureCallstack'' (Callstack (f\<lparr>fc_stack := st'\<rparr>)) ?s line, ?s\<lparr>rt_mem := m\<rparr>)"
    using callstack_of_ok [OF idx f] ti push size ev'
    by (simp add: ht_feature_callstack_start_def ht_timeline_init_event_def ht_monotonic_clock_get_timestamp_def
        ht_event_id_provider_next_def klass)
  have "timeline_inv line k (?s\<lparr>rt_mem := m\<rparr>)"
    using timeline_inv_frame [of line k ?s m] line wf' frame(2) by (simp add: timeline_inv_clock)
  moreover have "callstack_index (?s\<lparr>rt_mem := m\<rparr>) = callstack_index s" by (simp add: callstack_index_def)
  moreover have "stack_for repr (line_blocks line k) st' (opens @ [ev']) m"
    using inv' holds stack_push_min [OF push] st(3,4) frame(1) by (simp add: stack_for_def)
  ultimately have "callstack_inv repr (put_feature ''HT_FeatureCallstack'' (Callstack (f\<lparr>fc_stack := st'\<rparr>)) (?s\<lparr>rt_mem := m\<rparr>) line) k
      (?s\<lparr>rt_mem := m\<rparr>) (opens @ [ev'])"
    using idx by (intro callstack_inv_put) simp_all
  then show ?thesis using run by (auto simp: put_callstack callstack_index_def)
qed

lemma set_header_timestamp [simp]: "header_timestamp (set_header t i ev) = t"
  by (induction ev) simp_all

lemma set_callstack_keeps:
  "set_callstack d t ev = Some ev' \<Longrightarrow> event_klass ev' = event_klass ev \<and> plain_event ev \<longrightarrow> plain_event ev'"
proof (induction d t ev arbitrary: ev' rule: set_callstack.induct)
  case (2 d t k ts i fs)
  then show ?case by (auto split: list.splits)
next
  case (3 d t b bs fs)
  then show ?case by (fastforce simp: bind_eq_Some_conv)
qed simp

lemma callstack_stop_ok:
  fixes s :: "('w, 's) reg_scheme"
  assumes inv: "callstack_inv repr line k s (opens @ [ev])" and tls: "tls \<noteq> 0"
    and obj: "object (repr ev) = ev"
    and ev': "set_callstack (rt_clock s (rt_ticks s) - header_timestamp ev) tls ev = Some ev'"
    and size: "length (repr ev') = length (repr ev)"
    and ser: "tl_serialize_events line" and ret: "listeners_return Q True k" "Q (world s)"
    and ok: "plain_event ev'" "get_size ev' \<le> max (tl_buffer_capacity line) 128"
  shows "\<exists>line' w m chunks. ht_feature_callstack_stop e repr object tls line s =
      Some (tls, line', s\<lparr>rt_ticks := rt_ticks s + 1, world := w, rt_mem := m\<rparr>) \<and>
    callstack_inv repr line' k (s\<lparr>rt_ticks := rt_ticks s + 1, world := w, rt_mem := m\<rparr>) opens \<and>
    tl_serialize_events line' \<and> tl_buffer_capacity line' = tl_buffer_capacity line \<and> tl_id_provider line' = tl_id_provider line \<and>
    broadcast k True chunks (world s) = Some w \<and>
    concat chunks @ pending line' = pending line @ event_bytes e (klasses s) ev'"
proof -
  let ?s = "s\<lparr>rt_ticks := rt_ticks s + 1\<rparr>"
  let ?C = "''HT_FeatureCallstack''"
  from inv obtain f where line: "timeline_inv line k s" and idx: "callstack_index s < length (tl_features line)"
    and f: "tl_features line ! callstack_index s = Some (Callstack f)"
    and st: "stack_inv (fc_stack f) (rt_mem s)" "stack_holds (fc_stack f) (map repr opens @ [repr ev])"
      "stack_min_capacity (fc_stack f) = 1024" "bag_min_capacity (sizes_stack (fc_stack f)) = 32"
      "stack_blocks (fc_stack f) \<inter> line_blocks line k = {}"
    by (auto simp: callstack_inv_def stack_for_def)
  let ?o = "length (concat (map repr opens))"
  have sz: "stack_size (fc_stack f) - ?o = length (repr ev)" using stack_holds_size [OF st(1,2)] by simp
  note top = stack_top_ok [OF st(1,2)]
  from stack_write_top [OF st(1,2) size] obtain st1 where
    st1: "stack_write (fc_stack f) ?o (repr ev') (rt_mem s) = Some st1" "stack_inv st1 (rt_mem s)"
      "stack_holds st1 (map repr opens @ [repr ev'])" "stack_blocks st1 = stack_blocks (fc_stack f)"
      "stack_min_capacity st1 = 1024" "sizes_stack st1 = sizes_stack (fc_stack f)" using st(3) by auto
  define line1 where "line1 = put_feature ?C (Callstack (f\<lparr>fc_stack := st1\<rparr>)) ?s line"
  have line1_sym: "put_feature ?C (Callstack (f\<lparr>fc_stack := st1\<rparr>)) (s\<lparr>rt_ticks := Suc (rt_ticks s)\<rparr>) line = line1"
    by (simp add: line1_def)
  have line1: "line1 = line\<lparr>tl_features := (tl_features line)[callstack_index s := Some (Callstack (f\<lparr>fc_stack := st1\<rparr>))]\<rparr>"
    by (simp add: line1_def put_callstack callstack_index_def)
  have inv1: "timeline_inv line1 k ?s" using line by (simp add: line1 timeline_inv_features timeline_inv_clock)
  have "\<not> (tl_buffer_capacity line1 < get_size ev' \<and> 128 < get_size ev')" using ok(2) by (auto simp: line1 max_def split: if_splits)
  then obtain line2 s2 where push: "ht_timeline_push_event e repr line1 ev' ?s = Some (line2, s2)" "timeline_inv line2 k s2"
    and em: "emits line1 k ?s (event_bytes e (klasses s) ev') line2 s2"
    using timeline_push_ok [OF inv1 _ ret(1) _ ok(1), of e repr] ser ret(2) by (auto simp: line1)
  from em obtain w m cells n chunks where
    s2: "s2 = ?s\<lparr>world := w, rt_mem := m\<rparr>" and m: "alloc_wf m" "live m = live (rt_mem s)"
    and line2: "line2 = line1\<lparr>tl_cells := cells, tl_buffer_usage := n\<rparr>"
    and out: "broadcast k True chunks (world s) = Some w" "concat chunks @ pending line2 = pending line1 @ event_bytes e (klasses s) ev'"
    using ser by (auto simp: emits_def line1)
  have st1m: "stack_inv st1 m" by (rule stack_inv_frame [OF st1(2)]) (simp add: m(2))
  from stack_pop_ok [OF st1m m(1) st1(3)] obtain st2 m2 where
    pop: "ht_stack_pop st1 m = Some (st2, m2)" "alloc_wf m2" "stack_inv st2 m2" "stack_holds st2 (map repr opens)"
      "footprint (stack_blocks st1) m (stack_blocks st2) m2" by blast
  have blocks: "line_blocks line2 k = line_blocks line k" by (simp add: line2 line1 line_blocks_def)
  note frame = stack_blocks_disjoint [OF pop(5), of "line_blocks line k"]
  have sub: "stack_blocks st1 \<inter> line_blocks line k = {}" "line_blocks line k \<subseteq> dom (live m)"
    using st(5) st1(4) line_blocks_live [OF line] m(2) by simp_all
  have idx2: "callstack_index s2 = callstack_index s" by (simp add: s2 callstack_index_def)
  have get: "callstack_of line2 s2 = Some (f\<lparr>fc_stack := st1\<rparr>)"
    by (rule callstack_of_ok) (simp_all add: idx2 line2 line1 idx)
  let ?line' = "put_feature ?C (Callstack (f\<lparr>fc_stack := st2\<rparr>)) s2 line2"
  have run: "ht_feature_callstack_stop e repr object tls line s = Some (tls, ?line', s2\<lparr>rt_mem := m2\<rparr>)"
    using callstack_of_ok [OF idx f] top sz obj ev' st1(1) size push(1) get pop(1) tls
    by (simp add: ht_feature_callstack_stop_def ht_monotonic_clock_get_timestamp_def ht_thread_get_current_thread_id_def
        line1_sym s2 Let_def)
  have "timeline_inv line2 k (s2\<lparr>rt_mem := m2\<rparr>)"
    using timeline_inv_frame [OF push(2) pop(2)] frame(2) [OF sub] blocks by (simp add: s2)
  moreover have "stack_for repr (line_blocks line2 k) st2 opens m2"
    using pop(3,4) stack_pop_min [OF pop(1)] st1(5,6) st(4) frame(1) [OF sub] blocks by (simp add: stack_for_def)
  moreover have "callstack_index (s2\<lparr>rt_mem := m2\<rparr>) < length (tl_features line2)"
    using idx by (simp add: callstack_index_def s2 line2 line1)
  ultimately have inv': "callstack_inv repr (put_feature ?C (Callstack (f\<lparr>fc_stack := st2\<rparr>)) (s2\<lparr>rt_mem := m2\<rparr>) line2) k (s2\<lparr>rt_mem := m2\<rparr>) opens"
    using callstack_inv_put [of line2 k "s2\<lparr>rt_mem := m2\<rparr>" repr st2 opens f] by simp
  have same: "put_feature ?C (Callstack (f\<lparr>fc_stack := st2\<rparr>)) (s2\<lparr>rt_mem := m2\<rparr>) line2 = ?line'"
    by (simp add: put_feature_def)
  have "pending ?line' = pending line2" "pending line1 = pending line" by (simp_all add: pending_def put_callstack line1)
  then show ?thesis using run inv' same out ser
    by (intro exI [of _ ?line'] exI [of _ w] exI [of _ m2] exI [of _ chunks]) (simp add: s2 line2 line1 put_callstack)
qed

section \<open>Nested calls\<close>

text \<open>A call starts with an event, makes other calls, and stops.\<close>

datatype call = Call ht_struct "call list"

fun run_call ::
    "HT_Endianness \<Rightarrow> (ht_struct \<Rightarrow> byte list) \<Rightarrow> (byte list \<Rightarrow> ht_struct) \<Rightarrow> call \<Rightarrow> HT_ThreadId \<times> timeline \<times> ('w, 's) reg_scheme \<Rightarrow>
     (HT_ThreadId \<times> timeline \<times> ('w, 's) reg_scheme) option"
  and run_calls ::
    "HT_Endianness \<Rightarrow> (ht_struct \<Rightarrow> byte list) \<Rightarrow> (byte list \<Rightarrow> ht_struct) \<Rightarrow> call list \<Rightarrow> HT_ThreadId \<times> timeline \<times> ('w, 's) reg_scheme \<Rightarrow>
     (HT_ThreadId \<times> timeline \<times> ('w, 's) reg_scheme) option" where
  "run_call e repr object (Call ev cs) (tls, line, s) =
     do { (line, s) \<leftarrow> ht_feature_callstack_start repr line ev s;
          (tls, line, s) \<leftarrow> run_calls e repr object cs (tls, line, s);
          ht_feature_callstack_stop e repr object tls line s }"
| "run_calls e repr object [] st = Some st"
| "run_calls e repr object (c # cs) st = do { st \<leftarrow> run_call e repr object c st; run_calls e repr object cs st }"

text \<open>
  The events that should be traced: every call gives one event when it stops, with the time and the identifier of its start, the
  time in between as its duration, and the number of the thread. The state is the number of readings of the clock and
  the next identifier.
\<close>

fun trace_call :: "(nat \<Rightarrow> u64) \<Rightarrow> u32 \<Rightarrow> call \<Rightarrow> nat \<times> u64 \<Rightarrow> ht_struct list \<times> nat \<times> u64"
  and trace_calls :: "(nat \<Rightarrow> u64) \<Rightarrow> u32 \<Rightarrow> call list \<Rightarrow> nat \<times> u64 \<Rightarrow> ht_struct list \<times> nat \<times> u64" where
  "trace_call clock tid (Call ev cs) (n, i) =
     (case trace_calls clock tid cs (n + 1, i + 1) of
        (evs, n', i') \<Rightarrow> (evs @ [the (set_callstack (clock n' - clock n) tid (set_header (clock n) i ev))], n' + 1, i'))"
| "trace_calls clock tid [] st = ([], st)"
| "trace_calls clock tid (c # cs) st =
     (case trace_call clock tid c st of
        (evs, st) \<Rightarrow> (case trace_calls clock tid cs st of (evs', st) \<Rightarrow> (evs @ evs', st)))"

text \<open>The bytes of the stack that calls need, and how deep they nest.\<close>

fun call_bytes :: "(ht_struct \<Rightarrow> nat) \<Rightarrow> call \<Rightarrow> nat" and calls_bytes :: "(ht_struct \<Rightarrow> nat) \<Rightarrow> call list \<Rightarrow> nat" where
  "call_bytes sz (Call ev cs) = sz ev + calls_bytes sz cs"
| "calls_bytes sz [] = 0"
| "calls_bytes sz (c # cs) = max (call_bytes sz c) (calls_bytes sz cs)"

fun call_events_ok :: "(ht_struct \<Rightarrow> bool) \<Rightarrow> call \<Rightarrow> bool" and calls_events_ok :: "(ht_struct \<Rightarrow> bool) \<Rightarrow> call list \<Rightarrow> bool" where
  "call_events_ok P (Call ev cs) \<longleftrightarrow> P ev \<and> calls_events_ok P cs"
| "calls_events_ok P [] \<longleftrightarrow> True"
| "calls_events_ok P (c # cs) \<longleftrightarrow> call_events_ok P c \<and> calls_events_ok P cs"

definition object_size :: "(klass_ref \<Rightarrow> HT_EventKlass) \<Rightarrow> ht_struct \<Rightarrow> nat" where
  "object_size kl ev = (case type_info (kl (event_klass ev)) of None \<Rightarrow> 0 | Some ti \<Rightarrow> ti_size ti)"

text \<open>
  An event that the feature can handle: its class is described, it has the fields of a call stack event, its object has
  the size of its class and can be read back, and its serialized form needs no memory of its own.
\<close>

definition traceable ::
  "(ht_struct \<Rightarrow> byte list) \<Rightarrow> (byte list \<Rightarrow> ht_struct) \<Rightarrow> (klass_ref \<Rightarrow> HT_EventKlass) \<Rightarrow> nat \<Rightarrow> ht_struct \<Rightarrow> bool" where
  "traceable repr object kl cap ev \<longleftrightarrow> type_info (kl (event_klass ev)) \<noteq> None \<and> 32 \<le> object_size kl ev \<and>
     (\<forall>t i. length (repr (set_header t i ev)) = object_size kl ev \<and> object (repr (set_header t i ev)) = set_header t i ev \<and>
        (\<forall>d tid. \<exists>ev'. set_callstack d tid (set_header t i ev) = Some ev' \<and> length (repr ev') = object_size kl ev \<and>
           plain_event ev' \<and> get_size ev' \<le> max cap 128))"

definition traced ::
  "HT_Endianness \<Rightarrow> ('w \<Rightarrow> bool) \<Rightarrow> 'w container \<Rightarrow> timeline \<times> ('w, 's) reg_scheme \<Rightarrow> ht_struct list \<times> nat \<times> u64 \<Rightarrow>
   timeline \<times> ('w, 's) reg_scheme \<Rightarrow> bool" where
  "traced e Q k = (\<lambda>(line, s) (evs, n, i) (line', s').
     tl_serialize_events line' \<and> tl_buffer_capacity line' = tl_buffer_capacity line \<and> tl_id_provider line' = tl_id_provider line \<and>
     rt_ticks s' = n \<and> rt_ids s' (tl_id_provider line) = i \<and> rt_clock s' = rt_clock s \<and> klasses s' = klasses s \<and> Q (world s') \<and>
     (\<exists>chunks. broadcast k True chunks (world s) = Some (world s') \<and>
        concat chunks @ pending line' = pending line @ concat (map (event_bytes e (klasses s)) evs)))"

lemma traced_refl:
  "tl_serialize_events line \<Longrightarrow> Q (world s) \<Longrightarrow> traced e Q k (line, s) ([], rt_ticks s, rt_ids s (tl_id_provider line)) (line, s)"
  by (auto simp: traced_def intro: exI [of _ "[]"])

lemma traced_trans:
  assumes "traced e Q k (line, s) (evs, n, i) (line1, s1)" and "traced e Q k (line1, s1) (evs', n', i') (line2, s2)"
  shows "traced e Q k (line, s) (evs @ evs', n', i') (line2, s2)"
proof -
  from assms obtain c1 c2 where
    "broadcast k True c1 (world s) = Some (world s1)" "concat c1 @ pending line1 = pending line @ concat (map (event_bytes e (klasses s)) evs)"
    "broadcast k True c2 (world s1) = Some (world s2)"
    "concat c2 @ pending line2 = pending line1 @ concat (map (event_bytes e (klasses s)) evs')"
    by (auto simp: traced_def)
  then have "broadcast k True (c1 @ c2) (world s) = Some (world s2)"
    "concat (c1 @ c2) @ pending line2 = pending line @ concat (map (event_bytes e (klasses s)) (evs @ evs'))"
    by (simp_all add: broadcast_append)
  then show ?thesis using assms by (auto simp: traced_def)
qed

lemma run_calls_ok:
  fixes s :: "('w, 's) reg_scheme" and sz sz' :: "ht_struct \<Rightarrow> nat"
  assumes ret: "listeners_return Q True k" and tls: "tls \<noteq> 0"
  shows "callstack_inv repr line k s opens \<Longrightarrow> tl_serialize_events line \<Longrightarrow> Q (world s) \<Longrightarrow>
      length (concat (map repr opens)) + call_bytes (object_size (klasses s)) c \<le> 1024 \<Longrightarrow>
      32 * length opens \<le> length (concat (map repr opens)) \<Longrightarrow>
      call_events_ok (traceable repr object (klasses s) (tl_buffer_capacity line)) c \<Longrightarrow>
      \<exists>line' s'. run_call e repr object c (tls, line, s) = Some (tls, line', s') \<and> callstack_inv repr line' k s' opens \<and>
        traced e Q k (line, s) (trace_call (rt_clock s) tls c (rt_ticks s, rt_ids s (tl_id_provider line))) (line', s')"
    and "callstack_inv repr line k s opens \<Longrightarrow> tl_serialize_events line \<Longrightarrow> Q (world s) \<Longrightarrow>
      length (concat (map repr opens)) + calls_bytes (object_size (klasses s)) cs \<le> 1024 \<Longrightarrow>
      32 * length opens \<le> length (concat (map repr opens)) \<Longrightarrow>
      calls_events_ok (traceable repr object (klasses s) (tl_buffer_capacity line)) cs \<Longrightarrow>
      \<exists>line' s'. run_calls e repr object cs (tls, line, s) = Some (tls, line', s') \<and> callstack_inv repr line' k s' opens \<and>
        traced e Q k (line, s) (trace_calls (rt_clock s) tls cs (rt_ticks s, rt_ids s (tl_id_provider line))) (line', s')"
proof (induction sz c and sz' cs arbitrary: line s opens and line s opens rule: call_bytes_calls_bytes.induct)
  case (1 sz ev cs)
  let ?p = "tl_id_provider line" and ?n = "rt_ticks s" and ?kl = "klasses s"
  let ?i = "rt_ids s ?p"
  let ?ev = "set_header (rt_clock s ?n) ?i ev"
  from "1.prems"(6) have tr: "traceable repr object ?kl (tl_buffer_capacity line) ev"
    and kids: "calls_events_ok (traceable repr object ?kl (tl_buffer_capacity line)) cs" by simp_all
  then obtain ti where ti: "type_info (?kl (event_klass ev)) = Some ti" by (auto simp: traceable_def)
  have sz: "object_size ?kl ev = ti_size ti" by (simp add: object_size_def ti)
  have size: "length (repr ?ev) = ti_size ti" and big: "32 \<le> ti_size ti" and obj: "object (repr ?ev) = ?ev"
    using tr by (simp_all add: traceable_def sz)
  have bytes: "length (concat (map repr opens)) + ti_size ti + calls_bytes (object_size ?kl) cs \<le> 1024"
    using "1.prems"(4) by (simp add: sz)
  have depth: "length opens < 32" using "1.prems"(5) bytes big by linarith
  from callstack_start_ok [OF "1.prems"(1) ti refl size _ depth] bytes obtain fs m where
    start: "ht_feature_callstack_start repr line ev s = Some (line\<lparr>tl_features := fs\<rparr>,
      s\<lparr>rt_ticks := ?n + 1, rt_ids := (rt_ids s)(?p := ?i + 1), rt_mem := m\<rparr>)"
    and inv1: "callstack_inv repr (line\<lparr>tl_features := fs\<rparr>) k
      (s\<lparr>rt_ticks := ?n + 1, rt_ids := (rt_ids s)(?p := ?i + 1), rt_mem := m\<rparr>) (opens @ [?ev])" by auto
  let ?l1 = "line\<lparr>tl_features := fs\<rparr>" and ?s1 = "s\<lparr>rt_ticks := ?n + 1, rt_ids := (rt_ids s)(?p := ?i + 1), rt_mem := m\<rparr>"
  obtain evs n' i' where kids_trace: "trace_calls (rt_clock s) tls cs (?n + 1, ?i + 1) = (evs, n', i')"
    by (metis prod_cases3)
  from "1.IH" [OF inv1] "1.prems" bytes size kids big kids_trace obtain l2 s2 where
    run2: "run_calls e repr object cs (tls, ?l1, ?s1) = Some (tls, l2, s2)" and inv2: "callstack_inv repr l2 k s2 (opens @ [?ev])"
    and tr2: "traced e Q k (?l1, ?s1) (evs, n', i') (l2, s2)" by auto
  have fields: "tl_serialize_events l2" "tl_buffer_capacity l2 = tl_buffer_capacity line" "tl_id_provider l2 = ?p" "rt_ticks s2 = n'"
    "rt_ids s2 ?p = i'" "rt_clock s2 = rt_clock s" "klasses s2 = ?kl" "Q (world s2)" using tr2 by (auto simp: traced_def)
  from tr obtain ev' where ev': "set_callstack (rt_clock s n' - rt_clock s ?n) tls ?ev = Some ev'" "length (repr ev') = length (repr ?ev)"
    "plain_event ev'" "get_size ev' \<le> max (tl_buffer_capacity line) 128" using size sz unfolding traceable_def by metis
  from callstack_stop_ok [where repr = repr and object = object and ev' = ev' and Q = Q and e = e, OF inv2 tls obj] ev' fields ret obtain l3 w m3 chunks where
    stop: "ht_feature_callstack_stop e repr object tls l2 s2 = Some (tls, l3, s2\<lparr>rt_ticks := n' + 1, world := w, rt_mem := m3\<rparr>)"
    and inv3: "callstack_inv repr l3 k (s2\<lparr>rt_ticks := n' + 1, world := w, rt_mem := m3\<rparr>) opens"
    and l3: "tl_serialize_events l3" "tl_buffer_capacity l3 = tl_buffer_capacity line" "tl_id_provider l3 = ?p"
    and out: "broadcast k True chunks (world s2) = Some w" "concat chunks @ pending l3 = pending l2 @ event_bytes e ?kl ev'" by auto
  let ?s3 = "s2\<lparr>rt_ticks := n' + 1, world := w, rt_mem := m3\<rparr>"
  have tr3: "traced e Q k (l2, s2) ([ev'], n' + 1, i') (l3, ?s3)"
    using l3 fields out broadcast_keeps [OF ret fields(8) out(1)] by (auto simp: traced_def)
  have tr1: "traced e Q k (line, s) (evs, n', i') (l2, s2)" using tr2 by (auto simp: traced_def pending_def)
  have "trace_call (rt_clock s) tls (Call ev cs) (?n, ?i) = (evs @ [ev'], n' + 1, i')" using kids_trace ev'(1) by simp
  then show ?case using start run2 stop inv3 traced_trans [OF tr1 tr3] by auto
next
  case (2 sz)
  then show ?case by (auto intro: traced_refl)
next
  case (3 sz c cs)
  let ?st = "(rt_ticks s, rt_ids s (tl_id_provider line))"
  obtain evs n i where t1: "trace_call (rt_clock s) tls c ?st = (evs, n, i)" by (metis prod_cases3)
  have room: "length (concat (map repr opens)) + call_bytes (object_size (klasses s)) c \<le> 1024"
    "length (concat (map repr opens)) + calls_bytes (object_size (klasses s)) cs \<le> 1024" using "3.prems"(4) by simp_all
  from "3.IH"(1) [OF "3.prems"(1-3) room(1) "3.prems"(5)] "3.prems"(6) t1 obtain l1 s1 where
    run1: "run_call e repr object c (tls, line, s) = Some (tls, l1, s1)" and inv1: "callstack_inv repr l1 k s1 opens"
    and tr1: "traced e Q k (line, s) (evs, n, i) (l1, s1)" by auto
  have fields: "tl_serialize_events l1" "tl_buffer_capacity l1 = tl_buffer_capacity line" "tl_id_provider l1 = tl_id_provider line"
    "rt_ticks s1 = n" "rt_ids s1 (tl_id_provider line) = i" "rt_clock s1 = rt_clock s" "klasses s1 = klasses s" "Q (world s1)"
    using tr1 by (auto simp: traced_def)
  obtain evs' n' i' where t2: "trace_calls (rt_clock s) tls cs (n, i) = (evs', n', i')" by (metis prod_cases3)
  from "3.IH"(2) [OF inv1 fields(1,8)] room(2) "3.prems"(5,6) fields t2 obtain l2 s2 where
    "run_calls e repr object cs (tls, l1, s1) = Some (tls, l2, s2)" "callstack_inv repr l2 k s2 opens"
    and tr2: "traced e Q k (l1, s1) (evs', n', i') (l2, s2)" by auto
  then show ?case using run1 t1 t2 traced_trans [OF tr1 tr2] by auto
qed

text \<open>
  C35. The call stack feature traces nested calls. For every tree of calls whose open calls fit in the 1024 bytes that the stack starts with, all starts and
  stops return, and the timeline gets exactly one event per call, inner calls before the calls that contain them. Each event has the
  time and the identifier of its own start, the label it was started with, the time from its start to its stop as its duration and the number of the
  thread; the stack is empty again at the end. No memory is needed, so no call is lost.
\<close>

theorem callstack_traces_nested_calls:
  fixes s :: "('w, 's) reg_scheme"
  assumes "callstack_inv repr line k s []" and "tl_serialize_events line" and "tls \<noteq> 0"
    and "listeners_return Q True k" and "Q (world s)"
    and "calls_bytes (object_size (klasses s)) cs \<le> 1024"
    and "calls_events_ok (traceable repr object (klasses s) (tl_buffer_capacity line)) cs"
    and "trace_calls (rt_clock s) tls cs (rt_ticks s, rt_ids s (tl_id_provider line)) = (evs, n, i)"
  shows "\<exists>line' s' chunks. run_calls e repr object cs (tls, line, s) = Some (tls, line', s') \<and> callstack_inv repr line' k s' [] \<and>
    rt_ticks s' = n \<and> rt_ids s' (tl_id_provider line) = i \<and> broadcast k True chunks (world s) = Some (world s') \<and>
    concat chunks @ pending line' = pending line @ concat (map (event_bytes e (klasses s)) evs)"
proof -
  from run_calls_ok(2) [OF assms(4,3,1,2,5), of cs object e] assms(6,7,8) obtain line' s' where
    "run_calls e repr object cs (tls, line, s) = Some (tls, line', s')" "callstack_inv repr line' k s' []"
    "traced e Q k (line, s) (evs, n, i) (line', s')" by auto
  then show ?thesis by (auto simp: traced_def)
qed

text \<open>An event of 48 bytes, of which the representation keeps the header, and a timeline with an empty call stack.\<close>

fun header_id :: "ht_struct \<Rightarrow> HT_EventId" where
  "header_id (HT_Event k t i) = i"
| "header_id (Derived b fs) = header_id b"

definition demo_call_event :: ht_struct where
  "demo_call_event =
     Derived (Derived (HT_Event ''HT_CallstackIntEvent'' 0 0) [Integer 8 0, Integer 4 0]) [Integer 8 7]"

definition demo_repr :: "ht_struct \<Rightarrow> byte list" where
  "demo_repr ev = le_bytes 8 (unat (header_timestamp ev)) @ le_bytes 8 (unat (header_id ev)) @ le_bytes 32 0"

definition demo_object :: "byte list \<Rightarrow> ht_struct" where
  "demo_object bs = set_header (word_of_nat (le_value (take 8 bs))) (word_of_nat (le_value (take 8 (drop 8 bs)))) demo_call_event"

definition demo_call_klass :: HT_EventKlass where
  "demo_call_klass =
     \<lparr>type_info = Some \<lparr>ti_name = ''HT_CallstackIntEvent'', ti_fields_count = 2, ti_size = 48, ti_packed_size = 48, ti_fields = []\<rparr>,
      klass_id = 5\<rparr>"

definition demo_call_state :: "(byte list list, unit) reg_scheme" where
  "demo_call_state = demo_state\<lparr>
     rt_mem := \<lparr>heap_of = \<lparr>blocks = [1 \<mapsto> 64, 2 \<mapsto> 40, 3 \<mapsto> 48, 4 \<mapsto> 384, 5 \<mapsto> 40, 6 \<mapsto> 312, 7 \<mapsto> 32, 8 \<mapsto> 40,
                                     9 \<mapsto> 72, 10 \<mapsto> 1024, 11 \<mapsto> 256],
                           next_addr = 12, refusals = []\<rparr>, realloc_fnc = None, user_data = 0\<rparr>,
     klasses := (\<lambda>_. demo_call_klass), feature_ids := (\<lambda>_. 1)\<rparr>"

definition demo_call_stack :: ht_stack where
  "demo_call_stack =
     \<lparr>sizes_stack = \<lparr>bag_min_capacity = 32, bag_capacity = 32, bag_size = 0, bag_data = Some 11, bag_cells = replicate 32 None\<rparr>,
      stack_data = Some 10, stack_cells = replicate 1024 None, stack_size = 0, stack_min_capacity = 1024, stack_capacity = 1024\<rparr>"

definition demo_call_line :: timeline where
  "demo_call_line = (new_timeline 6 7 32 3 (Some 8) True)\<lparr>
     tl_features := [None, Some (Callstack \<lparr>fc_addr = 9, fc_stack = demo_call_stack\<rparr>)]\<rparr>"

lemma demo_call_stack_for: "stack_for demo_repr {7, 4} demo_call_stack [] (rt_mem demo_call_state)"
proof -
  have "\<exists>k. (1024::nat) = 1024 * 2 ^ k" "\<exists>k. (32::nat) = 32 * 2 ^ k" by (rule exI [of _ 0], simp)+
  then have "stack_inv demo_call_stack (rt_mem demo_call_state)"
    unfolding stack_inv_def bag_inv_def demo_call_stack_def demo_call_state_def live_def filled_def
    by (simp add: stack_block_def bag_block_def sizeof_void_ptr_def PTRDIFF_MAX_def)
  moreover have "stack_holds demo_call_stack []" by (simp add: stack_holds_def demo_call_stack_def bag_list_def offsets_def)
  ultimately show ?thesis
    by (simp add: stack_for_def) (simp add: demo_call_stack_def stack_blocks_def stack_block_def bag_block_def)
qed

lemma demo_call_inv: "callstack_inv demo_repr demo_call_line demo_container demo_call_state []"
proof -
  have "timeline_inv demo_call_line demo_container demo_call_state"
    by (simp add: timeline_inv_def timeline_core_def demo_call_line_def demo_call_state_def demo_state_def new_timeline_def
        buffer_live_def live_def alloc_wf_def heap_ok_def listener_bag_inv_def demo_container_def filled_def bag_block_def)
  moreover have "callstack_index demo_call_state = 1" by (simp add: callstack_index_def demo_call_state_def)
  moreover have "line_blocks demo_call_line demo_container = {7, 4}"
    by (auto simp: line_blocks_def demo_call_line_def new_timeline_def demo_container_def bag_block_def)
  ultimately show ?thesis
    unfolding callstack_inv_def using demo_call_stack_for by (simp add: demo_call_line_def)
qed

lemma demo_call_traceable: "traceable demo_repr demo_object (\<lambda>_. demo_call_klass) 32 demo_call_event"
proof -
  have word: "(word_of_nat (le_value (le_bytes 8 (unat v))) :: u64) = v" for v :: u64
    using unsigned_less [of v, where 'a = nat] by (simp add: le_value_le_bytes)
  have header: "header_timestamp (set_header t i demo_call_event) = t" "header_id (set_header t i demo_call_event) = i"
    "set_header t' i' (set_header t i demo_call_event) = set_header t' i' demo_call_event" for t i t' i'
    by (simp_all add: demo_call_event_def)
  have len: "length (demo_repr ev) = 48" for ev by (simp add: demo_repr_def le_bytes_def)
  have obj: "demo_object (demo_repr (set_header t i demo_call_event)) = set_header t i demo_call_event" for t i
    using word [of t] word [of i] by (simp add: demo_object_def demo_repr_def header le_bytes_def)
  have stop: "\<exists>ev'. set_callstack d tid (set_header t i demo_call_event) = Some ev' \<and> plain_event ev' \<and> get_size ev' \<le> max 32 128" for d tid t i
    by (simp add: demo_call_event_def)
  have "object_size (\<lambda>_. demo_call_klass) demo_call_event = 48" by (simp add: object_size_def demo_call_klass_def)
  then show ?thesis using len obj stop unfolding traceable_def by (simp add: demo_call_klass_def)
qed

theorem callstack_traces_nested_calls_witness:
  "\<exists>line' s' chunks evs n i. run_calls HT_ENDIANNESS_LITTLE demo_repr demo_object
       [Call demo_call_event [Call demo_call_event []]] (1, demo_call_line, demo_call_state) = Some (1, line', s') \<and>
     callstack_inv demo_repr line' demo_container s' [] \<and>
     trace_calls (rt_clock demo_call_state) 1 [Call demo_call_event [Call demo_call_event []]]
       (rt_ticks demo_call_state, rt_ids demo_call_state None) = (evs, n, i) \<and> length evs = 2 \<and>
     concat chunks @ pending line' = concat (map (event_bytes HT_ENDIANNESS_LITTLE (\<lambda>_. demo_call_klass)) evs)"
proof -
  let ?cs = "[Call demo_call_event [Call demo_call_event []]]"
  obtain evs n i where tr: "trace_calls (rt_clock demo_call_state) 1 ?cs (rt_ticks demo_call_state, rt_ids demo_call_state None) = (evs, n, i)"
    by (metis prod_cases3)
  have kl: "klasses demo_call_state = (\<lambda>_. demo_call_klass)" by (simp add: demo_call_state_def)
  have line: "tl_serialize_events demo_call_line" "tl_buffer_capacity demo_call_line = 32" "tl_id_provider demo_call_line = None"
    "pending demo_call_line = []"
    by (simp_all add: demo_call_line_def new_timeline_def ht_event_id_provider_get_default_def pending_def)
  have size: "object_size (\<lambda>_. demo_call_klass) demo_call_event = 48" by (simp add: object_size_def demo_call_klass_def)
  have two: "length evs = 2" using tr by auto
  from callstack_traces_nested_calls [OF demo_call_inv line(1), of 1 "\<lambda>_. True" ?cs demo_object evs n i HT_ENDIANNESS_LITTLE]
  show ?thesis using tr demo_return demo_call_traceable two by (simp add: kl line size) blast
qed

end
