(* ===== verification/Cached_String.thy ===== *)
theory Cached_String
  imports Features
begin

text \<open>
  \<^verbatim>\<open>lib/feature_cached_string.c\<close>: labels are announced once, in mapping events, and then named by a number: the address of a label of the
  program, or the hash of a label made at run time.

  The two tables are those of \<^verbatim>\<open>lib/hash_map.c\<close>; what the feature needs of them are the laws of the interface of label maps.
  The contents of a new feature object are not initialised: they are the tables in the argument \<open>junk\<close>.
\<close>

section \<open>The feature object\<close>

datatype hashes = Static_Hashes | Dynamic_Hashes

fun table :: "hashes \<Rightarrow> HT_FeatureCachedString \<Rightarrow> cached_label hash_map" where
  "table Static_Hashes f = fs_static_hashes f"
| "table Dynamic_Hashes f = fs_dynamic_hashes f"

fun set_table :: "hashes \<Rightarrow> cached_label hash_map \<Rightarrow> HT_FeatureCachedString \<Rightarrow> HT_FeatureCachedString" where
  "set_table Static_Hashes h f = f\<lparr>fs_static_hashes := h\<rparr>"
| "set_table Dynamic_Hashes h f = f\<lparr>fs_dynamic_hashes := h\<rparr>"

text \<open>\<^verbatim>\<open>HT_FCS_LOCK_\<close> and \<^verbatim>\<open>HT_FCS_UNLOCK_\<close>.\<close>

definition fcs_lock :: "HT_FeatureCachedString \<Rightarrow> 's rt_scheme \<Rightarrow> 's rt_scheme option" where
  "fcs_lock f s = (case fs_lock f of None \<Rightarrow> Some s | Some a \<Rightarrow> ht_mutex_lock a s)"

definition fcs_unlock :: "HT_FeatureCachedString \<Rightarrow> 's rt_scheme \<Rightarrow> 's rt_scheme option" where
  "fcs_unlock f s = (case fs_lock f of None \<Rightarrow> Some s | Some a \<Rightarrow> ht_mutex_unlock a s)"

text \<open>The labels after the \<^verbatim>\<open>goto\<close> statements undo what was done, the last step first.\<close>

definition create_with_tables ::
  "bool \<Rightarrow> addr \<Rightarrow> cached_label hash_map \<Rightarrow> cached_label hash_map \<Rightarrow> 's rt_scheme \<Rightarrow>
   (HT_ErrorCode \<times> HT_FeatureCachedString option \<times> 's rt_scheme) option" where
  "create_with_tables thread_safe a static dynamic s =
     (if thread_safe
      then do {
        (lock, s) \<leftarrow> ht_mutex_create s;
        case lock of
          None \<Rightarrow> do {
            (dynamic, m) \<leftarrow> ht_hash_map_deinit dynamic (rt_mem s);
            (static, m) \<leftarrow> ht_hash_map_deinit static m;
            m \<leftarrow> ht_free (Some a) m;
            Some (HT_ERR_UNKNOWN, None, s\<lparr>rt_mem := m\<rparr>) }
        | Some l \<Rightarrow>
            Some (HT_ERR_OK, Some \<lparr>fs_addr = a, fs_lock = Some l, fs_dynamic_hashes = dynamic, fs_static_hashes = static\<rparr>, s) }
      else Some (HT_ERR_OK, Some \<lparr>fs_addr = a, fs_lock = None, fs_dynamic_hashes = dynamic, fs_static_hashes = static\<rparr>, s))"

definition ht_feature_cached_string_create ::
  "cached_label hash_map \<times> cached_label hash_map \<Rightarrow> bool \<Rightarrow> 's rt_scheme \<Rightarrow>
   (HT_ErrorCode \<times> HT_FeatureCachedString option \<times> 's rt_scheme) option" where
  "ht_feature_cached_string_create junk thread_safe s =
     do { (p, m) \<leftarrow> ht_alloc sizeof_HT_FeatureCachedString (rt_mem s);
          case p of
            None \<Rightarrow> Some (HT_ERR_OUT_OF_MEMORY, None, s\<lparr>rt_mem := m\<rparr>)
          | Some a \<Rightarrow> do {
              (err, static, m) \<leftarrow> ht_hash_map_init (fst junk) m;
              if err \<noteq> HT_ERR_OK
              then do { m \<leftarrow> ht_free (Some a) m; Some (err, None, s\<lparr>rt_mem := m\<rparr>) }
              else do {
                (err, dynamic, m) \<leftarrow> ht_hash_map_init (snd junk) m;
                if err \<noteq> HT_ERR_OK
                then do {
                  (static, m) \<leftarrow> ht_hash_map_deinit static m;
                  m \<leftarrow> ht_free (Some a) m;
                  Some (err, None, s\<lparr>rt_mem := m\<rparr>) }
                else create_with_tables thread_safe a static dynamic (s\<lparr>rt_mem := m\<rparr>) } } }"

text \<open>The labels of the dynamic table are blocks of their own.\<close>

fun destroy_dynamic_label :: "u64 \<Rightarrow> cached_label \<Rightarrow> unit \<Rightarrow> mem \<Rightarrow> (bool \<times> unit \<times> mem) option" where
  "destroy_dynamic_label key (Dynamic_Label a s) ud m = do { m \<leftarrow> ht_free (Some a) m; Some (True, ud, m) }"
| "destroy_dynamic_label key (Static_Label p s) ud m = None"

definition ht_feature_cached_string_destroy :: "HT_FeatureCachedString \<Rightarrow> 's rt_scheme \<Rightarrow> 's rt_scheme option" where
  "ht_feature_cached_string_destroy f s =
     do { (_, m) \<leftarrow> ht_hash_map_for_each (fs_dynamic_hashes f) destroy_dynamic_label () (rt_mem s);
          (_, m) \<leftarrow> ht_hash_map_deinit (fs_dynamic_hashes f) m;
          (_, m) \<leftarrow> ht_hash_map_deinit (fs_static_hashes f) m;
          s \<leftarrow> (case fs_lock f of None \<Rightarrow> Some (s\<lparr>rt_mem := m\<rparr>) | Some l \<Rightarrow> ht_mutex_destroy l (s\<lparr>rt_mem := m\<rparr>));
          m \<leftarrow> ht_free (Some (fs_addr f)) (rt_mem s);
          Some (s\<lparr>rt_mem := m\<rparr>) }"

definition cached_string_klass :: "(feature, 'w, 's) feature_klass" where
  "cached_string_klass =
     \<lparr>fk_name = ''HT_FeatureCachedString'',
      fk_destroy = (\<lambda>f s. case f of Callstack c \<Rightarrow> None | CachedString c \<Rightarrow> ht_feature_cached_string_destroy c s)\<rparr>"

definition ht_feature_cached_string_enable ::
  "cached_label hash_map \<times> cached_label hash_map \<Rightarrow> timeline \<Rightarrow> bool \<Rightarrow> ('w, 's) reg_scheme \<Rightarrow>
   (HT_ErrorCode \<times> timeline \<times> ('w, 's) reg_scheme) option" where
  "ht_feature_cached_string_enable junk line thread_safe s =
     do { (err, f, s) \<leftarrow> ht_feature_cached_string_create junk thread_safe s;
          case f of
            None \<Rightarrow> Some (err, line, s)
          | Some f \<Rightarrow> ht_timeline_set_feature line cached_string_klass (CachedString f) s }"

section \<open>Mappings\<close>

text \<open>The string behind a label: the block of a dynamic label has to be live.\<close>

fun read_label :: "cached_label \<Rightarrow> mem \<Rightarrow> string option" where
  "read_label (Static_Label p s) m = Some s"
| "read_label (Dynamic_Label a s) m = (if live m a = Some (strlen s + 1) then Some s else None)"

definition mapping_event :: "u64 \<Rightarrow> string \<Rightarrow> ht_struct" where
  "mapping_event key label =
     Derived (HT_Event ''HT_StringMappingEvent'' 0 0) [Integer 8 (unat key), String (Some label)]"

definition push_mapping ::
  "HT_Endianness \<Rightarrow> (ht_struct \<Rightarrow> byte list) \<Rightarrow> timeline \<Rightarrow> u64 \<Rightarrow> cached_label \<Rightarrow> ('w, 's) reg_scheme \<Rightarrow>
   (timeline \<times> ('w, 's) reg_scheme) option" where
  "push_mapping e repr line key label s =
     do { t \<leftarrow> read_label label (rt_mem s); HT_TIMELINE_PUSH_EVENT e repr line (mapping_event key t) s }"

definition ht_feature_cached_string_add_mapping_to ::
  "HT_Endianness \<Rightarrow> (ht_struct \<Rightarrow> byte list) \<Rightarrow> hashes \<Rightarrow> timeline \<Rightarrow> u64 \<Rightarrow> cached_label \<Rightarrow> ('w, 's) reg_scheme \<Rightarrow>
   (u64 \<times> timeline \<times> ('w, 's) reg_scheme) option" where
  "ht_feature_cached_string_add_mapping_to e repr which line hash label s =
     do { f \<leftarrow> cached_string_of line s;
          s \<leftarrow> fcs_lock f s;
          (ret, err, h, m) \<leftarrow> ht_hash_map_insert (table which f) hash label (rt_mem s);
          let f = set_table which h f;
          let line = put_feature ''HT_FeatureCachedString'' (CachedString f) s line;
          s \<leftarrow> fcs_unlock f (s\<lparr>rt_mem := m\<rparr>);
          if err \<noteq> HT_ERR_OK then Some (0, line, s)
          else do {
            (line, s) \<leftarrow> (if ret = None then push_mapping e repr line hash label s else Some (line, s));
            Some (hash, line, s) } }"

text \<open>The number of a label of the program is its address.\<close>

definition ht_feature_cached_string_add_mapping ::
  "HT_Endianness \<Rightarrow> (ht_struct \<Rightarrow> byte list) \<Rightarrow> timeline \<Rightarrow> u64 \<Rightarrow> string \<Rightarrow> ('w, 's) reg_scheme \<Rightarrow>
   (u64 \<times> timeline \<times> ('w, 's) reg_scheme) option" where
  "ht_feature_cached_string_add_mapping e repr line p label s =
     do { f \<leftarrow> cached_string_of line s;
          ht_feature_cached_string_add_mapping_to e repr Static_Hashes line p (Static_Label p label) s }"

text \<open>The timeline is the data that the walk hands to the callback.\<close>

definition ht_feature_cached_string_push_event ::
  "HT_Endianness \<Rightarrow> (ht_struct \<Rightarrow> byte list) \<Rightarrow> u64 \<Rightarrow> cached_label \<Rightarrow> timeline \<times> ('w, 's) reg_scheme \<Rightarrow> mem \<Rightarrow>
   (bool \<times> (timeline \<times> ('w, 's) reg_scheme) \<times> mem) option" where
  "ht_feature_cached_string_push_event e repr key label ud m =
     do { (line, s) \<leftarrow> push_mapping e repr (fst ud) key label ((snd ud)\<lparr>rt_mem := m\<rparr>);
          Some (True, (line, s), rt_mem s) }"

definition ht_feature_cached_string_push_map ::
  "HT_Endianness \<Rightarrow> (ht_struct \<Rightarrow> byte list) \<Rightarrow> timeline \<Rightarrow> ('w, 's) reg_scheme \<Rightarrow> (timeline \<times> ('w, 's) reg_scheme) option" where
  "ht_feature_cached_string_push_map e repr line s =
     do { f \<leftarrow> cached_string_of line s;
          s \<leftarrow> fcs_lock f s;
          (ud, m) \<leftarrow> ht_hash_map_for_each (fs_static_hashes f) (ht_feature_cached_string_push_event e repr) (line, s) (rt_mem s);
          (ud, m) \<leftarrow> ht_hash_map_for_each (fs_dynamic_hashes f) (ht_feature_cached_string_push_event e repr) ud m;
          s \<leftarrow> fcs_unlock f ((snd ud)\<lparr>rt_mem := m\<rparr>);
          Some (fst ud, s) }"

text \<open>
  The block for the copy of the label is used without a test, so a refused request is undefined. The
  number of the label is returned even when it was not entered.
\<close>

definition label_hash :: "string \<Rightarrow> u64" where
  "label_hash label = ucast (djb2_hash (map byte_of_char label))"

definition ht_feature_cached_string_add_mapping_dynamic ::
  "HT_Endianness \<Rightarrow> (ht_struct \<Rightarrow> byte list) \<Rightarrow> timeline \<Rightarrow> string \<Rightarrow> ('w, 's) reg_scheme \<Rightarrow>
   (u64 \<times> timeline \<times> ('w, 's) reg_scheme) option" where
  "ht_feature_cached_string_add_mapping_dynamic e repr line label s =
     do { f \<leftarrow> cached_string_of line s;
          let hash = label_hash label;
          s \<leftarrow> fcs_lock f s;
          found \<leftarrow> ht_hash_map_get_value (fs_dynamic_hashes f) hash (rt_mem s);
          if found = None
          then do {
            s \<leftarrow> fcs_unlock f s;
            let n = strlen label;
            (p, m) \<leftarrow> ht_alloc (n + 1) (rt_mem s);
            a \<leftarrow> p;
            (_, line, s) \<leftarrow> ht_feature_cached_string_add_mapping_to e repr Dynamic_Hashes line hash
                              (Dynamic_Label a (take n label)) (s\<lparr>rt_mem := m\<rparr>);
            Some (hash, line, s) }
          else do {
            s \<leftarrow> fcs_unlock f s;
            Some (hash, line, s) } }"

section \<open>Announcements\<close>

text \<open>The events that announce a list of mappings, from the clock's reading \<open>n\<close> and the identifier \<open>i\<close> on.\<close>

fun announced :: "(nat \<Rightarrow> u64) \<Rightarrow> nat \<Rightarrow> u64 \<Rightarrow> (u64 \<times> string) list \<Rightarrow> ht_struct list" where
  "announced clock n i [] = []"
| "announced clock n i ((key, t) # xs) = set_header (clock n) i (mapping_event key t) # announced clock (n + 1) (i + 1) xs"

lemma announced_append:
  "announced clock n i (xs @ ys) = announced clock n i xs @ announced clock (n + length xs) (i + of_nat (length xs)) ys"
proof (induction xs arbitrary: n i)
  case (Cons x xs)
  obtain key t where "x = (key, t)" by (cases x)
  then show ?case using Cons.IH [of "n + 1" "i + 1"] by (simp add: ac_simps)
qed simp

text \<open>A label without a zero character whose mapping event needs no memory of its own.\<close>

definition label_fits :: "nat \<Rightarrow> string \<Rightarrow> bool" where
  "label_fits cap t \<longleftrightarrow> CHR 0x00 \<notin> set t \<and> length t + 29 \<le> max cap 128"

lemma strlen_fits: "label_fits cap t \<Longrightarrow> strlen t = length t"
proof -
  assume "label_fits cap t"
  then have "\<forall>c\<in>set t. c \<noteq> CHR 0x00" unfolding label_fits_def by blast
  then have "takeWhile (\<lambda>c. c \<noteq> CHR 0x00) t = t" by (simp only: takeWhile_eq_all_conv)
  then show ?thesis by (simp only: strlen_def)
qed

text \<open>The listeners are told \<open>xs\<close>, in mapping events.\<close>

definition told ::
  "HT_Endianness \<Rightarrow> ('w \<Rightarrow> bool) \<Rightarrow> 'w container \<Rightarrow> timeline \<times> ('w, 's) reg_scheme \<Rightarrow> (u64 \<times> string) list \<Rightarrow>
   timeline \<times> ('w, 's) reg_scheme \<Rightarrow> bool" where
  "told e Q k = (\<lambda>(line, s) xs (line', s').
     traced e Q k (line, s) (announced (rt_clock s) (rt_ticks s) (rt_ids s (tl_id_provider line)) xs,
       rt_ticks s + length xs, rt_ids s (tl_id_provider line) + of_nat (length xs)) (line', s'))"

lemma toldD:
  assumes "told e Q k (line, s) xs (line', s')"
  shows "tl_serialize_events line'" and "tl_buffer_capacity line' = tl_buffer_capacity line"
    and "tl_id_provider line' = tl_id_provider line" and "Q (world s')" and "rt_clock s' = rt_clock s" and "klasses s' = klasses s"
    and "rt_ticks s' = rt_ticks s + length xs" and "rt_ids s' (tl_id_provider line) = rt_ids s (tl_id_provider line) + of_nat (length xs)"
  using assms unfolding told_def traced_def prod.case by (blast+)

lemma told_refl: "tl_serialize_events line \<Longrightarrow> Q (world s) \<Longrightarrow> told e Q k (line, s) [] (line, s)"
  using traced_refl [of line Q s e k] by (simp add: told_def)

lemma told_trans:
  assumes "told e Q k (line, s) xs (line1, s1)" and "told e Q k (line1, s1) ys (line2, s2)"
  shows "told e Q k (line, s) (xs @ ys) (line2, s2)"
proof -
  note d = toldD [OF assms(1)]
  have "traced e Q k (line, s) (announced (rt_clock s) (rt_ticks s) (rt_ids s (tl_id_provider line)) xs,
       rt_ticks s + length xs, rt_ids s (tl_id_provider line) + of_nat (length xs)) (line1, s1)"
    using assms(1) by (simp add: told_def)
  moreover have "traced e Q k (line1, s1)
      (announced (rt_clock s) (rt_ticks s + length xs) (rt_ids s (tl_id_provider line) + of_nat (length xs)) ys,
       rt_ticks s + length (xs @ ys), rt_ids s (tl_id_provider line) + of_nat (length (xs @ ys))) (line2, s2)"
    using assms(2) d by (simp add: told_def add.assoc)
  ultimately show ?thesis unfolding told_def prod.case announced_append by (rule traced_trans)
qed

text \<open>The state of the cache and of the locks is not part of what the listeners are told.\<close>

lemma told_same:
  assumes "told e Q k (line\<lparr>tl_features := fs\<rparr>, s\<lparr>rt_mem := m, rt_locks := L\<rparr>) xs (line', s')"
  shows "told e Q k (line, s) xs (line', s')"
  using assms by (simp add: told_def traced_def pending_def)

text \<open>The timeline takes the announcement of \<open>xs\<close>, and nothing else of it changes.\<close>

definition announces ::
  "HT_Endianness \<Rightarrow> ('w \<Rightarrow> bool) \<Rightarrow> 'w container \<Rightarrow> timeline \<times> ('w, 's) reg_scheme \<Rightarrow> (u64 \<times> string) list \<Rightarrow>
   timeline \<times> ('w, 's) reg_scheme \<Rightarrow> bool" where
  "announces e Q k = (\<lambda>(line, s) xs (line', s').
     timeline_inv line' k s' \<and> told e Q k (line, s) xs (line', s') \<and>
     rt_locks s' = rt_locks s \<and> live (rt_mem s') = live (rt_mem s) \<and> feature_ids s' = feature_ids s \<and>
     tl_features line' = tl_features line \<and> tl_locking_policy line' = tl_locking_policy line \<and>
     line_blocks line' k = line_blocks line k)"

lemma announcesD:
  assumes "announces e Q k (line, s) xs (line', s')"
  shows "timeline_inv line' k s'" and "rt_locks s' = rt_locks s" and "live (rt_mem s') = live (rt_mem s)"
    and "feature_ids s' = feature_ids s" and "tl_features line' = tl_features line"
    and "tl_locking_policy line' = tl_locking_policy line" and "line_blocks line' k = line_blocks line k"
    and "told e Q k (line, s) xs (line', s')"
  using assms unfolding announces_def prod.case by (blast+)

lemma announces_refl:
  "timeline_inv line k s \<Longrightarrow> tl_serialize_events line \<Longrightarrow> Q (world s) \<Longrightarrow> announces e Q k (line, s) [] (line, s)"
  using told_refl [of line Q s e k] by (simp add: announces_def)

lemma announces_trans:
  assumes "announces e Q k (line, s) xs (line1, s1)" and "announces e Q k (line1, s1) ys (line2, s2)"
  shows "announces e Q k (line, s) (xs @ ys) (line2, s2)"
proof -
  note d = announcesD [OF assms(1)] and d2 = announcesD [OF assms(2)]
  show ?thesis unfolding announces_def prod.case using told_trans [OF d(8) d2(8)] d(1-7) d2(1-7) by simp
qed

lemma push_mapping_ok:
  fixes s :: "('w, 's) reg_scheme"
  assumes inv: "timeline_inv line k s" and ser: "tl_serialize_events line" and ret: "listeners_return Q True k" "Q (world s)"
    and label: "read_label l (rt_mem s) = Some t" "label_fits (tl_buffer_capacity line) t"
  shows "\<exists>line' s'. push_mapping e repr line key l s = Some (line', s') \<and> announces e Q k (line, s) [(key, t)] (line', s')"
proof -
  let ?p = "tl_id_provider line"
  let ?s = "s\<lparr>rt_ticks := rt_ticks s + 1, rt_ids := (rt_ids s)(?p := rt_ids s ?p + 1)\<rparr>"
  let ?ev = "set_header (rt_clock s (rt_ticks s)) (rt_ids s ?p) (mapping_event key t)"
  have inv1: "timeline_inv line k ?s" using inv by (simp add: timeline_inv_clock)
  have "plain_event ?ev" "get_size ?ev = length t + 29"
    using strlen_fits [OF label(2)] by (simp_all add: mapping_event_def)
  then have "plain_event ?ev" "\<not> (tl_buffer_capacity line < get_size ?ev \<and> 128 < get_size ?ev)"
    using label(2) by (auto simp: label_fits_def)
  with timeline_push_ok [OF inv1 ser ret(1), of ?ev e repr] ret(2) obtain line' s' where
    push: "ht_timeline_push_event e repr line ?ev ?s = Some (line', s')" "timeline_inv line' k s'"
    and em: "emits line k ?s (event_bytes e (klasses s) ?ev) line' s'" by auto
  have run: "push_mapping e repr line key l s = Some (line', s')"
    using label(1) push(1)
    by (simp add: push_mapping_def HT_TIMELINE_PUSH_EVENT_def ht_monotonic_clock_get_timestamp_def ht_event_id_provider_next_def
        ht_timeline_get_id_provider_def)
  from em ser obtain w m cells n chunks where
    s': "s' = ?s\<lparr>world := w, rt_mem := m\<rparr>" and m: "live m = live (rt_mem s)"
    and line': "line' = line\<lparr>tl_cells := cells, tl_buffer_usage := n\<rparr>"
    and out: "broadcast k True chunks (world s) = Some w" "concat chunks @ pending line' = pending line @ event_bytes e (klasses s) ?ev"
    by (auto simp: emits_def)
  have "Q w" using broadcast_keeps [OF ret out(1)] .
  then have "traced e Q k (line, s) ([?ev], rt_ticks s + 1, rt_ids s ?p + 1) (line', s')"
    using ser out by (auto simp: traced_def s' line')
  then have "announces e Q k (line, s) [(key, t)] (line', s')"
    using push(2) m by (simp add: announces_def told_def) (simp add: s' line' line_blocks_def)
  then show ?thesis using run by blast
qed

text \<open>The labels of a walk can be read in the memory \<open>m\<close>.\<close>

definition readable :: "nat \<Rightarrow> mem \<Rightarrow> (u64 \<times> cached_label) list \<Rightarrow> bool" where
  "readable cap m xs \<longleftrightarrow> (\<forall>(key, l)\<in>set xs. read_label l m = Some (label_text l) \<and> label_fits cap (label_text l))"

lemma read_label_live: "live m' = live m \<Longrightarrow> read_label l m' = read_label l m"
  by (cases l) simp_all

lemma readable_live: "live m' = live m \<Longrightarrow> readable cap m' xs = readable cap m xs"
  using read_label_live [of m' m] by (simp add: readable_def)

text \<open>The walk over a table, which the listeners do not touch: \<open>J\<close> says what has been announced when \<open>rest\<close> is left.\<close>

lemma push_table_ok:
  fixes s :: "('w, 's) reg_scheme"
  assumes inv: "timeline_inv line k s" and ser: "tl_serialize_events line" and ret: "listeners_return Q True k" "Q (world s)"
    and tab: "hash_map_inv h (rt_mem s)" and rd: "readable (tl_buffer_capacity line) (rt_mem s) (hash_map_entries h)"
  shows "\<exists>line' s'. ht_hash_map_for_each h (ht_feature_cached_string_push_event e repr) (line, s) (rt_mem s) = Some ((line', s'), rt_mem s') \<and>
    announces e Q k (line, s) (map (apsnd label_text) (hash_map_entries h)) (line', s')"
proof -
  let ?cb = "ht_feature_cached_string_push_event e repr" and ?xs = "hash_map_entries h"
  let ?J = "\<lambda>rest st m. \<exists>xs. ?xs = xs @ rest \<and> m = rt_mem (snd st) \<and> announces e Q k (line, s) (map (apsnd label_text) xs) st"
  have "callback_runs ?J ?cb (hash_map_blocks h)"
    unfolding callback_runs_def
  proof (intro allI impI, elim exE conjE)
    fix key l rest ud m xs
    assume xs: "?xs = xs @ (key, l) # rest" and m: "m = rt_mem (snd ud)"
      and ann: "announces e Q k (line, s) (map (apsnd label_text) xs) ud"
    obtain l1 t1 where ud: "ud = (l1, t1)" by (cases ud)
    note d = announcesD [OF ann [unfolded ud]]
    note t = toldD [OF d(8)]
    have "read_label l (rt_mem t1) = Some (label_text l)" "label_fits (tl_buffer_capacity l1) (label_text l)"
      using rd xs t(2) read_label_live [OF d(3)] by (auto simp: readable_def)
    from push_mapping_ok [OF d(1) t(1) ret(1) t(4) this, of e repr key] obtain l2 t2 where
      push: "push_mapping e repr l1 key l t1 = Some (l2, t2)" "announces e Q k (l1, t1) [(key, label_text l)] (l2, t2)" by blast
    have "announces e Q k (line, s) (map (apsnd label_text) (xs @ [(key, l)])) (l2, t2)"
      using announces_trans [OF ann [unfolded ud] push(2)] by simp
    moreover have "?cb key l ud m = Some (True, (l2, t2), rt_mem t2)"
      using push(1) m ud by (simp add: ht_feature_cached_string_push_event_def)
    moreover have "live (rt_mem t2) = live m" using announcesD(3) [OF push(2)] m ud by simp
    ultimately show "\<exists>ud' m'. ?cb key l ud m = Some (True, ud', m') \<and> ?J rest ud' m' \<and> (\<forall>q\<in>hash_map_blocks h. live m' q = live m q)"
      using xs by (intro exI [of _ "(l2, t2)"] exI [of _ "rt_mem t2"]) (auto intro!: exI [of _ "xs @ [(key, l)]"])
  qed
  moreover have "bucket_inv b (rt_mem s)" if "b \<in> set h" for b
    using tab that by (auto simp: hash_map_inv_def in_set_conv_nth)
  moreover have "?J ?xs (line, s) (rt_mem s)" using announces_refl [of line k s Q e] inv ser ret(2) by simp
  ultimately obtain st m' where "ht_hash_map_for_each h ?cb (line, s) (rt_mem s) = Some (st, m')" "?J [] st m'"
    using hash_map_each_runs [of ?J ?cb "hash_map_blocks h" h "rt_mem s" "(line, s)"] by blast
  then show ?thesis by (cases st) auto
qed

section \<open>The invariant of the cache\<close>

fun label_ok :: "hashes \<Rightarrow> mem \<Rightarrow> cached_label \<Rightarrow> bool" where
  "label_ok Static_Hashes m (Static_Label p t) = True"
| "label_ok Dynamic_Hashes m (Dynamic_Label a t) = (live m a = Some (strlen t + 1))"
| "label_ok which m l = False"

definition label_blocks :: "HT_FeatureCachedString \<Rightarrow> addr set" where
  "label_blocks f = {a. \<exists>key t. hash_map_of (fs_dynamic_hashes f) key = Some (Dynamic_Label a t)}"

text \<open>
  The two tables are well formed, every label can be read and fits, and the blocks of the tables, of the
  labels and \<open>others\<close> are apart.
\<close>

definition cache_ok :: "nat \<Rightarrow> addr set \<Rightarrow> HT_FeatureCachedString \<Rightarrow> mem \<Rightarrow> bool" where
  "cache_ok cap others f m \<longleftrightarrow>
     hash_map_inv (fs_static_hashes f) m \<and> hash_map_inv (fs_dynamic_hashes f) m \<and>
     (\<forall>which key l. hash_map_of (table which f) key = Some l \<longrightarrow> label_ok which m l \<and> label_fits cap (label_text l)) \<and>
     (\<forall>key key' a t t'. hash_map_of (fs_dynamic_hashes f) key = Some (Dynamic_Label a t) \<longrightarrow>
        hash_map_of (fs_dynamic_hashes f) key' = Some (Dynamic_Label a t') \<longrightarrow> key = key') \<and>
     hash_map_blocks (fs_static_hashes f) \<inter> hash_map_blocks (fs_dynamic_hashes f) = {} \<and>
     label_blocks f \<inter> (hash_map_blocks (fs_static_hashes f) \<union> hash_map_blocks (fs_dynamic_hashes f)) = {} \<and>
     others \<inter> (hash_map_blocks (fs_static_hashes f) \<union> hash_map_blocks (fs_dynamic_hashes f) \<union> label_blocks f) = {}"

definition texts :: "cached_label hash_map \<Rightarrow> u64 \<rightharpoonup> string" where
  "texts h = (\<lambda>key. map_option label_text (hash_map_of h key))"

lemma texts_None: "texts h key = None \<longleftrightarrow> hash_map_of h key = None"
  by (simp add: texts_def)

definition cached_index :: "('w, 's) reg_scheme \<Rightarrow> nat" where
  "cached_index s = unat (feature_ids s ''HT_FeatureCachedString'')"

text \<open>A timeline with the cache \<open>f\<close>.\<close>

definition cache_at :: "timeline \<Rightarrow> 'w container \<Rightarrow> ('w, 's) reg_scheme \<Rightarrow> HT_FeatureCachedString \<Rightarrow> bool" where
  "cache_at line k s f \<longleftrightarrow> timeline_inv line k s \<and> tl_serialize_events line \<and> cached_index s < length (tl_features line) \<and>
     tl_features line ! cached_index s = Some (CachedString f) \<and>
     cache_ok (tl_buffer_capacity line) (line_blocks line k) f (rt_mem s) \<and>
     (case fs_lock f of None \<Rightarrow> True | Some a \<Rightarrow> rt_locks s a = Some False \<and> tl_locking_policy line \<noteq> Some a)"

lemma cached_string_of_ok: "cache_at line k s f \<Longrightarrow> cached_string_of line s = Some f"
  by (simp add: cache_at_def cached_string_of_def ht_timeline_get_feature_def cached_index_def)

lemma cache_ok_live:
  assumes "cache_ok cap others f m" and "live m' = live m"
  shows "cache_ok cap others f m'"
proof -
  have "label_ok which m' l = label_ok which m l" for which l using assms(2) by (cases which; cases l) simp_all
  moreover have "hash_map_inv h m' = hash_map_inv h m" for h :: "cached_label hash_map"
    using labels.invar_frame [of h m m'] labels.invar_frame [of h m' m] assms(2) by auto
  ultimately show ?thesis using assms(1) unfolding cache_ok_def by simp
qed

lemma label_blocks_live:
  assumes "cache_ok cap others f m"
  shows "label_blocks f \<subseteq> dom (live m)"
proof
  fix a assume "a \<in> label_blocks f"
  then obtain key t where l: "hash_map_of (table Dynamic_Hashes f) key = Some (Dynamic_Label a t)" by (auto simp: label_blocks_def)
  have "\<forall>which key l. hash_map_of (table which f) key = Some l \<longrightarrow> label_ok which m l" using assms unfolding cache_ok_def by blast
  with l have "label_ok Dynamic_Hashes m (Dynamic_Label a t)" by blast
  then show "a \<in> dom (live m)" by auto
qed

section \<open>Entering a label\<close>

lemma footprint_apart:
  assumes "footprint A m A' m'" and "R \<subseteq> dom (live m)" and "R \<inter> A = {}"
  shows "\<forall>q\<in>R. live m' q = live m q" and "R \<inter> A' = {}"
  using footprint_frame [OF assms(1)] assms(2,3) by blast+

lemma cache_okD:
  assumes "cache_ok cap others f m"
  shows "hash_map_inv (fs_static_hashes f) m" and "hash_map_inv (fs_dynamic_hashes f) m"
    and "hash_map_of (table which f) key = Some l \<Longrightarrow> label_ok which m l \<and> label_fits cap (label_text l)"
    and "hash_map_of (fs_dynamic_hashes f) key = Some (Dynamic_Label a t) \<Longrightarrow>
      hash_map_of (fs_dynamic_hashes f) key' = Some (Dynamic_Label a t') \<Longrightarrow> key = key'"
    and "hash_map_blocks (fs_static_hashes f) \<inter> hash_map_blocks (fs_dynamic_hashes f) = {}"
    and "label_blocks f \<inter> (hash_map_blocks (fs_static_hashes f) \<union> hash_map_blocks (fs_dynamic_hashes f)) = {}"
    and "others \<inter> (hash_map_blocks (fs_static_hashes f) \<union> hash_map_blocks (fs_dynamic_hashes f) \<union> label_blocks f) = {}"
  using assms unfolding cache_ok_def by blast+

lemma label_ok_frame:
  assumes "label_ok which m l" and "\<And>a t. l = Dynamic_Label a t \<Longrightarrow> live m' a = live m a"
  shows "label_ok which m' l"
  using assms by (cases which; cases l) auto

text \<open>The other labels when the memory of one table changes.\<close>

lemma labels_stay:
  assumes ok: "cache_ok cap others f m" and same: "\<forall>q\<in>label_blocks f. live m' q = live m q"
    and l: "hash_map_of (table which f) key = Some l"
  shows "label_ok which m' l \<and> label_fits cap (label_text l)"
proof -
  have "label_ok which m l" "label_fits cap (label_text l)" using cache_okD(3) [OF ok l] by simp_all
  moreover have "live m' a = live m a" if "l = Dynamic_Label a t" for a t
  proof -
    have "which = Dynamic_Hashes" using \<open>label_ok which m l\<close> that by (cases which) simp_all
    with l that same show ?thesis by (auto simp: label_blocks_def)
  qed
  ultimately show ?thesis using label_ok_frame by blast
qed

lemma insert_static:
  assumes ok: "cache_ok cap others f m" and wf: "alloc_wf m" and live: "others \<subseteq> dom (live m)" and fits: "label_fits cap t"
  obtains ret err h m' where "ht_hash_map_insert (fs_static_hashes f) key (Static_Label p t) m = Some (ret, err, h, m')"
    and "alloc_wf m'" and "\<forall>q\<in>others. live m' q = live m q" and "cache_ok cap others (f\<lparr>fs_static_hashes := h\<rparr>) m'"
    and "if err = HT_ERR_OK then ret = hash_map_of (fs_static_hashes f) key \<and> texts h = (texts (fs_static_hashes f))(key \<mapsto> t)
         else texts h = texts (fs_static_hashes f)"
proof -
  note d = cache_okD [OF ok]
  from labels.insert_law [OF d(1) wf, of key "Static_Label p t"] obtain ret err h m' where
    run: "ht_hash_map_insert (fs_static_hashes f) key (Static_Label p t) m = Some (ret, err, h, m')"
    and post: "alloc_wf m'" "hash_map_inv h m'" "footprint (hash_map_blocks (fs_static_hashes f)) m (hash_map_blocks h) m'"
    and upd: "if err = HT_ERR_OK then ret = hash_map_of (fs_static_hashes f) key \<and>
        hash_map_of h = (hash_map_of (fs_static_hashes f))(key \<mapsto> Static_Label p t)
      else err = HT_ERR_OUT_OF_MEMORY \<and> ret = None \<and> hash_map_of h = hash_map_of (fs_static_hashes f)" by blast
  let ?R = "hash_map_blocks (fs_dynamic_hashes f) \<union> label_blocks f \<union> others" and ?f = "f\<lparr>fs_static_hashes := h\<rparr>"
  have "?R \<subseteq> dom (live m)" using labels.blocks_live [OF d(2)] label_blocks_live [OF ok] live by simp
  moreover have "?R \<inter> hash_map_blocks (fs_static_hashes f) = {}" using d(5-7) by blast
  ultimately have frame: "\<forall>q\<in>?R. live m' q = live m q" "?R \<inter> hash_map_blocks h = {}" using footprint_apart [OF post(3)] by blast+
  have dyn: "hash_map_inv (fs_dynamic_hashes f) m'" by (rule labels.invar_frame [OF d(2)]) (use frame(1) in blast)
  have stay: "hash_map_of (table w f) x = Some l \<Longrightarrow> label_ok w m' l \<and> label_fits cap (label_text l)" for w x l
    using labels_stay [OF ok, of m'] frame(1) by blast
  have lab: "label_ok w m' l \<and> label_fits cap (label_text l)" if "hash_map_of (table w ?f) x = Some l" for w x l
  proof (cases w)
    case Static_Hashes
    with that upd have "l = Static_Label p t \<or> hash_map_of (table w f) x = Some l" by (auto split: if_splits)
    with Static_Hashes stay [of w x l] fits show ?thesis by auto
  next
    case Dynamic_Hashes
    with that stay [of w x l] show ?thesis by simp
  qed
  have "label_blocks ?f = label_blocks f" by (simp add: label_blocks_def)
  then have "cache_ok cap others ?f m'"
    unfolding cache_ok_def using post(2) dyn lab d(4-7) frame(2) by simp blast
  moreover have "if err = HT_ERR_OK then ret = hash_map_of (fs_static_hashes f) key \<and> texts h = (texts (fs_static_hashes f))(key \<mapsto> t)
         else texts h = texts (fs_static_hashes f)" using upd by (auto simp: texts_def split: if_splits)
  ultimately show thesis using that run post(1) frame(1) by blast
qed

lemma insert_dynamic:
  assumes ok: "cache_ok cap others f m" and wf: "alloc_wf m" and live: "others \<subseteq> dom (live m)" and fits: "label_fits cap t"
    and new: "hash_map_of (fs_dynamic_hashes f) key = None" and a: "live m a = Some (strlen t + 1)"
      "a \<notin> others \<union> hash_map_blocks (fs_static_hashes f) \<union> hash_map_blocks (fs_dynamic_hashes f) \<union> label_blocks f"
  obtains err h m' where "ht_hash_map_insert (fs_dynamic_hashes f) key (Dynamic_Label a t) m = Some (None, err, h, m')"
    and "alloc_wf m'" and "\<forall>q\<in>others \<union> {a}. live m' q = live m q" and "cache_ok cap others (f\<lparr>fs_dynamic_hashes := h\<rparr>) m'"
    and "texts h = (if err = HT_ERR_OK then (texts (fs_dynamic_hashes f))(key \<mapsto> t) else texts (fs_dynamic_hashes f))"
proof -
  note d = cache_okD [OF ok]
  from labels.insert_law [OF d(2) wf, of key "Dynamic_Label a t"] obtain ret err h m' where
    run: "ht_hash_map_insert (fs_dynamic_hashes f) key (Dynamic_Label a t) m = Some (ret, err, h, m')"
    and post: "alloc_wf m'" "hash_map_inv h m'" "footprint (hash_map_blocks (fs_dynamic_hashes f)) m (hash_map_blocks h) m'"
    and upd: "if err = HT_ERR_OK then ret = hash_map_of (fs_dynamic_hashes f) key \<and>
        hash_map_of h = (hash_map_of (fs_dynamic_hashes f))(key \<mapsto> Dynamic_Label a t)
      else err = HT_ERR_OUT_OF_MEMORY \<and> ret = None \<and> hash_map_of h = hash_map_of (fs_dynamic_hashes f)" by blast
  let ?R = "hash_map_blocks (fs_static_hashes f) \<union> label_blocks f \<union> others \<union> {a}" and ?f = "f\<lparr>fs_dynamic_hashes := h\<rparr>"
  have "?R \<subseteq> dom (live m)" using labels.blocks_live [OF d(1)] label_blocks_live [OF ok] live a(1) by auto
  moreover have "?R \<inter> hash_map_blocks (fs_dynamic_hashes f) = {}" using d(5-7) a(2) by blast
  ultimately have frame: "\<forall>q\<in>?R. live m' q = live m q" "?R \<inter> hash_map_blocks h = {}" using footprint_apart [OF post(3)] by blast+
  have stat: "hash_map_inv (fs_static_hashes f) m'" by (rule labels.invar_frame [OF d(1)]) (use frame(1) in blast)
  have stay: "hash_map_of (table w f) x = Some l \<Longrightarrow> label_ok w m' l \<and> label_fits cap (label_text l)" for w x l
    using labels_stay [OF ok, of m'] frame(1) by blast
  have entry: "(l = Dynamic_Label a t \<and> x = key) \<or> hash_map_of (fs_dynamic_hashes f) x = Some l" if "hash_map_of h x = Some l" for x l
    using that upd by (auto split: if_splits)
  have lab: "label_ok w m' l \<and> label_fits cap (label_text l)" if "hash_map_of (table w ?f) x = Some l" for w x l
  proof (cases w)
    case Static_Hashes
    with that stay [of w x l] show ?thesis by simp
  next
    case Dynamic_Hashes
    with that entry have "l = Dynamic_Label a t \<or> hash_map_of (table w f) x = Some l" by auto
    with Dynamic_Hashes stay [of w x l] fits a(1) frame(1) show ?thesis by auto
  qed
  have old: "b \<in> label_blocks f" if "hash_map_of (fs_dynamic_hashes f) x = Some (Dynamic_Label b u)" for x b u
    using that unfolding label_blocks_def by blast
  have blocks: "label_blocks ?f \<subseteq> label_blocks f \<union> {a}" using entry old by (fastforce simp: label_blocks_def)
  have inj: "x = x'" if "hash_map_of h x = Some (Dynamic_Label b u)" "hash_map_of h x' = Some (Dynamic_Label b u')" for x x' b u u'
    using entry [OF that(1)] entry [OF that(2)] d(4) old a(2) by blast
  have "cache_ok cap others ?f m'"
    unfolding cache_ok_def using post(2) stat lab inj d(5-7) frame(2) blocks a(2) by simp blast
  moreover have "ret = None" using upd new by (auto split: if_splits)
  moreover have "texts h = (if err = HT_ERR_OK then (texts (fs_dynamic_hashes f))(key \<mapsto> t) else texts (fs_dynamic_hashes f))"
    using upd by (auto simp: texts_def split: if_splits)
  ultimately show thesis using that run post(1) frame(1) by blast
qed

section \<open>The operations\<close>

definition fcs_locks :: "HT_FeatureCachedString \<Rightarrow> (addr \<rightharpoonup> bool) \<Rightarrow> addr \<rightharpoonup> bool" where
  "fcs_locks f L = (case fs_lock f of None \<Rightarrow> L | Some a \<Rightarrow> L(a \<mapsto> True))"

lemma fcs_lock_ok:
  assumes "cache_at line k s f"
  shows "fcs_lock f s = Some (s\<lparr>rt_locks := fcs_locks f (rt_locks s)\<rparr>)"
    and "rt_locks s' = fcs_locks f (rt_locks s) \<Longrightarrow> fs_lock f' = fs_lock f \<Longrightarrow> fcs_unlock f' s' = Some (s'\<lparr>rt_locks := rt_locks s\<rparr>)"
    and "timeline_inv line k (s\<lparr>rt_locks := fcs_locks f (rt_locks s)\<rparr>)"
  using assms
  by (auto simp: cache_at_def fcs_lock_def fcs_unlock_def fcs_locks_def ht_mutex_lock_def ht_mutex_unlock_def fun_upd_idem
      timeline_inv_def timeline_core_locks split: option.splits)

lemma told_locks:
  "told e Q k (line, s\<lparr>rt_locks := L\<rparr>) xs st = told e Q k (line, s) xs st"
  "told e Q k st xs (line, s\<lparr>rt_locks := L\<rparr>) = told e Q k st xs (line, s)"
  by (simp_all add: told_def traced_def split: prod.splits)

lemma fs_lock_set_table [simp]: "fs_lock (set_table which h f) = fs_lock f"
  by (cases which) simp_all

lemma cache_at_put:
  assumes at: "cache_at line k s f" and m: "alloc_wf m" "\<forall>q\<in>line_blocks line k. live m q = live (rt_mem s) q"
    and ok: "cache_ok (tl_buffer_capacity line) (line_blocks line k) f' m" and lock: "fs_lock f' = fs_lock f"
  shows "cache_at (line\<lparr>tl_features := (tl_features line)[cached_index s := Some (CachedString f')]\<rparr>) k (s\<lparr>rt_mem := m\<rparr>) f'"
proof -
  have "timeline_inv line k (s\<lparr>rt_mem := m\<rparr>)"
    by (rule timeline_inv_frame) (use at m in \<open>auto simp: cache_at_def\<close>)
  moreover have "cached_index (s\<lparr>rt_mem := m\<rparr>) = cached_index s" by (simp add: cached_index_def)
  ultimately show ?thesis using at ok lock unfolding cache_at_def
    by (cases "fs_lock f") (simp_all add: timeline_inv_features)
qed

lemma cache_at_announces:
  assumes at: "cache_at line k s f" and ann: "announces e Q k (line, s) xs (line', s')"
  shows "cache_at line' k s' f"
proof -
  note d = announcesD [OF ann]
  note t = toldD [OF d(8)]
  have "cache_ok (tl_buffer_capacity line) (line_blocks line k) f (rt_mem s')"
    by (rule cache_ok_live) (use at d(3) in \<open>simp_all add: cache_at_def\<close>)
  moreover have "cached_index s' = cached_index s" using d(4) by (simp add: cached_index_def)
  ultimately show ?thesis using at d(1,2,5-7) t(1,2) unfolding cache_at_def by (cases "fs_lock f") simp_all
qed

lemma add_mapping_to_ok:
  fixes s :: "('w, 's) reg_scheme"
  assumes at: "cache_at line k s f" and ret: "listeners_return Q True k" "Q (world s)"
    and ins: "ht_hash_map_insert (table which f) key l (rt_mem s) = Some (old, err, h, m)"
    and m: "alloc_wf m" "\<forall>q\<in>line_blocks line k. live m q = live (rt_mem s) q"
    and ok: "cache_ok (tl_buffer_capacity line) (line_blocks line k) (set_table which h f) m"
    and label: "read_label l m = Some t" "label_fits (tl_buffer_capacity line) t"
  shows "\<exists>line' s'. ht_feature_cached_string_add_mapping_to e repr which line key l s =
      Some (if err = HT_ERR_OK then key else 0, line', s') \<and> cache_at line' k s' (set_table which h f) \<and>
    told e Q k (line, s) (if err = HT_ERR_OK \<and> old = None then [(key, t)] else []) (line', s')"
proof -
  let ?f = "set_table which h f"
  let ?line = "line\<lparr>tl_features := (tl_features line)[cached_index s := Some (CachedString ?f)]\<rparr>"
  let ?s = "s\<lparr>rt_mem := m\<rparr>"
  note lock = fcs_lock_ok [OF at]
  have put: "put_feature ''HT_FeatureCachedString'' (CachedString ?f) (s\<lparr>rt_locks := L\<rparr>) line = ?line" for L
    by (simp add: put_feature_def cached_index_def)
  have same: "s\<lparr>rt_locks := L, rt_mem := m, rt_locks := rt_locks s\<rparr> = ?s" for L by simp
  have unlock: "fcs_unlock ?f (s\<lparr>rt_locks := fcs_locks f (rt_locks s), rt_mem := m\<rparr>) = Some ?s"
    using lock(2) [of "s\<lparr>rt_locks := fcs_locks f (rt_locks s), rt_mem := m\<rparr>" ?f] same by simp
  have head: "ht_feature_cached_string_add_mapping_to e repr which line key l s =
      (if err \<noteq> HT_ERR_OK then Some (0, ?line, ?s)
       else do { (line, s) \<leftarrow> (if old = None then push_mapping e repr ?line key l ?s else Some (?line, ?s)); Some (key, line, s) })"
    using cached_string_of_ok [OF at] lock(1) ins unlock
    by (simp add: ht_feature_cached_string_add_mapping_to_def put Let_def)
  have at1: "cache_at ?line k ?s ?f" using cache_at_put [OF at m ok] by simp
  have told1: "told e Q k (line, s) xs st" if "told e Q k (?line, ?s) xs st" for xs st
    using that by (simp add: told_def traced_def pending_def split: prod.splits)
  have inv1: "timeline_inv ?line k ?s" "tl_serialize_events ?line" using at1 by (simp_all add: cache_at_def)
  show ?thesis
  proof (cases "err = HT_ERR_OK \<and> old = None")
    case True
    from push_mapping_ok [OF inv1 ret(1), of l t e repr key] ret(2) label obtain line' s' where
      push: "push_mapping e repr ?line key l ?s = Some (line', s')" "announces e Q k (?line, ?s) [(key, t)] (line', s')" by auto
    with head True cache_at_announces [OF at1 push(2)] told1 [OF announcesD(8) [OF push(2)]] show ?thesis by simp
  next
    case False
    have "told e Q k (line, s) [] (?line, ?s)" by (rule told1, rule told_refl) (use inv1 ret(2) in simp_all)
    with head False at1 show ?thesis by auto
  qed
qed

lemma add_mapping_ok:
  fixes s :: "('w, 's) reg_scheme"
  assumes at: "cache_at line k s f" and ret: "listeners_return Q True k" "Q (world s)" and fits: "label_fits (tl_buffer_capacity line) t"
  shows "\<exists>r line' s' f' xs. ht_feature_cached_string_add_mapping e repr line p t s = Some (r, line', s') \<and> cache_at line' k s' f' \<and>
    told e Q k (line, s) xs (line', s') \<and> texts (fs_dynamic_hashes f') = texts (fs_dynamic_hashes f) \<and>
    (r = 0 \<and> xs = [] \<and> texts (fs_static_hashes f') = texts (fs_static_hashes f) \<or>
     r = p \<and> xs = (if texts (fs_static_hashes f) p = None then [(p, t)] else []) \<and>
       texts (fs_static_hashes f') = (texts (fs_static_hashes f))(p \<mapsto> t))"
proof -
  have ok: "cache_ok (tl_buffer_capacity line) (line_blocks line k) f (rt_mem s)" and wf: "alloc_wf (rt_mem s)"
    and live: "line_blocks line k \<subseteq> dom (live (rt_mem s))"
    using at line_blocks_live [of line k s] by (simp_all add: cache_at_def timeline_inv_def timeline_core_def)
  obtain old err h m where
    ins: "ht_hash_map_insert (fs_static_hashes f) p (Static_Label p t) (rt_mem s) = Some (old, err, h, m)"
    and m: "alloc_wf m" "\<forall>q\<in>line_blocks line k. live m q = live (rt_mem s) q"
    and ok': "cache_ok (tl_buffer_capacity line) (line_blocks line k) (f\<lparr>fs_static_hashes := h\<rparr>) m"
    and upd: "if err = HT_ERR_OK then old = hash_map_of (fs_static_hashes f) p \<and> texts h = (texts (fs_static_hashes f))(p \<mapsto> t)
         else texts h = texts (fs_static_hashes f)"
    by (rule insert_static [OF ok wf live fits])
  from add_mapping_to_ok [OF at ret, of Static_Hashes p "Static_Label p t" old err h m t e repr] ins m ok' fits obtain line' s' where
    "ht_feature_cached_string_add_mapping_to e repr Static_Hashes line p (Static_Label p t) s =
       Some (if err = HT_ERR_OK then p else 0, line', s')" "cache_at line' k s' (f\<lparr>fs_static_hashes := h\<rparr>)"
    "told e Q k (line, s) (if err = HT_ERR_OK \<and> old = None then [(p, t)] else []) (line', s')" by auto
  then show ?thesis using upd cached_string_of_ok [OF at] texts_None [of "fs_static_hashes f" p]
    by (intro exI [of _ "if err = HT_ERR_OK then p else 0"] exI [of _ line'] exI [of _ s'] exI [of _ "f\<lparr>fs_static_hashes := h\<rparr>"]
        exI [of _ "if err = HT_ERR_OK \<and> old = None then [(p, t)] else []"])
      (simp add: ht_feature_cached_string_add_mapping_def split: if_splits)
qed

lemma cache_at_mem:
  assumes "cache_at line k s f" and "alloc_wf m" and "\<forall>q\<in>dom (live (rt_mem s)). live m q = live (rt_mem s) q"
    and "cache_ok (tl_buffer_capacity line) (line_blocks line k) f m"
  shows "cache_at line k (s\<lparr>rt_mem := m\<rparr>) f"
proof -
  have idx: "tl_features line ! cached_index s = Some (CachedString f)" "line_blocks line k \<subseteq> dom (live (rt_mem s))"
    using assms(1) line_blocks_live [of line k s] by (simp_all add: cache_at_def)
  have "(tl_features line)[cached_index s := Some (CachedString f)] = tl_features line" using idx(1) by (metis list_update_id)
  moreover have "\<forall>q\<in>line_blocks line k. live m q = live (rt_mem s) q" using assms(3) idx(2) by blast
  ultimately show ?thesis using cache_at_put [OF assms(1,2) _ assms(4)] by simp
qed

text \<open>A new block for a label leaves the cache as it is.\<close>

lemma cache_ok_alloc:
  assumes ok: "cache_ok cap others f m" and a: "live m a = None" "live m' = (live m)(a \<mapsto> n)"
  shows "cache_ok cap others f m'" and "a \<notin> hash_map_blocks (fs_static_hashes f) \<union> hash_map_blocks (fs_dynamic_hashes f) \<union> label_blocks f"
proof -
  note d = cache_okD [OF ok]
  show apart: "a \<notin> hash_map_blocks (fs_static_hashes f) \<union> hash_map_blocks (fs_dynamic_hashes f) \<union> label_blocks f"
    using labels.blocks_live [OF d(1)] labels.blocks_live [OF d(2)] label_blocks_live [OF ok] a(1) by auto
  have "hash_map_inv (fs_static_hashes f) m'" by (rule labels.invar_frame [OF d(1)]) (use apart a in auto)
  moreover have "hash_map_inv (fs_dynamic_hashes f) m'" by (rule labels.invar_frame [OF d(2)]) (use apart a in auto)
  moreover have "hash_map_of (table w f) x = Some l \<Longrightarrow> label_ok w m' l \<and> label_fits cap (label_text l)" for w x l
    by (rule labels_stay [OF ok]) (use apart a in auto)
  ultimately show "cache_ok cap others f m'" unfolding cache_ok_def using d(4-7) by blast
qed

lemma add_mapping_dynamic_ok:
  fixes s :: "('w, 's) reg_scheme"
  assumes at: "cache_at line k s f" and ret: "listeners_return Q True k" "Q (world s)" and fits: "label_fits (tl_buffer_capacity line) t"
    and room: "hash_map_of (fs_dynamic_hashes f) (label_hash t) = None \<Longrightarrow> \<exists>a m. ht_alloc (strlen t + 1) (rt_mem s) = Some (Some a, m)"
  shows "\<exists>line' s' f' xs. ht_feature_cached_string_add_mapping_dynamic e repr line t s = Some (label_hash t, line', s') \<and>
    cache_at line' k s' f' \<and> told e Q k (line, s) xs (line', s') \<and> texts (fs_static_hashes f') = texts (fs_static_hashes f) \<and>
    (xs = [] \<and> texts (fs_dynamic_hashes f') = texts (fs_dynamic_hashes f) \<or>
     texts (fs_dynamic_hashes f) (label_hash t) = None \<and> xs = [(label_hash t, t)] \<and>
       texts (fs_dynamic_hashes f') = (texts (fs_dynamic_hashes f))(label_hash t \<mapsto> t))"
proof -
  let ?key = "label_hash t" and ?cap = "tl_buffer_capacity line"
  let ?s = "s\<lparr>rt_locks := fcs_locks f (rt_locks s)\<rparr>"
  have ok: "cache_ok ?cap (line_blocks line k) f (rt_mem s)" and inv: "timeline_inv line k s" and ser: "tl_serialize_events line"
    and wf: "alloc_wf (rt_mem s)" using at by (simp_all add: cache_at_def timeline_inv_def timeline_core_def)
  note d = cache_okD [OF ok] and lock = fcs_lock_ok [OF at]
  have "?s\<lparr>rt_locks := rt_locks s\<rparr> = s" by simp
  then have unlock: "fcs_unlock f ?s = Some s" using lock(2) [of ?s f] by simp
  have get: "ht_hash_map_get_value (fs_dynamic_hashes f) ?key (rt_mem s) = Some (hash_map_of (fs_dynamic_hashes f) ?key)"
    by (rule labels.get_law [OF d(2)])
  note start = cached_string_of_ok [OF at] lock(1) unlock get
  show ?thesis
  proof (cases "hash_map_of (fs_dynamic_hashes f) ?key")
    case (Some l)
    then have "ht_feature_cached_string_add_mapping_dynamic e repr line t s = Some (?key, line, s)"
      using start by (simp add: ht_feature_cached_string_add_mapping_dynamic_def)
    with at told_refl [of line Q s e k] ser ret(2) show ?thesis by blast
  next
    case None
    then obtain a m where al: "ht_alloc (strlen t + 1) (rt_mem s) = Some (Some a, m)" using room by blast
    then have post: "alloc_wf m" "live (rt_mem s) a = None" "live m = (live (rt_mem s))(a \<mapsto> strlen t + 1)"
      using ht.alloc_law [OF wf, of "strlen t + 1"] by (auto simp: alloc_post_def)
    note ok1 = cache_ok_alloc [OF ok post(2,3)]
    have "\<forall>q\<in>dom (live (rt_mem s)). live m q = live (rt_mem s) q" using post(2,3) by auto
    then have at1: "cache_at line k (s\<lparr>rt_mem := m\<rparr>) f" by (rule cache_at_mem [OF at post(1) _ ok1(1)])
    have sub: "line_blocks line k \<subseteq> dom (live (rt_mem s))" by (rule line_blocks_live [OF inv])
    then have a: "a \<notin> line_blocks line k" "line_blocks line k \<subseteq> dom (live m)" using post(2,3) by auto
    obtain err h m' where
      ins: "ht_hash_map_insert (fs_dynamic_hashes f) ?key (Dynamic_Label a t) m = Some (None, err, h, m')" and wf': "alloc_wf m'"
      and same: "\<forall>q\<in>line_blocks line k \<union> {a}. live m' q = live m q"
      and ok': "cache_ok ?cap (line_blocks line k) (f\<lparr>fs_dynamic_hashes := h\<rparr>) m'"
      and upd: "texts h = (if err = HT_ERR_OK then (texts (fs_dynamic_hashes f))(?key \<mapsto> t) else texts (fs_dynamic_hashes f))"
      by (rule insert_dynamic [OF ok1(1) post(1) a(2) fits None, of a]) (use a(1) ok1(2) post(3) in auto)
    have read: "read_label (Dynamic_Label a t) m' = Some t" using same post(3) by simp
    from add_mapping_to_ok [OF at1 ret(1), of Dynamic_Hashes ?key "Dynamic_Label a t" None err h m' t e repr] ret(2) ins wf' same ok' read fits
    obtain line' s' where
      run: "ht_feature_cached_string_add_mapping_to e repr Dynamic_Hashes line ?key (Dynamic_Label a t) (s\<lparr>rt_mem := m\<rparr>) =
         Some (if err = HT_ERR_OK then ?key else 0, line', s')" "cache_at line' k s' (f\<lparr>fs_dynamic_hashes := h\<rparr>)"
      "told e Q k (line, s\<lparr>rt_mem := m\<rparr>) (if err = HT_ERR_OK then [(?key, t)] else []) (line', s')" by auto
    have told': "told e Q k (line, s) (if err = HT_ERR_OK then [(?key, t)] else []) (line', s')"
      using run(3) by (simp add: told_def traced_def)
    have "take (strlen t) t = t" using strlen_fits [OF fits] by simp
    then have "ht_feature_cached_string_add_mapping_dynamic e repr line t s = Some (?key, line', s')"
      using start None al run(1) by (simp add: ht_feature_cached_string_add_mapping_dynamic_def Let_def)
    with run(2) told' upd None texts_None [of "fs_dynamic_hashes f" ?key] show ?thesis
      by (intro exI [of _ line'] exI [of _ s'] exI [of _ "f\<lparr>fs_dynamic_hashes := h\<rparr>"]
        exI [of _ "if err = HT_ERR_OK then [(?key, t)] else []"]) (simp split: if_splits)
  qed
qed

lemma readable_table:
  assumes "cache_ok cap others f m"
  shows "readable cap m (hash_map_entries (table which f))"
proof -
  have inv: "hash_map_inv (table which f) m" using cache_okD(1,2) [OF assms] by (cases which) simp_all
  have "read_label l m = Some (label_text l) \<and> label_fits cap (label_text l)" if "(key, l) \<in> set (hash_map_entries (table which f))" for key l
  proof -
    from that have "hash_map_of (table which f) key = Some l"
      using hash_map_entries_ok [OF inv] by (metis map_of_is_SomeI)
    then have "label_ok which m l" "label_fits cap (label_text l)" using cache_okD(3) [OF assms] by blast+
    then show ?thesis by (cases which; cases l) simp_all
  qed
  then show ?thesis by (auto simp: readable_def)
qed

lemma map_of_texts: "map_of (map (apsnd label_text) xs) = (\<lambda>key. map_option label_text (map_of xs key))"
  by (induction xs) auto

lemma table_announced:
  assumes "hash_map_inv h m"
  shows "distinct (map fst (map (apsnd label_text) (hash_map_entries h)))"
    and "map_of (map (apsnd label_text) (hash_map_entries h)) = texts h"
  using hash_map_entries_ok [OF assms] by (simp_all add: map_of_texts texts_def fun_eq_iff)

lemma push_map_ok:
  fixes s :: "('w, 's) reg_scheme"
  assumes at: "cache_at line k s f" and ret: "listeners_return Q True k" "Q (world s)"
  shows "\<exists>line' s' xs ys. ht_feature_cached_string_push_map e repr line s = Some (line', s') \<and> cache_at line' k s' f \<and>
    told e Q k (line, s) (xs @ ys) (line', s') \<and> distinct (map fst xs) \<and> distinct (map fst ys) \<and>
    map_of xs = texts (fs_static_hashes f) \<and> map_of ys = texts (fs_dynamic_hashes f)"
proof -
  let ?s = "s\<lparr>rt_locks := fcs_locks f (rt_locks s)\<rparr>" and ?cap = "tl_buffer_capacity line"
  have ok: "cache_ok ?cap (line_blocks line k) f (rt_mem s)" and ser: "tl_serialize_events line" using at by (simp_all add: cache_at_def)
  note lock = fcs_lock_ok [OF at] and d = cache_okD [OF ok]
  let ?xs = "map (apsnd label_text) (hash_map_entries (fs_static_hashes f))"
  let ?ys = "map (apsnd label_text) (hash_map_entries (fs_dynamic_hashes f))"
  from push_table_ok [OF lock(3) ser ret(1), of "fs_static_hashes f" e repr] d(1) readable_table [OF ok, of Static_Hashes] ret(2)
  obtain line1 s1 where one: "ht_hash_map_for_each (fs_static_hashes f) (ht_feature_cached_string_push_event e repr) (line, ?s) (rt_mem s) =
      Some ((line1, s1), rt_mem s1)" "announces e Q k (line, ?s) ?xs (line1, s1)" by auto
  note a1 = announcesD [OF one(2)]
  note t1 = toldD [OF a1(8)]
  have ok1: "cache_ok ?cap (line_blocks line k) f (rt_mem s1)" by (rule cache_ok_live [OF ok]) (use a1(3) in simp)
  from push_table_ok [OF a1(1) t1(1) ret(1) t1(4), of "fs_dynamic_hashes f" e repr] cache_okD(2) [OF ok1] readable_table [OF ok1, of Dynamic_Hashes] t1(2)
  obtain line2 s2 where two: "ht_hash_map_for_each (fs_dynamic_hashes f) (ht_feature_cached_string_push_event e repr) (line1, s1) (rt_mem s1) =
      Some ((line2, s2), rt_mem s2)" "announces e Q k (line1, s1) ?ys (line2, s2)" by auto
  have ann: "announces e Q k (line, ?s) (?xs @ ?ys) (line2, s2)" by (rule announces_trans [OF one(2) two(2)])
  note a2 = announcesD [OF ann]
  have unlock: "fcs_unlock f (s2\<lparr>rt_mem := rt_mem s2\<rparr>) = Some (s2\<lparr>rt_locks := rt_locks s\<rparr>)"
    using lock(2) [of s2 f] a2(2) by simp
  have run: "ht_feature_cached_string_push_map e repr line s = Some (line2, s2\<lparr>rt_locks := rt_locks s\<rparr>)"
    using cached_string_of_ok [OF at] lock(1) one(1) two(1) unlock by (simp add: ht_feature_cached_string_push_map_def)
  have "timeline_inv line2 k (s2\<lparr>rt_locks := rt_locks s\<rparr>)"
    using a2(1,6) at by (simp add: timeline_inv_def timeline_core_locks cache_at_def split: option.splits)
  moreover have tl: "told e Q k (line, s) (?xs @ ?ys) (line2, s2\<lparr>rt_locks := rt_locks s\<rparr>)"
    using a2(8) by (simp only: told_locks)
  ultimately have "announces e Q k (line, s) (?xs @ ?ys) (line2, s2\<lparr>rt_locks := rt_locks s\<rparr>)"
    unfolding announces_def prod.case using a2(3-7) by simp
  from cache_at_announces [OF at this] run tl table_announced [OF d(1)] table_announced [OF d(2)]
  show ?thesis
    by (intro exI [of _ line2] exI [of _ "s2\<lparr>rt_locks := rt_locks s\<rparr>"] exI [of _ ?xs] exI [of _ ?ys]) blast
qed

section \<open>Properties\<close>

text \<open>What a program does with the cache, and what the cache promises, over the two maps from numbers to labels.\<close>

datatype cache_op = Map_Static u64 string | Map_Dynamic string | Push_Map

type_synonym label_maps = "(u64 \<rightharpoonup> string) \<times> (u64 \<rightharpoonup> string)"

fun cache_step ::
  "HT_Endianness \<Rightarrow> (ht_struct \<Rightarrow> byte list) \<Rightarrow> cache_op \<Rightarrow> timeline \<times> ('w, 's) reg_scheme \<Rightarrow>
   (u64 \<times> timeline \<times> ('w, 's) reg_scheme) option" where
  "cache_step e repr (Map_Static p t) (line, s) = ht_feature_cached_string_add_mapping e repr line p t s"
| "cache_step e repr (Map_Dynamic t) (line, s) = ht_feature_cached_string_add_mapping_dynamic e repr line t s"
| "cache_step e repr Push_Map (line, s) = do { st \<leftarrow> ht_feature_cached_string_push_map e repr line s; Some (0, st) }"

fun run_cache ::
  "HT_Endianness \<Rightarrow> (ht_struct \<Rightarrow> byte list) \<Rightarrow> cache_op list \<Rightarrow> timeline \<times> ('w, 's) reg_scheme \<Rightarrow>
   (u64 list \<times> timeline \<times> ('w, 's) reg_scheme) option" where
  "run_cache e repr [] st = Some ([], st)"
| "run_cache e repr (opn # ops) st =
     do { (r, st) \<leftarrow> cache_step e repr opn st; (rs, st) \<leftarrow> run_cache e repr ops st; Some (r # rs, st) }"

text \<open>
  The result \<open>r\<close> of an operation, the mappings \<open>xs\<close> that it announces and the maps after it. A label of the program is entered under its address and
  announced if the address is new; without memory the result is 0 and nothing happens. A dynamic label is looked up by its hash; one that is not found is
  entered and announced, or, without memory for the table, neither.
\<close>

fun cache_spec :: "cache_op \<Rightarrow> u64 \<Rightarrow> (u64 \<times> string) list \<Rightarrow> label_maps \<Rightarrow> label_maps \<Rightarrow> bool" where
  "cache_spec (Map_Static p t) r xs (S, D) (S', D') \<longleftrightarrow> D' = D \<and>
     (r = 0 \<and> xs = [] \<and> S' = S \<or> r = p \<and> xs = (if S p = None then [(p, t)] else []) \<and> S' = S(p \<mapsto> t))"
| "cache_spec (Map_Dynamic t) r xs (S, D) (S', D') \<longleftrightarrow> S' = S \<and> r = label_hash t \<and>
     (xs = [] \<and> D' = D \<or> D r = None \<and> xs = [(r, t)] \<and> D' = D(r \<mapsto> t))"
| "cache_spec Push_Map r xs (S, D) (S', D') \<longleftrightarrow> S' = S \<and> D' = D \<and> r = 0 \<and>
     (\<exists>ys zs. xs = ys @ zs \<and> distinct (map fst ys) \<and> map_of ys = S \<and> distinct (map fst zs) \<and> map_of zs = D)"

fun cache_specs :: "cache_op list \<Rightarrow> u64 list \<Rightarrow> (u64 \<times> string) list \<Rightarrow> label_maps \<Rightarrow> label_maps \<Rightarrow> bool" where
  "cache_specs [] rs xs M M' \<longleftrightarrow> rs = [] \<and> xs = [] \<and> M' = M"
| "cache_specs (opn # ops) rs xs M M' \<longleftrightarrow>
     (\<exists>r rs' ys zs M1. rs = r # rs' \<and> xs = ys @ zs \<and> cache_spec opn r ys M M1 \<and> cache_specs ops rs' zs M1 M')"

definition labels_of :: "HT_FeatureCachedString \<Rightarrow> label_maps" where
  "labels_of f = (texts (fs_static_hashes f), texts (fs_dynamic_hashes f))"

fun cache_op_ok :: "nat \<Rightarrow> cache_op \<Rightarrow> bool" where
  "cache_op_ok cap (Map_Static p t) = label_fits cap t"
| "cache_op_ok cap (Map_Dynamic t) = label_fits cap t"
| "cache_op_ok cap Push_Map = True"

text \<open>No request for the copy of a new dynamic label is refused.\<close>

fun copy_fits :: "cache_op \<Rightarrow> timeline \<times> ('w, 's) reg_scheme \<Rightarrow> bool" where
  "copy_fits (Map_Dynamic t) (line, s) =
     (case cached_string_of line s of
        None \<Rightarrow> True
      | Some f \<Rightarrow> ht_hash_map_get_value (fs_dynamic_hashes f) (label_hash t) (rt_mem s) = Some None \<longrightarrow>
          (case ht_alloc (strlen t + 1) (rt_mem s) of Some (Some a, m) \<Rightarrow> True | _ \<Rightarrow> False))"
| "copy_fits opn st = True"

fun copies_fit :: "HT_Endianness \<Rightarrow> (ht_struct \<Rightarrow> byte list) \<Rightarrow> cache_op list \<Rightarrow> timeline \<times> ('w, 's) reg_scheme \<Rightarrow> bool" where
  "copies_fit e repr [] st = True"
| "copies_fit e repr (opn # ops) st =
     (copy_fits opn st \<and> (case cache_step e repr opn st of None \<Rightarrow> True | Some (r, st) \<Rightarrow> copies_fit e repr ops st))"

lemma cache_step_ok:
  fixes s :: "('w, 's) reg_scheme"
  assumes at: "cache_at line k s f" and ret: "listeners_return Q True k" "Q (world s)"
    and op: "cache_op_ok (tl_buffer_capacity line) opn" "copy_fits opn (line, s)"
  shows "\<exists>r line' s' f' xs. cache_step e repr opn (line, s) = Some (r, line', s') \<and> cache_at line' k s' f' \<and>
    told e Q k (line, s) xs (line', s') \<and> cache_spec opn r xs (labels_of f) (labels_of f')"
proof (cases opn)
  case (Map_Static p t)
  with op add_mapping_ok [OF at ret, of t e repr p] show ?thesis by (simp add: labels_of_def)
next
  case (Map_Dynamic t)
  have "hash_map_inv (fs_dynamic_hashes f) (rt_mem s)" using at cache_okD(2) unfolding cache_at_def by blast
  with op Map_Dynamic have "\<exists>a m. ht_alloc (strlen t + 1) (rt_mem s) = Some (Some a, m)"
    if "hash_map_of (fs_dynamic_hashes f) (label_hash t) = None"
    using that cached_string_of_ok [OF at] labels.get_law [of "fs_dynamic_hashes f" "rt_mem s" "label_hash t"]
    by (auto split: option.splits)
  with op Map_Dynamic add_mapping_dynamic_ok [OF at ret, of t e repr] obtain line' s' f' xs where
    "ht_feature_cached_string_add_mapping_dynamic e repr line t s = Some (label_hash t, line', s')"
    "cache_at line' k s' f'" "told e Q k (line, s) xs (line', s')" "texts (fs_static_hashes f') = texts (fs_static_hashes f)"
    "xs = [] \<and> texts (fs_dynamic_hashes f') = texts (fs_dynamic_hashes f) \<or>
     texts (fs_dynamic_hashes f) (label_hash t) = None \<and> xs = [(label_hash t, t)] \<and>
       texts (fs_dynamic_hashes f') = (texts (fs_dynamic_hashes f))(label_hash t \<mapsto> t)" by auto
  with Map_Dynamic show ?thesis
    by (intro exI [of _ "label_hash t"] exI [of _ line'] exI [of _ s'] exI [of _ f'] exI [of _ xs]) (simp add: labels_of_def)
next
  case Push_Map
  from push_map_ok [OF at ret, of e repr] obtain line' s' xs ys where
    "ht_feature_cached_string_push_map e repr line s = Some (line', s')" "cache_at line' k s' f"
    "told e Q k (line, s) (xs @ ys) (line', s')" "distinct (map fst xs)" "distinct (map fst ys)"
    "map_of xs = texts (fs_static_hashes f)" "map_of ys = texts (fs_dynamic_hashes f)" by blast
  then show ?thesis using Push_Map
    by (intro exI [of _ 0] exI [of _ line'] exI [of _ s'] exI [of _ f] exI [of _ "xs @ ys"]) (simp add: labels_of_def, blast)
qed

text \<open>
  C36. The string cache implements two maps from numbers to labels. For every sequence of operations on a timeline with the cache, every operation
  returns, if no request for the copy of a new dynamic label is refused, which the code does not test, and if the mapping event of every label fits in
  the buffer of the timeline or in 128 bytes. A label of the program is announced to the listeners
  when its address is first entered and never again; its number is its address, or 0 when memory ran out, and then the maps are as before. A dynamic label is announced
  when its hash is first entered. Pushing the map announces every entry of both tables once. The announcements are mapping
  events, in this order, with consecutive identifiers.
\<close>

theorem cached_strings_implement_label_maps:
  fixes s :: "('w, 's) reg_scheme"
  assumes "cache_at line k s f" and "listeners_return Q True k" and "Q (world s)"
    and "\<forall>opn\<in>set ops. cache_op_ok (tl_buffer_capacity line) opn" and "copies_fit e repr ops (line, s)"
  shows "\<exists>rs line' s' f' xs. run_cache e repr ops (line, s) = Some (rs, line', s') \<and> cache_at line' k s' f' \<and>
    told e Q k (line, s) xs (line', s') \<and> cache_specs ops rs xs (labels_of f) (labels_of f')"
  using assms(1,3,4,5)
proof (induction ops arbitrary: line s f)
  case Nil
  then show ?case using told_refl [of line Q s e k] by (auto simp: cache_at_def)
next
  case (Cons opn ops)
  from cache_step_ok [OF Cons.prems(1) assms(2) Cons.prems(2), of opn e repr] Cons.prems(3,4) obtain r line1 s1 f1 ys where
    one: "cache_step e repr opn (line, s) = Some (r, line1, s1)" "cache_at line1 k s1 f1" "told e Q k (line, s) ys (line1, s1)"
      "cache_spec opn r ys (labels_of f) (labels_of f1)" by auto
  note t = toldD [OF one(3)]
  from Cons.prems(3,4) one(1) t(2) have "\<forall>opn\<in>set ops. cache_op_ok (tl_buffer_capacity line1) opn" "copies_fit e repr ops (line1, s1)" by auto
  from Cons.IH [OF one(2) t(4) this] obtain rs line2 s2 f2 zs where
    rest: "run_cache e repr ops (line1, s1) = Some (rs, line2, s2)" "cache_at line2 k s2 f2" "told e Q k (line1, s1) zs (line2, s2)"
      "cache_specs ops rs zs (labels_of f1) (labels_of f2)" by blast
  have "run_cache e repr (opn # ops) (line, s) = Some (r # rs, line2, s2)" using one(1) rest(1) by simp
  moreover have "cache_specs (opn # ops) (r # rs) (ys @ zs) (labels_of f) (labels_of f2)"
    unfolding cache_specs.simps using one(4) rest(4) by blast
  ultimately show ?case using rest(2) told_trans [OF one(3) rest(3)] by blast
qed

text \<open>A timeline with an empty cache that is not shared between threads.\<close>

definition demo_table :: "addr \<Rightarrow> 'v hash_map" where
  "demo_table a = map (\<lambda>i. \<lparr>key_bag = demo_bag (a + 2 * i), value_bag = demo_bag (a + 2 * i + 1)\<rparr>) [0..<BUCKET_COUNT]"

definition demo_cache :: HT_FeatureCachedString where
  "demo_cache = \<lparr>fs_addr = 9, fs_lock = None, fs_dynamic_hashes = demo_table 1124, fs_static_hashes = demo_table 100\<rparr>"

definition demo_cache_state :: "(byte list list, unit) reg_scheme" where
  "demo_cache_state = demo_state\<lparr>
     rt_mem := \<lparr>heap_of = \<lparr>blocks = (\<lambda>a. if 100 \<le> a \<and> a < 2148 then Some 32 else blocks (heap_of (rt_mem demo_state)) a),
                           next_addr = 2148, refusals = [False, False, True]\<rparr>, realloc_fnc = None, user_data = 0\<rparr>,
     feature_ids := (\<lambda>_. 1)\<rparr>"

definition demo_cache_line :: timeline where
  "demo_cache_line = (new_timeline 6 7 32 3 (Some 8) True)\<lparr>tl_features := [None, Some (CachedString demo_cache)]\<rparr>"

lemma demo_bag_live: "live m b = Some 32 \<Longrightarrow> bag_inv 8 (demo_bag b :: 'a bag) m"
proof -
  have "\<exists>k. Suc 0 = 2 ^ k" by (rule exI [of _ 0]) simp
  then show "live m b = Some 32 \<Longrightarrow> bag_inv 8 (demo_bag b :: 'a bag) m"
    by (simp add: bag_inv_def demo_bag_def sizeof_void_ptr_def PTRDIFF_MAX_def)
qed

lemma demo_table_inv:
  assumes "\<And>b. a \<le> b \<Longrightarrow> b < a + 1024 \<Longrightarrow> live m b = Some 32"
  shows "hash_map_inv (demo_table a :: 'v hash_map) m" and "hash_map_blocks (demo_table a :: 'v hash_map) = {a..<a + 1024}"
    and "hash_map_of (demo_table a :: 'v hash_map) = Map.empty"
proof -
  let ?h = "demo_table a :: 'v hash_map"
  have len: "length ?h = 512" by (simp add: demo_table_def BUCKET_COUNT_def)
  have nth: "?h ! i = \<lparr>key_bag = demo_bag (a + 2 * i), value_bag = demo_bag (a + 2 * i + 1)\<rparr>" if "i < 512" for i
    using that by (simp add: demo_table_def BUCKET_COUNT_def)
  have bucket: "bucket_inv (?h ! i) m" "bucket_keys (?h ! i) = []" if "i < 512" for i
    using demo_bag_live [OF assms [of "a + 2 * i"], where 'a = u64] demo_bag_live [OF assms [of "a + 2 * i + 1"], where 'a = 'v] that
    by (simp_all add: nth bucket_inv_def sizeof_uint64_def sizeof_void_ptr_def bucket_keys_def) (simp_all add: demo_bag_def bag_block_def bag_list_def)
  have blocks: "bucket_blocks (?h ! i) = {a + 2 * i, a + 2 * i + 1}" if "i < 512" for i
    using that by (auto simp: nth bucket_blocks_def demo_bag_def bag_block_def)
  have "{a + 2 * i, a + 2 * i + 1} \<inter> {a + 2 * j, a + 2 * j + 1} = {}" if "i \<noteq> j" for i j :: nat
    using that by auto
  then show "hash_map_inv ?h m" using bucket blocks len by (simp add: hash_map_inv_def BUCKET_COUNT_def)
  have "hash_map_blocks ?h = (\<Union>i<512. {a + 2 * i, a + 2 * i + 1})"
    using blocks len by (auto simp: hash_map_blocks_def set_conv_nth)
  also have "\<dots> = {a..<a + 1024}"
  proof (intro equalityI subsetI)
    fix x assume x: "x \<in> {a..<a + 1024}"
    then have "x = a + 2 * ((x - a) div 2) \<or> x = a + 2 * ((x - a) div 2) + 1" "(x - a) div 2 < 512" by auto
    then show "x \<in> (\<Union>i<512. {a + 2 * i, a + 2 * i + 1})" by blast
  qed auto
  finally show "hash_map_blocks ?h = {a..<a + 1024}" .
  have "bucket_of k < 512" for k using bucket_of_less [of k] by (simp add: BUCKET_COUNT_def)
  with bucket show "hash_map_of ?h = Map.empty" by (auto simp: hash_map_of_def bucket_entries_def)
qed

lemma demo_cache_at: "cache_at demo_cache_line demo_container demo_cache_state demo_cache"
proof -
  let ?m = "rt_mem demo_cache_state"
  have live: "live ?m b = Some 32" if "100 \<le> b" "b < 2148" for b using that by (simp add: demo_cache_state_def live_def)
  have inv: "timeline_inv demo_cache_line demo_container demo_cache_state"
    by (simp add: timeline_inv_def timeline_core_def demo_cache_line_def demo_cache_state_def demo_state_def new_timeline_def
        buffer_live_def live_def alloc_wf_def heap_ok_def listener_bag_inv_def demo_container_def filled_def bag_block_def)
  have blocks: "line_blocks demo_cache_line demo_container = {7, 4}"
    by (auto simp: line_blocks_def demo_cache_line_def new_timeline_def demo_container_def bag_block_def)
  note st = demo_table_inv [of 100 ?m, where 'v = cached_label] and dy = demo_table_inv [of 1124 ?m, where 'v = cached_label]
  have lab: "label_blocks demo_cache = {}" using dy(3) live by (simp add: label_blocks_def demo_cache_def)
  have tab: "hash_map_of (table w demo_cache) = Map.empty" for w using st(3) dy(3) live by (cases w) (simp_all add: demo_cache_def)
  have "cache_ok 32 {7, 4} demo_cache ?m"
    unfolding cache_ok_def lab tab using st dy live by (auto simp: demo_cache_def)
  then show ?thesis unfolding cache_at_def blocks using inv
    by (simp add: demo_cache_line_def new_timeline_def cached_index_def demo_cache_state_def) (simp add: demo_cache_def)
qed

theorem cached_strings_implement_label_maps_witness:
  "\<exists>rs line' s' f' xs. run_cache HT_ENDIANNESS_LITTLE (\<lambda>_. []) [Map_Dynamic ''frame'', Map_Static 4096 ''main'', Push_Map]
       (demo_cache_line, demo_cache_state) = Some (rs, line', s') \<and>
     told HT_ENDIANNESS_LITTLE (\<lambda>_. True) demo_container (demo_cache_line, demo_cache_state) xs (line', s') \<and>
     cache_specs [Map_Dynamic ''frame'', Map_Static 4096 ''main'', Push_Map] rs xs (labels_of demo_cache) (labels_of f')"
proof -
  let ?ops = "[Map_Dynamic ''frame'', Map_Static 4096 ''main'', Push_Map]"
  have "\<forall>opn\<in>set ?ops. cache_op_ok (tl_buffer_capacity demo_cache_line) opn"
    by (simp add: label_fits_def demo_cache_line_def new_timeline_def)
  moreover have "copies_fit HT_ENDIANNESS_LITTLE (\<lambda>_. []) ?ops (demo_cache_line, demo_cache_state)"
    by (simp add: demo_cache_state_def ht_alloc_def malloc_def libc_refuses_def PTRDIFF_MAX_def strlen_def split: option.split prod.split)
  ultimately show ?thesis using cached_strings_implement_label_maps [OF demo_cache_at demo_return, of ?ops HT_ENDIANNESS_LITTLE "\<lambda>_. []"]
    by blast
qed

section \<open>Creation and destruction\<close>

text \<open>The blocks of a feature object, and a feature that can be destroyed: all its blocks are live and apart, and nobody holds its lock.\<close>

definition cache_blocks :: "HT_FeatureCachedString \<Rightarrow> addr set" where
  "cache_blocks f = hash_map_blocks (fs_static_hashes f) \<union> hash_map_blocks (fs_dynamic_hashes f) \<union> label_blocks f \<union>
     ({fs_addr f} \<union> set_option (fs_lock f))"

definition cache_owned :: "nat \<Rightarrow> HT_FeatureCachedString \<Rightarrow> 's rt_scheme \<Rightarrow> bool" where
  "cache_owned cap f s \<longleftrightarrow> alloc_wf (rt_mem s) \<and> cache_ok cap ({fs_addr f} \<union> set_option (fs_lock f)) f (rt_mem s) \<and>
     live (rt_mem s) (fs_addr f) \<noteq> None \<and> (\<forall>l. fs_lock f = Some l \<longrightarrow> mutex_free l s \<and> l \<noteq> fs_addr f)"

fun label_addr :: "cached_label \<Rightarrow> addr" where
  "label_addr (Dynamic_Label a t) = a"
| "label_addr (Static_Label p t) = 0"

lemma dynamic_entries:
  assumes ok: "cache_ok cap others f m"
  shows "set (map (label_addr \<circ> snd) (hash_map_entries (fs_dynamic_hashes f))) = label_blocks f"
    and "distinct (map (label_addr \<circ> snd) (hash_map_entries (fs_dynamic_hashes f)))"
    and "(key, l) \<in> set (hash_map_entries (fs_dynamic_hashes f)) \<Longrightarrow> \<exists>a t. l = Dynamic_Label a t"
proof -
  let ?es = "hash_map_entries (fs_dynamic_hashes f)"
  note d = cache_okD [OF ok]
  note es = hash_map_entries_ok [OF d(2)]
  have get: "(x, l) \<in> set ?es \<longleftrightarrow> hash_map_of (fs_dynamic_hashes f) x = Some l" for x l
    using map_of_eq_Some_iff [OF es(1), of x l] by (auto simp: es(2))
  have dyn: "\<exists>a t. l = Dynamic_Label a t" if "(x, l) \<in> set ?es" for x l
  proof -
    have "label_ok Dynamic_Hashes m l" using d(3) [of Dynamic_Hashes x l] that get by simp
    then show ?thesis by (cases l) simp_all
  qed
  then show "(key, l) \<in> set ?es \<Longrightarrow> \<exists>a t. l = Dynamic_Label a t" .
  show "set (map (label_addr \<circ> snd) ?es) = label_blocks f"
  proof (intro equalityI subsetI)
    fix a assume "a \<in> set (map (label_addr \<circ> snd) ?es)"
    then obtain x l where xl: "(x, l) \<in> set ?es" "a = label_addr l" by auto
    with dyn obtain t where "l = Dynamic_Label a t" by fastforce
    with xl(1) get have "hash_map_of (fs_dynamic_hashes f) x = Some (Dynamic_Label a t)" by blast
    then show "a \<in> label_blocks f" unfolding label_blocks_def by blast
  next
    fix a assume "a \<in> label_blocks f"
    then obtain x t where "(x, Dynamic_Label a t) \<in> set ?es" using get by (auto simp: label_blocks_def)
    then show "a \<in> set (map (label_addr \<circ> snd) ?es)" by force
  qed
  have "inj_on (label_addr \<circ> snd) (set ?es)"
  proof (rule inj_onI)
    fix p q assume p: "p \<in> set ?es" "q \<in> set ?es" and eq: "(label_addr \<circ> snd) p = (label_addr \<circ> snd) q"
    obtain x l y l' where pq: "p = (x, l)" "q = (y, l')" by (cases p, cases q)
    with p eq dyn obtain a t t' where l: "l = Dynamic_Label a t" "l' = Dynamic_Label a t'" by fastforce
    with p pq get d(4) have "x = y" by blast
    with p pq get show "p = q" by auto
  qed
  with es(1) show "distinct (map (label_addr \<circ> snd) ?es)" by (simp add: distinct_map)
qed

lemma restrict_map_all [simp]: "m |` UNIV = m"
  by (simp add: restrict_map_def)

lemma destroy_labels_ok:
  assumes ok: "cache_ok cap others f m" and wf: "alloc_wf m"
  shows "\<exists>m'. ht_hash_map_for_each (fs_dynamic_hashes f) destroy_dynamic_label () m = Some ((), m') \<and> alloc_wf m' \<and>
    footprint (label_blocks f) m {} m'"
proof -
  let ?es = "hash_map_entries (fs_dynamic_hashes f)" and ?as = "\<lambda>xs. set (map (label_addr \<circ> snd) xs)"
  let ?A = "hash_map_blocks (fs_dynamic_hashes f)"
  let ?J = "\<lambda>rest ud m'. \<exists>xs. ?es = xs @ rest \<and> alloc_wf m' \<and> live m' = live m |` (- ?as xs)"
  note de = dynamic_entries [OF ok] and d = cache_okD [OF ok]
  have "callback_runs ?J destroy_dynamic_label ?A"
    unfolding callback_runs_def
  proof (intro allI impI, elim exE conjE)
    fix key l rest ud m1 xs
    assume xs: "?es = xs @ (key, l) # rest" and m1: "alloc_wf m1" "live m1 = live m |` (- ?as xs)"
    from xs have "(key, l) \<in> set ?es" by simp
    with de(3) obtain a t where l: "l = Dynamic_Label a t" by blast
    have a: "a \<in> label_blocks f" "a \<notin> ?as xs"
    proof -
      have "a \<in> ?as ?es" using xs l by simp
      then show "a \<in> label_blocks f" unfolding de(1) .
      show "a \<notin> ?as xs" using de(2) xs l by auto
    qed
    have "live m a \<noteq> None" using label_blocks_live [OF ok] a(1) by auto
    then have "live m1 a \<noteq> None" using m1(2) a(2) by (simp add: restrict_map_def)
    from ht.free_law [OF m1(1) this] obtain m2 where
      m2: "ht_free (Some a) m1 = Some m2" "alloc_wf m2" "live m2 = (live m1)(a := None)" by blast
    have "live m2 = live m |` (- ?as (xs @ [(key, l)]))"
      using m2(3) m1(2) l by (auto simp: restrict_map_def fun_eq_iff)
    moreover have "\<forall>q\<in>?A. live m2 q = live m1 q" using m2(3) a(1) d(6) by auto
    moreover have "?es = (xs @ [(key, l)]) @ rest" using xs by simp
    ultimately have "?J rest ud m2 \<and> (\<forall>q\<in>?A. live m2 q = live m1 q)" using m2(2) by blast
    moreover have "destroy_dynamic_label key l ud m1 = Some (True, ud, m2)" using l m2(1) by simp
    ultimately show "\<exists>ud' m'. destroy_dynamic_label key l ud m1 = Some (True, ud', m') \<and> ?J rest ud' m' \<and> (\<forall>q\<in>?A. live m' q = live m1 q)"
      by blast
  qed
  moreover have "bucket_inv b m" if "b \<in> set (fs_dynamic_hashes f)" for b
    using d(2) that by (auto simp: hash_map_inv_def in_set_conv_nth)
  moreover have "?J ?es () m" using wf by simp
  ultimately obtain ud m' where "ht_hash_map_for_each (fs_dynamic_hashes f) destroy_dynamic_label () m = Some (ud, m')" "?J [] ud m'"
    using hash_map_each_runs [of ?J destroy_dynamic_label ?A "fs_dynamic_hashes f" m "()"] by blast
  moreover then have "live m' = live m |` (- label_blocks f)" using de(1) by auto
  ultimately show ?thesis by (auto simp: footprint_def)
qed

lemma footprint_removed: "footprint A m {} m' \<longleftrightarrow> live m' = live m |` (- A)"
  by (simp add: footprint_def)

lemma footprint_two:
  assumes "footprint A m {} m1" and "footprint B m1 {} m2"
  shows "footprint (A \<union> B) m {} m2"
  using assms by (simp add: footprint_removed Int_commute)

lemma cache_destroy_ok:
  assumes own: "cache_owned cap f s"
  shows "\<exists>s'. ht_feature_cached_string_destroy f s = Some s' \<and> alloc_wf (rt_mem s') \<and> footprint (cache_blocks f) (rt_mem s) {} (rt_mem s')"
proof -
  let ?m = "rt_mem s" and ?S = "hash_map_blocks (fs_static_hashes f)" and ?D = "hash_map_blocks (fs_dynamic_hashes f)"
  have ok: "cache_ok cap ({fs_addr f} \<union> set_option (fs_lock f)) f ?m" and wf: "alloc_wf ?m" and addr: "live ?m (fs_addr f) \<noteq> None"
    using own by (simp_all add: cache_owned_def)
  note d = cache_okD [OF ok]
  from destroy_labels_ok [OF ok wf] obtain m1 where
    m1: "ht_hash_map_for_each (fs_dynamic_hashes f) destroy_dynamic_label () ?m = Some ((), m1)" "alloc_wf m1" "footprint (label_blocks f) ?m {} m1"
    by blast
  have keep1: "live m1 q = live ?m q" if "q \<notin> label_blocks f" for q using m1(3) that by (simp add: footprint_removed)
  have "hash_map_inv (fs_dynamic_hashes f) m1" by (rule labels.invar_frame [OF d(2)]) (rule keep1, use d(6) in blast)
  from labels.deinit_law [OF this m1(2)] obtain h2 m2 where
    m2: "ht_hash_map_deinit (fs_dynamic_hashes f) m1 = Some (h2, m2)" "alloc_wf m2" "footprint ?D m1 {} m2" by blast
  have fp2: "footprint (label_blocks f \<union> ?D) ?m {} m2" by (rule footprint_two [OF m1(3) m2(3)])
  then have keep2: "live m2 q = live ?m q" if "q \<notin> label_blocks f \<union> ?D" for q using that by (simp add: footprint_removed)
  have "hash_map_inv (fs_static_hashes f) m2" by (rule labels.invar_frame [OF d(1)]) (rule keep2, use d(5,6) in blast)
  from labels.deinit_law [OF this m2(2)] obtain h3 m3 where
    m3: "ht_hash_map_deinit (fs_static_hashes f) m2 = Some (h3, m3)" "alloc_wf m3" "footprint ?S m2 {} m3" by blast
  have fp3: "footprint (label_blocks f \<union> ?D \<union> ?S) ?m {} m3" by (rule footprint_two [OF fp2 m3(3)])
  then have keep3: "live m3 q = live ?m q" if "q \<in> {fs_addr f} \<union> set_option (fs_lock f)" for q
    using that d(7) by (auto simp: footprint_removed restrict_map_def)
  show ?thesis
  proof (cases "fs_lock f")
    case None
    have "live m3 (fs_addr f) \<noteq> None" using keep3 addr by simp
    from ht.free_law [OF m3(2) this] obtain m4 where
      m4: "ht_free (Some (fs_addr f)) m3 = Some m4" "alloc_wf m4" "live m4 = (live m3)(fs_addr f := None)" by blast
    have "footprint (label_blocks f \<union> ?D \<union> ?S \<union> {fs_addr f}) ?m {} m4" by (rule footprint_two [OF fp3 footprint_free [OF m4(3)]])
    moreover have "label_blocks f \<union> ?D \<union> ?S \<union> {fs_addr f} = cache_blocks f" using None by (auto simp: cache_blocks_def)
    ultimately show ?thesis using None m1(1) m2(1) m3(1) m4(1,2) by (simp add: ht_feature_cached_string_destroy_def)
  next
    case (Some l)
    with own have l: "mutex_free l s" "l \<noteq> fs_addr f" by (simp_all add: cache_owned_def)
    have "mutex_free l (s\<lparr>rt_mem := m3\<rparr>)" using l(1) keep3 [of l] Some by (simp add: mutex_free_def)
    from mutex_destroy_ok [OF this] m3(2) obtain m4 where
      m4: "ht_mutex_destroy l (s\<lparr>rt_mem := m3\<rparr>) = Some (s\<lparr>rt_mem := m4, rt_locks := (rt_locks s)(l := None)\<rparr>)" "alloc_wf m4"
        "live m4 = (live m3)(l := None)" by auto
    have "live m4 (fs_addr f) \<noteq> None" using keep3 addr m4(3) l(2) by simp
    from ht.free_law [OF m4(2) this] obtain m5 where
      m5: "ht_free (Some (fs_addr f)) m4 = Some m5" "alloc_wf m5" "live m5 = (live m4)(fs_addr f := None)" by blast
    have "footprint (label_blocks f \<union> ?D \<union> ?S \<union> {l} \<union> {fs_addr f}) ?m {} m5"
      by (rule footprint_two [OF footprint_two [OF fp3 footprint_free [OF m4(3)]] footprint_free [OF m5(3)]])
    moreover have "label_blocks f \<union> ?D \<union> ?S \<union> {l} \<union> {fs_addr f} = cache_blocks f" using Some by (auto simp: cache_blocks_def)
    ultimately show ?thesis using Some m1(1) m2(1) m3(1) m4(1) m5(1,2) by (simp add: ht_feature_cached_string_destroy_def)
  qed
qed

text \<open>What a successful creation gives, and what a failed one leaves.\<close>

definition cache_created :: "nat \<Rightarrow> HT_ErrorCode \<Rightarrow> HT_FeatureCachedString option \<Rightarrow> 's rt_scheme \<Rightarrow> 's rt_scheme \<Rightarrow> bool" where
  "cache_created cap err r s s' \<longleftrightarrow>
     (case r of
        None \<Rightarrow> err \<noteq> HT_ERR_OK \<and> alloc_wf (rt_mem s') \<and> live (rt_mem s') = live (rt_mem s)
      | Some f \<Rightarrow> err = HT_ERR_OK \<and> cache_owned cap f s' \<and> labels_of f = (Map.empty, Map.empty) \<and>
          footprint {} (rt_mem s) (cache_blocks f) (rt_mem s'))"

lemma empty_cache_ok:
  assumes "hash_map_inv S m" and "hash_map_inv D m" and "hash_map_of S = Map.empty" and "hash_map_of D = Map.empty"
    and "hash_map_blocks S \<inter> hash_map_blocks D = {}" and "others \<inter> (hash_map_blocks S \<union> hash_map_blocks D) = {}"
    and f: "fs_static_hashes f = S" "fs_dynamic_hashes f = D"
  shows "cache_ok cap others f m" and "label_blocks f = {}" and "labels_of f = (Map.empty, Map.empty)"
proof -
  have tab: "hash_map_of (table w f) = Map.empty" for w using assms by (cases w) simp_all
  show lab: "label_blocks f = {}" using assms by (simp add: label_blocks_def)
  show "cache_ok cap others f m" unfolding cache_ok_def lab tab using assms by simp
  show "labels_of f = (Map.empty, Map.empty)" using assms by (simp add: labels_of_def texts_def)
qed

lemma create_tables_ok:
  fixes s :: "'s rt_scheme"
  assumes wf: "alloc_wf (rt_mem s)" and a: "live (rt_mem s) a \<noteq> None" "a \<notin> hash_map_blocks S \<union> hash_map_blocks D"
    and tabs: "hash_map_inv S (rt_mem s)" "hash_map_inv D (rt_mem s)" "hash_map_of S = Map.empty" "hash_map_of D = Map.empty"
      "hash_map_blocks S \<inter> hash_map_blocks D = {}"
    and fp: "footprint {} m0 (hash_map_blocks S \<union> hash_map_blocks D \<union> {a}) (rt_mem s)"
  shows "\<exists>err r s'. create_with_tables ts a S D s = Some (err, r, s') \<and> cache_created cap err r (s\<lparr>rt_mem := m0\<rparr>) s'"
proof (cases ts)
  case False
  let ?f = "\<lparr>fs_addr = a, fs_lock = None, fs_dynamic_hashes = D, fs_static_hashes = S\<rparr>"
  have e: "cache_ok cap {a} ?f (rt_mem s)" "label_blocks ?f = {}" "labels_of ?f = (Map.empty, Map.empty)"
    using empty_cache_ok [OF tabs, of "{a}" ?f] a(2) by simp_all
  have "cache_blocks ?f = hash_map_blocks S \<union> hash_map_blocks D \<union> {a}" using e(2) a(2) by (simp add: cache_blocks_def)
  then show ?thesis using False wf a e fp by (simp add: create_with_tables_def cache_created_def cache_owned_def)
next
  case True
  show ?thesis
  proof (cases rule: mutex_create_cases [OF wf])
    case (1 m)
    have inv: "hash_map_inv D m" by (rule labels.invar_frame [OF tabs(2)]) (simp add: 1(3))
    from labels.deinit_law [OF this 1(2)] obtain h2 m2 where
      m2: "ht_hash_map_deinit D m = Some (h2, m2)" "alloc_wf m2" "footprint (hash_map_blocks D) m {} m2" by blast
    have keep: "live m2 q = live (rt_mem s) q" if "q \<notin> hash_map_blocks D" for q using m2(3) 1(3) that by (simp add: footprint_removed)
    have "hash_map_inv S m2" by (rule labels.invar_frame [OF tabs(1)]) (rule keep, use tabs(5) in blast)
    from labels.deinit_law [OF this m2(2)] obtain h3 m3 where
      m3: "ht_hash_map_deinit S m2 = Some (h3, m3)" "alloc_wf m3" "footprint (hash_map_blocks S) m2 {} m3" by blast
    have fp3: "footprint (hash_map_blocks D \<union> hash_map_blocks S) m {} m3" by (rule footprint_two [OF m2(3) m3(3)])
    then have "live m3 a \<noteq> None" using a 1(3) by (simp add: footprint_removed restrict_map_def)
    from ht.free_law [OF m3(2) this] obtain m4 where
      m4: "ht_free (Some a) m3 = Some m4" "alloc_wf m4" "live m4 = (live m3)(a := None)" by blast
    have "footprint (hash_map_blocks D \<union> hash_map_blocks S \<union> {a}) m {} m4" by (rule footprint_two [OF fp3 footprint_free [OF m4(3)]])
    then have "footprint (hash_map_blocks S \<union> hash_map_blocks D \<union> {a}) (rt_mem s) {} m4" using 1(3) by (simp add: footprint_removed Un_commute)
    from footprint_trans [OF fp this] have "live m4 = live m0" by simp
    then show ?thesis using True 1(1) m2(1) m3(1) m4(1,2) by (simp add: create_with_tables_def cache_created_def)
  next
    case (2 l m)
    let ?f = "\<lparr>fs_addr = a, fs_lock = Some l, fs_dynamic_hashes = D, fs_static_hashes = S\<rparr>"
    have l: "l \<noteq> a" "l \<notin> hash_map_blocks S \<union> hash_map_blocks D"
      using 2(3) a(1) labels.blocks_live [OF tabs(1)] labels.blocks_live [OF tabs(2)] by auto
    have "hash_map_inv S m" by (rule labels.invar_frame [OF tabs(1)]) (use l 2(4) in auto)
    moreover have "hash_map_inv D m" by (rule labels.invar_frame [OF tabs(2)]) (use l 2(4) in auto)
    ultimately have e: "cache_ok cap {a, l} ?f m" "label_blocks ?f = {}" "labels_of ?f = (Map.empty, Map.empty)"
      using empty_cache_ok [of S m D "{a, l}" ?f] tabs(3-5) a(2) l(2) by simp_all
    have "footprint {} (rt_mem s) {l} m" by (rule footprint_alloc [OF 2(3,4)])
    from footprint_extend [OF this, of "hash_map_blocks S \<union> hash_map_blocks D \<union> {a}"]
    have "footprint (hash_map_blocks S \<union> hash_map_blocks D \<union> {a}) (rt_mem s) ({l} \<union> (hash_map_blocks S \<union> hash_map_blocks D \<union> {a})) m"
      using a(1) labels.blocks_live [OF tabs(1)] labels.blocks_live [OF tabs(2)] by auto
    moreover have "cache_blocks ?f = {l} \<union> (hash_map_blocks S \<union> hash_map_blocks D \<union> {a})" using e(2) by (auto simp: cache_blocks_def)
    ultimately have "footprint {} m0 (cache_blocks ?f) m" using footprint_trans [OF fp] by simp
    then show ?thesis using True 2 a(1) e l by (simp add: create_with_tables_def cache_created_def cache_owned_def mutex_free_def insert_commute)
  qed
qed

lemma cache_create_ok:
  fixes s :: "'s rt_scheme"
  assumes wf: "alloc_wf (rt_mem s)" and junk: "length (fst junk) = BUCKET_COUNT" "length (snd junk) = BUCKET_COUNT"
  shows "\<exists>err r s'. ht_feature_cached_string_create junk ts s = Some (err, r, s') \<and> cache_created cap err r s s'"
proof (cases rule: ht.alloc_cases [OF wf, of sizeof_HT_FeatureCachedString])
  case (1 m)
  then show ?thesis by (simp add: ht_feature_cached_string_create_def cache_created_def)
next
  case (2 a m)
  from hash_map_init_ok [OF 2(2) junk(1)] obtain err S m1 where
    i1: "ht_hash_map_init (fst junk) m = Some (err, S, m1)" "alloc_wf m1"
    and r1: "if err = HT_ERR_OK then hash_map_inv S m1 \<and> hash_map_of S = Map.empty \<and> footprint {} m (hash_map_blocks S) m1
             else err = HT_ERR_OUT_OF_MEMORY \<and> live m1 = live m" by blast
  show ?thesis
  proof (cases "err = HT_ERR_OK")
    case False
    with r1 2(4) have "live m1 a \<noteq> None" by simp
    from ht.free_law [OF i1(2) this] obtain m2 where
      m2: "ht_free (Some a) m1 = Some m2" "alloc_wf m2" "live m2 = (live m1)(a := None)" by blast
    with r1 False 2(3,4) have "live m2 = live (rt_mem s)" by auto
    then show ?thesis using False i1 2(1) m2 by (simp add: ht_feature_cached_string_create_def cache_created_def)
  next
    case True
    with r1 have S: "hash_map_inv S m1" "hash_map_of S = Map.empty" "footprint {} m (hash_map_blocks S) m1" by simp_all
    have a: "live m1 a \<noteq> None" "a \<notin> hash_map_blocks S" using footprint_frame [OF S(3), of a] 2(4) by auto
    have fpa: "footprint {} (rt_mem s) {a} m" by (rule footprint_alloc [OF 2(3,4)])
    have "footprint {a} m (hash_map_blocks S \<union> {a}) m1" using footprint_extend [OF S(3), of "{a}"] 2(4) by auto
    with fpa have fp1: "footprint {} (rt_mem s) (hash_map_blocks S \<union> {a}) m1" by (rule footprint_trans)
    from hash_map_init_ok [OF i1(2) junk(2)] obtain err2 D m2 where
      i2: "ht_hash_map_init (snd junk) m1 = Some (err2, D, m2)" "alloc_wf m2"
      and r2: "if err2 = HT_ERR_OK then hash_map_inv D m2 \<and> hash_map_of D = Map.empty \<and> footprint {} m1 (hash_map_blocks D) m2
               else err2 = HT_ERR_OUT_OF_MEMORY \<and> live m2 = live m1" by blast
    show ?thesis
    proof (cases "err2 = HT_ERR_OK")
      case err2: False
      with r2 have same: "live m2 = live m1" by simp
      have "hash_map_inv S m2" by (rule labels.invar_frame [OF S(1)]) (simp add: same)
      from labels.deinit_law [OF this i2(2)] obtain h3 m3 where
        m3: "ht_hash_map_deinit S m2 = Some (h3, m3)" "alloc_wf m3" "footprint (hash_map_blocks S) m2 {} m3" by blast
      have "live m3 a \<noteq> None" using m3(3) a same by (simp add: footprint_removed)
      from ht.free_law [OF m3(2) this] obtain m4 where
        m4: "ht_free (Some a) m3 = Some m4" "alloc_wf m4" "live m4 = (live m3)(a := None)" by blast
      have "footprint (hash_map_blocks S \<union> {a}) m1 {} m4"
        using footprint_two [OF m3(3) footprint_free [OF m4(3)]] same by (simp add: footprint_removed)
      from footprint_trans [OF fp1 this] have "live m4 = live (rt_mem s)" by simp
      then show ?thesis using True err2 i1(1) i2(1) 2(1) m3(1) m4(1,2)
        by (simp add: ht_feature_cached_string_create_def cache_created_def)
    next
      case err2: True
      with r2 have D: "hash_map_inv D m2" "hash_map_of D = Map.empty" "footprint {} m1 (hash_map_blocks D) m2" by simp_all
      have sub: "hash_map_blocks S \<union> {a} \<subseteq> dom (live m1)" using labels.blocks_live [OF S(1)] a(1) by auto
      note frame = footprint_apart [OF D(3) sub]
      have SD: "hash_map_inv S m2" by (rule labels.invar_frame [OF S(1)]) (use frame(1) in auto)
      have "footprint (hash_map_blocks S \<union> {a}) m1 (hash_map_blocks D \<union> (hash_map_blocks S \<union> {a})) m2"
        using footprint_extend [OF D(3) sub] by simp
      with fp1 have "footprint {} (rt_mem s) (hash_map_blocks S \<union> hash_map_blocks D \<union> {a}) m2"
        using footprint_trans by (fastforce simp: Un_ac)
      then have "\<exists>err r s'. create_with_tables ts a S D (s\<lparr>rt_mem := m2\<rparr>) = Some (err, r, s') \<and> cache_created cap err r s s'"
        using create_tables_ok [of "s\<lparr>rt_mem := m2\<rparr>" a S D "rt_mem s" ts cap] i2(2) frame a SD S(2) D(1,2) by auto
      then show ?thesis using True err2 i1(1) i2(1) 2(1) by (simp add: ht_feature_cached_string_create_def)
    qed
  qed
qed

text \<open>
  C37. The string cache owns its memory. Creating it returns; it either gives an empty cache whose blocks, all new, are the only
  change to the heap, or, wherever memory ran out, leaves the heap as it was. Destroying a cache frees exactly its blocks: the
  object, the bags of both tables, the copies of the dynamic labels and the lock.
\<close>

theorem cached_string_owns_its_blocks:
  fixes s s2 :: "'s rt_scheme"
  assumes "alloc_wf (rt_mem s)" and "length (fst junk) = BUCKET_COUNT" and "length (snd junk) = BUCKET_COUNT"
  shows "(\<exists>err r s'. ht_feature_cached_string_create junk thread_safe s = Some (err, r, s') \<and> cache_created cap err r s s') \<and>
    (cache_owned cap f s2 \<longrightarrow>
       (\<exists>s3. ht_feature_cached_string_destroy f s2 = Some s3 \<and> live (rt_mem s3) = live (rt_mem s2) |` (- cache_blocks f)))"
  using cache_create_ok [OF assms] cache_destroy_ok [of cap f s2] by (auto simp: footprint_removed)

definition demo_owned_state :: "(byte list list, unit) reg_scheme" where
  "demo_owned_state = demo_cache_state\<lparr>rt_mem := (rt_mem demo_cache_state)\<lparr>heap_of := (heap_of (rt_mem demo_cache_state))\<lparr>blocks :=
     (blocks (heap_of (rt_mem demo_cache_state)))(9 \<mapsto> 65552)\<rparr>\<rparr>\<rparr>"

theorem cached_string_owns_its_blocks_witness:
  "\<exists>err r s' s3. ht_feature_cached_string_create (demo_table 1, demo_table 2) True demo_state = Some (err, r, s') \<and>
     cache_created 32 err r demo_state s' \<and> ht_feature_cached_string_destroy demo_cache demo_owned_state = Some s3 \<and>
     live (rt_mem s3) 9 = None \<and> live (rt_mem s3) 100 = None \<and> live (rt_mem s3) 8 = Some 40"
proof -
  let ?m = "rt_mem demo_owned_state"
  have live: "live ?m b = Some 32" if "100 \<le> b" "b < 2148" for b
    using that by (simp add: demo_owned_state_def demo_cache_state_def live_def)
  note st = demo_table_inv [of 100 ?m, where 'v = cached_label] and dy = demo_table_inv [of 1124 ?m, where 'v = cached_label]
  have e: "cache_ok 32 {9} demo_cache ?m" "label_blocks demo_cache = {}"
    using empty_cache_ok [of "demo_table 100" ?m "demo_table 1124" "{9}" demo_cache] st dy live by (auto simp: demo_cache_def)
  have wf: "alloc_wf (rt_mem demo_state)" by (simp add: demo_state_def alloc_wf_def heap_ok_def)
  have "alloc_wf ?m" "live ?m 9 \<noteq> None" "live ?m 8 = Some 40"
    by (simp_all add: demo_owned_state_def demo_cache_state_def demo_state_def alloc_wf_def heap_ok_def live_def)
  then have own: "cache_owned 32 demo_cache demo_owned_state" and eight: "live ?m 8 = Some 40"
    using e(1) by (simp_all add: cache_owned_def demo_cache_def)
  have len: "length (demo_table a :: cached_label hash_map) = BUCKET_COUNT" for a by (simp add: demo_table_def)
  have "hash_map_blocks (fs_static_hashes demo_cache) = {100..<1124}" "hash_map_blocks (fs_dynamic_hashes demo_cache) = {1124..<2148}"
    using st(2) dy(2) live by (simp_all add: demo_cache_def)
  then have blocks: "9 \<in> cache_blocks demo_cache" "100 \<in> cache_blocks demo_cache" "8 \<notin> cache_blocks demo_cache"
    using e(2) by (simp_all add: cache_blocks_def) (simp_all add: demo_cache_def)
  have "(\<exists>err r s'. ht_feature_cached_string_create (demo_table 1, demo_table 2) True demo_state = Some (err, r, s') \<and>
      cache_created 32 err r demo_state s') \<and>
    (\<exists>s3. ht_feature_cached_string_destroy demo_cache demo_owned_state = Some s3 \<and> live (rt_mem s3) = live ?m |` (- cache_blocks demo_cache))"
    using cached_string_owns_its_blocks [OF wf, of "(demo_table 1, demo_table 2)" True 32 demo_cache demo_owned_state] own len
    unfolding fst_conv snd_conv by blast
  then show ?thesis using blocks eight by (auto simp: restrict_map_def)
qed

end
