(* ===== verification/Tcp_Listener.thy ===== *)
theory Tcp_Listener
  imports Timeline Listener_Buffer
begin

text \<open>
  \<^verbatim>\<open>lib/tcp_server.cpp\<close> and \<^verbatim>\<open>lib/listeners/tcp_listener.c\<close>: the listener that sends events to the clients that are connected to the
  traced program.

  Servers and listeners are part of the world the callbacks work on, with the memory and the mutexes they use. The network is
  a script: \<open>net_sends\<close> says for each socket what the next calls of \<^verbatim>\<open>send\<close> return, where a result that is not positive is
  an error and a call after the script takes everything; \<open>net_setup\<close> has the result of \<^verbatim>\<open>socket\<close> and whether \<^verbatim>\<open>setsockopt\<close>,
  \<^verbatim>\<open>bind\<close> and \<^verbatim>\<open>listen\<close> succeed. The thread that accepts clients is a sequence of turns, one for each result of \<^verbatim>\<open>accept\<close>, between the
  other operations.
\<close>

section \<open>The server\<close>

record HT_TCPServer =
  srv_accept_client_thread :: "addr option"
  srv_client_sock_fd :: "int bag"
  srv_client_mutex :: "addr option"
  srv_server_sock_fd :: int
  srv_client_connected_ud :: "addr option"

record HT_TCPListener =
  tcp_push_action_mutex :: "addr option"
  tcp_buffer :: HT_ListenerBuffer
  tcp_tcp_server :: "addr option"
  tcp_last_client_sock_fd :: int
  tcp_was_flushed :: bool
  tcp_client_connected_callback :: "nat option"
  tcp_client_connected_user_data :: nat

record tcp_world = rt +
  net_sent :: "int \<Rightarrow> byte list"
  net_sends :: "int \<Rightarrow> int list"
  net_setup :: "int \<times> bool \<times> bool \<times> bool"
  tcp_servers :: "addr \<rightharpoonup> HT_TCPServer"
  tcp_listeners :: "addr \<rightharpoonup> HT_TCPListener"

definition set_server :: "addr \<Rightarrow> HT_TCPServer \<Rightarrow> 's tcp_world_scheme \<Rightarrow> 's tcp_world_scheme" where
  "set_server a server w = w\<lparr>tcp_servers := (tcp_servers w)(a \<mapsto> server)\<rparr>"

definition set_listener :: "addr \<Rightarrow> HT_TCPListener \<Rightarrow> 's tcp_world_scheme \<Rightarrow> 's tcp_world_scheme" where
  "set_listener l listener w = w\<lparr>tcp_listeners := (tcp_listeners w)(l \<mapsto> listener)\<rparr>"

text \<open>\<^verbatim>\<open>send\<close>: the result and what was taken.\<close>

definition net_send :: "int \<Rightarrow> byte list \<Rightarrow> 's tcp_world_scheme \<Rightarrow> int \<times> 's tcp_world_scheme" where
  "net_send fd bs w =
     (let n = (case net_sends w fd of [] \<Rightarrow> int (length bs) | k # ks \<Rightarrow> min k (int (length bs))) in
      (n, w\<lparr>net_sends := (net_sends w)(fd := tl (net_sends w fd)),
            net_sent := (net_sent w)(fd := net_sent w fd @ take (nat n) bs)\<rparr>))"

function ht_tcp_server_write_to_socket :: "int \<Rightarrow> byte list \<Rightarrow> 's tcp_world_scheme \<Rightarrow> bool \<times> 's tcp_world_scheme" where
  "ht_tcp_server_write_to_socket fd bs w =
     (if bs = [] then (True, w)
      else let (n, w) = net_send fd bs w in
           if n \<le> 0 then (False, w) else ht_tcp_server_write_to_socket fd (drop (nat n) bs) w)"
  by pat_completeness auto
termination
  by (relation "measure (\<lambda>(fd, bs, w). length bs)") auto

declare ht_tcp_server_write_to_socket.simps [simp del]

definition ht_tcp_server_is_running :: "HT_TCPServer \<Rightarrow> bool" where
  "ht_tcp_server_is_running server \<longleftrightarrow> srv_server_sock_fd server \<noteq> - 1"

definition size_add :: "nat \<Rightarrow> nat \<Rightarrow> nat" where
  "size_add a b = (a + b) mod SIZE_MODULUS"

text \<open>
  The loop over the clients: one that cannot be written to is removed, and the index goes back by one before it goes on by
  one, in the arithmetic of \<^verbatim>\<open>size_t\<close>.
\<close>

partial_function (option) write_clients_from ::
  "byte list \<Rightarrow> nat \<Rightarrow> int bag \<Rightarrow> 's tcp_world_scheme \<Rightarrow> (int bag \<times> 's tcp_world_scheme) option" where
  "write_clients_from buffer i clients w =
     (if i < bag_size clients
      then do {
        fd \<leftarrow> ht_bag_nth clients i (rt_mem w);
        let (ok, w) = ht_tcp_server_write_to_socket fd buffer w;
        if ok then write_clients_from buffer (size_add i 1) clients w
        else do {
          (clients, m) \<leftarrow> ht_bag_remove_nth sizeof_int clients i (rt_mem w);
          write_clients_from buffer (size_add (size_sub i 1) 1) clients (w\<lparr>rt_mem := m\<rparr>) } }
      else Some (clients, w))"

definition ht_tcp_server_write :: "addr \<Rightarrow> byte list \<Rightarrow> 's tcp_world_scheme \<Rightarrow> 's tcp_world_scheme option" where
  "ht_tcp_server_write a buffer w =
     do { server \<leftarrow> tcp_servers w a;
          mtx \<leftarrow> srv_client_mutex server;
          w \<leftarrow> ht_mutex_lock mtx w;
          (clients, w) \<leftarrow> write_clients_from buffer 0 (srv_client_sock_fd server) w;
          ht_mutex_unlock mtx (set_server a (server\<lparr>srv_client_sock_fd := clients\<rparr>) w) }"

definition sizeof_HT_TCPServer :: nat where
  "sizeof_HT_TCPServer = 80"

definition sizeof_HT_Thread :: nat where
  "sizeof_HT_Thread = 8"

text \<open>Neither the allocation of the server nor that of its bag is tested; \<open>junk\<close> is the bag in the new memory.\<close>

definition ht_tcp_server_create :: "int bag \<Rightarrow> 's tcp_world_scheme \<Rightarrow> (addr \<times> 's tcp_world_scheme) option" where
  "ht_tcp_server_create junk w =
     do { (p, m) \<leftarrow> ht_alloc sizeof_HT_TCPServer (rt_mem w);
          a \<leftarrow> p;
          (_, clients, m) \<leftarrow> ht_bag_init sizeof_int junk 8 m;
          (mtx, w) \<leftarrow> ht_mutex_create (w\<lparr>rt_mem := m\<rparr>);
          Some (a, set_server a \<lparr>srv_accept_client_thread = None, srv_client_sock_fd = clients, srv_client_mutex = mtx,
                                 srv_server_sock_fd = - 1, srv_client_connected_ud = None\<rparr> w) }"

text \<open>
  The accepting thread ends before it is joined: its socket is shut down. The second join, that of \<^verbatim>\<open>ht_thread_destroy\<close>, has no effect, as with
  threads of C++11, which tell that they are not joinable any more.
\<close>

definition ht_tcp_server_stop :: "addr \<Rightarrow> 's tcp_world_scheme \<Rightarrow> 's tcp_world_scheme option" where
  "ht_tcp_server_stop a w =
     do { server \<leftarrow> tcp_servers w a;
          if \<not> ht_tcp_server_is_running server then Some w
          else do {
            mtx \<leftarrow> srv_client_mutex server;
            w \<leftarrow> ht_mutex_lock mtx w;
            (clients, m) \<leftarrow> ht_bag_clear sizeof_int (srv_client_sock_fd server) (rt_mem w);
            w \<leftarrow> ht_mutex_unlock mtx (w\<lparr>rt_mem := m\<rparr>);
            let server = server\<lparr>srv_client_sock_fd := clients, srv_server_sock_fd := - 1\<rparr>;
            case srv_accept_client_thread server of
              None \<Rightarrow> Some (set_server a server w)
            | Some th \<Rightarrow> do {
                m \<leftarrow> ht_free (Some th) (rt_mem w);
                Some (set_server a (server\<lparr>srv_accept_client_thread := None\<rparr>) (w\<lparr>rt_mem := m\<rparr>)) } } }"

definition ht_tcp_server_destroy :: "addr \<Rightarrow> 's tcp_world_scheme \<Rightarrow> 's tcp_world_scheme option" where
  "ht_tcp_server_destroy a w =
     do { w \<leftarrow> ht_tcp_server_stop a w;
          server \<leftarrow> tcp_servers w a;
          (_, m) \<leftarrow> ht_bag_deinit (srv_client_sock_fd server) (rt_mem w);
          mtx \<leftarrow> srv_client_mutex server;
          w \<leftarrow> ht_mutex_destroy mtx (w\<lparr>rt_mem := m\<rparr>);
          m \<leftarrow> ht_free (Some a) (rt_mem w);
          Some (w\<lparr>rt_mem := m, tcp_servers := (tcp_servers w)(a := None)\<rparr>) }"

text \<open>
  Starting; the callback for new clients is always that of the listener \<open>ud\<close>. The allocation of the thread is not tested.
\<close>

definition ht_tcp_server_start :: "addr \<Rightarrow> addr \<Rightarrow> 's tcp_world_scheme \<Rightarrow> (bool \<times> 's tcp_world_scheme) option" where
  "ht_tcp_server_start a ud w =
     do { server \<leftarrow> tcp_servers w a;
          w \<leftarrow> (if ht_tcp_server_is_running server then ht_tcp_server_stop a w else Some w);
          server \<leftarrow> tcp_servers w a;
          let (fd, reuse, bound, listening) = net_setup w;
          let server = server\<lparr>srv_server_sock_fd := fd\<rparr>;
          let w = set_server a server w;
          if fd < 0 then Some (False, w)
          else if \<not> (reuse \<and> bound \<and> listening) then do { w \<leftarrow> ht_tcp_server_stop a w; Some (False, w) }
          else do {
            (th, m) \<leftarrow> ht_alloc sizeof_HT_Thread (rt_mem w);
            th \<leftarrow> th;
            Some (True, set_server a (server\<lparr>srv_client_connected_ud := Some ud, srv_accept_client_thread := Some th\<rparr>)
                          (w\<lparr>rt_mem := m\<rparr>)) } }"

section \<open>The listener\<close>

definition ht_tcp_listener_is_stopped :: "HT_TCPListener \<Rightarrow> bool" where
  "ht_tcp_listener_is_stopped listener \<longleftrightarrow> tcp_tcp_server listener = None"

definition ht_tcp_listener_f_flush :: "'s tcp_world_scheme flush_callback" where
  "ht_tcp_listener_f_flush l bs w =
     do { listener \<leftarrow> tcp_listeners w l;
          a \<leftarrow> tcp_tcp_server listener;
          w \<leftarrow> ht_tcp_server_write a bs w;
          Some (set_listener l (listener\<lparr>tcp_was_flushed := True\<rparr>) w) }"

text \<open>The buffer is a member of the listener, so it is written back to the listener that the callback has changed.\<close>

definition store_buffer :: "addr \<Rightarrow> HT_ListenerBuffer \<times> 's tcp_world_scheme \<Rightarrow> 's tcp_world_scheme option" where
  "store_buffer l r =
     (case r of (b, w) \<Rightarrow> do { listener \<leftarrow> tcp_listeners w l; Some (set_listener l (listener\<lparr>tcp_buffer := b\<rparr>) w) })"

definition ht_tcp_listener_flush :: "addr \<Rightarrow> 's tcp_world_scheme \<Rightarrow> 's tcp_world_scheme option" where
  "ht_tcp_listener_flush l w =
     do { listener \<leftarrow> tcp_listeners w l;
          r \<leftarrow> ht_listener_buffer_flush ht_tcp_listener_f_flush l (tcp_buffer listener) w;
          store_buffer l r }"

definition ht_tcp_listener_metadata_pusher :: "'s tcp_world_scheme listener_callback" where
  "ht_tcp_listener_metadata_pusher events serialized l w =
     (if \<not> serialized then None
      else do {
        listener \<leftarrow> tcp_listeners w l;
        mtx \<leftarrow> tcp_push_action_mutex listener;
        w \<leftarrow> ht_mutex_lock mtx w;
        let (_, w) = ht_tcp_server_write_to_socket (tcp_last_client_sock_fd listener) events w;
        ht_mutex_unlock mtx w })"

text \<open>\<open>user_callback\<close> is what the function pointers that the program may register do.\<close>

definition ht_tcp_listener_client_connected ::
  "nat \<times> nat \<times> nat \<Rightarrow> HT_Endianness \<Rightarrow> (ht_struct \<Rightarrow> byte list) \<Rightarrow>
   (nat \<Rightarrow> int \<Rightarrow> nat \<Rightarrow> 'x tcp_world_scheme \<Rightarrow> 'x tcp_world_scheme option) \<Rightarrow> int \<Rightarrow> addr \<Rightarrow>
   ('x tcp_world_scheme, 's) reg_scheme \<Rightarrow> ('x tcp_world_scheme, 's) reg_scheme option" where
  "ht_tcp_listener_client_connected version e repr user_callback fd l s =
     do { listener \<leftarrow> tcp_listeners (world s) l;
          let s = s\<lparr>world := set_listener l (listener\<lparr>tcp_last_client_sock_fd := fd\<rparr>) (world s)\<rparr>;
          (_, s) \<leftarrow> ht_timeline_listener_push_metadata version e repr ht_tcp_listener_metadata_pusher l True s;
          listener \<leftarrow> tcp_listeners (world s) l;
          case tcp_client_connected_callback listener of
            None \<Rightarrow> Some s
          | Some cb \<Rightarrow> do {
              w \<leftarrow> user_callback cb fd (tcp_client_connected_user_data listener) (world s);
              Some (s\<lparr>world := w\<rparr>) } }"

text \<open>One turn of the accepting thread, where \<open>fd\<close> is the result of \<^verbatim>\<open>accept\<close>; the result of adding the client is not tested.\<close>

definition ht_tcp_server_run_turn ::
  "nat \<times> nat \<times> nat \<Rightarrow> HT_Endianness \<Rightarrow> (ht_struct \<Rightarrow> byte list) \<Rightarrow>
   (nat \<Rightarrow> int \<Rightarrow> nat \<Rightarrow> 'x tcp_world_scheme \<Rightarrow> 'x tcp_world_scheme option) \<Rightarrow> int \<Rightarrow> addr \<Rightarrow>
   ('x tcp_world_scheme, 's) reg_scheme \<Rightarrow> ('x tcp_world_scheme, 's) reg_scheme option" where
  "ht_tcp_server_run_turn version e repr user_callback fd a s =
     do { server \<leftarrow> tcp_servers (world s) a;
          if ht_tcp_server_is_running server \<and> 0 \<le> fd
          then do {
            l \<leftarrow> srv_client_connected_ud server;
            s \<leftarrow> ht_tcp_listener_client_connected version e repr user_callback fd l s;
            server \<leftarrow> tcp_servers (world s) a;
            mtx \<leftarrow> srv_client_mutex server;
            w \<leftarrow> ht_mutex_lock mtx (world s);
            (_, clients, m) \<leftarrow> ht_bag_add sizeof_int (srv_client_sock_fd server) fd (rt_mem w);
            w \<leftarrow> ht_mutex_unlock mtx (set_server a (server\<lparr>srv_client_sock_fd := clients\<rparr>) (w\<lparr>rt_mem := m\<rparr>));
            Some (s\<lparr>world := w\<rparr>) }
          else Some s }"

definition ht_tcp_listener_push_events ::
  "HT_Endianness \<Rightarrow> (byte list \<Rightarrow> ht_struct) \<Rightarrow> (klass_ref \<Rightarrow> HT_EventKlass) \<Rightarrow> addr \<Rightarrow> byte list \<Rightarrow> bool \<Rightarrow>
   's tcp_world_scheme \<Rightarrow> 's tcp_world_scheme option" where
  "ht_tcp_listener_push_events e object kl l events serialized w =
     do { listener \<leftarrow> tcp_listeners w l;
          mtx \<leftarrow> tcp_push_action_mutex listener;
          w \<leftarrow> ht_mutex_lock mtx w;
          w \<leftarrow> (case tcp_tcp_server listener of
                  None \<Rightarrow> Some w
                | Some a \<Rightarrow> do {
                    server \<leftarrow> tcp_servers w a;
                    if \<not> ht_tcp_server_is_running server then Some w
                    else do {
                      r \<leftarrow> (if serialized
                            then ht_listener_buffer_process_serialized_events ht_tcp_listener_f_flush l events (tcp_buffer listener) w
                            else ht_listener_buffer_process_unserialized_events e object kl ht_tcp_listener_f_flush l events
                                   (tcp_buffer listener) w);
                      w \<leftarrow> store_buffer l r;
                      listener \<leftarrow> tcp_listeners w l;
                      if tcp_was_flushed listener
                      then do {
                        w \<leftarrow> ht_tcp_listener_flush l w;
                        listener \<leftarrow> tcp_listeners w l;
                        Some (set_listener l (listener\<lparr>tcp_was_flushed := False\<rparr>) w) }
                      else Some w } });
          ht_mutex_unlock mtx w }"

definition ht_tcp_listener_callback ::
  "HT_Endianness \<Rightarrow> (byte list \<Rightarrow> ht_struct) \<Rightarrow> (klass_ref \<Rightarrow> HT_EventKlass) \<Rightarrow> 's tcp_world_scheme listener_callback" where
  "ht_tcp_listener_callback e object kl events serialized l w = ht_tcp_listener_push_events e object kl l events serialized w"

definition ht_tcp_listener_set_on_client_connected_callback ::
  "addr \<Rightarrow> nat option \<Rightarrow> nat \<Rightarrow> 's tcp_world_scheme \<Rightarrow> 's tcp_world_scheme option" where
  "ht_tcp_listener_set_on_client_connected_callback l callback ud w =
     do { listener \<leftarrow> tcp_listeners w l;
          Some (set_listener l (listener\<lparr>tcp_client_connected_user_data := ud, tcp_client_connected_callback := callback\<rparr>) w) }"

text \<open>The guard of \<^verbatim>\<open>ht_tcp_listener_stop\<close> gives the lock back and goes on.\<close>

definition ht_tcp_listener_stop :: "addr \<Rightarrow> 's tcp_world_scheme \<Rightarrow> 's tcp_world_scheme option" where
  "ht_tcp_listener_stop l w =
     do { listener \<leftarrow> tcp_listeners w l;
          mtx \<leftarrow> tcp_push_action_mutex listener;
          w \<leftarrow> ht_mutex_lock mtx w;
          w \<leftarrow> (if \<not> ht_tcp_listener_is_stopped listener then ht_mutex_unlock mtx w else Some w);
          w \<leftarrow> ht_tcp_listener_flush l w;
          listener \<leftarrow> tcp_listeners w l;
          a \<leftarrow> tcp_tcp_server listener;
          w \<leftarrow> ht_tcp_server_stop a w;
          m \<leftarrow> ht_listener_buffer_deinit (tcp_buffer listener) (rt_mem w);
          w \<leftarrow> ht_tcp_server_destroy a (w\<lparr>rt_mem := m\<rparr>);
          let w = set_listener l (listener\<lparr>tcp_tcp_server := None\<rparr>) w;
          w \<leftarrow> ht_mutex_unlock mtx w;
          ht_mutex_unlock mtx w }"

definition ht_tcp_listener_destroy :: "addr \<Rightarrow> 's tcp_world_scheme \<Rightarrow> 's tcp_world_scheme option" where
  "ht_tcp_listener_destroy l w =
     do { listener \<leftarrow> tcp_listeners w l;
          w \<leftarrow> (if \<not> ht_tcp_listener_is_stopped listener then ht_tcp_listener_stop l w else Some w);
          mtx \<leftarrow> tcp_push_action_mutex listener;
          w \<leftarrow> ht_mutex_destroy mtx w;
          m \<leftarrow> ht_free (Some l) (rt_mem w);
          Some (w\<lparr>rt_mem := m, tcp_listeners := (tcp_listeners w)(l := None)\<rparr>) }"

definition sizeof_HT_TCPListener :: nat where
  "sizeof_HT_TCPListener = 72"

text \<open>
  Creation. The members of a listener in new memory are \<open>junk\<close>: the callback for new clients is never initialised, and where the
  buffer cannot be allocated neither are the mutex and the server, which the destruction then uses.
\<close>

definition ht_tcp_listener_init ::
  "HT_ListenerBuffer \<Rightarrow> int bag \<Rightarrow> addr \<Rightarrow> nat \<Rightarrow> 's tcp_world_scheme \<Rightarrow> (HT_ErrorCode \<times> 's tcp_world_scheme) option" where
  "ht_tcp_listener_init junk_buffer junk_bag l buffer_size w =
     do { listener \<leftarrow> tcp_listeners w l;
          (err, b, m) \<leftarrow> ht_listener_buffer_init junk_buffer buffer_size (rt_mem w);
          let w = w\<lparr>rt_mem := m\<rparr>;
          if err \<noteq> HT_ERR_OK then Some (err, set_listener l (listener\<lparr>tcp_buffer := b\<rparr>) w)
          else do {
            (mtx, w) \<leftarrow> ht_mutex_create w;
            (a, w) \<leftarrow> ht_tcp_server_create junk_bag w;
            (ok, w) \<leftarrow> ht_tcp_server_start a l w;
            Some (if ok then HT_ERR_OK else HT_ERR_CANT_START_TCP_SERVER,
                  set_listener l (listener\<lparr>tcp_buffer := b, tcp_last_client_sock_fd := 0, tcp_was_flushed := False,
                                           tcp_push_action_mutex := mtx, tcp_tcp_server := Some a\<rparr>) w) } }"

definition ht_tcp_listener_create ::
  "HT_TCPListener \<Rightarrow> HT_ListenerBuffer \<Rightarrow> int bag \<Rightarrow> nat \<Rightarrow> 's tcp_world_scheme \<Rightarrow>
   (HT_ErrorCode \<times> addr option \<times> 's tcp_world_scheme) option" where
  "ht_tcp_listener_create junk junk_buffer junk_bag buffer_size w =
     do { (p, m) \<leftarrow> ht_alloc sizeof_HT_TCPListener (rt_mem w);
          let w = w\<lparr>rt_mem := m\<rparr>;
          case p of
            None \<Rightarrow> Some (HT_ERR_OUT_OF_MEMORY, None, w)
          | Some l \<Rightarrow> do {
              (err, w) \<leftarrow> ht_tcp_listener_init junk_buffer junk_bag l buffer_size (set_listener l junk w);
              if err \<noteq> HT_ERR_OK
              then do { w \<leftarrow> ht_tcp_listener_destroy l w; Some (err, None, w) }
              else Some (err, Some l, w) } }"

definition ht_tcp_listener_register ::
  "HT_Endianness \<Rightarrow> (byte list \<Rightarrow> ht_struct) \<Rightarrow> HT_TCPListener \<Rightarrow> HT_ListenerBuffer \<Rightarrow> int bag \<Rightarrow> 'f HT_Timeline \<Rightarrow> nat \<Rightarrow>
   ('x tcp_world_scheme, 's) reg_scheme \<Rightarrow> (HT_ErrorCode \<times> addr option \<times> ('x tcp_world_scheme, 's) reg_scheme) option" where
  "ht_tcp_listener_register e object junk junk_buffer junk_bag line buffer_size s =
     do { (err, p, w) \<leftarrow> ht_tcp_listener_create junk junk_buffer junk_bag buffer_size (world s);
          let s = s\<lparr>world := w\<rparr>;
          case p of
            None \<Rightarrow> Some (err, None, s)
          | Some l \<Rightarrow> do {
              (err, s) \<leftarrow> ht_timeline_register_listener_full line (ht_tcp_listener_callback e object (klasses s)) l
                            (Some ht_tcp_listener_destroy) s;
              if err \<noteq> HT_ERR_OK
              then do { w \<leftarrow> ht_tcp_listener_destroy l (world s); Some (err, None, s\<lparr>world := w\<rparr>) }
              else Some (err, Some l, s) } }"

section \<open>Sending\<close>

text \<open>Sending touches nothing but the sockets.\<close>

definition net_only :: "'s tcp_world_scheme \<Rightarrow> 's tcp_world_scheme \<Rightarrow> bool" where
  "net_only w w' \<longleftrightarrow> (\<exists>ks cs. w' = w\<lparr>net_sends := ks, net_sent := cs\<rparr>)"

lemma net_only_refl: "net_only w w"
  unfolding net_only_def by (intro exI [of _ "net_sends w"] exI [of _ "net_sent w"]) simp

lemma net_only_trans:
  assumes "net_only w w1" and "net_only w1 w2"
  shows "net_only w w2"
proof -
  from assms obtain ks cs where "w2 = w\<lparr>net_sends := ks, net_sent := cs\<rparr>" by (auto simp: net_only_def)
  then show ?thesis unfolding net_only_def by blast
qed

lemma net_onlyD:
  assumes "net_only w w'"
  shows "rt_mem w' = rt_mem w" and "rt_locks w' = rt_locks w" and "tcp_servers w' = tcp_servers w" and "tcp_listeners w' = tcp_listeners w"
    and "w'\<lparr>rt_mem := rt_mem w\<rparr> = w'"
  using assms by (auto simp: net_only_def)

text \<open>A socket that takes something of whatever is sent.\<close>

definition steady :: "int \<Rightarrow> 's tcp_world_scheme \<Rightarrow> bool" where
  "steady fd w \<longleftrightarrow> (\<forall>k\<in>set (net_sends w fd). 0 < k)"

lemma net_send_frame:
  assumes "net_send fd bs w = (n, w')"
  shows "net_only w w'" and "steady fd w \<Longrightarrow> bs \<noteq> [] \<Longrightarrow> 0 < n" and "net_sent w' fd = net_sent w fd @ take (nat n) bs"
    and "g \<noteq> fd \<Longrightarrow> net_sent w' g = net_sent w g \<and> net_sends w' g = net_sends w g" and "steady fd w \<Longrightarrow> steady fd w'"
proof -
  let ?n = "case net_sends w fd of [] \<Rightarrow> int (length bs) | k # ks \<Rightarrow> min k (int (length bs))"
  have n: "n = ?n" and w': "w' = w\<lparr>net_sends := (net_sends w)(fd := tl (net_sends w fd)),
      net_sent := (net_sent w)(fd := net_sent w fd @ take (nat n) bs)\<rparr>"
    using assms by (auto simp: net_send_def Let_def)
  show "net_only w w'" unfolding net_only_def w' by blast
  show "steady fd w \<Longrightarrow> bs \<noteq> [] \<Longrightarrow> 0 < n" by (auto simp: n steady_def split: list.splits)
  show "net_sent w' fd = net_sent w fd @ take (nat n) bs" by (simp add: w')
  show "g \<noteq> fd \<Longrightarrow> net_sent w' g = net_sent w g \<and> net_sends w' g = net_sends w g" by (simp add: w')
  show "steady fd w \<Longrightarrow> steady fd w'" by (cases "net_sends w fd") (simp_all add: steady_def w')
qed

lemma write_to_socket_frame:
  assumes "ht_tcp_server_write_to_socket fd bs w = (ok, w')"
  shows "net_only w w'" and "g \<noteq> fd \<Longrightarrow> net_sent w' g = net_sent w g \<and> net_sends w' g = net_sends w g"
proof -
  have "net_only w w' \<and> (\<forall>g. g \<noteq> fd \<longrightarrow> net_sent w' g = net_sent w g \<and> net_sends w' g = net_sends w g)"
    using assms
  proof (induction fd bs w rule: ht_tcp_server_write_to_socket.induct)
    case (1 fd bs w)
    show ?case
    proof (cases "bs = []")
      case True
      with 1(2) show ?thesis by (simp add: ht_tcp_server_write_to_socket.simps net_only_refl)
    next
      case False
      obtain n w1 where send: "net_send fd bs w = (n, w1)" by (cases "net_send fd bs w")
      note frame = net_send_frame(1,4) [OF send]
      show ?thesis
      proof (cases "n \<le> 0")
        case True
        with 1(2) False send have "w' = w1" by (subst (asm) ht_tcp_server_write_to_socket.simps) simp
        with frame show ?thesis by auto
      next
        case pos: False
        with 1(2) False send have "ht_tcp_server_write_to_socket fd (drop (nat n) bs) w1 = (ok, w')"
          by (subst (asm) ht_tcp_server_write_to_socket.simps) simp
        from 1(1) [OF False send [symmetric] refl pos this] frame net_only_trans [of w w1 w'] show ?thesis by auto
      qed
    qed
  qed
  then show "net_only w w'" "g \<noteq> fd \<Longrightarrow> net_sent w' g = net_sent w g \<and> net_sends w' g = net_sends w g" by blast+
qed

text \<open>A steady socket takes everything, in however many pieces.\<close>

lemma write_to_socket_steady:
  assumes "steady fd w"
  obtains w' where "ht_tcp_server_write_to_socket fd bs w = (True, w')" and "net_sent w' fd = net_sent w fd @ bs" and "steady fd w'"
proof -
  have "\<exists>w'. ht_tcp_server_write_to_socket fd bs w = (True, w') \<and> net_sent w' fd = net_sent w fd @ bs \<and> steady fd w'"
    using assms
  proof (induction fd bs w rule: ht_tcp_server_write_to_socket.induct)
    case (1 fd bs w)
    show ?case
    proof (cases "bs = []")
      case True
      with 1(2) show ?thesis by (simp add: ht_tcp_server_write_to_socket.simps)
    next
      case False
      obtain n w1 where send: "net_send fd bs w = (n, w1)" by (cases "net_send fd bs w")
      have pos: "\<not> n \<le> 0" using net_send_frame(2) [OF send 1(2) False] by simp
      from 1(1) [OF False send [symmetric] refl pos net_send_frame(5) [OF send 1(2)]] obtain w' where
        "ht_tcp_server_write_to_socket fd (drop (nat n) bs) w1 = (True, w')"
        "net_sent w' fd = net_sent w1 fd @ drop (nat n) bs" "steady fd w'" by blast
      with send pos False net_send_frame(3) [OF send] show ?thesis
        by (subst ht_tcp_server_write_to_socket.simps) simp
    qed
  qed
  with that show thesis by blast
qed

section \<open>Writing to all clients\<close>

text \<open>
  The clients of a server, as long as there were never more than the bag has room for from the start: then
  adding and removing clients allocates nothing.
\<close>

definition clients_ok :: "int bag \<Rightarrow> 's tcp_world_scheme \<Rightarrow> bool" where
  "clients_ok clients w \<longleftrightarrow> bag_inv sizeof_int clients (rt_mem w) \<and> alloc_wf (rt_mem w) \<and>
     bag_capacity clients = bag_min_capacity clients \<and> distinct (bag_list clients)"

lemma clients_ok_net: "net_only w w' \<Longrightarrow> clients_ok clients w' = clients_ok clients w"
  by (simp add: clients_ok_def net_onlyD)

lemma clients_ok_locks: "clients_ok clients (w\<lparr>rt_locks := L\<rparr>) = clients_ok clients w"
  by (simp add: clients_ok_def)

lemma remove_in_place:
  assumes "bag_capacity b = bag_min_capacity b" and "ht_bag_remove_nth es b n m = Some (b', m')"
  shows "m' = m" and "bag_capacity b' = bag_min_capacity b'"
  using assms
  by (auto simp: ht_bag_remove_nth_def ht_bag_set_def bind_eq_Some_conv Let_def split: if_splits)

lemma set_drop_distinct: "distinct xs \<Longrightarrow> set (drop i xs) = set xs - set (take i xs)"
  by (metis Diff_cancel Un_Diff append_take_drop_id distinct_append inf_commute Diff_triv Un_empty_left set_append)

lemma take_swap_remove: "i < length xs \<Longrightarrow> take i (swap_remove i xs) = take i xs"
  by (simp add: swap_remove_def butlast_conv_take take_update_swap list_update_beyond)

lemma remove_client:
  assumes ok: "clients_ok clients w" and i: "i < bag_size clients" and other: "bag_list clients ! i \<noteq> fd"
  obtains c where "ht_bag_remove_nth sizeof_int clients i (rt_mem w) = Some (c, rt_mem w)" and "clients_ok c w"
    and "bag_size c = bag_size clients - 1" and "set (bag_list c) \<subseteq> set (bag_list clients)"
    and "fd \<in> set (bag_list c) \<longleftrightarrow> fd \<in> set (bag_list clients)"
    and "fd \<in> set (drop i (bag_list c)) \<longleftrightarrow> fd \<in> set (drop i (bag_list clients))"
proof -
  let ?xs = "bag_list clients"
  have inv: "bag_inv sizeof_int clients (rt_mem w)" "alloc_wf (rt_mem w)" "distinct ?xs" using ok by (simp_all add: clients_ok_def)
  have len: "i < length ?xs" using i length_bag_list [OF inv(1)] by simp
  from int_bag.remove_law [OF inv(1,2) len] obtain c m where c: "ht_bag_remove_nth sizeof_int clients i (rt_mem w) = Some (c, m)"
    "bag_inv sizeof_int c m" "bag_list c = swap_remove i ?xs" by blast
  have m: "m = rt_mem w" "bag_capacity c = bag_min_capacity c"
    using remove_in_place [OF _ c(1)] ok by (simp_all add: clients_ok_def)
  have ms: "mset (bag_list c) = mset ?xs - {#?xs ! i#}" using mset_swap_remove [OF len] c(3) by simp
  have dist: "distinct (bag_list c)"
  proof -
    have "count (mset (bag_list c)) a \<le> 1" for a
      using inv(3) unfolding ms distinct_count_atmost_1 by (auto simp: le_diff_conv intro: order_trans)
    then show ?thesis by (auto simp: distinct_count_atmost_1 count_eq_zero_iff intro: antisym)
  qed
  have mem: "g \<in> set (bag_list c) \<longleftrightarrow> g \<in> set ?xs \<and> g \<noteq> ?xs ! i" for g
  proof -
    have "mset ?xs = add_mset (?xs ! i) (mset (bag_list c))" unfolding ms using len by simp
    moreover from this inv(3) have "?xs ! i \<notin> set (bag_list c)"
      by (metis add_mset_remove_trivial_eq distinct_count_atmost_1 count_add_mset in_multiset_in_set count_eq_zero_iff
          nth_mem len Suc_inject One_nat_def)
    ultimately show ?thesis by (metis insert_iff set_mset_add_mset_insert set_mset_mset)
  qed
  have take: "take i (bag_list c) = take i ?xs" using take_swap_remove [OF len] c(3) by simp
  have "clients_ok c w" using c(2) m inv(2) dist by (simp add: clients_ok_def)
  moreover have "bag_size c = bag_size clients - 1"
    using c(2,3) length_bag_list [OF inv(1)] length_bag_list [OF c(2)] by simp
  moreover have "fd \<in> set (drop i (bag_list c)) \<longleftrightarrow> fd \<in> set (drop i ?xs)"
    using mem [of fd] other take
    by (simp add: set_drop_distinct [OF dist] set_drop_distinct [OF inv(3)])
  ultimately show thesis using that c(1) m(1) mem other by auto
qed

lemma size_add_back: "i < SIZE_MODULUS \<Longrightarrow> size_add (size_sub i 1) 1 = i"
  by (cases i) (simp_all add: size_add_def size_sub_def SIZE_MODULUS_def)

lemma bag_size_bound: "bag_inv es b m \<Longrightarrow> bag_size b < SIZE_MODULUS"
  by (auto simp: bag_inv_def sizeof_void_ptr_def PTRDIFF_MAX_def SIZE_MODULUS_def)

text \<open>
  What the loop does for the client \<open>fd\<close>: it is written to exactly once if the loop has not come to it yet. The other clients may fail and be
  removed.
\<close>

definition written_to :: "int \<Rightarrow> byte list \<Rightarrow> 's tcp_world_scheme \<Rightarrow> int bag \<times> 's tcp_world_scheme \<Rightarrow> bool" where
  "written_to fd bs w r \<longleftrightarrow>
     (case r of (c, w') \<Rightarrow> net_only w w' \<and> clients_ok c w' \<and> fd \<in> set (bag_list c) \<and> steady fd w' \<and> net_sent w' fd = net_sent w fd @ bs)"

lemma written_to_trans:
  assumes "net_only w w1" and "net_sent w1 fd = net_sent w fd @ as" and "written_to fd bs w1 r"
  shows "written_to fd (as @ bs) w r"
  using assms net_only_trans [of w w1] by (auto simp: written_to_def)

lemma write_clients_ok:
  assumes "clients_ok c w" and "fd \<in> set (bag_list c)" and "steady fd w" and "i \<le> bag_size c"
  shows "\<exists>r. write_clients_from bs i c w = Some r \<and> written_to fd (if fd \<in> set (drop i (bag_list c)) then bs else []) w r"
  using assms
proof (induction "bag_size c - i" arbitrary: c w i rule: less_induct)
  case less
  let ?xs = "bag_list c"
  have inv: "bag_inv sizeof_int c (rt_mem w)" "alloc_wf (rt_mem w)" "distinct ?xs" using less.prems(1) by (simp_all add: clients_ok_def)
  have len: "length ?xs = bag_size c" by (rule length_bag_list [OF inv(1)])
  show ?case
  proof (cases "i < bag_size c")
    case False
    then have "i = length ?xs" using less.prems(4) len by simp
    with less.prems False show ?thesis
      by (subst write_clients_from.simps) (simp add: written_to_def net_only_refl)
  next
    case True
    let ?fd = "?xs ! i"
    obtain ok w1 where send: "ht_tcp_server_write_to_socket ?fd bs w = (ok, w1)" by (cases "ht_tcp_server_write_to_socket ?fd bs w")
    note frame = write_to_socket_frame [OF send]
    have drop: "drop i ?xs = ?fd # drop (i + 1) ?xs" using True len by (simp add: Cons_nth_drop_Suc)
    have nth: "ht_bag_nth c i (rt_mem w) = Some ?fd" using int_bag.nth_law [OF inv(1)] True len by simp
    have i: "i + 1 < SIZE_MODULUS" using True bag_size_bound [OF inv(1)] by simp
    have ok1: "clients_ok c w1" using less.prems(1) clients_ok_net [OF frame(1)] by simp
    have fd: "steady fd w1 \<and> net_sent w1 fd = net_sent w fd @ (if fd = ?fd then bs else [])" (is "?steady \<and> ?sent")
    proof (cases "fd = ?fd")
      case True
      from write_to_socket_steady [OF less.prems(3), of bs] obtain w2 where
        "ht_tcp_server_write_to_socket fd bs w = (True, w2)" "net_sent w2 fd = net_sent w fd @ bs" "steady fd w2" by blast
      with True send show ?thesis by simp
    qed (use frame(2) [of fd] less.prems(3) in \<open>simp add: steady_def\<close>)
    then have ?steady ?sent by simp_all
    have bs: "(if fd \<in> set (drop i ?xs) then bs else []) =
        (if fd = ?fd then bs else []) @ (if fd \<in> set (drop (i + 1) ?xs) then bs else [])"
      using inv(3) drop distinct_drop [OF inv(3), of i] by auto
    show ?thesis
    proof (cases ok)
      case ok: True
      have "bag_size c - (i + 1) < bag_size c - i" "i + 1 \<le> bag_size c" using True by simp_all
      from less.hyps [OF this(1) ok1 less.prems(2) \<open>?steady\<close> this(2)] obtain r where
        run: "write_clients_from bs (i + 1) c w1 = Some r" and r: "written_to fd (if fd \<in> set (drop (i + 1) ?xs) then bs else []) w1 r" by blast
      have "write_clients_from bs i c w = write_clients_from bs (i + 1) c w1"
        using True nth send ok i by (subst write_clients_from.simps) (simp add: size_add_def)
      with run have "write_clients_from bs i c w = Some r" by simp
      with written_to_trans [OF frame(1) \<open>?sent\<close> r] show ?thesis unfolding bs by blast
    next
      case failed: False
      obtain w2 where "ht_tcp_server_write_to_socket fd bs w = (True, w2)"
        by (rule write_to_socket_steady [OF less.prems(3)])
      then have other: "?fd \<noteq> fd" using send failed by auto
      from remove_client [OF ok1 True other] obtain c' where c': "ht_bag_remove_nth sizeof_int c i (rt_mem w1) = Some (c', rt_mem w1)"
        "clients_ok c' w1" "bag_size c' = bag_size c - 1" "fd \<in> set (bag_list c') \<longleftrightarrow> fd \<in> set ?xs"
        "fd \<in> set (drop i (bag_list c')) \<longleftrightarrow> fd \<in> set (drop i ?xs)" by blast
      have "bag_size c' - i < bag_size c - i" "i \<le> bag_size c'" "fd \<in> set (bag_list c')" using True c'(3,4) less.prems(2) by simp_all
      from less.hyps [OF this(1) c'(2) this(3) \<open>?steady\<close> this(2)] obtain r where
        run: "write_clients_from bs i c' w1 = Some r" and r: "written_to fd (if fd \<in> set (drop i ?xs) then bs else []) w1 r"
        unfolding c'(5) by blast
      have again: "size_add (size_sub i 1) 1 = i" using i by (intro size_add_back) simp
      have "write_clients_from bs i c w = write_clients_from bs i c' w1"
        using True nth send failed c'(1)
        by (subst write_clients_from.simps) (simp add: again [unfolded One_nat_def])
      with run have "write_clients_from bs i c w = Some r" by simp
      moreover have "net_sent w1 fd = net_sent w fd @ []" using \<open>?sent\<close> other by simp
      note written_to_trans [OF frame(1) this r]
      ultimately show ?thesis by auto
    qed
  qed
qed

section \<open>The clients as a sink of bytes\<close>

text \<open>
  The listener \<open>l\<close> is \<open>listener\<close> but for the flag, its server \<open>a\<close> with the mutex \<open>y\<close> is running and has the client \<open>fd\<close>; while the flag is not
  set, the client has been sent \<open>sent\<close> and no more.
\<close>

definition serves :: "int \<Rightarrow> addr \<Rightarrow> addr \<Rightarrow> 's tcp_world_scheme \<Rightarrow> bool" where
  "serves fd a y w \<longleftrightarrow> (\<exists>server. tcp_servers w a = Some server \<and> ht_tcp_server_is_running server \<and>
     srv_client_mutex server = Some y \<and> rt_locks w y = Some False \<and>
     clients_ok (srv_client_sock_fd server) w \<and> fd \<in> set (bag_list (srv_client_sock_fd server)) \<and> steady fd w)"

definition tcp_at :: "int \<Rightarrow> HT_TCPListener \<Rightarrow> addr \<Rightarrow> addr \<Rightarrow> byte list \<Rightarrow> addr \<Rightarrow> 's tcp_world_scheme \<Rightarrow> bool" where
  "tcp_at fd listener a y sent l w \<longleftrightarrow> serves fd a y w \<and> tcp_tcp_server listener = Some a \<and>
     (\<exists>flushed. tcp_listeners w l = Some (listener\<lparr>tcp_was_flushed := flushed\<rparr>) \<and> (\<not> flushed \<longrightarrow> net_sent w fd = sent))"

lemma server_write_ok:
  assumes "serves fd a y w"
  shows "\<exists>w'. ht_tcp_server_write a bs w = Some w' \<and> serves fd a y w' \<and> net_sent w' fd = net_sent w fd @ bs \<and>
    rt_mem w' = rt_mem w \<and> rt_locks w' = rt_locks w \<and> tcp_listeners w' = tcp_listeners w"
proof -
  from assms obtain server where s: "tcp_servers w a = Some server" "ht_tcp_server_is_running server" "srv_client_mutex server = Some y"
    "rt_locks w y = Some False" "clients_ok (srv_client_sock_fd server) w" "fd \<in> set (bag_list (srv_client_sock_fd server))" "steady fd w"
    by (auto simp: serves_def)
  let ?w = "w\<lparr>rt_locks := (rt_locks w)(y \<mapsto> True)\<rparr>" and ?c = "srv_client_sock_fd server"
  have "clients_ok ?c ?w" "steady fd ?w" using s(5,7) by (simp_all add: clients_ok_locks steady_def)
  from write_clients_ok [OF this(1) s(6) this(2), of 0 bs] s(6) obtain c w1 where
    run: "write_clients_from bs 0 ?c ?w = Some (c, w1)" and w1: "net_only ?w w1" "clients_ok c w1" "fd \<in> set (bag_list c)"
      "steady fd w1" "net_sent w1 fd = net_sent w fd @ bs" by (auto simp: written_to_def)
  note net = net_onlyD [OF w1(1)]
  let ?w' = "set_server a (server\<lparr>srv_client_sock_fd := c\<rparr>) w1\<lparr>rt_locks := rt_locks w\<rparr>"
  have "ht_tcp_server_write a bs w = Some ?w'"
    using s run net by (simp add: ht_tcp_server_write_def ht_mutex_lock_def ht_mutex_unlock_def set_server_def fun_upd_idem)
  moreover have "serves fd a y ?w'"
    using s w1 by (simp add: serves_def set_server_def ht_tcp_server_is_running_def clients_ok_def steady_def)
  ultimately show ?thesis using w1(5) net by (intro exI [of _ ?w']) (simp add: set_server_def)
qed

lemma tcp_flush_law:
  assumes "tcp_at fd listener a y sent l w"
  shows "\<exists>w'. ht_tcp_listener_f_flush l bs w = Some w' \<and> tcp_at fd listener a y sent l w' \<and> net_sent w' fd = net_sent w fd @ bs \<and>
           rt_mem w' = rt_mem w \<and> rt_locks w' = rt_locks w"
proof -
  from assms obtain flushed where l: "tcp_listeners w l = Some (listener\<lparr>tcp_was_flushed := flushed\<rparr>)" "tcp_tcp_server listener = Some a"
    and "serves fd a y w" by (auto simp: tcp_at_def)
  from server_write_ok [OF this(3), of bs] obtain w1 where w1: "ht_tcp_server_write a bs w = Some w1" "serves fd a y w1"
    "net_sent w1 fd = net_sent w fd @ bs" "rt_mem w1 = rt_mem w" "rt_locks w1 = rt_locks w" "tcp_listeners w1 = tcp_listeners w" by blast
  let ?w = "set_listener l (listener\<lparr>tcp_was_flushed := True\<rparr>) w1"
  have "serves fd a y ?w" using w1(2) by (simp add: serves_def set_listener_def clients_ok_def steady_def)
  with l w1 show ?thesis
    by (intro exI [of _ ?w]) (auto simp: ht_tcp_listener_f_flush_def tcp_at_def set_listener_def)
qed

interpretation tcp_sink: byte_sink ht_tcp_listener_f_flush "tcp_at fd listener a y sent" "\<lambda>l w. net_sent w fd" for fd listener a y sent
  by unfold_locales (rule tcp_flush_law)

section \<open>An open listener\<close>

definition tcp_open :: "int \<Rightarrow> addr \<Rightarrow> HT_TCPListener \<Rightarrow> addr \<Rightarrow> addr \<Rightarrow> addr \<Rightarrow> 's tcp_world_scheme \<Rightarrow> bool" where
  "tcp_open fd l listener a x y w \<longleftrightarrow>
     tcp_listeners w l = Some listener \<and> tcp_tcp_server listener = Some a \<and> \<not> tcp_was_flushed listener \<and>
     tcp_push_action_mutex listener = Some x \<and> rt_locks w x = Some False \<and> x \<noteq> y \<and>
     lb_inv (tcp_buffer listener) w \<and> serves fd a y w"

lemma serves_locks: "serves fd a y w \<Longrightarrow> L y = Some False \<Longrightarrow> serves fd a y (w\<lparr>rt_locks := L\<rparr>)"
  by (auto simp: serves_def clients_ok_def steady_def)

lemma serves_listener: "serves fd a y (set_listener l listener w) = serves fd a y w"
  by (simp add: serves_def set_listener_def clients_ok_def steady_def)

lemma lb_inv_state: "lb_inv b s \<Longrightarrow> rt_mem s' = rt_mem s \<Longrightarrow> lb_inv b s'"
  by (simp add: lb_inv_def lb_live_def split: option.splits)

text \<open>
  The listener sends nothing of a chunk or all of it: when the buffer was flushed on the way, what is left in it is sent too.
\<close>

lemma tcp_callback_ok:
  fixes w :: "'s tcp_world_scheme"
  assumes op: "tcp_open fd l listener a x y w"
  shows "\<exists>w' b. ht_tcp_listener_callback e object kl events True l w = Some w' \<and> tcp_open fd l (listener\<lparr>tcp_buffer := b\<rparr>) a x y w' \<and>
    (net_sent w' fd = net_sent w fd \<and> lb_pending b = lb_pending (tcp_buffer listener) @ events \<or>
     net_sent w' fd = net_sent w fd @ lb_pending (tcp_buffer listener) @ events \<and> lb_pending b = [])"
proof -
  let ?L = "(rt_locks w)(x \<mapsto> True)" and ?sent = "net_sent w fd"
  let ?w = "w\<lparr>rt_locks := ?L\<rparr>"
  from op have l: "tcp_listeners w l = Some listener" "tcp_tcp_server listener = Some a" "\<not> tcp_was_flushed listener"
    "tcp_push_action_mutex listener = Some x" "rt_locks w x = Some False" "x \<noteq> y" "lb_inv (tcp_buffer listener) w" "serves fd a y w"
    by (simp_all add: tcp_open_def)
  have y: "rt_locks w y = Some False" using l(8) by (auto simp: serves_def)
  have sv: "serves fd a y ?w" using serves_locks [OF l(8), of ?L] y l(6) by simp
  then obtain server where server: "tcp_servers w a = Some server" "ht_tcp_server_is_running server" by (auto simp: serves_def)
  have same: "listener\<lparr>tcp_was_flushed := False\<rparr> = listener" using l(3) by simp
  have at: "tcp_at fd listener a y ?sent l ?w" using sv l by (auto simp: tcp_at_def intro!: exI [of _ False])
  have lb: "lb_inv (tcp_buffer listener) ?w" using lb_inv_state [OF l(7), of ?w] by simp
  from tcp_sink.process_serialized_ok [OF lb at, of events] obtain b w2 where
    run: "ht_listener_buffer_process_serialized_events ht_tcp_listener_f_flush l events (tcp_buffer listener) ?w = Some (b, w2)"
    and ab: "absorbs (tcp_at fd listener a y ?sent) (\<lambda>l w. net_sent w fd) l (tcp_buffer listener) ?w events b w2" by blast
  from ab obtain flushed where w2: "lb_inv b w2" "serves fd a y w2" "tcp_listeners w2 l = Some (listener\<lparr>tcp_was_flushed := flushed\<rparr>)"
    "\<not> flushed \<longrightarrow> net_sent w2 fd = ?sent" "net_sent w2 fd @ lb_pending b = ?sent @ lb_pending (tcp_buffer listener) @ events"
    "rt_locks w2 = ?L" by (auto simp: absorbs_def tcp_at_def)
  let ?l3 = "listener\<lparr>tcp_was_flushed := flushed, tcp_buffer := b\<rparr>"
  let ?w3 = "set_listener l ?l3 w2"
  have w3: "store_buffer l (b, w2) = Some ?w3" "tcp_listeners ?w3 l = Some ?l3" "rt_locks ?w3 = ?L" "lb_inv b ?w3"
    using w2(3,6) lb_inv_state [OF w2(1), of ?w3] by (simp_all add: store_buffer_def set_listener_def)
  have unlock: "ht_mutex_unlock x v = Some (v\<lparr>rt_locks := rt_locks w\<rparr>)" if "rt_locks v = ?L" for v :: "'s tcp_world_scheme"
    using that l(5) by (simp add: ht_mutex_unlock_def fun_upd_idem)
  have opened: "tcp_open fd l (listener\<lparr>tcp_buffer := c\<rparr>) a x y (v\<lparr>rt_locks := rt_locks w\<rparr>)"
    if "tcp_listeners v l = Some (listener\<lparr>tcp_buffer := c\<rparr>)" "serves fd a y v" "lb_inv c v" for c and v :: "'s tcp_world_scheme"
    using that l serves_locks [OF that(2), of "rt_locks w"] y lb_inv_state [OF that(3), of "v\<lparr>rt_locks := rt_locks w\<rparr>"]
    by (simp add: tcp_open_def)
  show ?thesis
  proof (cases flushed)
    case False
    let ?w' = "?w3\<lparr>rt_locks := rt_locks w\<rparr>"
    have "ht_tcp_listener_callback e object kl events True l w = Some ?w'"
      using l server run w3 False unlock [OF w3(3)]
      by (simp add: ht_tcp_listener_callback_def ht_tcp_listener_push_events_def ht_mutex_lock_def)
    moreover have "tcp_open fd l (listener\<lparr>tcp_buffer := b\<rparr>) a x y ?w'"
      using opened [of ?w3 b] w2(2) w3(2,4) False l(3) by (simp add: serves_listener)
    moreover have "net_sent ?w' fd = ?sent" "lb_pending b = lb_pending (tcp_buffer listener) @ events"
      using w2(4,5) False by (simp_all add: set_listener_def)
    ultimately show ?thesis by blast
  next
    case True
    have "tcp_at fd (listener\<lparr>tcp_buffer := b\<rparr>) a y ?sent l ?w3"
      using w2(2) w3(2) l(2) True by (auto simp: tcp_at_def serves_listener intro!: exI [of _ True])
    from tcp_sink.buffer_flush_ok [OF w3(4) this] obtain w4 where
      run2: "ht_listener_buffer_flush ht_tcp_listener_f_flush l b ?w3 = Some (b\<lparr>lb_usage := 0\<rparr>, w4)"
      and ab2: "absorbs (tcp_at fd (listener\<lparr>tcp_buffer := b\<rparr>) a y ?sent) (\<lambda>l w. net_sent w fd) l b ?w3 [] (b\<lparr>lb_usage := 0\<rparr>) w4" by blast
    from ab2 obtain f4 where w4: "lb_inv (b\<lparr>lb_usage := 0\<rparr>) w4" "serves fd a y w4" "rt_locks w4 = ?L"
      "tcp_listeners w4 l = Some (listener\<lparr>tcp_buffer := b, tcp_was_flushed := f4\<rparr>)" "net_sent w4 fd = net_sent w2 fd @ lb_pending b"
      using w3(3) by (auto simp: absorbs_def tcp_at_def set_listener_def)
    let ?b = "b\<lparr>lb_usage := 0\<rparr>"
    let ?w5 = "set_listener l (listener\<lparr>tcp_buffer := ?b, tcp_was_flushed := False\<rparr>) w4"
    have fl: "ht_tcp_listener_flush l ?w3 = Some (set_listener l (listener\<lparr>tcp_was_flushed := f4, tcp_buffer := ?b\<rparr>) w4)"
      using w3(2) run2 w4(4) by (simp add: ht_tcp_listener_flush_def store_buffer_def)
    have "ht_tcp_listener_callback e object kl events True l w = Some (?w5\<lparr>rt_locks := rt_locks w\<rparr>)"
      using l server run w3(1,2) True fl unlock [of ?w5] w4(3)
      by (simp add: ht_tcp_listener_callback_def ht_tcp_listener_push_events_def ht_mutex_lock_def set_listener_def)
    moreover have "lb_inv ?b ?w5" using lb_inv_state [OF w4(1), of ?w5] by (simp add: set_listener_def)
    then have "tcp_open fd l (listener\<lparr>tcp_buffer := ?b\<rparr>) a x y (?w5\<lparr>rt_locks := rt_locks w\<rparr>)"
      using opened [of ?w5 ?b] w4(2) l(3) by (simp add: serves_listener) (simp add: set_listener_def)
    moreover have "net_sent (?w5\<lparr>rt_locks := rt_locks w\<rparr>) fd = ?sent @ lb_pending (tcp_buffer listener) @ events"
      using w4(5) w2(5) by (simp add: set_listener_def)
    ultimately show ?thesis by (metis lb_pending_empty)
  qed
qed

text \<open>
  Chunks one after the other: the client has been sent what was in the buffer and the first \<open>n\<close> chunks, or nothing, and the rest is in the
  buffer.
\<close>

lemma tcp_feed_ok:
  assumes "tcp_open fd l listener a x y w"
  shows "\<exists>w' b n. feed (ht_tcp_listener_callback e object kl) l True chunks w = Some w' \<and>
    tcp_open fd l (listener\<lparr>tcp_buffer := b\<rparr>) a x y w' \<and> n \<le> length chunks \<and>
    (if n = 0 then net_sent w' fd = net_sent w fd \<and> lb_pending b = lb_pending (tcp_buffer listener) @ concat chunks
     else net_sent w' fd = net_sent w fd @ lb_pending (tcp_buffer listener) @ concat (take n chunks) \<and> lb_pending b = concat (drop n chunks))"
  using assms
proof (induction chunks rule: rev_induct)
  case Nil
  then show ?case by (intro exI [of _ w] exI [of _ "tcp_buffer listener"] exI [of _ 0]) simp
next
  case (snoc bs chunks)
  from snoc.IH [OF snoc.prems] obtain w1 b1 n where
    run: "feed (ht_tcp_listener_callback e object kl) l True chunks w = Some w1" and op: "tcp_open fd l (listener\<lparr>tcp_buffer := b1\<rparr>) a x y w1"
    and n: "n \<le> length chunks" "if n = 0 then net_sent w1 fd = net_sent w fd \<and> lb_pending b1 = lb_pending (tcp_buffer listener) @ concat chunks
      else net_sent w1 fd = net_sent w fd @ lb_pending (tcp_buffer listener) @ concat (take n chunks) \<and> lb_pending b1 = concat (drop n chunks)"
    by blast
  from tcp_callback_ok [OF op, of e object kl bs] obtain w2 b2 where
    step: "ht_tcp_listener_callback e object kl bs True l w1 = Some w2" "tcp_open fd l (listener\<lparr>tcp_buffer := b2\<rparr>) a x y w2"
    and out: "net_sent w2 fd = net_sent w1 fd \<and> lb_pending b2 = lb_pending b1 @ bs \<or>
      net_sent w2 fd = net_sent w1 fd @ lb_pending b1 @ bs \<and> lb_pending b2 = []" by auto
  have fe: "feed (ht_tcp_listener_callback e object kl) l True (chunks @ [bs]) w = Some w2" using run step(1) by (simp add: feed_snoc)
  from out show ?case
  proof
    assume "net_sent w2 fd = net_sent w1 fd \<and> lb_pending b2 = lb_pending b1 @ bs"
    with fe step(2) n show ?thesis
      by (intro exI [of _ w2] exI [of _ b2] exI [of _ n]) (auto split: if_splits)
  next
    assume "net_sent w2 fd = net_sent w1 fd @ lb_pending b1 @ bs \<and> lb_pending b2 = []"
    moreover have "concat (take n chunks) @ concat (drop n chunks) = concat chunks" by (metis append_take_drop_id concat_append)
    ultimately show ?thesis using fe step(2) n
      by (intro exI [of _ w2] exI [of _ b2] exI [of _ "length (chunks @ [bs])"]) (auto split: if_splits)
  qed
qed

section \<open>A new client\<close>

text \<open>The listener is open and its server runs and has room for the client \<open>fd\<close>, for which the program wants no callback.\<close>

definition tcp_accepts :: "int \<Rightarrow> addr \<Rightarrow> HT_TCPListener \<Rightarrow> addr \<Rightarrow> addr \<Rightarrow> addr \<Rightarrow> 's tcp_world_scheme \<Rightarrow> bool" where
  "tcp_accepts fd l listener a x y w \<longleftrightarrow>
     tcp_listeners w l = Some listener \<and> tcp_tcp_server listener = Some a \<and> \<not> tcp_was_flushed listener \<and>
     tcp_client_connected_callback listener = None \<and>
     tcp_push_action_mutex listener = Some x \<and> rt_locks w x = Some False \<and> x \<noteq> y \<and> lb_inv (tcp_buffer listener) w \<and>
     0 \<le> fd \<and> steady fd w \<and>
     (\<exists>server. tcp_servers w a = Some server \<and> ht_tcp_server_is_running server \<and> srv_client_connected_ud server = Some l \<and>
        srv_client_mutex server = Some y \<and> rt_locks w y = Some False \<and> clients_ok (srv_client_sock_fd server) w \<and>
        bag_size (srv_client_sock_fd server) < bag_capacity (srv_client_sock_fd server) \<and> fd \<notin> set (bag_list (srv_client_sock_fd server)))"

definition pushes_to :: "int \<Rightarrow> addr \<Rightarrow> addr \<Rightarrow> 's tcp_world_scheme \<Rightarrow> bool" where
  "pushes_to fd l x w \<longleftrightarrow>
     (\<exists>listener. tcp_listeners w l = Some listener \<and> tcp_last_client_sock_fd listener = fd \<and> tcp_push_action_mutex listener = Some x) \<and>
     rt_locks w x = Some False \<and> steady fd w"

lemma pusher_ok:
  assumes "pushes_to fd l x w"
  obtains w' where "ht_tcp_listener_metadata_pusher bs True l w = Some w'" and "pushes_to fd l x w'" and "net_only w w'"
    and "net_sent w' fd = net_sent w fd @ bs"
proof -
  let ?w = "w\<lparr>rt_locks := (rt_locks w)(x \<mapsto> True)\<rparr>"
  have "steady fd ?w" using assms by (simp add: pushes_to_def steady_def)
  from write_to_socket_steady [OF this, of bs] obtain w1 where
    w1: "ht_tcp_server_write_to_socket fd bs ?w = (True, w1)" "net_sent w1 fd = net_sent w fd @ bs" "steady fd w1" by auto
  from write_to_socket_frame(1) [OF w1(1)] obtain ks cs where ks: "w1 = ?w\<lparr>net_sends := ks, net_sent := cs\<rparr>" by (auto simp: net_only_def)
  let ?w' = "w\<lparr>net_sends := ks, net_sent := cs\<rparr>"
  have locks: "rt_locks w x = Some False" using assms by (simp add: pushes_to_def)
  then have "ht_mutex_unlock x w1 = Some ?w'" by (simp add: ks ht_mutex_unlock_def fun_upd_idem)
  then have "ht_tcp_listener_metadata_pusher bs True l w = Some ?w'"
    using assms w1(1) by (auto simp: ht_tcp_listener_metadata_pusher_def pushes_to_def ht_mutex_lock_def)
  moreover have "pushes_to fd l x ?w'" "net_only w ?w'" "net_sent ?w' fd = net_sent w fd @ bs"
    using assms w1(2,3) unfolding ks by (auto simp: pushes_to_def steady_def net_only_def)
  ultimately show thesis by (rule that)
qed

lemma pusher_takes: "takes (pushes_to fd l x) ht_tcp_listener_metadata_pusher l"
  unfolding takes_def by (metis pusher_ok)

lemma pusher_feed:
  assumes "pushes_to fd l x w" and "feed ht_tcp_listener_metadata_pusher l True chunks w = Some w'"
  shows "net_only w w' \<and> net_sent w' fd = net_sent w fd @ concat chunks \<and> pushes_to fd l x w'"
  using assms
proof (induction chunks arbitrary: w)
  case Nil
  then show ?case by (simp add: net_only_refl)
next
  case (Cons bs chunks)
  from pusher_ok [OF Cons.prems(1), of bs] obtain w1 where w1: "ht_tcp_listener_metadata_pusher bs True l w = Some w1"
    "pushes_to fd l x w1" "net_only w w1" "net_sent w1 fd = net_sent w fd @ bs" by blast
  with Cons.IH [OF w1(2)] Cons.prems(2) net_only_trans [OF w1(3)] show ?case by (auto simp: feed_Cons)
qed

lemma add_client:
  assumes ok: "clients_ok clients w" and room: "bag_size clients < bag_capacity clients" and new: "fd \<notin> set (bag_list clients)"
  obtains c where "ht_bag_add sizeof_int clients fd (rt_mem w) = Some (HT_ERR_OK, c, rt_mem w)" and "clients_ok c w"
    and "bag_list c = bag_list clients @ [fd]"
proof -
  have inv: "bag_inv sizeof_int clients (rt_mem w)" "alloc_wf (rt_mem w)" using ok by (simp_all add: clients_ok_def)
  from int_bag.add_law [OF inv, of fd] obtain err c m where add: "ht_bag_add sizeof_int clients fd (rt_mem w) = Some (err, c, m)"
    and c: "bag_inv sizeof_int c m" "err = HT_ERR_OK \<longrightarrow> bag_list c = bag_list clients @ [fd]" by auto
  have same: "err = HT_ERR_OK" "m = rt_mem w" "bag_capacity c = bag_capacity clients" "bag_min_capacity c = bag_min_capacity clients"
    using add room by (auto simp: ht_bag_add_def ht_bag_set_def bind_eq_Some_conv split: if_splits)
  with c ok new show thesis by (intro that [of c]) (use add in \<open>simp_all add: clients_ok_def\<close>)
qed

text \<open>A new client is first sent the description of the classes, and then is one of the clients.\<close>

lemma tcp_connect_ok:
  fixes s :: "('x tcp_world_scheme, 's) reg_scheme"
  assumes desc: "describable s" and acc: "tcp_accepts fd l listener a x y (world s)"
  shows "\<exists>s1. ht_tcp_server_run_turn version e repr user_callback fd a s = Some s1 \<and>
    tcp_open fd l (listener\<lparr>tcp_last_client_sock_fd := fd\<rparr>) a x y (world s1) \<and>
    net_sent (world s1) fd = net_sent (world s) fd @ metadata_bytes version e s \<and> klasses s1 = klasses s"
proof -
  from acc obtain server where l: "tcp_listeners (world s) l = Some listener" "tcp_tcp_server listener = Some a" "\<not> tcp_was_flushed listener"
    "tcp_client_connected_callback listener = None" "tcp_push_action_mutex listener = Some x" "rt_locks (world s) x = Some False" "x \<noteq> y"
    "lb_inv (tcp_buffer listener) (world s)" "0 \<le> fd" "steady fd (world s)"
    and server: "tcp_servers (world s) a = Some server" "ht_tcp_server_is_running server" "srv_client_connected_ud server = Some l"
      "srv_client_mutex server = Some y" "rt_locks (world s) y = Some False" "clients_ok (srv_client_sock_fd server) (world s)"
      "bag_size (srv_client_sock_fd server) < bag_capacity (srv_client_sock_fd server)" "fd \<notin> set (bag_list (srv_client_sock_fd server))"
    by (auto simp: tcp_accepts_def)
  let ?l = "listener\<lparr>tcp_last_client_sock_fd := fd\<rparr>"
  let ?w = "set_listener l ?l (world s)"
  have q: "pushes_to fd l x ?w" using l by (simp add: pushes_to_def set_listener_def steady_def)
  have d: "describable (s\<lparr>world := ?w\<rparr>)" "metadata_bytes version e (s\<lparr>world := ?w\<rparr>) = metadata_bytes version e s"
    using desc by (simp_all add: world_simps)
  from push_metadata_ok [OF d(1) pusher_takes [of fd l x], of version e repr] q obtain s2 chunks n where
    push: "ht_timeline_listener_push_metadata version e repr ht_tcp_listener_metadata_pusher l True (s\<lparr>world := ?w\<rparr>) = Some (n, s2)"
    and fe: "feed ht_tcp_listener_metadata_pusher l True chunks ?w = Some (world s2)"
    and bytes: "concat chunks = metadata_bytes version e s" and same: "same_registry (s\<lparr>world := ?w\<rparr>) s2"
    by (auto simp: d(2))
  from pusher_feed [OF q fe] have w2: "net_only ?w (world s2)" "net_sent (world s2) fd = net_sent (world s) fd @ metadata_bytes version e s"
    "steady fd (world s2)" by (auto simp: bytes pushes_to_def set_listener_def)
  note net = net_onlyD [OF w2(1)]
  have conn: "ht_tcp_listener_client_connected version e repr user_callback fd l s = Some s2"
    using l push net(4) by (simp add: ht_tcp_listener_client_connected_def set_listener_def)
  let ?c = "srv_client_sock_fd server"
  have locked: "clients_ok ?c (world s2)" using server(6) clients_ok_net [OF w2(1), of ?c] by (simp add: clients_ok_def set_listener_def)
  from add_client [OF this server(7,8)] obtain c where add: "ht_bag_add sizeof_int ?c fd (rt_mem (world s2)) = Some (HT_ERR_OK, c, rt_mem (world s2))"
    and c: "clients_ok c (world s2)" "bag_list c = bag_list ?c @ [fd]" by blast
  let ?w3 = "set_server a (server\<lparr>srv_client_sock_fd := c\<rparr>) (world s2)"
  have sv: "tcp_servers (world s2) a = Some server" "rt_locks (world s2) y = Some False" "rt_locks (world s2) x = Some False"
    using net server(1,5) l(6) by (simp_all add: set_listener_def)
  have "ht_tcp_server_run_turn version e repr user_callback fd a s = Some (s2\<lparr>world := ?w3\<rparr>)"
    using server l(9) conn sv add
    by (simp add: ht_tcp_server_run_turn_def ht_mutex_lock_def ht_mutex_unlock_def set_server_def fun_upd_idem)
  moreover have "serves fd a y ?w3"
    using sv server(2,4) c w2(3) by (simp add: serves_def set_server_def ht_tcp_server_is_running_def clients_ok_def steady_def)
  then have "tcp_open fd l ?l a x y ?w3"
    using l sv(3) net(1,4) lb_inv_state [OF l(8), of ?w3] by (simp add: tcp_open_def set_server_def set_listener_def)
  moreover have "klasses s2 = klasses s" using same by (auto simp: same_registry_def)
  ultimately show ?thesis using w2(2) by (intro exI [of _ "s2\<lparr>world := ?w3\<rparr>"]) (simp add: set_server_def)
qed

section \<open>Stopping a listener\<close>

text \<open>The operations of the server give back the locks they take.\<close>

lemma write_clients_locks:
  assumes "write_clients_from bs i c w = Some r"
  shows "rt_locks (snd r) = rt_locks w"
proof (rule write_clients_from.raw_induct [where P = "\<lambda>bs i c w r. rt_locks (snd r) = rt_locks w", OF _ assms])
  fix f bs i c and w :: "'a tcp_world_scheme" and r
  assume IH: "\<And>bs i c w r. f bs i c w = Some r \<Longrightarrow> rt_locks (snd r) = rt_locks w"
    and run: "(if i < bag_size c
      then do {
        fd \<leftarrow> ht_bag_nth c i (rt_mem w);
        let (ok, w) = ht_tcp_server_write_to_socket fd bs w;
        if ok then f bs (size_add i 1) c w
        else do {
          (c, m) \<leftarrow> ht_bag_remove_nth sizeof_int c i (rt_mem w);
          f bs (size_add (size_sub i 1) 1) c (w\<lparr>rt_mem := m\<rparr>) } }
      else Some (c, w)) = Some r"
  show "rt_locks (snd r) = rt_locks w"
  proof (cases "i < bag_size c")
    case True
    with run obtain fd where nth: "ht_bag_nth c i (rt_mem w) = Some fd" by (auto simp: bind_eq_Some_conv)
    obtain ok w1 where "ht_tcp_server_write_to_socket fd bs w = (ok, w1)" by (cases "ht_tcp_server_write_to_socket fd bs w")
    note fd = nth this
    have locks: "rt_locks w1 = rt_locks w" by (rule net_onlyD(2) [OF write_to_socket_frame(1) [OF fd(2)]])
    from run True fd have "if ok then f bs (size_add i 1) c w1 = Some r
      else \<exists>c' m. f bs (size_add (size_sub i 1) 1) c' (w1\<lparr>rt_mem := m\<rparr>) = Some r"
      by (auto simp: bind_eq_Some_conv) blast
    with locks show ?thesis by (auto dest: IH split: if_splits)
  qed (use run in auto)
qed

text \<open>The mutex \<open>x\<close> is not locked.\<close>

definition not_held :: "addr \<Rightarrow> 's tcp_world_scheme \<Rightarrow> bool" where
  "not_held x w \<longleftrightarrow> rt_locks w x \<noteq> Some True"

lemma server_write_not_held:
  assumes "ht_tcp_server_write a bs w = Some w'" and "not_held x w"
  shows "not_held x w'"
proof -
  from assms(1) obtain server y w1 c w2 where "ht_mutex_lock y w = Some w1" "write_clients_from bs 0 (srv_client_sock_fd server) w1 = Some (c, w2)"
    "ht_mutex_unlock y (set_server a (server\<lparr>srv_client_sock_fd := c\<rparr>) w2) = Some w'"
    by (auto simp: ht_tcp_server_write_def bind_eq_Some_conv)
  with write_clients_locks [of bs 0 "srv_client_sock_fd server" w1 "(c, w2)"] assms(2) show ?thesis
    by (auto simp: not_held_def ht_mutex_lock_def ht_mutex_unlock_def set_server_def split: if_splits)
qed

lemma listener_flush_not_held:
  assumes "ht_tcp_listener_flush l w = Some w'" and "not_held x w"
  shows "not_held x w'" and "tcp_listeners w l \<noteq> None \<and> tcp_tcp_server (the (tcp_listeners w l)) \<noteq> None"
proof -
  from assms(1) obtain listener bs a w1 v where l: "tcp_listeners w l = Some listener" "tcp_tcp_server listener = Some a"
    "ht_tcp_server_write a bs w = Some w1" and v: "rt_locks w' = rt_locks w1"
    by (auto simp: ht_tcp_listener_flush_def ht_listener_buffer_flush_def ht_tcp_listener_f_flush_def store_buffer_def set_listener_def
        bind_eq_Some_conv)
  show "not_held x w'" using server_write_not_held [OF l(3) assms(2)] v by (simp add: not_held_def)
  show "tcp_listeners w l \<noteq> None \<and> tcp_tcp_server (the (tcp_listeners w l)) \<noteq> None" using l by simp
qed

lemma server_stop_not_held:
  assumes "ht_tcp_server_stop a w = Some w'" and "not_held x w"
  shows "not_held x w'"
  using assms
  by (auto simp: ht_tcp_server_stop_def not_held_def ht_mutex_lock_def ht_mutex_unlock_def set_server_def bind_eq_Some_conv Let_def
      split: if_splits option.splits)

lemma server_destroy_not_held:
  assumes "ht_tcp_server_destroy a w = Some w'" and "not_held x w"
  shows "not_held x w'"
proof -
  from assms(1) obtain w1 w2 m y where "ht_tcp_server_stop a w = Some w1" "ht_mutex_destroy y (w1\<lparr>rt_mem := m\<rparr>) = Some w2"
    "rt_locks w' = rt_locks w2"
    by (auto simp: ht_tcp_server_destroy_def bind_eq_Some_conv)
  with server_stop_not_held [of a w w1 x] assms(2) show ?thesis
    by (auto simp: not_held_def ht_mutex_destroy_def bind_eq_Some_conv split: if_splits)
qed

section \<open>Properties\<close>

text \<open>
  C39. Stopping a TCP listener is undefined in every state: the test at the start of \<^verbatim>\<open>ht_tcp_listener_stop\<close> is the wrong way round
  and does not return. On a listener that runs, the lock is given back too early and unlocked twice more at the end, when nobody
  holds it; on one that is stopped, the null pointer is used as a server. So is destroying a listener that runs.
\<close>

theorem tcp_listener_stop_undefined:
  assumes "tcp_listeners w l = Some listener"
  shows "ht_tcp_listener_stop l w = None \<and> (ht_tcp_listener_is_stopped listener \<or> ht_tcp_listener_destroy l w = None)"
proof -
  have stop: "ht_tcp_listener_stop l w = None"
  proof (rule ccontr)
    assume "ht_tcp_listener_stop l w \<noteq> None"
    then obtain x w1 w2 w3 listener3 a w4 m w5 w6 where locks: "ht_mutex_lock x w = Some w1"
        "(if \<not> ht_tcp_listener_is_stopped listener then ht_mutex_unlock x w1 else Some w1) = Some w2"
      and steps: "ht_tcp_listener_flush l w2 = Some w3" "ht_tcp_server_stop a w3 = Some w4"
        "ht_tcp_server_destroy a (w4\<lparr>rt_mem := m\<rparr>) = Some w5" "ht_mutex_unlock x (set_listener l listener3 w5) = Some w6"
      using assms by (auto simp: ht_tcp_listener_stop_def bind_eq_Some_conv Let_def)
    have w2: "tcp_listeners w2 l = Some listener"
      using locks assms by (auto simp: ht_mutex_lock_def ht_mutex_unlock_def split: if_splits)
    show False
    proof (cases "ht_tcp_listener_is_stopped listener")
      case True
      have "tcp_tcp_server listener = None" using True by (simp add: ht_tcp_listener_is_stopped_def)
      then have "ht_tcp_listener_flush l w2 = None"
        using w2 by (auto simp: ht_tcp_listener_flush_def ht_listener_buffer_flush_def ht_tcp_listener_f_flush_def bind_eq_None_conv)
      with steps(1) show False by simp
    next
      case False
      then have "not_held x w2" using locks by (auto simp: not_held_def ht_mutex_lock_def ht_mutex_unlock_def split: if_splits)
      note held = listener_flush_not_held(1) [OF steps(1) this]
      have "not_held x (w4\<lparr>rt_mem := m\<rparr>)" using server_stop_not_held [OF steps(2) held] by (simp add: not_held_def)
      with server_destroy_not_held [OF steps(3)] have "not_held x w5" by blast
      with steps(4) show False by (auto simp: not_held_def ht_mutex_unlock_def set_listener_def split: if_splits)
    qed
  qed
  then show ?thesis using assms by (simp add: ht_tcp_listener_destroy_def)
qed

definition demo_tcp_world :: tcp_world where
  "demo_tcp_world =
     \<lparr>rt_mem = mem_init [], rt_locks = Map.empty, rt_ids = (\<lambda>_. 0), rt_clock = of_nat, rt_ticks = 0, rt_last_thread = 0,
      net_sent = (\<lambda>_. []), net_sends = (\<lambda>fd. [3, 1]), net_setup = (4, True, True, True), tcp_servers = Map.empty, tcp_listeners = Map.empty\<rparr>"

definition demo_junk_listener :: HT_TCPListener where
  "demo_junk_listener =
     \<lparr>tcp_push_action_mutex = None, tcp_buffer = \<lparr>lb_data = None, lb_cells = [], lb_max_size = 0, lb_usage = 0\<rparr>, tcp_tcp_server = None,
      tcp_last_client_sock_fd = 0, tcp_was_flushed = False, tcp_client_connected_callback = None, tcp_client_connected_user_data = 0\<rparr>"

definition demo_junk_bag :: "int bag" where
  "demo_junk_bag = \<lparr>bag_min_capacity = 0, bag_capacity = 0, bag_size = 0, bag_data = None, bag_cells = []\<rparr>"

text \<open>A listener that was just created.\<close>

theorem tcp_listener_stop_undefined_witness:
  "\<exists>l w. ht_tcp_listener_create demo_junk_listener (tcp_buffer demo_junk_listener) demo_junk_bag 16 demo_tcp_world =
       Some (HT_ERR_OK, Some l, w) \<and> ht_tcp_listener_stop l w = None \<and> ht_tcp_listener_destroy l w = None"
proof -
  have "\<exists>l w listener. ht_tcp_listener_create demo_junk_listener (tcp_buffer demo_junk_listener) demo_junk_bag 16 demo_tcp_world =
      Some (HT_ERR_OK, Some l, w) \<and> tcp_listeners w l = Some listener \<and> tcp_tcp_server listener \<noteq> None"
    by (simp add: ht_tcp_listener_create_def ht_tcp_listener_init_def demo_tcp_world_def demo_junk_listener_def demo_junk_bag_def
        ht_listener_buffer_init_def ht_mutex_create_def ht_tcp_server_create_def ht_tcp_server_start_def ht_tcp_server_is_running_def
        ht_bag_init_def ht_alloc_def malloc_def libc_refuses_def mem_init_def set_listener_def set_server_def sizeof_HT_TCPListener_def
        sizeof_HT_TCPServer_def sizeof_HT_Thread_def sizeof_HT_Mutex_def sizeof_int_def PTRDIFF_MAX_def size_mul_def SIZE_MODULUS_def)
  then obtain l w listener where c: "ht_tcp_listener_create demo_junk_listener (tcp_buffer demo_junk_listener) demo_junk_bag 16 demo_tcp_world =
      Some (HT_ERR_OK, Some l, w)" "tcp_listeners w l = Some listener" "tcp_tcp_server listener \<noteq> None" by blast
  with tcp_listener_stop_undefined [OF c(2)] show ?thesis by (auto simp: ht_tcp_listener_is_stopped_def)
qed

end
