(* ===== verification/Tcp_Client_Stream.thy ===== *)
theory Tcp_Client_Stream
  imports Trace_Metadata
begin

text \<open>
  \<^verbatim>\<open>client_utils/tcp_client_stream.cpp\<close>: the stream of a client that is connected to a traced program.

  A thread of the stream receives chunks of bytes and queues them; the reader takes bytes from the queue and waits
  when it is empty. The first part of the theory has the operations of the class, with the turns of the
  receiving thread between them; the second has the two threads step by step, with the mutex and the condition variable.

  The network is a script: \<open>net_connects\<close> has the results of the calls of \<^verbatim>\<open>connect\<close>, each with what \<^verbatim>\<open>recv\<close>
  will return on that connection, where \<^term>\<open>None\<close> is an error; when a script is at its end the call does not return.
  The schedule is a script too: \<open>net_ahead\<close> says how many turns the receiver has done when the reader gets the lock,
  \<open>net_missed\<close> whether the closing of the connection falls between the test of a reader and its sleep, and \<open>net_busy\<close> whether the
  receiver is inside \<^verbatim>\<open>recv\<close> when the stream is stopped.
\<close>

section \<open>The class\<close>

type_synonym incoming = "byte list option list"

record TCPClientStream =
  tcs_datas :: "(nat \<times> byte list) list"
  tcs_sock_fd :: int
  tcs_joinable :: bool
  tcs_ip_address :: string
  tcs_port :: u16
  tcs_wait_for_server :: bool
  net_socket :: int
  net_connects :: "incoming option list"
  net_incoming :: incoming
  net_ahead :: "nat list"
  net_missed :: bool
  net_busy :: bool

definition BUFSIZE :: nat where
  "BUFSIZE = 1024"

definition tcs_is_connected :: "TCPClientStream \<Rightarrow> bool" where
  "tcs_is_connected s \<longleftrightarrow> tcs_sock_fd s \<noteq> - 1"

text \<open>At most \<open>n\<close> bytes are received at a time; what is left of a segment comes with the next call.\<close>

fun recv :: "nat \<Rightarrow> incoming \<Rightarrow> (byte list option \<times> incoming) option" where
  "recv n [] = None"
| "recv n (None # rest) = Some (None, rest)"
| "recv n (Some bs # rest) = Some (Some (take n bs), if n < length bs then Some (drop n bs) # rest else rest)"

text \<open>One turn of the loop of \<^verbatim>\<open>_run\<close>.\<close>

definition tcs_receive :: "TCPClientStream \<Rightarrow> TCPClientStream option" where
  "tcs_receive s =
     do { (r, rest) \<leftarrow> recv BUFSIZE (net_incoming s);
          let s = s\<lparr>net_incoming := rest\<rparr>;
          Some (case r of
                  None \<Rightarrow> s\<lparr>tcs_sock_fd := - 1\<rparr>
                | Some bs \<Rightarrow> if bs = [] then s\<lparr>tcs_sock_fd := - 1\<rparr> else s\<lparr>tcs_datas := tcs_datas s @ [(0, bs)]\<rparr>) }"

definition tcs_run_turn :: "TCPClientStream \<Rightarrow> TCPClientStream option" where
  "tcs_run_turn s = (if tcs_is_connected s then tcs_receive s else None)"

primrec run_ahead :: "nat \<Rightarrow> TCPClientStream \<Rightarrow> TCPClientStream" where
  "run_ahead 0 s = s"
| "run_ahead (Suc k) s = (case tcs_run_turn s of None \<Rightarrow> s | Some s \<Rightarrow> run_ahead k s)"

text \<open>The lock is taken when the receiver has done the next number of turns.\<close>

definition tcs_lock :: "TCPClientStream \<Rightarrow> TCPClientStream" where
  "tcs_lock s = (case net_ahead s of [] \<Rightarrow> s | k # ks \<Rightarrow> run_ahead k (s\<lparr>net_ahead := ks\<rparr>))"

text \<open>A reader that sleeps is woken by every chunk, and by the end of the connection unless that is missed.\<close>

partial_function (option) tcs_wait_for_data :: "TCPClientStream \<Rightarrow> (bool \<times> TCPClientStream) option" where
  "tcs_wait_for_data s =
     (if tcs_datas s \<noteq> [] \<or> \<not> tcs_is_connected s then Some (tcs_datas s \<noteq> [], s)
      else do { s \<leftarrow> tcs_run_turn s;
                if \<not> tcs_is_connected s \<and> net_missed s then None else tcs_wait_for_data s })"

definition tcs_pop_if_used :: "TCPClientStream \<Rightarrow> TCPClientStream" where
  "tcs_pop_if_used s =
     (case tcs_datas s of
        [] \<Rightarrow> s
      | (first, second) # rest \<Rightarrow> if length second = first then s\<lparr>tcs_datas := rest\<rparr> else s)"

text \<open>The elements of the chunks are signed characters.\<close>

definition tcs_read_byte :: "TCPClientStream \<Rightarrow> (int \<times> TCPClientStream) option" where
  "tcs_read_byte s =
     do { (ok, s) \<leftarrow> tcs_wait_for_data (tcs_lock s);
          if \<not> ok then Some (- 1, s)
          else case tcs_datas s of
            [] \<Rightarrow> None
          | (first, second) # rest \<Rightarrow>
              if first < length second
              then Some (sint (second ! first), tcs_pop_if_used (s\<lparr>tcs_datas := (first + 1, second) # rest\<rparr>))
              else None }"

partial_function (option) tcs_read_data_from ::
  "byte list \<Rightarrow> nat \<Rightarrow> TCPClientStream \<Rightarrow> (byte list option \<times> TCPClientStream) option" where
  "tcs_read_data_from buff n s =
     do { (ok, s) \<leftarrow> tcs_wait_for_data (tcs_lock s);
          if \<not> ok then Some (None, s)
          else case tcs_datas s of
            [] \<Rightarrow> None
          | (first, second) # rest \<Rightarrow> do {
              let bytes_count = min n (length second - first);
              let buff = buff @ take bytes_count (drop first second);
              let s = tcs_pop_if_used (s\<lparr>tcs_datas := (first + bytes_count, second) # rest\<rparr>);
              if n - bytes_count \<noteq> 0 then tcs_read_data_from buff (n - bytes_count) s else Some (Some buff, s) } }"

definition tcs_read_data :: "nat \<Rightarrow> TCPClientStream \<Rightarrow> (byte list option \<times> TCPClientStream) option" where
  "tcs_read_data = tcs_read_data_from []"

text \<open>
  Joining the receiver waits for a call of \<^verbatim>\<open>recv\<close> that is going on; what it returns is still handled, and
  the test of the loop then ends the thread.
\<close>

definition tcs_stop :: "TCPClientStream \<Rightarrow> TCPClientStream option" where
  "tcs_stop s =
     do { let connected = tcs_is_connected s;
          let s = (if connected then s\<lparr>tcs_sock_fd := - 1\<rparr> else s);
          if tcs_joinable s
          then do { s \<leftarrow> (if connected \<and> net_busy s then tcs_receive s else Some s); Some (s\<lparr>tcs_joinable := False\<rparr>) }
          else Some s }"

fun connect_loop :: "incoming option list \<Rightarrow> (incoming \<times> incoming option list) option" where
  "connect_loop [] = None"
| "connect_loop (None # attempts) = connect_loop attempts"
| "connect_loop (Some incoming # attempts) = Some (incoming, attempts)"

text \<open>Assigning a thread to one that can be joined ends the program (\<^verbatim>\<open>std::terminate\<close>).\<close>

definition tcs_connected :: "incoming \<Rightarrow> incoming option list \<Rightarrow> TCPClientStream \<Rightarrow> (bool \<times> TCPClientStream) option" where
  "tcs_connected incoming attempts s =
     (if tcs_joinable s then None
      else Some (True, s\<lparr>net_connects := attempts, net_incoming := incoming, tcs_joinable := True\<rparr>))"

definition tcs_start :: "TCPClientStream \<Rightarrow> (bool \<times> TCPClientStream) option" where
  "tcs_start s =
     do { s \<leftarrow> (if tcs_is_connected s then tcs_stop s else Some s);
          let s = s\<lparr>tcs_sock_fd := net_socket s\<rparr>;
          if tcs_sock_fd s < 0 then Some (False, s)
          else if tcs_wait_for_server s
          then do { (incoming, attempts) \<leftarrow> connect_loop (net_connects s); tcs_connected incoming attempts s }
          else case net_connects s of
            [] \<Rightarrow> None
          | None # attempts \<Rightarrow> do { s \<leftarrow> tcs_stop (s\<lparr>net_connects := attempts\<rparr>); Some (False, s) }
          | Some incoming # attempts \<Rightarrow> tcs_connected incoming attempts s }"

text \<open>The constructor, with the scripts of the network and of the schedule, and the methods as a stream.\<close>

definition new_tcp_client_stream ::
  "int \<Rightarrow> incoming option list \<Rightarrow> nat list \<Rightarrow> bool \<Rightarrow> bool \<Rightarrow> string \<Rightarrow> u16 \<Rightarrow> bool \<Rightarrow> TCPClientStream" where
  "new_tcp_client_stream sock connects ahead missed busy ip_address port wait_for_server =
     \<lparr>tcs_datas = [], tcs_sock_fd = - 1, tcs_joinable = False, tcs_ip_address = ip_address, tcs_port = port,
      tcs_wait_for_server = wait_for_server, net_socket = sock, net_connects = connects, net_incoming = [],
      net_ahead = ahead, net_missed = missed, net_busy = busy\<rparr>"

definition tcp_client_stream :: "TCPClientStream Stream" where
  "tcp_client_stream =
     \<lparr>st_start = tcs_start, st_stop = tcs_stop, st_read_byte = tcs_read_byte, st_read_data = tcs_read_data,
      st_is_continuous = True\<rparr>"

section \<open>The bytes a stream delivers\<close>

text \<open>What a connection delivers until it is closed; \<^term>\<open>None\<close> if it is never closed.\<close>

fun delivered :: "incoming \<Rightarrow> byte list option" where
  "delivered [] = None"
| "delivered (None # rest) = Some []"
| "delivered (Some [] # rest) = Some []"
| "delivered (Some (b # bs) # rest) = map_option (\<lambda>cs. b # bs @ cs) (delivered rest)"

definition queued :: "(nat \<times> byte list) list \<Rightarrow> byte list" where
  "queued datas = concat (map (\<lambda>(first, second). drop first second) datas)"

text \<open>No chunk of the queue is used up, and the end of the connection is not missed.\<close>

definition tcp_ok :: "TCPClientStream \<Rightarrow> bool" where
  "tcp_ok s \<longleftrightarrow> (\<forall>(first, second)\<in>set (tcs_datas s). first < length second) \<and> \<not> net_missed s"

definition tcp_holds :: "TCPClientStream \<Rightarrow> byte list \<Rightarrow> bool" where
  "tcp_holds s bs \<longleftrightarrow> tcp_ok s \<and>
     (if tcs_is_connected s
      then case delivered (net_incoming s) of None \<Rightarrow> False | Some cs \<Rightarrow> bs = queued (tcs_datas s) @ cs
      else bs = queued (tcs_datas s))"

lemma queued_simps [simp]: "queued [] = []" "queued ((i, v) # ds) = drop i v @ queued ds" "queued (ds @ es) = queued ds @ queued es"
  by (simp_all add: queued_def)

lemma recv_delivered:
  assumes "delivered inc = Some cs" and "0 < n"
  obtains r rest where "recv n inc = Some (r, rest)"
    and "r = None \<or> r = Some [] \<Longrightarrow> cs = []"
    and "\<And>bs. r = Some bs \<Longrightarrow> bs \<noteq> [] \<Longrightarrow> \<exists>ds. delivered rest = Some ds \<and> cs = bs @ ds"
proof (cases inc rule: delivered.cases)
  case (4 b bs rest)
  with assms obtain ds where ds: "delivered rest = Some ds" "cs = b # bs @ ds" by auto
  have "\<exists>es. delivered (if n < length (b # bs) then Some (drop n (b # bs)) # rest else rest) = Some es \<and>
      cs = take n (b # bs) @ es"
  proof (cases "n < length (b # bs)")
    case True
    then obtain x xs where drop: "drop n (b # bs) = x # xs" by (cases "drop n (b # bs)") auto
    have "cs = (take n (b # bs) @ drop n (b # bs)) @ ds" using ds(2) by (simp only: append_take_drop_id append_Cons)
    with True ds(1) show ?thesis unfolding drop by auto
  qed (use ds in simp)
  then show thesis using that 4 assms(2) by auto
qed (use assms that in auto)

text \<open>A turn of the receiver changes nothing in what the reader will get.\<close>

lemma run_turn_holds:
  assumes "tcp_holds s bs" and "tcs_is_connected s"
  obtains s' where "tcs_run_turn s = Some s'" and "tcp_holds s' bs"
    and "tcs_datas s' \<noteq> [] \<or> \<not> tcs_is_connected s'" and "net_missed s' = net_missed s"
proof -
  from assms obtain cs where cs: "delivered (net_incoming s) = Some cs" "bs = queued (tcs_datas s) @ cs"
    by (auto simp: tcp_holds_def split: option.splits)
  have "0 < BUFSIZE" by (simp add: BUFSIZE_def)
  with recv_delivered [OF cs(1)] obtain r rest where r: "recv BUFSIZE (net_incoming s) = Some (r, rest)"
    "r = None \<or> r = Some [] \<Longrightarrow> cs = []"
    "\<And>xs. r = Some xs \<Longrightarrow> xs \<noteq> [] \<Longrightarrow> \<exists>ds. delivered rest = Some ds \<and> cs = xs @ ds" by blast
  show thesis
  proof (cases "r = None \<or> r = Some []")
    case True
    with r cs(2) assms show thesis
      by (intro that [of "s\<lparr>net_incoming := rest, tcs_sock_fd := - 1\<rparr>"])
        (auto simp: tcs_run_turn_def tcs_receive_def tcp_holds_def tcp_ok_def tcs_is_connected_def)
  next
    case False
    then obtain xs where xs: "r = Some xs" "xs \<noteq> []" by auto
    with r(3) obtain ds where "delivered rest = Some ds" "cs = xs @ ds" by blast
    with xs r(1) cs(2) assms show thesis
      by (intro that [of "s\<lparr>net_incoming := rest, tcs_datas := tcs_datas s @ [(0, xs)]\<rparr>"])
        (auto simp: tcs_run_turn_def tcs_receive_def tcp_holds_def tcp_ok_def tcs_is_connected_def)
  qed
qed

lemma run_ahead_holds: "tcp_holds s bs \<Longrightarrow> tcp_holds (run_ahead k s) bs"
proof (induction k arbitrary: s)
  case (Suc k)
  show ?case
  proof (cases "tcs_is_connected s")
    case True
    from run_turn_holds [OF Suc.prems True] obtain s' where "tcs_run_turn s = Some s'" "tcp_holds s' bs" by blast
    with Suc.IH show ?thesis by simp
  qed (use Suc.prems in \<open>simp add: tcs_run_turn_def\<close>)
qed simp

lemma ahead_holds [simp]: "tcp_holds (s\<lparr>net_ahead := ks\<rparr>) bs = tcp_holds s bs"
  by (cases "delivered (net_incoming s)") (simp_all add: tcp_holds_def tcp_ok_def tcs_is_connected_def)

lemma lock_holds: "tcp_holds s bs \<Longrightarrow> tcp_holds (tcs_lock s) bs"
  by (cases "net_ahead s") (simp_all add: tcs_lock_def run_ahead_holds)

lemma wait_for_data_holds:
  assumes "tcp_holds s bs"
  obtains s' where "tcs_wait_for_data s = Some (bs \<noteq> [], s')" and "tcp_holds s' bs" and "tcs_datas s' \<noteq> [] \<longleftrightarrow> bs \<noteq> []"
    and "bs = [] \<Longrightarrow> \<not> tcs_is_connected s'"
proof -
  have full: "bs \<noteq> []" if "tcp_holds t bs" "tcs_datas t \<noteq> []" for t
    using that by (cases "tcs_datas t") (auto simp: tcp_holds_def tcp_ok_def split: option.splits if_splits)
  have now: "tcs_wait_for_data t = Some (bs \<noteq> [], t) \<and> (tcs_datas t \<noteq> [] \<longleftrightarrow> bs \<noteq> []) \<and> (bs = [] \<longrightarrow> \<not> tcs_is_connected t)"
    if "tcp_holds t bs" "tcs_datas t \<noteq> [] \<or> \<not> tcs_is_connected t" for t
  proof -
    have "tcs_datas t \<noteq> [] \<longleftrightarrow> bs \<noteq> []" using that full [of t] by (auto simp: tcp_holds_def)
    then show ?thesis using that by (subst tcs_wait_for_data.simps) auto
  qed
  show thesis
  proof (cases "tcs_datas s \<noteq> [] \<or> \<not> tcs_is_connected s")
    case True
    with now [OF assms True] assms that show thesis by blast
  next
    case False
    from False run_turn_holds [OF assms] obtain t where t: "tcs_run_turn s = Some t" "tcp_holds t bs"
      "tcs_datas t \<noteq> [] \<or> \<not> tcs_is_connected t" "net_missed t = net_missed s" by blast
    moreover have "\<not> net_missed s" using assms by (simp add: tcp_holds_def tcp_ok_def)
    ultimately have "tcs_wait_for_data s = tcs_wait_for_data t" using False by (subst tcs_wait_for_data.simps) simp
    with now [OF t(2,3)] t(2) that show thesis by simp
  qed
qed

text \<open>Taking bytes from the front of the queue.\<close>

lemma pop_holds:
  assumes "tcp_holds s bs" and "tcs_datas s = (i, v) # rest" and "k \<le> length v - i"
  shows "take k (drop i v) = take k bs" and "tcp_holds (tcs_pop_if_used (s\<lparr>tcs_datas := (i + k, v) # rest\<rparr>)) (drop k bs)"
proof -
  have i: "i < length v" using assms(1,2) by (simp add: tcp_holds_def tcp_ok_def)
  from assms(1,2) obtain cs where bs: "bs = drop i v @ cs"
    "if tcs_is_connected s then \<exists>ds. delivered (net_incoming s) = Some ds \<and> cs = queued rest @ ds else cs = queued rest"
    by (auto simp: tcp_holds_def split: option.splits if_splits)
  show "take k (drop i v) = take k bs" using assms(3) bs(1) by simp
  have "drop k bs = drop (i + k) v @ cs" using assms(3) bs(1) by (simp add: add.commute)
  then show "tcp_holds (tcs_pop_if_used (s\<lparr>tcs_datas := (i + k, v) # rest\<rparr>)) (drop k bs)"
    using assms i bs(2)
    by (auto simp: tcp_holds_def tcp_ok_def tcs_pop_if_used_def tcs_is_connected_def split: option.splits if_splits)
qed

lemma sint_ascii:
  assumes "b < 0x80"
  shows "sint (b :: byte) = uint b"
proof -
  have "- (2 ^ 7) \<le> uint b" by (rule order_trans [OF _ uint_ge_0]) simp
  then have "signed_take_bit 7 (uint b) = uint b"
    using assms by (intro signed_take_bit_int_eq_self) (simp_all add: word_less_alt)
  then show ?thesis by (simp add: sint_uint)
qed

lemma read_data_from_holds:
  assumes "tcp_holds s bs" and "0 < n" and "n \<le> length bs"
  shows "\<exists>s'. tcs_read_data_from buff n s = Some (Some (buff @ take n bs), s') \<and> tcp_holds s' (drop n bs)"
  using assms
proof (induction n arbitrary: s bs buff rule: less_induct)
  case (less n)
  have "bs \<noteq> []" using less.prems by auto
  with wait_for_data_holds [OF lock_holds [OF less.prems(1)]] obtain t where
    t: "tcs_wait_for_data (tcs_lock s) = Some (True, t)" "tcp_holds t bs" "tcs_datas t \<noteq> []" by auto
  then obtain i v rest where ds: "tcs_datas t = (i, v) # rest" by (cases "tcs_datas t") auto
  have i: "i < length v" using t(2) ds by (simp add: tcp_holds_def tcp_ok_def)
  let ?k = "min n (length v - i)"
  let ?t = "tcs_pop_if_used (t\<lparr>tcs_datas := (i + ?k, v) # rest\<rparr>)"
  have pop: "take ?k (drop i v) = take ?k bs" "tcp_holds ?t (drop ?k bs)"
    using pop_holds [OF t(2) ds, of ?k] by simp_all
  show ?case
  proof (cases "n - ?k = 0")
    case True
    then have "n \<le> length v - i" "?k = n" by simp_all
    with t ds pop show ?thesis by (subst tcs_read_data_from.simps) (simp add: Let_def)
  next
    case False
    have step: "tcs_read_data_from buff n s = tcs_read_data_from (buff @ take ?k bs) (n - ?k) ?t"
      using t ds pop(1) False by (subst tcs_read_data_from.simps) (simp add: Let_def)
    have less_n: "n - ?k < n" "0 < n - ?k" "n - ?k \<le> length (drop ?k bs)" using less.prems i False by auto
    from less.IH [OF less_n(1) pop(2) less_n(2,3), of "buff @ take ?k bs"] obtain s' where
      "tcs_read_data_from (buff @ take ?k bs) (n - ?k) ?t = Some (Some ((buff @ take ?k bs) @ take (n - ?k) (drop ?k bs)), s')"
      "tcp_holds s' (drop (n - ?k) (drop ?k bs))" by blast
    moreover have "take ?k bs @ take (n - ?k) (drop ?k bs) = take n bs"
      using take_add [of ?k "n - ?k" bs] by simp
    moreover have "drop (n - ?k) (drop ?k bs) = drop n bs" by simp
    ultimately show ?thesis using step by simp
  qed
qed

lemma read_data_from_end:
  assumes "tcp_holds s bs" and "length bs < n"
  shows "\<exists>s'. tcs_read_data_from buff n s = Some (None, s') \<and> \<not> tcs_is_connected s'"
  using assms
proof (induction n arbitrary: s bs buff rule: less_induct)
  case (less n)
  from wait_for_data_holds [OF lock_holds [OF less.prems(1)]] obtain t where
    t: "tcs_wait_for_data (tcs_lock s) = Some (bs \<noteq> [], t)" "tcp_holds t bs" "tcs_datas t \<noteq> [] \<longleftrightarrow> bs \<noteq> []"
    "bs = [] \<Longrightarrow> \<not> tcs_is_connected t" by blast
  show ?case
  proof (cases "bs = []")
    case True
    with t show ?thesis by (subst tcs_read_data_from.simps) simp
  next
    case False
    with t(3) obtain i v rest where ds: "tcs_datas t = (i, v) # rest" by (cases "tcs_datas t") auto
    have i: "i < length v" using t(2) ds by (simp add: tcp_holds_def tcp_ok_def)
    have "length (drop i v) \<le> length bs"
      using t(2) ds by (auto simp: tcp_holds_def split: option.splits if_splits)
    then have k: "min n (length v - i) = length v - i" "n - (length v - i) < n" "n - (length v - i) \<noteq> 0"
      "length (drop (length v - i) bs) < n - (length v - i)" "\<not> n \<le> length v - i" using less.prems(2) i by auto
    let ?t = "tcs_pop_if_used (t\<lparr>tcs_datas := (i + (length v - i), v) # rest\<rparr>)"
    have "tcp_holds ?t (drop (length v - i) bs)" using pop_holds(2) [OF t(2) ds, of "length v - i"] by simp
    with less.IH [OF k(2) this k(4)] obtain s' where
      "tcs_read_data_from (buff @ take (length v - i) (drop i v)) (n - (length v - i)) ?t = Some (None, s')" "\<not> tcs_is_connected s'" by blast
    moreover have "tcs_read_data_from buff n s =
        tcs_read_data_from (buff @ take (length v - i) (drop i v)) (n - (length v - i)) ?t"
      using t(1) False ds k(3,5) i by (subst tcs_read_data_from.simps) (simp only: Let_def k(1), simp)
    ultimately show ?thesis by simp
  qed
qed

lemma read_byte_front:
  assumes "tcp_holds s (b # bs)"
  shows "\<exists>s'. tcs_read_byte s = Some (sint b, s') \<and> tcp_holds s' bs"
proof -
  from wait_for_data_holds [OF lock_holds [OF assms]] obtain t where
    t: "tcs_wait_for_data (tcs_lock s) = Some (True, t)" "tcp_holds t (b # bs)" "tcs_datas t \<noteq> []" by auto
  then obtain i v rest where ds: "tcs_datas t = (i, v) # rest" by (cases "tcs_datas t") auto
  have i: "i < length v" using t(2) ds by (simp add: tcp_holds_def tcp_ok_def)
  note pop = pop_holds [OF t(2) ds, of 1]
  have "v ! i = b" using pop(1) i by (simp add: take_Suc hd_drop_conv_nth)
  with t(1) ds i pop(2) show ?thesis by (simp add: tcs_read_byte_def)
qed

text \<open>
  The stream delivers what the connection does, however it is cut into chunks and whatever the receiver does
  ahead of the reader. Single bytes are delivered as such up to \<^verbatim>\<open>0x7f\<close>.
\<close>

definition ascii :: "byte \<Rightarrow> bool" where
  "ascii b \<longleftrightarrow> b < 0x80"

interpretation tcp: byte_stream tcp_client_stream tcp_holds ascii
proof
  show "ascii 0" by (simp add: ascii_def)
next
  fix s b bs
  assume "tcp_holds s (b # bs)" "ascii b"
  with read_byte_front [of s b bs] show "\<exists>s'. st_read_byte tcp_client_stream s = Some (uint b, s') \<and> tcp_holds s' bs"
    by (simp add: tcp_client_stream_def ascii_def sint_ascii)
next
  fix s
  assume "tcp_holds s []"
  from wait_for_data_holds [OF lock_holds [OF this]] obtain t where
    "tcs_wait_for_data (tcs_lock s) = Some (False, t)" "tcp_holds t []" by auto
  then show "\<exists>c s'. st_read_byte tcp_client_stream s = Some (c, s') \<and> c < 0 \<and> tcp_holds s' []"
    by (auto simp: tcp_client_stream_def tcs_read_byte_def)
next
  fix s bs n
  assume "tcp_holds s bs" "(0::nat) < n" "n \<le> length bs"
  from read_data_from_holds [OF this, of "[]"]
  show "\<exists>s'. st_read_data tcp_client_stream n s = Some (Some (take n bs), s') \<and> tcp_holds s' (drop n bs)"
    by (simp add: tcp_client_stream_def tcs_read_data_def)
next
  fix s bs n
  assume "tcp_holds s bs" "length bs < n"
  from read_data_from_end [OF this, of "[]"]
  show "\<exists>s'. st_read_data tcp_client_stream n s = Some (None, s') \<and> st_stop tcp_client_stream s' \<noteq> None"
    by (auto simp: tcp_client_stream_def tcs_read_data_def tcs_stop_def Let_def)
qed

section \<open>Starting and stopping\<close>

lemma connect_loop_retries: "connect_loop (replicate k None @ Some inc # attempts) = Some (inc, attempts)"
  by (induction k) simp_all

text \<open>A new stream connects, after any number of refused attempts if it waits for the server.\<close>

lemma tcs_start_ok:
  assumes "0 \<le> sock" and "waits \<or> k = 0" and "delivered inc = Some bs"
  shows "\<exists>s. tcs_start (new_tcp_client_stream sock (replicate k None @ Some inc # attempts) ahead False busy ip port waits) =
    Some (True, s) \<and> tcp_holds s bs"
  using assms
  by (cases waits) (auto simp: tcs_start_def new_tcp_client_stream_def tcs_is_connected_def connect_loop_retries tcs_connected_def
      tcp_holds_def tcp_ok_def)

text \<open>A stream whose connection was closed by the other side cannot be started again: its old thread was not joined.\<close>

lemma tcs_restart_terminates:
  assumes "\<not> tcs_is_connected s" and "tcs_joinable s" and "0 \<le> net_socket s" and "net_connects s = Some inc # attempts"
  shows "tcs_start s = None"
  using assms by (simp add: tcs_start_def tcs_connected_def Let_def)

section \<open>The two threads\<close>

text \<open>
  The reader in \<^verbatim>\<open>_wait_for_data\<close> and the receiver in \<^verbatim>\<open>_run\<close>, one atomic action at a time. The reader gets the lock, tests the
  condition, and if it does not hold releases the lock and sleeps in one action, as \<^verbatim>\<open>wait\<close> does; woken, it gets
  the lock again. The receiver closes the connection without the lock. A sleeping reader may also wake for no reason.
\<close>

datatype reader_pc = R_lock | R_test | R_sleep | R_blocked | R_woken | R_done bool

datatype receiver_pc = T_test | T_recv | T_close | T_lock "byte list" | T_push "byte list" | T_notify | T_last | T_done

datatype thread = Reader | Receiver | Spurious

record two_threads =
  tt_stream :: TCPClientStream
  tt_owner :: "thread option"
  tt_reader :: reader_pc
  tt_receiver :: receiver_pc

definition notify_one :: "two_threads \<Rightarrow> two_threads" where
  "notify_one s = (if tt_reader s = R_blocked then s\<lparr>tt_reader := R_woken\<rparr> else s)"

fun reader_at :: "reader_pc \<Rightarrow> two_threads \<Rightarrow> two_threads option" where
  "reader_at R_lock s = (if tt_owner s = None then Some (s\<lparr>tt_owner := Some Reader, tt_reader := R_test\<rparr>) else None)"
| "reader_at R_woken s = (if tt_owner s = None then Some (s\<lparr>tt_owner := Some Reader, tt_reader := R_test\<rparr>) else None)"
| "reader_at R_test s =
     Some (if tcs_datas (tt_stream s) \<noteq> [] \<or> \<not> tcs_is_connected (tt_stream s)
           then s\<lparr>tt_reader := R_done (tcs_datas (tt_stream s) \<noteq> [])\<rparr> else s\<lparr>tt_reader := R_sleep\<rparr>)"
| "reader_at R_sleep s = Some (s\<lparr>tt_owner := None, tt_reader := R_blocked\<rparr>)"
| "reader_at R_blocked s = None"
| "reader_at (R_done b) s = None"

definition after_recv :: "byte list option \<Rightarrow> receiver_pc" where
  "after_recv r = (case r of None \<Rightarrow> T_close | Some bs \<Rightarrow> if bs = [] then T_close else T_lock bs)"

fun receiver_at :: "receiver_pc \<Rightarrow> two_threads \<Rightarrow> two_threads option" where
  "receiver_at T_test s = Some (s\<lparr>tt_receiver := if tcs_is_connected (tt_stream s) then T_recv else T_last\<rparr>)"
| "receiver_at T_recv s =
     do { (r, rest) \<leftarrow> recv BUFSIZE (net_incoming (tt_stream s));
          Some (s\<lparr>tt_stream := (tt_stream s)\<lparr>net_incoming := rest\<rparr>,
                  tt_receiver := after_recv r\<rparr>) }"
| "receiver_at T_close s = Some (s\<lparr>tt_stream := (tt_stream s)\<lparr>tcs_sock_fd := - 1\<rparr>, tt_receiver := T_test\<rparr>)"
| "receiver_at (T_lock bs) s = (if tt_owner s = None then Some (s\<lparr>tt_owner := Some Receiver, tt_receiver := T_push bs\<rparr>) else None)"
| "receiver_at (T_push bs) s =
     Some (s\<lparr>tt_stream := (tt_stream s)\<lparr>tcs_datas := tcs_datas (tt_stream s) @ [(0, bs)]\<rparr>, tt_owner := None, tt_receiver := T_notify\<rparr>)"
| "receiver_at T_notify s = Some (notify_one (s\<lparr>tt_receiver := T_test\<rparr>))"
| "receiver_at T_last s = Some (notify_one (s\<lparr>tt_receiver := T_done\<rparr>))"
| "receiver_at T_done s = None"

inductive tt_step :: "thread \<Rightarrow> two_threads \<Rightarrow> two_threads \<Rightarrow> bool" where
  reader: "reader_at (tt_reader s) s = Some s' \<Longrightarrow> tt_step Reader s s'"
| receiver: "receiver_at (tt_receiver s) s = Some s' \<Longrightarrow> tt_step Receiver s s'"
| spurious: "tt_reader s = R_blocked \<Longrightarrow> tt_step Spurious s (s\<lparr>tt_reader := R_woken\<rparr>)"

inductive tt_run :: "two_threads \<Rightarrow> thread list \<Rightarrow> two_threads \<Rightarrow> bool" where
  stay: "tt_run s [] s"
| go: "tt_step t s s' \<Longrightarrow> tt_run s' ts s'' \<Longrightarrow> tt_run s (t # ts) s''"

inductive_simps tt_step_simps: "tt_step Reader s s'" "tt_step Receiver s s'" "tt_step Spurious s s'"
inductive_simps tt_run_simps: "tt_run s [] s'" "tt_run s (t # ts) s'"

text \<open>A reader that enters \<^verbatim>\<open>read_byte\<close> or \<^verbatim>\<open>read_data\<close> while the receiver is anywhere outside its critical section.\<close>

definition tt_enter :: "TCPClientStream \<Rightarrow> receiver_pc \<Rightarrow> two_threads" where
  "tt_enter st pc = \<lparr>tt_stream = st, tt_owner = None, tt_reader = R_lock, tt_receiver = pc\<rparr>"

fun outside :: "receiver_pc \<Rightarrow> bool" where
  "outside (T_push bs) = False"
| "outside pc = True"

fun reader_locked :: "reader_pc \<Rightarrow> bool" where
  "reader_locked R_test = True"
| "reader_locked R_sleep = True"
| "reader_locked (R_done b) = True"
| "reader_locked pc = False"

text \<open>
  The lock is held by the thread that is in its critical section, and a reader that sleeps
  although there is data is about to be woken.
\<close>

definition tt_inv :: "two_threads \<Rightarrow> bool" where
  "tt_inv s \<longleftrightarrow>
     (tt_owner s = Some Reader \<longleftrightarrow> reader_locked (tt_reader s)) \<and>
     (tt_owner s = Some Receiver \<longleftrightarrow> \<not> outside (tt_receiver s)) \<and> tt_owner s \<noteq> Some Spurious \<and>
     (tt_reader s = R_sleep \<longrightarrow> tcs_datas (tt_stream s) = []) \<and>
     (tt_reader s = R_blocked \<and> tcs_datas (tt_stream s) \<noteq> [] \<longrightarrow> tt_receiver s = T_notify)"

text \<open>The next thing that comes over the connection is data.\<close>

definition data_comes :: "TCPClientStream \<Rightarrow> bool" where
  "data_comes st \<longleftrightarrow> tcs_is_connected st \<and>
     (case recv BUFSIZE (net_incoming st) of Some (Some bs, rest) \<Rightarrow> bs \<noteq> [] | _ \<Rightarrow> False)"

fun due_at :: "receiver_pc \<Rightarrow> TCPClientStream \<Rightarrow> bool" where
  "due_at (T_lock bs) st = tcs_is_connected st"
| "due_at (T_push bs) st = tcs_is_connected st"
| "due_at T_test st = data_comes st"
| "due_at T_recv st = data_comes st"
| "due_at T_notify st = data_comes st"
| "due_at pc st = False"

definition data_due :: "two_threads \<Rightarrow> bool" where
  "data_due s \<longleftrightarrow> tcs_datas (tt_stream s) \<noteq> [] \<or> due_at (tt_receiver s) (tt_stream s)"

lemma tt_inv_enter: "outside pc \<Longrightarrow> tt_inv (tt_enter st pc)"
  by (auto simp: tt_inv_def tt_enter_def)

lemmas tt_defs = tt_inv_def notify_one_def

lemma after_recv_outside [simp]: "outside (after_recv r)" "after_recv r \<noteq> T_notify" "after_recv r \<noteq> T_push bs"
  by (simp_all add: after_recv_def split: option.split)

lemma reader_at_inv:
  assumes "tt_inv s" and "reader_at (tt_reader s) s = Some s'"
  shows "tt_inv s'"
  using assms by (cases s; cases "tt_reader s") (auto simp: tt_defs split: if_split_asm)

lemma receiver_at_inv:
  assumes "tt_inv s" and "receiver_at (tt_receiver s) s = Some s'"
  shows "tt_inv s'"
  using assms
  by (cases s; cases "tt_receiver s"; cases "tt_reader s") (auto simp: tt_defs split: if_split_asm bind_splits)

lemma tt_step_inv: "tt_step t s s' \<Longrightarrow> tt_inv s \<Longrightarrow> tt_inv s'"
proof (induction rule: tt_step.induct)
  case (spurious s)
  then show ?case by (cases s) (simp add: tt_defs)
qed (rule reader_at_inv receiver_at_inv; assumption)+

lemma reader_at_due:
  assumes "data_due s" and "reader_at (tt_reader s) s = Some s'"
  shows "data_due s'"
proof -
  have "tt_stream s' = tt_stream s \<and> tt_receiver s' = tt_receiver s"
    using assms(2) by (cases s; cases "tt_reader s") (auto split: if_split_asm)
  then show ?thesis using assms(1) by (simp add: data_due_def)
qed

lemma receiver_at_due:
  assumes "data_due s" and "receiver_at (tt_receiver s) s = Some s'"
  shows "data_due s'"
proof (cases "tt_receiver s")
  case T_recv
  then obtain r rest where r: "recv BUFSIZE (net_incoming (tt_stream s)) = Some (r, rest)"
    and s': "s' = s\<lparr>tt_stream := (tt_stream s)\<lparr>net_incoming := rest\<rparr>, tt_receiver := after_recv r\<rparr>"
    using assms(2) by (auto simp: bind_eq_Some_conv)
  show ?thesis
  proof (cases "tcs_datas (tt_stream s) = []")
    case True
    then have "data_comes (tt_stream s)" using assms(1) T_recv by (simp add: data_due_def)
    with r obtain bs where "r = Some bs" "bs \<noteq> []" "tcs_is_connected (tt_stream s)"
      by (auto simp: data_comes_def split: option.splits)
    then show ?thesis by (simp add: s' data_due_def after_recv_def tcs_is_connected_def)
  qed (simp add: s' data_due_def)
qed (use assms in \<open>cases s; auto simp: data_due_def data_comes_def notify_one_def split: if_split_asm\<close>)+

lemma tt_step_due: "tt_step t s s' \<Longrightarrow> data_due s \<Longrightarrow> data_due s'"
proof (induction rule: tt_step.induct)
  case (spurious s)
  then show ?case by (cases s) (simp add: data_due_def)
qed (rule reader_at_due receiver_at_due; assumption)+

text \<open>The answer of a reader is that there is data.\<close>

definition no_false_end :: "two_threads \<Rightarrow> bool" where
  "no_false_end s \<longleftrightarrow> tt_reader s \<noteq> R_done False"

lemma tt_step_no_false_end:
  assumes "tt_step t s s'" and "tt_inv s" and "data_due s" and "no_false_end s"
  shows "no_false_end s'"
proof -
  have "tcs_is_connected (tt_stream s)" if "tcs_datas (tt_stream s) = []"
    using assms(3) that by (cases "tt_receiver s") (auto simp: data_due_def data_comes_def)
  moreover have "tt_reader s' = tt_reader s \<or> tt_reader s' = R_woken" if "receiver_at (tt_receiver s) s = Some s'"
    using that by (cases s; cases "tt_receiver s") (auto simp: notify_one_def split: if_split_asm bind_splits)
  moreover have "tt_reader s' \<noteq> R_done False" if "reader_at (tt_reader s) s = Some s'" "tcs_datas (tt_stream s) = [] \<longrightarrow> tcs_is_connected (tt_stream s)"
    using that by (cases s; cases "tt_reader s") (auto split: if_split_asm)
  ultimately show ?thesis using assms(4) by (cases rule: tt_step.cases [OF assms(1)]) (auto simp: no_false_end_def)
qed

lemma tt_run_inv:
  "tt_run s ts s' \<Longrightarrow> tt_inv s \<and> data_due s \<and> no_false_end s \<Longrightarrow> tt_inv s' \<and> data_due s' \<and> no_false_end s'"
  by (induction rule: tt_run.induct) (use tt_step_inv tt_step_due tt_step_no_false_end in blast)+

text \<open>Unless the reader has returned, a thread can go on.\<close>

lemma tt_progress:
  assumes inv: "tt_inv s" and due: "data_due s" and stuck: "\<forall>t s'. tt_step t s s' \<longrightarrow> t = Spurious"
  shows "\<exists>b. tt_reader s = R_done b"
proof -
  have rd: "reader_at (tt_reader s) s = None" and rc: "receiver_at (tt_receiver s) s = None"
    using stuck tt_step.reader [of s] tt_step.receiver [of s] by (metis not_None_eq thread.distinct)+
  show ?thesis
  proof (cases "tt_reader s")
    case R_blocked
    have free: "tt_owner s \<noteq> None \<Longrightarrow> \<not> outside (tt_receiver s)"
      using inv R_blocked by (cases "tt_owner s"; cases "the (tt_owner s)") (auto simp: tt_inv_def)
    have "tcs_datas (tt_stream s) \<noteq> [] \<longrightarrow> tt_receiver s = T_notify" using inv R_blocked by (simp add: tt_inv_def)
    then have False
      using rc due free by (cases "tt_receiver s") (auto simp: data_due_def data_comes_def split: if_splits option.splits)
    then show ?thesis ..
  next
    case R_lock
    then have "tt_owner s = Some Receiver" using rd inv by (cases "tt_owner s"; cases "the (tt_owner s)") (auto simp: tt_inv_def)
    then show ?thesis using rc inv by (cases "tt_receiver s") (simp_all add: tt_inv_def)
  next
    case R_woken
    then have "tt_owner s = Some Receiver" using rd inv by (cases "tt_owner s"; cases "the (tt_owner s)") (auto simp: tt_inv_def)
    then show ?thesis using rc inv by (cases "tt_receiver s") (simp_all add: tt_inv_def)
  qed (use rd in auto)
qed

text \<open>
  The threads cannot go on for ever: what the receiver has to do is bounded by what the connection delivers, and each of
  its notifications costs the reader at most three actions, like a wake-up for no reason.
\<close>

fun incoming_size :: "incoming \<Rightarrow> nat" where
  "incoming_size [] = 0"
| "incoming_size (None # rest) = Suc (incoming_size rest)"
| "incoming_size (Some bs # rest) = Suc (length bs) + incoming_size rest"

fun reader_work :: "reader_pc \<Rightarrow> nat" where
  "reader_work R_lock = 3"
| "reader_work R_woken = 3"
| "reader_work R_test = 2"
| "reader_work R_sleep = 1"
| "reader_work pc = 0"

fun receiver_work :: "receiver_pc \<Rightarrow> nat" where
  "receiver_work T_done = 0"
| "receiver_work T_recv = 4"
| "receiver_work T_last = 4"
| "receiver_work T_test = 5"
| "receiver_work T_close = 6"
| "receiver_work T_notify = 9"
| "receiver_work (T_push bs) = 10"
| "receiver_work (T_lock bs) = 11"

definition tt_work :: "two_threads \<Rightarrow> nat" where
  "tt_work s = 12 * incoming_size (net_incoming (tt_stream s)) + receiver_work (tt_receiver s) + reader_work (tt_reader s)"

lemma recv_size: "recv (Suc n) inc = Some (r, rest) \<Longrightarrow> incoming_size rest < incoming_size inc"
  by (cases inc rule: incoming_size.cases) (auto split: if_splits)

lemma reader_at_work:
  assumes "reader_at (tt_reader s) s = Some s'"
  shows "tt_work s' < tt_work s"
  using assms by (cases s; cases "tt_reader s") (auto simp: tt_work_def split: if_split_asm)

lemma receiver_at_work:
  assumes "receiver_at (tt_receiver s) s = Some s'"
  shows "tt_work s' < tt_work s"
proof (cases "tt_receiver s")
  case T_recv
  with assms obtain r rest where r: "recv BUFSIZE (net_incoming (tt_stream s)) = Some (r, rest)"
    and s': "s' = s\<lparr>tt_stream := (tt_stream s)\<lparr>net_incoming := rest\<rparr>, tt_receiver := after_recv r\<rparr>"
    by (auto simp: bind_eq_Some_conv)
  have "incoming_size rest < incoming_size (net_incoming (tt_stream s))"
    using recv_size [of 1023 "net_incoming (tt_stream s)" r rest] r by (simp add: BUFSIZE_def)
  moreover have "receiver_work (after_recv r) \<le> 11" by (simp add: after_recv_def split: option.split)
  ultimately show ?thesis using T_recv by (simp add: s' tt_work_def)
qed (use assms in \<open>cases s; auto simp: tt_work_def notify_one_def split: if_split_asm\<close>)+

lemma tt_step_work: "tt_step t s s' \<Longrightarrow> tt_work s' < tt_work s + (if t = Spurious then 4 else 0)"
proof (induction rule: tt_step.induct)
  case (spurious s)
  then show ?case by (cases s) (simp add: tt_work_def)
qed (simp_all add: reader_at_work receiver_at_work)

lemma tt_run_length: "tt_run s ts s' \<Longrightarrow> length ts + tt_work s' \<le> tt_work s + 4 * length (filter (\<lambda>t. t = Spurious) ts)"
proof (induction rule: tt_run.induct)
  case (go t s s' ts s'')
  from tt_step_work [OF go.hyps(1)] go.IH show ?case by auto
qed simp

text \<open>What the two threads do is what the first part of the theory says of a wait: the receiver has done some turns ahead.\<close>

fun mid_turn :: "receiver_pc \<Rightarrow> TCPClientStream \<Rightarrow> TCPClientStream \<Rightarrow> bool" where
  "mid_turn (T_lock bs) st st' \<longleftrightarrow> tcs_is_connected st \<and> bs \<noteq> [] \<and>
     (\<exists>rest. recv BUFSIZE (net_incoming st) = Some (Some bs, rest) \<and> st' = st\<lparr>net_incoming := rest\<rparr>)"
| "mid_turn (T_push bs) st st' \<longleftrightarrow> tcs_is_connected st \<and> bs \<noteq> [] \<and>
     (\<exists>rest. recv BUFSIZE (net_incoming st) = Some (Some bs, rest) \<and> st' = st\<lparr>net_incoming := rest\<rparr>)"
| "mid_turn T_close st st' \<longleftrightarrow> tcs_is_connected st \<and>
     (\<exists>r rest. recv BUFSIZE (net_incoming st) = Some (r, rest) \<and> (r = None \<or> r = Some []) \<and> st' = st\<lparr>net_incoming := rest\<rparr>)"
| "mid_turn T_recv st st' \<longleftrightarrow> st' = st \<and> tcs_is_connected st"
| "mid_turn pc st st' \<longleftrightarrow> st' = st"

lemma mid_turn_visible: "mid_turn pc st st' \<Longrightarrow> tcs_datas st' = tcs_datas st \<and> tcs_is_connected st' = tcs_is_connected st"
  by (cases pc) (auto simp: tcs_is_connected_def)

lemma receiver_at_simulates:
  assumes "receiver_at (tt_receiver s) s = Some s'" and "mid_turn (tt_receiver s) st (tt_stream s)"
  shows "mid_turn (tt_receiver s') st (tt_stream s') \<or>
    (\<exists>st'. tcs_run_turn st = Some st' \<and> mid_turn (tt_receiver s') st' (tt_stream s'))"
  using assms
  by (cases s; cases "tt_receiver s")
    (auto simp: notify_one_def after_recv_def tcs_run_turn_def tcs_receive_def split: if_split_asm option.splits bind_splits)

lemma run_ahead_snoc: "tcs_run_turn (run_ahead k st) = Some st' \<Longrightarrow> run_ahead (Suc k) st = st'"
proof (induction k arbitrary: st)
  case (Suc k)
  then show ?case by (cases "tcs_run_turn st") simp_all
qed simp

lemma tt_run_simulates:
  assumes "tt_run s ts s'" and "mid_turn (tt_receiver s) (run_ahead k st) (tt_stream s)"
  shows "\<exists>k. mid_turn (tt_receiver s') (run_ahead k st) (tt_stream s')"
  using assms
proof (induction arbitrary: k rule: tt_run.induct)
  case (go t s s' ts s'')
  from go.hyps(1) have "\<exists>k. mid_turn (tt_receiver s') (run_ahead k st) (tt_stream s')"
  proof (cases rule: tt_step.cases)
    case reader
    then have "tt_receiver s' = tt_receiver s \<and> tt_stream s' = tt_stream s"
      by (cases s; cases "tt_reader s") (auto split: if_split_asm)
    with go.prems show ?thesis by auto
  next
    case receiver
    from receiver_at_simulates [OF receiver(2) go.prems] run_ahead_snoc [of k st] go.prems show ?thesis by metis
  qed (use go.prems in auto)
  with go.IH show ?case by blast
qed blast

text \<open>A wait of the two threads that ends is a wait of the stream, with the receiver some turns ahead.\<close>

lemma tcp_wait_simulated:
  assumes "tt_run (tt_enter st pc) ts s" and "pc \<in> {T_test, T_notify, T_last, T_done}" and "tt_reader s = R_done b"
    and "b = (tcs_datas (tt_stream s) \<noteq> [])" and "tcs_datas (tt_stream s) \<noteq> [] \<or> \<not> tcs_is_connected (tt_stream s)"
  shows "\<exists>k st'. tcs_wait_for_data (run_ahead k st) = Some (b, st') \<and> tcs_datas st' = tcs_datas (tt_stream s) \<and>
    tcs_is_connected st' = tcs_is_connected (tt_stream s)"
proof -
  have "mid_turn (tt_receiver (tt_enter st pc)) (run_ahead 0 st) (tt_stream (tt_enter st pc))"
    using assms(2) by (auto simp: tt_enter_def)
  from tt_run_simulates [OF assms(1) this] obtain k where "mid_turn (tt_receiver s) (run_ahead k st) (tt_stream s)" by blast
  from mid_turn_visible [OF this] assms(4,5) show ?thesis
    by (intro exI [of _ k] exI [of _ "run_ahead k st"]) (simp add: tcs_wait_for_data.simps [of "run_ahead k st"])
qed

text \<open>The reader over a connection that delivers a whole trace.\<close>

lemma tcp_trace_read:
  assumes "initialised s ks" and "trace_event s ks (system_info_event version)" and "\<forall>ev\<in>set evs. trace_event s ks ev"
    and "\<forall>ev\<in>set (klass_events s @ evs). clear_event ascii ev"
    and "delivered inc = Some (metadata_bytes version e s @ concat (map (event_bytes e (klasses s)) evs))"
    and "0 \<le> sock" and "waits \<or> k = 0"
  shows "\<exists>r. run_reader mach tcp_client_stream False (\<lambda>ev log. Some (log @ [ev])) (\<lambda>_. True)
             (new_reader (new_tcp_client_stream sock (replicate k None @ Some inc # attempts) ahead False busy ip port waits) []) = Some (True, r) \<and>
           rd_client r = metadata_seen version e s @ map (parsed (rd_register r) (klasses s)) evs"
proof -
  let ?st0 = "new_tcp_client_stream sock (replicate k None @ Some inc # attempts) ahead False busy ip port waits"
  from tcs_start_ok [OF assms(6,7,5), of attempts ahead busy ip port] obtain st where "st_start tcp_client_stream ?st0 = Some (True, st)"
    "tcp_holds st (metadata_bytes version e s @ concat (map (event_bytes e (klasses s)) evs))"
    by (auto simp: tcp_client_stream_def)
  from tcp.trace_read [OF assms(1-3) this assms(4)] show ?thesis by blast
qed

section \<open>Properties\<close>

text \<open>
  C3. A reader that waits for data gets it. Let the reader enter a read while the receiving thread is anywhere
  outside its critical section, with data in the queue, in the hands of the receiver, or next on the connection. However the two
  threads are interleaved, and however often the reader wakes for no reason, they make a bounded number of steps; when
  neither can go on, the reader has returned, and it has returned that there is data.
\<close>

theorem tcp_reader_is_woken:
  assumes "outside pc" and "data_due (tt_enter st pc)" and "tt_run (tt_enter st pc) ts s"
  shows "length ts \<le> 12 * incoming_size (net_incoming st) + 14 + 4 * length (filter (\<lambda>t. t = Spurious) ts) \<and>
    ((\<forall>t s'. tt_step t s s' \<longrightarrow> t = Spurious) \<longrightarrow> tt_reader s = R_done True) \<and>
    (\<forall>b. tt_reader s = R_done b \<longrightarrow> b)"
proof -
  have "receiver_work pc \<le> 11" by (cases pc) simp_all
  then have "tt_work (tt_enter st pc) \<le> 12 * incoming_size (net_incoming st) + 14" by (simp add: tt_work_def tt_enter_def)
  moreover have "tt_inv (tt_enter st pc) \<and> data_due (tt_enter st pc) \<and> no_false_end (tt_enter st pc)"
    using assms(1,2) tt_inv_enter by (simp add: no_false_end_def tt_enter_def)
  from tt_run_inv [OF assms(3) this] have inv: "tt_inv s" "data_due s" "no_false_end s" by simp_all
  moreover have "\<exists>b. tt_reader s = R_done b" if "\<forall>t s'. tt_step t s s' \<longrightarrow> t = Spurious"
    using tt_progress [OF inv(1,2) that] .
  ultimately show ?thesis using tt_run_length [OF assms(3)] by (auto simp: no_false_end_def)
qed

definition demo_tcp_stream :: "incoming \<Rightarrow> TCPClientStream" where
  "demo_tcp_stream incoming =
     (new_tcp_client_stream 5 [] [] False False ''127.0.0.1'' 8765 True)\<lparr>tcs_sock_fd := 5, tcs_joinable := True, net_incoming := incoming\<rparr>"

text \<open>The reader sleeps before the chunk arrives, and is woken.\<close>

theorem tcp_reader_is_woken_witness:
  "\<exists>s. tt_run (tt_enter (demo_tcp_stream [Some [7]]) T_test)
      [Receiver, Reader, Reader, Reader, Receiver, Receiver, Spurious, Receiver, Receiver, Reader, Reader] s \<and>
    11 \<le> 12 * incoming_size [Some [7 :: byte]] + 14 + 4 * 1 \<and> tt_reader s = R_done True"
proof -
  have "\<exists>s. tt_run (tt_enter (demo_tcp_stream [Some [7]]) T_test)
      [Receiver, Reader, Reader, Reader, Receiver, Receiver, Spurious, Receiver, Receiver, Reader, Reader] s \<and>
      (\<exists>b. tt_reader s = R_done b)"
    by (simp add: tt_run_simps tt_step_simps tt_enter_def demo_tcp_stream_def new_tcp_client_stream_def tcs_is_connected_def
        BUFSIZE_def after_recv_def notify_one_def) blast
  then obtain s b where run: "tt_run (tt_enter (demo_tcp_stream [Some [7]]) T_test)
      [Receiver, Reader, Reader, Reader, Receiver, Receiver, Spurious, Receiver, Receiver, Reader, Reader] s" "tt_reader s = R_done b" by blast
  have "data_due (tt_enter (demo_tcp_stream [Some [7]]) T_test)"
    by (simp add: data_due_def data_comes_def tt_enter_def demo_tcp_stream_def new_tcp_client_stream_def tcs_is_connected_def BUFSIZE_def)
  from tcp_reader_is_woken [OF _ this run(1)] run show ?thesis
    by (auto simp: demo_tcp_stream_def new_tcp_client_stream_def)
qed

text \<open>
  C40. The end of a connection can be missed. The receiver closes the connection without holding the lock, so this may happen
  after the reader found the connection open and before it sleeps; the only notification comes too early.
  For every connected stream with an empty queue whose peer closes the connection there is such a run of the two threads,
  without wake-ups for no reason: the receiver has ended, the stream is no longer connected, and the reader sleeps for ever.
\<close>

theorem tcp_close_is_missed:
  assumes "tcs_is_connected st" and "tcs_datas st = []" and "net_incoming st = r # rest" and "r = None \<or> r = Some []"
  shows "\<exists>ts s. tt_run (tt_enter st T_test) ts s \<and> Spurious \<notin> set ts \<and> tt_receiver s = T_done \<and>
    \<not> tcs_is_connected (tt_stream s) \<and> tt_reader s = R_blocked \<and> (\<forall>t s'. tt_step t s s' \<longrightarrow> t = Spurious)"
proof -
  let ?st = "st\<lparr>net_incoming := rest, tcs_sock_fd := - 1\<rparr>"
  let ?s = "\<lparr>tt_stream = ?st, tt_owner = None, tt_reader = R_blocked, tt_receiver = T_done\<rparr>"
  let ?ts = "[Reader, Reader, Receiver, Receiver, Receiver, Receiver, Receiver, Reader]"
  have "recv BUFSIZE (net_incoming st) = Some (r, rest)" "after_recv r = T_close" using assms(3,4) by (auto simp: after_recv_def)
  then have "tt_run (tt_enter st T_test) ?ts ?s"
    using assms(1,2) by (simp add: tt_run_simps tt_step_simps tt_enter_def tcs_is_connected_def notify_one_def)
  moreover have "\<forall>t s'. tt_step t ?s s' \<longrightarrow> t = Spurious"
  proof (intro allI impI)
    fix t s'
    assume "tt_step t ?s s'"
    then show "t = Spurious" by (cases t) (simp_all add: tt_step_simps)
  qed
  ultimately show ?thesis by (intro exI [of _ ?ts] exI [of _ ?s]) (simp add: tcs_is_connected_def)
qed

theorem tcp_close_is_missed_witness:
  "\<exists>ts s. tt_run (tt_enter (demo_tcp_stream [Some []]) T_test) ts s \<and> Spurious \<notin> set ts \<and> tt_receiver s = T_done \<and>
    \<not> tcs_is_connected (tt_stream s) \<and> tt_reader s = R_blocked \<and> (\<forall>t s'. tt_step t s s' \<longrightarrow> t = Spurious)"
  by (rule tcp_close_is_missed [of _ "Some []" "[]"]) (simp_all add: demo_tcp_stream_def new_tcp_client_stream_def tcs_is_connected_def)

end
