(* ===== verification/Startup.thy ===== *)
theory Startup
  imports Trace_Metadata Cached_String Decimal
begin

text \<open>
  \<^verbatim>\<open>lib/init.c\<close>, \<^verbatim>\<open>lib/command_line_parser.c\<close>, \<^verbatim>\<open>lib/global_timeline.cpp\<close> and \<^verbatim>\<open>lib/posix_mapped_tracepoint.c\<close>: the
  library from its initialisation, with the options of the command line, to its end, and the timeline each thread has.

  The static variables of these files are components of the state. A process that exits has the value \<^term>\<open>None\<close> inside the
  result; \<^term>\<open>None\<close> outside is undefined behaviour, as everywhere. The vector of arguments ends with the arguments: \<^verbatim>\<open>argc\<close> is its length.
\<close>

section \<open>The command line\<close>

record 'w lib = "'w reg" +
  global_timeline_buffer_size :: nat
  ht_init_counter :: int
  posix_mapped_tracepoint_mapped_mtx :: "addr option"
  lib_mapped :: "(timeline \<times> u64 \<times> string) option"
  lib_stdout :: string

datatype argument_parser = Set_Global_Timeline_Buffer_Size | Print_Help

record HT_CommandLineArgument =
  arg_argument :: string
  arg_help :: string
  arg_parser :: argument_parser
  arg_is_flag :: bool

definition arguments :: "HT_CommandLineArgument list" where
  "arguments =
     [\<lparr>arg_argument = ''--ht-global-timeline-buffer-size'', arg_help = ''Set Global Timeline buffer size'',
       arg_parser = Set_Global_Timeline_Buffer_Size, arg_is_flag = False\<rparr>,
      \<lparr>arg_argument = ''--ht-help'', arg_help = ''Print this help and exits the process'',
       arg_parser = Print_Help, arg_is_flag = True\<rparr>]"

definition ht_global_timeline_set_buffer_size :: "nat \<Rightarrow> ('w, 's) lib_scheme \<Rightarrow> ('w, 's) lib_scheme" where
  "ht_global_timeline_set_buffer_size n s = s\<lparr>global_timeline_buffer_size := n\<rparr>"

definition ht_global_timeline_get_buffer_size :: "('w, 's) lib_scheme \<Rightarrow> nat" where
  "ht_global_timeline_get_buffer_size s = global_timeline_buffer_size s"

definition lib_printf :: "string \<Rightarrow> ('w, 's) lib_scheme \<Rightarrow> ('w, 's) lib_scheme" where
  "lib_printf str s = s\<lparr>lib_stdout := lib_stdout s @ str\<rparr>"

text \<open>\<^verbatim>\<open>size_t\<close> and \<^verbatim>\<open>unsigned long\<close> have the same size.\<close>

definition set_global_timeline_buffer_size :: "string list \<Rightarrow> nat \<Rightarrow> ('w, 's) lib_scheme \<Rightarrow> HT_ErrorCode \<times> ('w, 's) lib_scheme" where
  "set_global_timeline_buffer_size argv pos s =
     (if length argv \<le> pos + 1 then (HT_ERR_MISSING_ARGUMENT, s)
      else case strtoul (argv ! (pos + 1)) of
        (v, erange, used) \<Rightarrow>
          if erange then (HT_ERR_OUT_OF_RANGE, s)
          else if used = 0 then (HT_ERR_INVALID_FORMAT, s)
          else (HT_ERR_OK, ht_global_timeline_set_buffer_size (unat v) s))"

definition print_help :: "('w, 's) lib_scheme \<Rightarrow> ('w, 's) lib_scheme" where
  "print_help s =
     lib_printf (''HawkTracer options:'' @ [CHR 0x0A] @
       concat (map (\<lambda>a. ''  '' @ arg_argument a @ '' '' @ (if arg_is_flag a then ''      '' else ''VALUE'') @ ''   '' @ arg_help a @ [CHR 0x0A])
                 arguments)) s"

text \<open>The number that is printed for an error code.\<close>

definition error_number :: "HT_ErrorCode \<Rightarrow> nat" where
  "error_number err =
     (case err of
        HT_ERR_OK \<Rightarrow> 0 | HT_ERR_UNKNOWN \<Rightarrow> 1 | HT_ERR_OUT_OF_MEMORY \<Rightarrow> 2 | HT_ERR_FEATURE_ALREADY_REGISTERED \<Rightarrow> 3
      | HT_ERR_FEATURE_NOT_REGISTERED \<Rightarrow> 4 | HT_ERR_MAX_FEATURE_COUNT_REACHED \<Rightarrow> 5
      | HT_ERR_LISTENER_CONTAINER_ALREADY_REGISTERED \<Rightarrow> 6 | HT_ERR_CANT_OPEN_FILE \<Rightarrow> 7 | HT_ERR_CANT_START_TCP_SERVER \<Rightarrow> 8
      | HT_ERR_CANT_CREATE_LISTENER_CONTAINER \<Rightarrow> 9 | HT_ERR_INVALID_FORMAT \<Rightarrow> 10 | HT_ERR_INVALID_ARGUMENT \<Rightarrow> 11
      | HT_ERR_OUT_OF_RANGE \<Rightarrow> 12 | HT_ERR_MISSING_ARGUMENT \<Rightarrow> 13)"

text \<open>The loop over the arguments; the result says whether the process goes on.\<close>

function parse_args_from :: "string list \<Rightarrow> nat \<Rightarrow> ('w, 's) lib_scheme \<Rightarrow> bool \<times> ('w, 's) lib_scheme" where
  "parse_args_from argv i s =
     (if i < length argv
      then case find (\<lambda>a. arg_argument a = argv ! i) arguments of
             None \<Rightarrow> parse_args_from argv (i + 1) s
           | Some a \<Rightarrow>
               (case arg_parser a of
                  Print_Help \<Rightarrow> (False, print_help s)
                | Set_Global_Timeline_Buffer_Size \<Rightarrow>
                    let (err, s) = set_global_timeline_buffer_size argv i s;
                        s = (if err \<noteq> HT_ERR_OK
                             then lib_printf (''Failed to process argument '' @ arg_argument a @ ''. Error code: '' @
                                    to_decimal (error_number err) @ [CHR 0x0A]) s
                             else s)
                    in parse_args_from argv (if arg_is_flag a then i + 1 else i + 2) s)
      else (True, s))"
  by pat_completeness auto
termination
  by (relation "measure (\<lambda>(argv, i, s). length argv - i)") auto

declare parse_args_from.simps [simp del]

definition ht_command_line_parse_args :: "string list \<Rightarrow> ('w, 's) lib_scheme \<Rightarrow> bool \<times> ('w, 's) lib_scheme" where
  "ht_command_line_parse_args argv s = parse_args_from argv 1 s"

section \<open>Mapped tracepoints of POSIX\<close>

definition ht_posix_mapped_tracepoint_init :: "('w, 's) lib_scheme \<Rightarrow> ('w, 's) lib_scheme option" where
  "ht_posix_mapped_tracepoint_init s =
     do { (mtx, s) \<leftarrow> ht_mutex_create s; Some (s\<lparr>posix_mapped_tracepoint_mapped_mtx := mtx\<rparr>) }"

text \<open>The pointer is not reset, so a second call destroys a mutex that does not exist any more.\<close>

definition ht_posix_mapped_tracepoint_deinit :: "('w, 's) lib_scheme \<Rightarrow> ('w, 's) lib_scheme option" where
  "ht_posix_mapped_tracepoint_deinit s =
     (case posix_mapped_tracepoint_mapped_mtx s of None \<Rightarrow> Some s | Some a \<Rightarrow> ht_mutex_destroy a s)"

text \<open>The address of the label is its pointer.\<close>

definition ht_pthread_mapped_tracepoint_enter ::
  "timeline \<Rightarrow> u64 \<Rightarrow> string \<Rightarrow> ('w, 's) lib_scheme \<Rightarrow> ('w, 's) lib_scheme option" where
  "ht_pthread_mapped_tracepoint_enter line p label s =
     do { mtx \<leftarrow> posix_mapped_tracepoint_mapped_mtx s;
          s \<leftarrow> ht_mutex_lock mtx s;
          Some (s\<lparr>lib_mapped := Some (line, p, label)\<rparr>) }"

definition ht_pthread_mapped_tracepoint_leave :: "('w, 's) lib_scheme \<Rightarrow> ('w, 's) lib_scheme option" where
  "ht_pthread_mapped_tracepoint_leave s =
     do { mtx \<leftarrow> posix_mapped_tracepoint_mapped_mtx s; ht_mutex_unlock mtx s }"

definition ht_pthread_mapped_tracepoint_add_mapping ::
  "HT_Endianness \<Rightarrow> (ht_struct \<Rightarrow> byte list) \<Rightarrow> ('w, 's) lib_scheme \<Rightarrow> ('w, 's) lib_scheme option" where
  "ht_pthread_mapped_tracepoint_add_mapping e repr s =
     do { (line, p, label) \<leftarrow> lib_mapped s;
          (_, line, s) \<leftarrow> ht_feature_cached_string_add_mapping e repr line p label s;
          Some (s\<lparr>lib_mapped := Some (line, p, label)\<rparr>) }"

section \<open>Initialisation\<close>

text \<open>The classes in the order of \<^verbatim>\<open>ht_init\<close>; \<open>core_decls\<close> is the list of the nine macro calls.\<close>

definition register_decl :: "klass_ref \<times> field_decl list \<Rightarrow> ('w, 's) reg_scheme \<Rightarrow> ('w, 's) reg_scheme option" where
  "register_decl d s = do { (_, s) \<leftarrow> register_event_klass_of (mkcreflect_type_info (fst d) (snd d)) s; Some s }"

text \<open>The result of \<^verbatim>\<open>ht_registry_init\<close> is not looked at.\<close>

definition ht_init :: "bool \<Rightarrow> string list \<Rightarrow> ('w, 's) lib_scheme \<Rightarrow> ('w, 's) lib_scheme option option" where
  "ht_init use_pthreads argv s =
     (case ht_command_line_parse_args argv s of
        (False, s) \<Rightarrow> Some None
      | (True, s) \<Rightarrow> do {
          (_, s) \<leftarrow> ht_registry_init s;
          s \<leftarrow> run_ops register_decl core_decls s;
          s \<leftarrow> ht_feature_register_core_features s;
          s \<leftarrow> (if use_pthreads then ht_posix_mapped_tracepoint_init s else Some s);
          Some (Some (s\<lparr>ht_init_counter := ht_init_counter s + 1\<rparr>)) })"

definition ht_is_initialized :: "('w, 's) lib_scheme \<Rightarrow> bool" where
  "ht_is_initialized s \<longleftrightarrow> 0 < ht_init_counter s"

definition ht_deinit :: "bool \<Rightarrow> ('w, 's) lib_scheme \<Rightarrow> ('w, 's) lib_scheme option" where
  "ht_deinit use_pthreads s =
     (if 0 < ht_init_counter s
      then do {
        let s = s\<lparr>ht_init_counter := ht_init_counter s - 1\<rparr>;
        if ht_init_counter s = 0
        then do {
          s \<leftarrow> (if use_pthreads then ht_posix_mapped_tracepoint_deinit s else Some s);
          ht_registry_deinit s }
        else Some s }
      else Some s)"

section \<open>The global timeline\<close>

text \<open>
  \<open>tls\<close> is the thread-local variable. The result of \<^verbatim>\<open>ht_timeline_create\<close> is not tested before the features are enabled on it;
  the \<open>junk\<close> arguments are the contents of new memory.
\<close>

definition ht_global_timeline_create ::
  "'w listener_entry bag \<Rightarrow> ht_stack \<Rightarrow> cached_label hash_map \<times> cached_label hash_map \<Rightarrow> ('w, 's) lib_scheme \<Rightarrow>
   (timeline \<times> ('w, 's) lib_scheme) option" where
  "ht_global_timeline_create junk junk_stack junk_maps s =
     do { (_, line, s) \<leftarrow> ht_timeline_create junk (global_timeline_buffer_size s) False True (Some ''HT_GlobalTimeline'') s;
          line \<leftarrow> line;
          (_, line, s) \<leftarrow> ht_feature_callstack_enable junk_stack line s;
          (_, line, s) \<leftarrow> ht_feature_cached_string_enable junk_maps line False s;
          Some (line, s) }"

definition ht_global_timeline_get ::
  "'w listener_entry bag \<Rightarrow> ht_stack \<Rightarrow> cached_label hash_map \<times> cached_label hash_map \<Rightarrow> timeline option \<Rightarrow> ('w, 's) lib_scheme \<Rightarrow>
   (timeline \<times> timeline option \<times> ('w, 's) lib_scheme) option" where
  "ht_global_timeline_get junk junk_stack junk_maps tls s =
     (case tls of
        Some line \<Rightarrow> Some (line, tls, s)
      | None \<Rightarrow> do { (line, s) \<leftarrow> ht_global_timeline_create junk junk_stack junk_maps s; Some (line, Some line, s) })"

text \<open>At the end of the thread.\<close>

definition ht_destroy_timeline :: "timeline option \<Rightarrow> ('w, 's) lib_scheme \<Rightarrow> ('w, 's) lib_scheme option" where
  "ht_destroy_timeline tls s =
     (case tls of
        None \<Rightarrow> Some s
      | Some line \<Rightarrow> ht_timeline_destroy (\<lambda>f. case f of Callstack c \<Rightarrow> callstack_klass | CachedString c \<Rightarrow> cached_string_klass) line s)"

section \<open>The register after the initialisation\<close>

lemma registry_init_ok:
  fixes s :: "('w, 's) reg_scheme"
  assumes wf: "alloc_wf (rt_mem s)" and run: "ht_registry_init s = Some (HT_ERR_OK, s1)"
  obtains b1 b2 m x1 x2 x3 L where
    "s1 = s\<lparr>rt_mem := m, event_klass_register := b1, listeners_register := b2, rt_locks := L, listeners_register_mutex := Some x1,
            features_register_mutex := Some x2, event_klass_registry_register_mutex := Some x3\<rparr>"
    and "alloc_wf m" and "bag_inv sizeof_void_ptr b1 m" and "bag_list b1 = []" and "bag_capacity b1 = 8"
    and "L x2 = Some False" and "L x3 = Some False" and "live m x3 \<noteq> None" and "x3 \<noteq> bag_block b1"
proof -
  have es: "0 < sizeof_void_ptr" "sizeof_void_ptr \<le> sizeof_void_ptr" "(0::nat) < 8" "8 * sizeof_void_ptr \<le> PTRDIFF_MAX"
    by (simp_all add: sizeof_void_ptr_def PTRDIFF_MAX_def)
  show thesis
  proof (cases rule: bag_init_cases [OF wf es, of "event_klass_register s"])
    case (1 b m)
    with run show thesis by (simp add: ht_registry_init_def)
  next
    case b1: (2 b1 m1)
    show thesis
    proof (cases rule: bag_init_cases [OF b1(2) es, of "listeners_register s"])
      case (1 b m)
      with b1(1) run show thesis by (auto simp: ht_registry_init_def bind_eq_Some_conv)
    next
      case b2: (2 b2 m2)
      let ?s2 = "s\<lparr>event_klass_register := b1, rt_mem := m2, listeners_register := b2\<rparr>"
      have wf2: "alloc_wf (rt_mem ?s2)" using b2(2) by simp
      show thesis
      proof (cases rule: mutex_create_cases [OF wf2])
        case (1 m)
        with b1(1) b2(1) run show thesis by (auto simp: ht_registry_init_def bind_eq_Some_conv)
      next
        case x1: (2 x1 m3)
        let ?s3 = "?s2\<lparr>rt_mem := m3, rt_locks := (rt_locks s)(x1 \<mapsto> False), listeners_register_mutex := Some x1\<rparr>"
        have wf3: "alloc_wf (rt_mem ?s3)" using x1(2) by simp
        show thesis
        proof (cases rule: mutex_create_cases [OF wf3])
          case (1 m)
          with b1(1) b2(1) x1(1) run show thesis by (auto simp: ht_registry_init_def bind_eq_Some_conv)
        next
          case x2: (2 x2 m4)
          let ?s4 = "?s3\<lparr>rt_mem := m4, rt_locks := (rt_locks ?s3)(x2 \<mapsto> False), features_register_mutex := Some x2\<rparr>"
          have wf4: "alloc_wf (rt_mem ?s4)" using x2(2) by simp
          show thesis
          proof (cases rule: mutex_create_cases [OF wf4])
            case (1 m)
            with b1(1) b2(1) x1(1) x2(1) run show thesis by (auto simp: ht_registry_init_def bind_eq_Some_conv)
          next
            case x3: (2 x3 m5)
            let ?L = "(rt_locks ?s4)(x3 \<mapsto> False)"
            have s1: "s1 = s\<lparr>rt_mem := m5, event_klass_register := b1, listeners_register := b2, rt_locks := ?L,
                listeners_register_mutex := Some x1, features_register_mutex := Some x2, event_klass_registry_register_mutex := Some x3\<rparr>"
              using run b1(1) b2(1) x1(1) x2(1) x3(1) by (cases s) (simp add: ht_registry_init_def)
            have blocks: "live m1 (bag_block b1) \<noteq> None" using bag_inv_block [OF b1(3)] by simp
            have live: "live m5 (bag_block b1) = live m1 (bag_block b1)" "x3 \<noteq> bag_block b1"
              using blocks b2(6,7) x1(3,4) x2(3,4) x3(3,4) by (auto split: if_splits)
            have cap: "bag_capacity b1 = 8" using b1(1) by (auto simp: ht_bag_init_def bind_eq_Some_conv split: option.splits)
            show thesis
              by (rule that [OF s1]) (use x3 cap live bag_inv_frame [OF b1(3) live(1)] b1(4) in simp_all)
          qed
        qed
      qed
    qed
  qed
qed

text \<open>The type information of the classes in a list of declarations.\<close>

definition described :: "(klass_ref \<times> field_decl list) list \<Rightarrow> (klass_ref \<Rightarrow> HT_EventKlass) \<Rightarrow> bool" where
  "described ds kl \<longleftrightarrow> (\<forall>(k, d)\<in>set ds. type_info (kl k) = Some (mkcreflect_type_info k d))"

text \<open>What registering a class leaves alone.\<close>

definition class_frame :: "('w, 's) reg_scheme \<Rightarrow> ('w, 's) reg_scheme \<Rightarrow> bool" where
  "class_frame s s' \<longleftrightarrow> (\<exists>m b kl. s' = s\<lparr>rt_mem := m, event_klass_register := b, klasses := kl\<rparr>)"

lemma class_frame_trans:
  assumes "class_frame s s1" and "class_frame s1 s2"
  shows "class_frame s s2"
proof -
  from assms obtain m b kl where "s2 = s\<lparr>rt_mem := m, event_klass_register := b, klasses := kl\<rparr>" by (auto simp: class_frame_def)
  then show ?thesis unfolding class_frame_def by blast
qed

lemma class_frame_refl: "class_frame s s"
  unfolding class_frame_def by (intro exI [of _ "rt_mem s"] exI [of _ "event_klass_register s"] exI [of _ "klasses s"]) simp

text \<open>A new class: it is registered if the bag has room or can grow.\<close>

lemma register_decl_new:
  assumes inv: "klass_register_inv s" and new: "k \<notin> set (registered s)" and few: "length (registered s) < 2 ^ 32 - 1"
    and ds: "described ds (klasses s)" "k \<notin> set (map fst ds)"
  shows "\<exists>s'. register_decl (k, d) s = Some s' \<and> klass_register_inv s' \<and> class_frame s s' \<and> described (ds @ [(k, d)]) (klasses s') \<and>
    (registered s' = registered s @ [k] \<or> registered s' = registered s \<and> bag_capacity (event_klass_register s) = bag_size (event_klass_register s)) \<and>
    (bag_size (event_klass_register s) < bag_capacity (event_klass_register s) \<longrightarrow>
       bag_capacity (event_klass_register s') = bag_capacity (event_klass_register s))"
proof -
  let ?ti = "mkcreflect_type_info k d"
  let ?s = "s\<lparr>klasses := (klasses s)(k := (klasses s k)\<lparr>type_info := Some ?ti\<rparr>)\<rparr>"
  have same: "registered ?s = registered s" by (simp add: registered_def)
  have inv': "klass_register_inv ?s"
    using inv by (auto simp: klass_register_inv_def klass_ids_ok_def registered_def mutex_free_def)
  have desc: "described (ds @ [(k, d)]) (klasses ?s)"
    using ds by (auto simp: described_def rev_image_eqI)
  obtain kid s' where run: "ht_registry_register_event_klass k ?s = Some (kid, s')" and s': "klass_register_inv s'"
    "\<forall>j. type_info (klasses s' j) = type_info (klasses ?s j)"
    and kid: "if kid = HT_INVALID_KLASS_ID then registered s' = registered ?s \<and> klasses s' = klasses ?s
      else registered s' = registered ?s @ [k] \<and> kid = word_of_nat (length (registered ?s))"
    using register_klass_new [OF inv', of k] new few unfolding same by blast
  have reg: "register_decl (k, d) s = Some s'"
    using run by (simp add: register_decl_def register_event_klass_of_def mkcreflect_type_info_def)
  have inval: "klass_id (klasses ?s k) = HT_INVALID_KLASS_ID" using inv new by (auto simp: klass_register_inv_def klass_ids_ok_def)
  obtain x err b m where add: "ht_bag_add sizeof_void_ptr (event_klass_register s) k (rt_mem s) = Some (err, b, m)"
    and x: "event_klass_registry_register_mutex s = Some x" "rt_locks s x = Some False"
    and s'b: "event_klass_register s' = b" and fr: "class_frame ?s s'"
  proof -
    from inv obtain x where x: "event_klass_registry_register_mutex s = Some x" "rt_locks s x = Some False"
      by (auto simp: klass_register_inv_def mutex_free_def)
    from run inval x obtain err b m where add: "ht_bag_add sizeof_void_ptr (event_klass_register s) k (rt_mem s) = Some (err, b, m)"
      by (auto simp: ht_registry_register_event_klass_def ht_mutex_lock_def bind_eq_Some_conv)
    let ?kl = "klasses s'"
    have "s' = ?s\<lparr>rt_mem := m, event_klass_register := b, klasses := ?kl\<rparr>"
      using run inval x add
      by (cases "err = HT_ERR_OK") (auto simp: ht_registry_register_event_klass_def ht_mutex_lock_def ht_mutex_unlock_def fun_upd_idem)
    then have "event_klass_register s' = b" "class_frame ?s s'" unfolding class_frame_def by (metis (no_types, lifting) reg.simps reg.surjective reg.update_convs, blast)
    with that x add show thesis by blast
  qed
  have cap: "registered s' = registered s @ [k] \<or> registered s' = registered s \<and> bag_capacity (event_klass_register s) = bag_size (event_klass_register s)"
    "bag_size (event_klass_register s) < bag_capacity (event_klass_register s) \<longrightarrow> bag_capacity b = bag_capacity (event_klass_register s)"
  proof -
    have bag: "bag_inv sizeof_void_ptr (event_klass_register s) (rt_mem s)" "alloc_wf (rt_mem s)" using inv by (auto simp: klass_register_inv_def)
    show "bag_size (event_klass_register s) < bag_capacity (event_klass_register s) \<longrightarrow> bag_capacity b = bag_capacity (event_klass_register s)"
      using add by (cases rule: bag_add_cases [OF bag, of k]) auto
    show "registered s' = registered s @ [k] \<or> registered s' = registered s \<and> bag_capacity (event_klass_register s) = bag_size (event_klass_register s)"
      using add s'b by (cases rule: bag_add_cases [OF bag, of k]) (auto simp: registered_def)
  qed
  have "class_frame s s'"
  proof -
    from fr obtain m b kl where "s' = s\<lparr>rt_mem := m, event_klass_register := b, klasses := kl\<rparr>" by (auto simp: class_frame_def)
    then show ?thesis unfolding class_frame_def by blast
  qed
  moreover have "described (ds @ [(k, d)]) (klasses s')" using desc s'(2) unfolding described_def by simp
  ultimately show ?thesis using reg s'(1) cap s'b by blast
qed

text \<open>As long as the bag has room every class is registered.\<close>

lemma register_decls_room:
  assumes "klass_register_inv s" and "registered s = map fst ds" and "described ds (klasses s)" and "distinct (map fst (ds @ xs))"
    and "bag_capacity (event_klass_register s) = 8" and "length ds + length xs \<le> 8"
  shows "\<exists>s'. run_ops register_decl xs s = Some s' \<and> klass_register_inv s' \<and> registered s' = map fst (ds @ xs) \<and>
    described (ds @ xs) (klasses s') \<and> class_frame s s' \<and> bag_capacity (event_klass_register s') = 8"
  using assms
proof (induction xs arbitrary: s ds)
  case Nil
  then show ?case by (simp add: class_frame_refl)
next
  case (Cons x xs)
  obtain k d where x: "x = (k, d)" by (cases x)
  have size: "bag_size (event_klass_register s) = length ds"
    using Cons.prems(1,2) length_bag_list by (fastforce simp: klass_register_inv_def registered_def)
  have new: "k \<notin> set (registered s)" "k \<notin> set (map fst ds)" "length (registered s) < 2 ^ 32 - 1"
    using Cons.prems(2,4,6) x by auto
  from register_decl_new [OF Cons.prems(1) new(1,3) Cons.prems(3) new(2), of d] size Cons.prems(5,6)
  obtain s1 where s1: "register_decl (k, d) s = Some s1" "klass_register_inv s1" "class_frame s s1"
    "described (ds @ [(k, d)]) (klasses s1)" "registered s1 = registered s @ [k]" "bag_capacity (event_klass_register s1) = 8" by force
  have "\<exists>s'. run_ops register_decl xs s1 = Some s' \<and> klass_register_inv s' \<and> registered s' = map fst ((ds @ [(k, d)]) @ xs) \<and>
    described ((ds @ [(k, d)]) @ xs) (klasses s') \<and> class_frame s1 s' \<and> bag_capacity (event_klass_register s') = 8"
    by (rule Cons.IH) (use s1 Cons.prems x in simp_all)
  with s1 x show ?case by (auto intro: class_frame_trans)
qed

text \<open>The ninth class needs a bigger bag.\<close>

lemma register_core_decls:
  assumes inv: "klass_register_inv s" and fresh: "registered s = []" and cap: "bag_capacity (event_klass_register s) = 8"
  shows "\<exists>s'. run_ops register_decl core_decls s = Some s' \<and> klass_register_inv s' \<and> class_frame s s' \<and>
    described core_decls (klasses s') \<and> (registered s' = map fst core_decls \<or> registered s' = map fst (butlast core_decls))"
proof -
  obtain xs k d where ds: "core_decls = xs @ [(k, d)]" "length xs = 8" by (simp add: core_decls_def)
  have dist: "distinct (map fst xs)" "k \<notin> set (map fst xs)" using core_decls_distinct unfolding ds by auto
  from register_decls_room [OF inv, of "[]" xs] fresh cap ds dist obtain s1 where s1: "run_ops register_decl xs s = Some s1"
    "klass_register_inv s1" "registered s1 = map fst xs" "described xs (klasses s1)" "class_frame s s1"
    by (auto simp: described_def)
  have "k \<notin> set (registered s1)" "length (registered s1) < 2 ^ 32 - 1" using s1(3) ds dist by simp_all
  from register_decl_new [OF s1(2) this s1(4) dist(2), of d] obtain s2 where s2: "register_decl (k, d) s1 = Some s2"
    "klass_register_inv s2" "class_frame s1 s2" "described core_decls (klasses s2)"
    "registered s2 = registered s1 @ [k] \<or> registered s2 = registered s1" unfolding ds by blast
  have "run_ops register_decl core_decls s = Some s2" using s1(1) s2(1) by (simp add: ds run_ops_append)
  with s2 s1(3) class_frame_trans [OF s1(5) s2(3)] show ?thesis by (auto simp: ds)
qed

lemma described_initialised:
  assumes kl: "described core_decls (klasses s)" and ids: "klass_ids_ok s" and reg: "registered s = core_klasses @ ks"
    and ks: "set ks \<subseteq> set other_klasses"
  shows "initialised s ks"
proof -
  have info: "type_info (klasses s k) = Some (mkcreflect_type_info k ds)" if "(k, ds) \<in> set core_decls" for k ds
    using kl that by (auto simp: described_def)
  have "klass_ok (klasses s) k" if "(k, ds) \<in> set core_decls" for k ds
    using decls_klass_ok [where kl = "klasses s" and k = k, OF info [OF that]] core_decls_ok that by blast
  then have "\<forall>k\<in>set core_klasses. klass_ok (klasses s) k" by (auto simp: core_klasses_def core_decls_def)
  moreover have "klass_proper (klasses s) k" if "(k, ds) \<in> set (drop 4 core_decls)" for k ds
  proof -
    from that have "(k, ds) \<in> set core_decls" by (rule in_set_dropD)
    with that show ?thesis using core_decls_ok other_decls_no_timestamp [OF that] by (intro decls_klass_proper [where kl = "klasses s" and k = k, OF info]) auto
  qed
  then have "\<forall>k\<in>set ks. klass_proper (klasses s) k" using ks by (auto simp: drop_map)
  moreover have "type_info (klasses s ''HT_EndiannessInfoEvent'') =
      Some (mkcreflect_type_info ''HT_EndiannessInfoEvent'' HT_EndiannessInfoEvent_decl)"
    by (rule info) (simp add: core_decls_def)
  ultimately show ?thesis using ids reg unfolding initialised_def by simp
qed

section \<open>The rest of the initialisation\<close>

lemma register_feature_total:
  assumes "features_register_mutex s = Some a" and "rt_locks s a = Some False"
  shows "\<exists>err fr fc fi. ht_registry_register_feature k s =
    Some (err, s\<lparr>feature_register := fr, feature_count := fc, feature_ids := fi\<rparr>)"
  using assms
  by (cases s) (auto simp: ht_registry_register_feature_def ht_mutex_lock_def ht_mutex_unlock_def fun_upd_idem)

lemma register_core_features_total:
  assumes "features_register_mutex s = Some a" and "rt_locks s a = Some False"
  shows "\<exists>fr fc fi. ht_feature_register_core_features s = Some (s\<lparr>feature_register := fr, feature_count := fc, feature_ids := fi\<rparr>)"
proof -
  obtain err fr fc fi where 1: "ht_registry_register_feature ''HT_FeatureCachedString'' s =
    Some (err, s\<lparr>feature_register := fr, feature_count := fc, feature_ids := fi\<rparr>)" (is "_ = Some (err, ?s)")
    using register_feature_total [OF assms] by blast
  have "features_register_mutex ?s = Some a" "rt_locks ?s a = Some False" using assms by simp_all
  from register_feature_total [OF this] obtain err' fr' fc' fi' where
    "ht_registry_register_feature ''HT_FeatureCallstack'' ?s = Some (err', s\<lparr>feature_register := fr', feature_count := fc', feature_ids := fi'\<rparr>)"
    by fastforce
  with 1 have "ht_feature_register_core_features s = Some (s\<lparr>feature_register := fr', feature_count := fc', feature_ids := fi'\<rparr>)"
    by (simp add: ht_feature_register_core_features_def)
  then show ?thesis by blast
qed

lemma mapped_init_total:
  assumes "alloc_wf (rt_mem s)"
  shows "\<exists>m L x. ht_posix_mapped_tracepoint_init s = Some (s\<lparr>rt_mem := m, rt_locks := L, posix_mapped_tracepoint_mapped_mtx := x\<rparr>) \<and>
    alloc_wf m \<and> (\<forall>a. live (rt_mem s) a \<noteq> None \<longrightarrow> live m a = live (rt_mem s) a \<and> L a = rt_locks s a)"
proof (cases rule: mutex_create_cases [OF assms])
  case (1 m)
  then show ?thesis by (intro exI [of _ m] exI [of _ "rt_locks s"] exI [of _ None]) (simp add: ht_posix_mapped_tracepoint_init_def)
next
  case (2 a m)
  then show ?thesis
    by (intro exI [of _ m] exI [of _ "(rt_locks s)(a \<mapsto> False)"] exI [of _ "Some a"]) (auto simp: ht_posix_mapped_tracepoint_init_def)
qed

text \<open>The command line changes the size of the buffer and prints.\<close>

lemma printed_frame:
  assumes "\<exists>n. s1 = s\<lparr>global_timeline_buffer_size := n\<rparr>"
  shows "\<exists>n out. (if b then lib_printf str s1 else s1) = s\<lparr>global_timeline_buffer_size := n, lib_stdout := out\<rparr>"
proof -
  from assms obtain n where n: "s1 = s\<lparr>global_timeline_buffer_size := n\<rparr>" by blast
  then have "(if b then lib_printf str s1 else s1) =
      s\<lparr>global_timeline_buffer_size := n, lib_stdout := if b then lib_stdout s @ str else lib_stdout s\<rparr>" by (simp add: lib_printf_def)
  then show ?thesis by blast
qed

lemma parse_args_from_frame:
  "\<exists>n out. snd (parse_args_from argv i s) = s\<lparr>global_timeline_buffer_size := n, lib_stdout := out\<rparr>"
proof (induction argv i s rule: parse_args_from.induct)
  case (1 argv i s)
  show ?case
  proof (cases "i < length argv")
    case False
    then show ?thesis
      by (subst parse_args_from.simps) (auto intro!: exI [of _ "global_timeline_buffer_size s"] exI [of _ "lib_stdout s"])
  next
    case True
    show ?thesis
    proof (cases "find (\<lambda>a. arg_argument a = argv ! i) arguments")
      case None
      with True 1(1) [OF True None] show ?thesis by (subst parse_args_from.simps) simp
    next
      case a: (Some a)
      show ?thesis
      proof (cases "arg_parser a")
        case Print_Help
        with True a show ?thesis
          by (subst parse_args_from.simps) (auto simp: print_help_def lib_printf_def intro!: exI [of _ "global_timeline_buffer_size s"])
      next
        case Set_Global_Timeline_Buffer_Size
        obtain err s1 where run: "set_global_timeline_buffer_size argv i s = (err, s1)" by (cases "set_global_timeline_buffer_size argv i s")
        let ?s2 = "if err \<noteq> HT_ERR_OK then lib_printf (''Failed to process argument '' @ arg_argument a @ ''. Error code: '' @
                     to_decimal (error_number err) @ [CHR 0x0A]) s1 else s1"
        have s1: "\<exists>n. s1 = s\<lparr>global_timeline_buffer_size := n\<rparr>"
          using run by (auto simp: set_global_timeline_buffer_size_def ht_global_timeline_set_buffer_size_def
              intro: exI [of _ "global_timeline_buffer_size s"] split: if_splits prod.splits)
        then have s2: "\<exists>n out. ?s2 = s\<lparr>global_timeline_buffer_size := n, lib_stdout := out\<rparr>"
          by (rule printed_frame)
        have ih: "\<exists>n out. snd (parse_args_from argv (if arg_is_flag a then i + 1 else i + 2) ?s2) =
            ?s2\<lparr>global_timeline_buffer_size := n, lib_stdout := out\<rparr>"
          by (rule 1(2) [OF True a Set_Global_Timeline_Buffer_Size run [symmetric] refl refl])
        show ?thesis
        proof -
          from s2 obtain n out where n: "?s2 = s\<lparr>global_timeline_buffer_size := n, lib_stdout := out\<rparr>" by blast
          have "parse_args_from argv i s = parse_args_from argv (if arg_is_flag a then i + 1 else i + 2) ?s2"
            by (subst parse_args_from.simps) (simp add: True a Set_Global_Timeline_Buffer_Size run)
          with ih show ?thesis unfolding n by simp
        qed
      qed
    qed
  qed
qed

lemma parse_args_frame:
  assumes "ht_command_line_parse_args argv s = (go, s0)"
  obtains n out where "s0 = s\<lparr>global_timeline_buffer_size := n, lib_stdout := out\<rparr>"
  using parse_args_from_frame [of argv 1 s] assms by (auto simp: ht_command_line_parse_args_def)

text \<open>The register of the classes, its lock and the memory it is in are the same.\<close>

definition register_kept :: "('w, 's) reg_scheme \<Rightarrow> ('w, 's) reg_scheme \<Rightarrow> bool" where
  "register_kept s s' \<longleftrightarrow>
     alloc_wf (rt_mem s') \<and> event_klass_register s' = event_klass_register s \<and> klasses s' = klasses s \<and>
     event_klass_registry_register_mutex s' = event_klass_registry_register_mutex s \<and>
     (\<forall>a. live (rt_mem s) a \<noteq> None \<longrightarrow> live (rt_mem s') a = live (rt_mem s) a \<and> rt_locks s' a = rt_locks s a)"

lemma register_kept_registered: "register_kept s s' \<Longrightarrow> registered s' = registered s"
  by (simp add: register_kept_def registered_def)

lemma register_kept_inv:
  assumes "klass_register_inv s" and kept: "register_kept s s'"
  shows "klass_register_inv s'"
proof -
  from assms(1) obtain x where bag: "bag_inv sizeof_void_ptr (event_klass_register s) (rt_mem s)" and ids: "klass_ids_ok s"
    and x: "event_klass_registry_register_mutex s = Some x" "mutex_free x s" "x \<noteq> bag_block (event_klass_register s)"
    by (auto simp: klass_register_inv_def)
  have "live (rt_mem s') (bag_block (event_klass_register s)) = live (rt_mem s) (bag_block (event_klass_register s))"
    using kept bag_inv_block [OF bag] by (auto simp: register_kept_def)
  then have "bag_inv sizeof_void_ptr (event_klass_register s) (rt_mem s')" by (rule bag_inv_frame [OF bag])
  moreover have "mutex_free x s'" using x(2) kept by (auto simp: mutex_free_def register_kept_def)
  moreover have "klass_ids_ok s'" using ids kept by (simp add: register_kept_def klass_ids_ok_def registered_def)
  ultimately show ?thesis using x kept by (simp add: klass_register_inv_def register_kept_def)
qed

text \<open>
  The steps after the classes: they always end, and keep what a client sees of the register.
\<close>

lemma init_rest:
  assumes wf: "alloc_wf (rt_mem s)" and x: "features_register_mutex s = Some a" "rt_locks s a = Some False"
    and go: "ht_command_line_parse_args argv s0 = (True, s1)" and reg: "ht_registry_init s1 = Some (err, s2)"
    and decls: "run_ops register_decl core_decls s2 = Some s" and n: "ht_init_counter s = ht_init_counter s0"
  shows "\<exists>s'. ht_init use_pthreads argv s0 = Some (Some s') \<and> register_kept s s' \<and> ht_init_counter s' = ht_init_counter s0 + 1"
proof -
  from register_core_features_total [OF x] obtain fr fc fi where
    f: "ht_feature_register_core_features s = Some (s\<lparr>feature_register := fr, feature_count := fc, feature_ids := fi\<rparr>)"
    (is "_ = Some ?s") by blast
  show ?thesis
  proof (cases use_pthreads)
    case False
    let ?t = "?s\<lparr>ht_init_counter := ht_init_counter ?s + 1\<rparr>"
    have "ht_init use_pthreads argv s0 = Some (Some ?t)" using go reg decls f False by (simp add: ht_init_def)
    moreover have "register_kept s ?t" using wf by (simp add: register_kept_def)
    moreover have "ht_init_counter ?t = ht_init_counter s0 + 1" using n by simp
    ultimately show ?thesis by blast
  next
    case True
    from wf have wf': "alloc_wf (rt_mem ?s)" by simp
    from mapped_init_total [OF wf'] obtain m L y where
      p: "ht_posix_mapped_tracepoint_init ?s = Some (?s\<lparr>rt_mem := m, rt_locks := L, posix_mapped_tracepoint_mapped_mtx := y\<rparr>)"
      and m: "alloc_wf m" and keep: "\<forall>a. live (rt_mem ?s) a \<noteq> None \<longrightarrow> live m a = live (rt_mem ?s) a \<and> L a = rt_locks ?s a"
      by blast
    let ?t = "?s\<lparr>rt_mem := m, rt_locks := L, posix_mapped_tracepoint_mapped_mtx := y, ht_init_counter := ht_init_counter ?s + 1\<rparr>"
    have "ht_init use_pthreads argv s0 = Some (Some ?t)" using go reg decls f p True by (simp add: ht_init_def)
    moreover have "register_kept s ?t" using m keep by (simp add: register_kept_def)
    moreover have "ht_init_counter ?t = ht_init_counter s0 + 1" using n by simp
    ultimately show ?thesis by blast
  qed
qed

text \<open>
  C9. In a fresh library, where no class has an id yet, \<^verbatim>\<open>ht_init\<close> returns if \<^verbatim>\<open>ht_registry_init\<close> got its memory: the four classes of the
  trace format have the ids 0 to 3, all described the way the reader needs, the other classes follow, with an id each that is
  its position. Only the last class can be missing: the bag of the classes has room for eight, and the ninth makes it grow, which
  the allocator may refuse.
\<close>

theorem ht_init_registers_core_classes:
  assumes wf: "alloc_wf (rt_mem s)" and fresh: "\<forall>k. klass_id (klasses s k) = HT_INVALID_KLASS_ID"
    and go: "ht_command_line_parse_args argv s = (True, s0)" and reg: "ht_registry_init s0 = Some (HT_ERR_OK, s1)"
  shows "\<exists>s' ks. ht_init use_pthreads argv s = Some (Some s') \<and> initialised s' ks \<and> klass_register_inv s' \<and>
    (ks = other_klasses \<or> ks = butlast other_klasses) \<and> ht_init_counter s' = ht_init_counter s + 1"
proof -
  from parse_args_frame [OF go] obtain n out where s0: "s0 = s\<lparr>global_timeline_buffer_size := n, lib_stdout := out\<rparr>" .
  from wf s0 have wf0: "alloc_wf (rt_mem s0)" by simp
  obtain b1 b2 m x1 x2 x3 L where
    s1: "s1 = s0\<lparr>rt_mem := m, event_klass_register := b1, listeners_register := b2, rt_locks := L, listeners_register_mutex := Some x1,
            features_register_mutex := Some x2, event_klass_registry_register_mutex := Some x3\<rparr>"
    and props: "alloc_wf m" "bag_inv sizeof_void_ptr b1 m" "bag_list b1 = []" "bag_capacity b1 = 8" "L x2 = Some False"
      "L x3 = Some False" "live m x3 \<noteq> None" "x3 \<noteq> bag_block b1" by (rule registry_init_ok [OF wf0 reg])
  have inv: "klass_register_inv s1" "registered s1 = []" "bag_capacity (event_klass_register s1) = 8"
    using props fresh by (simp_all add: s1 s0 klass_register_inv_def klass_ids_ok_def registered_def mutex_free_def)
  from register_core_decls [OF inv] obtain s2 where s2: "run_ops register_decl core_decls s1 = Some s2" "klass_register_inv s2"
    "class_frame s1 s2" "described core_decls (klasses s2)"
    "registered s2 = map fst core_decls \<or> registered s2 = map fst (butlast core_decls)" by blast
  from s2(3) have same: "features_register_mutex s2 = Some x2" "rt_locks s2 x2 = Some False" "ht_init_counter s2 = ht_init_counter s"
    using props(5) by (auto simp: class_frame_def s1 s0)
  have wf2: "alloc_wf (rt_mem s2)" using s2(2) by (simp add: klass_register_inv_def)
  from init_rest [OF wf2 same(1,2) go reg s2(1) same(3)] obtain s' where run: "ht_init use_pthreads argv s = Some (Some s')"
    "ht_init_counter s' = ht_init_counter s + 1" and kept: "register_kept s2 s'" by blast
  have s': "klass_register_inv s'" "registered s' = registered s2" "klasses s' = klasses s2"
    using register_kept_inv [OF s2(2) kept] register_kept_registered [OF kept] kept by (simp_all add: register_kept_def)
  define ks where "ks = drop 4 (registered s2)"
  have ks: "ks = other_klasses \<or> ks = butlast other_klasses" "registered s2 = core_klasses @ ks" "set ks \<subseteq> set other_klasses"
    using s2(5) by (auto simp: ks_def core_decls_def core_klasses_def)
  have "initialised s' ks"
    using described_initialised [of s' ks] s2(4) s' ks(2,3) by (simp add: klass_register_inv_def)
  with run s' ks(1) show ?thesis by blast
qed

text \<open>
  The error of \<^verbatim>\<open>ht_registry_init\<close> is lost: when the first allocation of the process is refused there are no mutexes, and the first
  class makes \<^verbatim>\<open>ht_init\<close> lock a null pointer.
\<close>

lemma ht_init_no_memory:
  assumes go: "ht_command_line_parse_args argv s = (True, s0)"
    and refused: "ht_bag_init sizeof_void_ptr (event_klass_register s) 8 (rt_mem s) = Some (err, b, m)" "err \<noteq> HT_ERR_OK"
    and fresh: "\<forall>k. klass_id (klasses s k) = HT_INVALID_KLASS_ID" "event_klass_registry_register_mutex s = None"
  shows "ht_init use_pthreads argv s = None"
proof -
  from parse_args_frame [OF go] obtain n out where s0: "s0 = s\<lparr>global_timeline_buffer_size := n, lib_stdout := out\<rparr>" .
  let ?s1 = "s0\<lparr>rt_mem := m, event_klass_register := b\<rparr>"
  have reg: "ht_registry_init s0 = Some (err, ?s1)" using refused by (simp add: ht_registry_init_def s0)
  obtain k d ds where ds: "core_decls = (k, d) # ds" by (simp add: core_decls_def)
  have "register_decl (k, d) ?s1 = None"
    using fresh by (simp add: s0 register_decl_def register_event_klass_of_def ht_registry_register_event_klass_def mkcreflect_type_info_def)
  then show ?thesis using go reg by (simp add: ht_init_def ds)
qed

text \<open>The option for the size of the buffer, with the number the program would print.\<close>

lemma buffer_size_option:
  fixes v :: u64
  shows "ht_command_line_parse_args [program, ''--ht-global-timeline-buffer-size'', to_decimal (unat v)] s =
     (True, ht_global_timeline_set_buffer_size (unat v) s)"
proof -
  have "0 < length (to_decimal (unat v))" by (simp add: to_decimal_nonempty)
  then show ?thesis
    by (simp add: ht_command_line_parse_args_def parse_args_from.simps arguments_def set_global_timeline_buffer_size_def strtoul_to_decimal)
qed

section \<open>A second initialisation\<close>

lemma register_decl_known:
  assumes "klass_id (klasses s k) \<noteq> HT_INVALID_KLASS_ID"
  shows "register_decl (k, d) s = Some (s\<lparr>klasses := (klasses s)(k := (klasses s k)\<lparr>type_info := Some (mkcreflect_type_info k d)\<rparr>)\<rparr>)"
  using assms
  by (simp add: register_decl_def register_event_klass_of_def ht_registry_register_event_klass_def mkcreflect_type_info_def)

lemma register_decls_known:
  assumes "\<forall>k\<in>set (map fst ds). klass_id (klasses s k) \<noteq> HT_INVALID_KLASS_ID"
  shows "\<exists>kl. run_ops register_decl ds s = Some (s\<lparr>klasses := kl\<rparr>) \<and> (\<forall>k. klass_id (kl k) = klass_id (klasses s k))"
  using assms
proof (induction ds arbitrary: s)
  case Nil
  have "run_ops register_decl [] s = Some (s\<lparr>klasses := klasses s\<rparr>)" by simp
  then show ?case by blast
next
  case (Cons x ds)
  obtain k d where x: "x = (k, d)" by (cases x)
  let ?s = "s\<lparr>klasses := (klasses s)(k := (klasses s k)\<lparr>type_info := Some (mkcreflect_type_info k d)\<rparr>)\<rparr>"
  have "\<forall>k\<in>set (map fst ds). klass_id (klasses ?s k) \<noteq> HT_INVALID_KLASS_ID" using Cons.prems x by simp
  from Cons.IH [OF this] obtain kl where kl: "run_ops register_decl ds ?s = Some (?s\<lparr>klasses := kl\<rparr>)"
    "\<forall>k. klass_id (kl k) = klass_id (klasses ?s k)" by blast
  have "register_decl (k, d) s = Some ?s" using Cons.prems x by (simp add: register_decl_known)
  then have "run_ops register_decl (x # ds) s = run_ops register_decl ds ?s" by (simp only: x run_ops.simps bind.bind_lunit)
  with kl(1) have "run_ops register_decl (x # ds) s = Some (s\<lparr>klasses := kl\<rparr>)" by simp
  moreover from kl(2) have "\<forall>k. klass_id (kl k) = klass_id (klasses s k)" by simp
  ultimately show ?case by blast
qed

text \<open>After the first initialisation every class has an id.\<close>

lemma initialised_klass_ids:
  assumes "initialised s other_klasses"
  shows "\<forall>k\<in>set (map fst core_decls). klass_id (klasses s k) \<noteq> HT_INVALID_KLASS_ID"
proof
  fix k
  assume "k \<in> set (map fst core_decls)"
  moreover have reg: "registered s = map fst core_decls" using assms by (simp add: initialised_def core_klasses_def core_decls_def)
  ultimately obtain i where i: "i < length (registered s)" "registered s ! i = k" by (auto simp: in_set_conv_nth)
  from assms have "klass_ids_ok s" by (simp add: initialised_def)
  with i have "klass_id (klasses s k) = word_of_nat i" unfolding klass_ids_ok_def by blast
  moreover have "i < 9" using i(1) by (simp add: reg core_decls_def)
  ultimately show "klass_id (klasses s k) \<noteq> HT_INVALID_KLASS_ID"
    using word_of_nat_not_minus_1 [of i] by (simp add: HT_INVALID_KLASS_ID_def)
qed

text \<open>
  C38. The documentation of \<^verbatim>\<open>ht_init\<close> says that it can be called again without an effect. A second call makes the register of the
  classes a new empty bag; the class objects have an id from the first call, so they are not put into it again. After the call, also
  when \<^verbatim>\<open>ht_deinit\<close> came between the two, no class is registered: a listener that is added describes none to its client,
  although the events still carry the ids.
\<close>

theorem ht_init_twice_forgets_classes:
  assumes wf: "alloc_wf (rt_mem s)" and again: "\<forall>k\<in>set (map fst core_decls). klass_id (klasses s k) \<noteq> HT_INVALID_KLASS_ID"
    and go: "ht_command_line_parse_args argv s = (True, s0)" and reg: "ht_registry_init s0 = Some (HT_ERR_OK, s1)"
  shows "\<exists>s'. ht_init use_pthreads argv s = Some (Some s') \<and> registered s' = [] \<and> registry_templates s' = [] \<and>
    (\<forall>k. klass_id (klasses s' k) = klass_id (klasses s k)) \<and> ht_init_counter s' = ht_init_counter s + 1"
proof -
  from parse_args_frame [OF go] obtain n out where s0: "s0 = s\<lparr>global_timeline_buffer_size := n, lib_stdout := out\<rparr>" .
  from wf s0 have wf0: "alloc_wf (rt_mem s0)" by simp
  obtain b1 b2 m x1 x2 x3 L where
    s1: "s1 = s0\<lparr>rt_mem := m, event_klass_register := b1, listeners_register := b2, rt_locks := L, listeners_register_mutex := Some x1,
            features_register_mutex := Some x2, event_klass_registry_register_mutex := Some x3\<rparr>"
    and props: "alloc_wf m" "bag_inv sizeof_void_ptr b1 m" "bag_list b1 = []" "bag_capacity b1 = 8" "L x2 = Some False"
      "L x3 = Some False" "live m x3 \<noteq> None" "x3 \<noteq> bag_block b1" by (rule registry_init_ok [OF wf0 reg])
  have kl1: "klasses s1 = klasses s" by (simp add: s1 s0)
  from register_decls_known [of core_decls s1, unfolded kl1, OF again] obtain kl where
    decls: "run_ops register_decl core_decls s1 = Some (s1\<lparr>klasses := kl\<rparr>)" and ids: "\<forall>k. klass_id (kl k) = klass_id (klasses s k)" by blast
  let ?s = "s1\<lparr>klasses := kl\<rparr>"
  have "alloc_wf (rt_mem ?s)" "features_register_mutex ?s = Some x2" "rt_locks ?s x2 = Some False" "ht_init_counter ?s = ht_init_counter s"
    using props(1,5) by (simp_all add: s1 s0)
  from init_rest [OF this(1-3) go reg decls this(4)] obtain s' where run: "ht_init use_pthreads argv s = Some (Some s')"
    "ht_init_counter s' = ht_init_counter s + 1" and kept: "register_kept ?s s'" by blast
  have b: "event_klass_register s' = b1" "klasses s' = kl" using kept by (simp_all add: register_kept_def s1)
  have "registered s' = []" "registry_templates s' = []" "\<forall>k. klass_id (klasses s' k) = klass_id (klasses s k)"
    using b props(3) ids by (simp_all add: registered_def registry_templates_def)
  with run show ?thesis by blast
qed

section \<open>Witnesses\<close>

text \<open>A process before the library is initialised, and one where it was.\<close>

definition lib_of :: "(klass_ref \<Rightarrow> HT_EventKlass) \<Rightarrow> unit lib" where
  "lib_of kl = reg.extend ((core_reg_of ())\<lparr>klasses := kl\<rparr>) (lib.fields 4096 0 None None [])"

lemma lib_of_simps:
  "rt_mem (lib_of kl) = rt_mem (core_reg_of ())" "klasses (lib_of kl) = kl" "ht_init_counter (lib_of kl) = 0"
  by (simp_all add: lib_of_def reg.defs lib.defs)

lemma lib_of_wf: "alloc_wf (rt_mem (lib_of kl))"
  by (simp add: lib_of_simps core_reg_of_def alloc_wf_def heap_ok_def)

lemma lib_of_parse: "ht_command_line_parse_args [''program''] (lib_of kl) = (True, lib_of kl)"
  by (simp add: ht_command_line_parse_args_def parse_args_from.simps)

lemma lib_of_registry: "\<exists>s1. ht_registry_init (lib_of kl) = Some (HT_ERR_OK, s1)"
  by (simp add: ht_registry_init_def ht_bag_init_def ht_mutex_create_def ht_alloc_def malloc_def libc_refuses_def size_mul_def
      sizeof_void_ptr_def sizeof_HT_Mutex_def SIZE_MODULUS_def PTRDIFF_MAX_def lib_of_simps core_reg_of_def)

text \<open>Both properties on these processes.\<close>

theorem ht_init_registers_core_classes_witness:
  "\<exists>s' ks. ht_init True [''program''] (lib_of (\<lambda>_. \<lparr>type_info = None, klass_id = HT_INVALID_KLASS_ID\<rparr>)) = Some (Some s') \<and>
     initialised s' ks \<and> ht_init_counter s' = 1"
proof -
  let ?s = "lib_of (\<lambda>_. \<lparr>type_info = None, klass_id = HT_INVALID_KLASS_ID\<rparr>)"
  obtain s1 where "ht_registry_init ?s = Some (HT_ERR_OK, s1)" using lib_of_registry by blast
  moreover have "\<forall>k. klass_id (klasses ?s k) = HT_INVALID_KLASS_ID" by (simp add: lib_of_simps)
  ultimately show ?thesis
    using ht_init_registers_core_classes [OF lib_of_wf _ lib_of_parse, where use_pthreads = True] by (force simp: lib_of_simps)
qed

theorem ht_init_twice_forgets_classes_witness:
  "\<exists>s'. ht_init True [''program''] (lib_of core_klass) = Some (Some s') \<and> registry_templates s' = [] \<and>
     klass_id (klasses s' ''HT_CallstackIntEvent'') = 5"
proof -
  obtain s1 where 1: "ht_registry_init (lib_of core_klass) = Some (HT_ERR_OK, s1)" using lib_of_registry by blast
  have "core_klass k = klasses (core_reg_of ()) k" for k by (simp add: core_reg_of_def)
  with initialised_klass_ids [OF core_reg_initialised, of "()"]
  have 2: "\<forall>k\<in>set (map fst core_decls). klass_id (klasses (lib_of core_klass) k) \<noteq> HT_INVALID_KLASS_ID" by (simp add: lib_of_simps)
  have 3: "klass_id (core_klass ''HT_CallstackIntEvent'') = 5" by (simp add: klass_table_def core_decls_def)
  from ht_init_twice_forgets_classes [OF lib_of_wf 2 lib_of_parse 1, where use_pthreads = True] 3 show ?thesis
    by (auto simp: lib_of_simps)
qed

end
