(* ===== verification/Client_Main.thy ===== *)
theory Client_Main
  imports Callgrind_Converter Tcp_Client_Stream
begin

text \<open>
  \<^verbatim>\<open>client_utils/command_line_parser.cpp\<close>, \<^verbatim>\<open>client_utils/stream_factory.cpp\<close> and \<^verbatim>\<open>client/main.cpp\<close>: the client from its command line to
  the file it writes.

  The registered options are an unordered map: a list in the order of registration, and \<open>walk\<close> is the order in which a loop goes
  through it. The vector of arguments has \<^verbatim>\<open>argc\<close> elements. Lines that are written to the error stream are kept in the state.
\<close>

section \<open>Options\<close>

record OptionInfo =
  oi_help_msg :: string
  oi_is_flag :: bool
  oi_is_mandatory :: bool

type_synonym options = "(string \<times> OptionInfo) list"

record CommandLineParser =
  cl_registered_options :: options
  cl_actual_options :: "string \<rightharpoonup> string"
  cl_prefix :: string
  cl_app_name :: string
  cl_cerr :: "string list"

definition new_command_line_parser :: "string \<Rightarrow> string \<Rightarrow> CommandLineParser option" where
  "new_command_line_parser prefix app_name =
     (if 0 < length prefix
      then Some \<lparr>cl_registered_options = [], cl_actual_options = Map.empty, cl_prefix = prefix, cl_app_name = app_name, cl_cerr = []\<rparr>
      else None)"

definition cl_complain :: "string \<Rightarrow> CommandLineParser \<Rightarrow> CommandLineParser" where
  "cl_complain msg p = p\<lparr>cl_cerr := cl_cerr p @ [msg]\<rparr>"

text \<open>\<^verbatim>\<open>insert\<close> keeps an entry that is there.\<close>

definition register_option :: "string \<Rightarrow> OptionInfo \<Rightarrow> CommandLineParser \<Rightarrow> CommandLineParser" where
  "register_option name info p =
     (if oi_is_flag info \<and> oi_is_mandatory info
      then cl_complain (''Unable to register option '' @ name @ '': option can'' @ [CHR 0x27] @ ''t be flag and mandatory at the same time'') p
      else if name \<in> fst ` set (cl_registered_options p) then p
      else p\<lparr>cl_registered_options := cl_registered_options p @ [(name, info)]\<rparr>)"

definition get_max_option_length :: "(options \<Rightarrow> options) \<Rightarrow> nat \<Rightarrow> CommandLineParser \<Rightarrow> nat" where
  "get_max_option_length walk value_help_length p =
     fold (\<lambda>(name, info) max_option_length.
       let len = length name + (if oi_is_flag info then 0 else value_help_length)
       in if max_option_length < len then len else max_option_length) (walk (cl_registered_options p)) 0"

definition pad_right :: "nat \<Rightarrow> string \<Rightarrow> string" where
  "pad_right n s = s @ replicate (n - length s) (CHR '' '')"

definition cl_print_help :: "(options \<Rightarrow> options) \<Rightarrow> CommandLineParser \<Rightarrow> string" where
  "cl_print_help walk p =
     (let value_help = '' <VALUE>''; max_option_length = get_max_option_length walk (length value_help) p in
      ''usage: '' @ cl_app_name p @ '' [OPTION]...'' @ [newline] @
      concat (map (\<lambda>(name, info).
        ''  '' @ cl_prefix p @ pad_right max_option_length (name @ (if oi_is_flag info then '''' else value_help)) @ '' '' @
        (if oi_is_mandatory info then ''[MANDATORY] '' else '''') @ oi_help_msg info @ [newline]) (walk (cl_registered_options p))))"

definition cl_get_value :: "string \<Rightarrow> string \<Rightarrow> CommandLineParser \<Rightarrow> string" where
  "cl_get_value opt default_value p = (case cl_actual_options p opt of Some v \<Rightarrow> v | None \<Rightarrow> default_value)"

definition cl_has_value :: "string \<Rightarrow> CommandLineParser \<Rightarrow> bool" where
  "cl_has_value opt p = (cl_actual_options p opt \<noteq> None)"

definition is_option_valid :: "string \<Rightarrow> CommandLineParser \<Rightarrow> bool" where
  "is_option_valid opt p = (length (cl_prefix p) < length opt \<and> take (length (cl_prefix p)) opt = cl_prefix p)"

fun validate_from :: "options \<Rightarrow> CommandLineParser \<Rightarrow> bool \<times> CommandLineParser" where
  "validate_from [] p = (True, p)"
| "validate_from ((name, info) # opts) p =
     (if oi_is_mandatory info \<and> cl_actual_options p name = None
      then (False, cl_complain (''Option '' @ cl_prefix p @ name @ '' must be specified'') p)
      else validate_from opts p)"

definition validate_user_options :: "(options \<Rightarrow> options) \<Rightarrow> CommandLineParser \<Rightarrow> bool \<times> CommandLineParser" where
  "validate_user_options walk p = validate_from (walk (cl_registered_options p)) p"

definition add_actual_option :: "string \<Rightarrow> string \<Rightarrow> CommandLineParser \<Rightarrow> CommandLineParser" where
  "add_actual_option opt v p =
     (if cl_actual_options p opt = None then p\<lparr>cl_actual_options := (cl_actual_options p)(opt \<mapsto> v)\<rparr> else p)"

function cl_parse_from :: "(options \<Rightarrow> options) \<Rightarrow> string list \<Rightarrow> nat \<Rightarrow> CommandLineParser \<Rightarrow> bool \<times> CommandLineParser" where
  "cl_parse_from walk argv i p =
     (if i < length argv
      then if \<not> is_option_valid (argv ! i) p then (False, cl_complain (''Invalid option: '' @ argv ! i) p)
      else let opt = drop (length (cl_prefix p)) (argv ! i) in
        (case map_of (cl_registered_options p) opt of
           None \<Rightarrow> (False, cl_complain (''Unknown option: '' @ argv ! i) p)
         | Some info \<Rightarrow>
             if oi_is_flag info then cl_parse_from walk argv (i + 1) (add_actual_option opt '''' p)
             else if i = length argv - 1 then (False, cl_complain (argv ! i @ '' requires a value'') p)
             else cl_parse_from walk argv (i + 2) (add_actual_option opt (argv ! (i + 1)) p))
      else validate_user_options walk p)"
  by pat_completeness auto
termination
  by (relation "measure (\<lambda>(walk, argv, i, p). length argv - i)") auto

declare cl_parse_from.simps [simp del]

definition cl_parse :: "(options \<Rightarrow> options) \<Rightarrow> string list \<Rightarrow> CommandLineParser \<Rightarrow> bool \<times> CommandLineParser" where
  "cl_parse walk argv p = cl_parse_from walk argv 1 p"

section \<open>Streams from descriptions\<close>

text \<open>
  The conversion \<^verbatim>\<open>%u\<close>: it skips space and reads a number as \<^verbatim>\<open>strtoul\<close> does. \<^term>\<open>Some None\<close> is the failure to match; a number that
  does not fit into \<^verbatim>\<open>unsigned\<close> is undefined.
\<close>

definition scan_uint :: "string \<Rightarrow> (u32 \<times> string) option option" where
  "scan_uint s =
     (case strtoul s of
        (v, erange, used) \<Rightarrow>
          if used = 0 then Some None
          else if erange \<or> unat v \<ge> 2 ^ 32 then None
          else Some (Some (ucast v, drop used s)))"

text \<open>Numbers with separators between them, as in the format \<^verbatim>\<open>%u.%u.%u.%u:%u\<close>; the result has the numbers that were converted.\<close>

fun scan_uints :: "string \<Rightarrow> string \<Rightarrow> u32 list option" where
  "scan_uints seps s =
     do { r \<leftarrow> scan_uint s;
          case r of
            None \<Rightarrow> Some []
          | Some (v, rest) \<Rightarrow>
              (case seps of
                 [] \<Rightarrow> Some [v]
               | sep # seps \<Rightarrow>
                   (case rest of
                      [] \<Rightarrow> Some [v]
                    | x # xs \<Rightarrow> if x = sep then do { vs \<leftarrow> scan_uints seps xs; Some (v # vs) } else Some [v])) }"

declare scan_uints.simps [simp del]

definition scan_ip_address :: "string \<Rightarrow> u16 \<Rightarrow> (string \<times> u16) option option" where
  "scan_ip_address address default_port =
     do { ns \<leftarrow> scan_uints ''...:'' address;
          Some (if 4 \<le> length ns
                then Some (takeWhile (\<lambda>c. c \<noteq> CHR '':'') address, if length ns = 5 then ucast (ns ! 4) else default_port)
                else None) }"

datatype stream_source = File_Source string | Tcp_Source string u16

definition file_exists :: "(string \<rightharpoonup> byte list) \<Rightarrow> string \<Rightarrow> bool" where
  "file_exists files name = (files name \<noteq> None)"

definition make_stream_from_string :: "(string \<rightharpoonup> byte list) \<Rightarrow> string \<Rightarrow> (stream_source option \<times> string list) option" where
  "make_stream_from_string files source_description =
     (if file_exists files source_description then Some (Some (File_Source source_description), [])
      else do {
        r \<leftarrow> scan_ip_address source_description 8765;
        case r of
          Some (ip, port) \<Rightarrow> Some (Some (Tcp_Source ip port), [])
        | None \<Rightarrow> Some (None, [''Invalid stream: '' @ source_description,
                               ''Stream must be either a file name, or IP address (e.g. 127.0.0.1:8765)'']) })"

section \<open>The client\<close>

datatype any_converter = Chrome ChromeTraceConverter | Callgrind CallgrindConverter

text \<open>
  What the client gets from its surroundings: the files that can be read, as bytes and as texts, those that can be written, the machine, the orders
  of the unordered maps, a sort function, when the flag of the reader is seen as cleared, the connection, and \<^verbatim>\<open>strftime\<close> at the
  current time, which has no result where the text does not fit into a buffer of the given size.
\<close>

record client_env =
  env_files :: "string \<rightharpoonup> byte list"
  env_texts :: "string \<Rightarrow> string option"
  env_can_open :: "string \<Rightarrow> bool"
  env_machine :: HT_Endianness
  env_walk_options :: "options \<Rightarrow> options"
  env_walk_entries :: "entry list \<Rightarrow> entry list"
  env_walk_threads :: "(u32 \<times> NodeData list) list \<Rightarrow> (u32 \<times> NodeData list) list"
  env_sort :: "NodeData list \<Rightarrow> NodeData list"
  env_running :: "nat \<Rightarrow> bool"
  env_tcp_stream :: "string \<Rightarrow> u16 \<Rightarrow> TCPClientStream"
  env_strftime :: "nat \<Rightarrow> string \<Rightarrow> string option"

definition conv_init :: "client_env \<Rightarrow> string \<Rightarrow> any_converter \<Rightarrow> bool \<times> any_converter" where
  "conv_init env file_name c =
     (case c of
        Chrome c \<Rightarrow> map_prod id Chrome (chrome_init (env_can_open env) file_name c)
      | Callgrind c \<Rightarrow> map_prod id Callgrind (callgrind_init file_name c))"

definition conv_process_event :: "client_env \<Rightarrow> Event \<Rightarrow> any_converter \<Rightarrow> any_converter option" where
  "conv_process_event env ev c =
     (case c of
        Chrome c \<Rightarrow> map_option Chrome (chrome_process_event (env_walk_entries env) ev c)
      | Callgrind c \<Rightarrow> map_option Callgrind (callgrind_process_event ev c))"

definition conv_set_tracepoint_map :: "client_env \<Rightarrow> string \<Rightarrow> any_converter \<Rightarrow> (bool \<times> any_converter) option" where
  "conv_set_tracepoint_map env map_files c =
     (case c of
        Chrome c \<Rightarrow> map_option (map_prod id Chrome) (set_tracepoint_map (env_texts env) map_files c)
      | Callgrind c \<Rightarrow> map_option (map_prod id Callgrind) (set_tracepoint_map (env_texts env) map_files c))"

definition conv_stop :: "client_env \<Rightarrow> any_converter \<Rightarrow> any_converter option" where
  "conv_stop env c =
     (case c of
        Chrome c \<Rightarrow> Some (Chrome (chrome_stop c))
      | Callgrind c \<Rightarrow> map_option Callgrind (callgrind_stop (env_sort env) (env_walk_threads env) (env_can_open env) c))"

definition create_output_path :: "client_env \<Rightarrow> string \<Rightarrow> string option" where
  "create_output_path env path = env_strftime env 128 path"

text \<open>A \<^verbatim>\<open>std::map\<close>, in the order of its keys.\<close>

definition init_supported_formats :: "(string \<times> any_converter) list" where
  "init_supported_formats = [(''callgrind'', Callgrind new_callgrind_converter), (''chrome-tracing'', Chrome new_chrome_converter)]"

definition supported_formats :: "(string \<times> any_converter) list \<Rightarrow> string" where
  "supported_formats formats = concat (map (\<lambda>f. fst f @ '' '') formats)"

text \<open>\<^verbatim>\<open>ProtocolReader::stop\<close> when the thread has ended.\<close>

definition reader_stop :: "'s Stream \<Rightarrow> ('s, 'c) ProtocolReader \<Rightarrow> ('s, 'c) ProtocolReader option" where
  "reader_stop strm r = do { s \<leftarrow> st_stop strm (rd_stream r); Some (r\<lparr>rd_stream := s\<rparr>) }"

text \<open>The exit code of the process, the converter it used, and what it printed.\<close>

record client_result =
  res_code :: int
  res_converter :: "any_converter option"
  res_cerr :: "string list"
  res_cout :: "string list"

definition client_fails :: "string list \<Rightarrow> client_result" where
  "client_fails cerr = \<lparr>res_code = 1, res_converter = None, res_cerr = cerr, res_cout = []\<rparr>"

text \<open>The part of \<^verbatim>\<open>main\<close> after the stream was made; the last call that stops the reader is that of its destructor.\<close>

definition client_convert ::
  "client_env \<Rightarrow> 's Stream \<Rightarrow> 's \<Rightarrow> string \<Rightarrow> string \<Rightarrow> string \<Rightarrow> string list \<Rightarrow> client_result option" where
  "client_convert env strm st format output_path map_files cerr =
     do { let formats = init_supported_formats;
          out_file \<leftarrow> create_output_path env output_path;
          case map_of formats format of
            None \<Rightarrow> do {
              _ \<leftarrow> st_stop strm st;
              Some (client_fails (cerr @ [''Unknown format: '' @ format @ ''. Supported formats are: '' @ supported_formats formats])) }
          | Some converter \<Rightarrow> do {
              let (ok, converter) = conv_init env out_file converter;
              if \<not> ok
              then do { _ \<leftarrow> st_stop strm st; Some (client_fails (cerr @ [''Can'' @ [CHR 0x27] @ ''t open output file''])) }
              else do {
                (converter, cerr) \<leftarrow>
                  (if map_files = ''''
                   then Some (converter, cerr @ [''map not specified... profiler will use numbers instead of human-readable names''])
                   else do { (map_set, converter) \<leftarrow> conv_set_tracepoint_map env map_files converter;
                             Some (converter, if \<not> map_set then cerr @ [''Map could not be set''] else cerr) });
                (ok, r) \<leftarrow> run_reader (env_machine env) strm True (conv_process_event env) (env_running env) (new_reader st converter);
                let cout = [''Output will be written to a file: '' @ out_file];
                if \<not> ok
                then Some \<lparr>res_code = 1, res_converter = Some (rd_client r),
                           res_cerr = cerr @ [''Error on starting the reader!!!''], res_cout = cout\<rparr>
                else do {
                  let cout = cout @ [if st_is_continuous strm then ''Hit [Enter] to finish the trace...'' else ''Processing the file...''];
                  r \<leftarrow> (if st_is_continuous strm then reader_stop strm r else Some r);
                  converter \<leftarrow> conv_stop env (rd_client r);
                  _ \<leftarrow> reader_stop strm r;
                  Some \<lparr>res_code = 0, res_converter = Some converter, res_cerr = cerr, res_cout = cout\<rparr> } } } }"

definition register_client_options :: "CommandLineParser \<Rightarrow> CommandLineParser" where
  "register_client_options p =
     register_option ''help'' \<lparr>oi_help_msg = ''Print this help'', oi_is_flag = True, oi_is_mandatory = False\<rparr>
     (register_option ''map'' \<lparr>oi_help_msg = ''Comma-separated list of map files'', oi_is_flag = False, oi_is_mandatory = False\<rparr>
     (register_option ''source''
        \<lparr>oi_help_msg = ''Data source description (either filename, or server address)'', oi_is_flag = False, oi_is_mandatory = True\<rparr>
     (register_option ''output'' \<lparr>oi_help_msg = ''Output file'', oi_is_flag = False, oi_is_mandatory = False\<rparr>
     (register_option ''format''
        \<lparr>oi_help_msg = ''Output format. Supported formats: '' @ supported_formats init_supported_formats,
         oi_is_flag = False, oi_is_mandatory = False\<rparr> p))))"

definition client_main :: "client_env \<Rightarrow> string list \<Rightarrow> client_result option" where
  "client_main env argv =
     (if argv = [] then None
      else do {
        p \<leftarrow> new_command_line_parser ''--'' (argv ! 0);
        let (ok, p) = cl_parse (env_walk_options env) argv (register_client_options p);
        if \<not> ok \<or> cl_has_value ''help'' p then Some (client_fails (cl_cerr p @ [cl_print_help (env_walk_options env) p]))
        else do {
          let format = cl_get_value ''format'' ''chrome-tracing'' p;
          let output_path = cl_get_value ''output'' ''hawktracer-trace-%d-%m-%Y-%H_%M_%S.httrace'' p;
          let source = cl_get_value ''source'' '''' p;
          let map_files = cl_get_value ''map'' '''' p;
          (stream, cerr) \<leftarrow> make_stream_from_string (env_files env) source;
          case stream of
            None \<Rightarrow> Some (client_fails (cl_cerr p @ cerr))
          | Some (File_Source name) \<Rightarrow>
              client_convert env (file_stream (env_files env)) \<lparr>fs_file_name = name, fs_file = None\<rparr> format output_path map_files (cl_cerr p)
          | Some (Tcp_Source ip port) \<Rightarrow>
              client_convert env tcp_client_stream (env_tcp_stream env ip port) format output_path map_files (cl_cerr p) } })"

section \<open>Reading the options\<close>

text \<open>The arguments for a list of options; a flag has no value. Of an option that is given twice the first value counts.\<close>

definition option_args :: "string \<Rightarrow> (string \<times> string option) list \<Rightarrow> string list" where
  "option_args prefix opts = concat (map (\<lambda>(n, v). (prefix @ n) # (case v of None \<Rightarrow> [] | Some s \<Rightarrow> [s])) opts)"

definition options_given :: "(string \<times> string option) list \<Rightarrow> string \<rightharpoonup> string" where
  "options_given opts = map_of (map (\<lambda>(n, v). (n, case v of None \<Rightarrow> '''' | Some s \<Rightarrow> s)) opts)"

definition options_ok :: "options \<Rightarrow> (string \<times> string option) list \<Rightarrow> bool" where
  "options_ok reg opts \<longleftrightarrow>
     (\<forall>(n, v)\<in>set opts. n \<noteq> '''' \<and> (\<exists>info. map_of reg n = Some info \<and> oi_is_flag info = (v = None)))"

lemma add_actual_option_eq:
  "add_actual_option n v p = p\<lparr>cl_actual_options := [n \<mapsto> v] ++ cl_actual_options p\<rparr>"
proof (cases "cl_actual_options p n")
  case None
  then have "[n \<mapsto> v] ++ cl_actual_options p = (cl_actual_options p)(n \<mapsto> v)" by (auto simp: map_add_def split: option.splits)
  with None show ?thesis by (simp add: add_actual_option_def)
next
  case (Some x)
  then have "[n \<mapsto> v] ++ cl_actual_options p = cl_actual_options p" by (auto simp: map_add_def split: option.splits)
  with Some show ?thesis by (simp add: add_actual_option_def)
qed

lemma cl_parse_step:
  assumes "n \<noteq> ''''" and "map_of (cl_registered_options p) n = Some info" and "oi_is_flag info = (v = None)"
  shows "cl_parse_from walk (pre @ option_args (cl_prefix p) ((n, v) # opts)) (length pre) p =
    cl_parse_from walk ((pre @ option_args (cl_prefix p) [(n, v)]) @ option_args (cl_prefix p) opts)
      (length (pre @ option_args (cl_prefix p) [(n, v)])) (add_actual_option n (case v of None \<Rightarrow> '''' | Some s \<Rightarrow> s) p)"
  using assms
  by (subst cl_parse_from.simps) (cases v; simp add: option_args_def is_option_valid_def nth_append)

lemma cl_parse_from_options:
  assumes "options_ok (cl_registered_options p) opts"
  shows "cl_parse_from walk (pre @ option_args (cl_prefix p) opts) (length pre) p =
    validate_user_options walk (p\<lparr>cl_actual_options := options_given opts ++ cl_actual_options p\<rparr>)"
  using assms
proof (induction opts arbitrary: pre p)
  case Nil
  then show ?case by (subst cl_parse_from.simps) (simp add: option_args_def options_given_def)
next
  case (Cons a opts)
  obtain n v where a: "a = (n, v)" by (cases a)
  from Cons.prems obtain info where info: "n \<noteq> ''''" "map_of (cl_registered_options p) n = Some info" "oi_is_flag info = (v = None)"
    by (auto simp: options_ok_def a)
  let ?s = "case v of None \<Rightarrow> '''' | Some s \<Rightarrow> s"
  let ?p = "p\<lparr>cl_actual_options := [n \<mapsto> ?s] ++ cl_actual_options p\<rparr>"
  have given: "options_given ((n, v) # opts) ++ m = options_given opts ++ ([n \<mapsto> ?s] ++ m)" for m
    by (rule ext) (auto simp: options_given_def map_add_def split: option.splits)
  have "options_ok (cl_registered_options ?p) opts" using Cons.prems by (simp add: options_ok_def a)
  from Cons.IH [OF this, of "pre @ option_args (cl_prefix p) [(n, v)]"] show ?case
    using cl_parse_step [OF info, of walk pre opts] by (simp add: a add_actual_option_eq given)
qed

lemma validate_from_ok:
  assumes "\<forall>(n, info)\<in>set opts. oi_is_mandatory info \<longrightarrow> cl_actual_options p n \<noteq> None"
  shows "validate_from opts p = (True, p)"
  using assms by (induction opts) auto

text \<open>Options that are registered, with all mandatory ones among them, are read as they were given.\<close>

lemma cl_parse_options:
  assumes "options_ok (cl_registered_options p) opts" and "cl_actual_options p = Map.empty"
    and "\<forall>es. set (walk es) = set es"
    and "\<forall>(n, info)\<in>set (cl_registered_options p). oi_is_mandatory info \<longrightarrow> n \<in> fst ` set opts"
  shows "cl_parse walk (app # option_args (cl_prefix p) opts) p = (True, p\<lparr>cl_actual_options := options_given opts\<rparr>)"
proof -
  have "options_given opts n \<noteq> None" if "n \<in> fst ` set opts" for n
    using that by (auto simp: options_given_def map_of_eq_None_iff image_image case_prod_beta)
  then have "validate_user_options walk (p\<lparr>cl_actual_options := options_given opts\<rparr>) = (True, p\<lparr>cl_actual_options := options_given opts\<rparr>)"
    unfolding validate_user_options_def using assms(3,4) by (intro validate_from_ok) fastforce
  with cl_parse_from_options [OF assms(1), of walk "[app]"] assms(2) show ?thesis by (simp add: cl_parse_def)
qed

section \<open>Addresses\<close>

lemma strtoul_prefix:
  assumes "n < 2 ^ 32" and "rest = [] \<or> \<not> is_digit (hd rest)"
  shows "strtoul (to_decimal n @ rest) = (word_of_nat n, False, length (to_decimal n))"
proof -
  from assms(1) have "n \<le> ULONG_MAX" by (simp add: ULONG_MAX_def)
  then show ?thesis using scan_to_decimal [OF assms(2), of n] by (simp add: strtoul_def to_decimal_no_space)
qed

lemma ucast_through: "(ucast (ucast (v :: u32) :: u64) :: u32) = v" "(ucast (ucast (w :: u16) :: u32) :: u16) = w"
  by (rule bit_word_eqI; simp add: bit_simps)+

lemma scan_uint_decimal:
  assumes "rest = [] \<or> \<not> is_digit (hd rest)"
  shows "scan_uint (to_decimal (unat v) @ rest) = Some (Some (v, rest))"
proof -
  have lt: "unat v < 2 ^ 32" using unsigned_less [of v] by simp
  then have "unat (word_of_nat (unat v) :: u64) = unat v" unfolding unat_of_nat by simp
  then have "unat (ucast v :: u64) = unat v" by simp
  with strtoul_prefix [OF lt assms] lt show ?thesis by (simp add: scan_uint_def ucast_through)
qed

fun joined :: "string \<Rightarrow> u32 list \<Rightarrow> string" where
  "joined seps [] = ''''"
| "joined seps [v] = to_decimal (unat v)"
| "joined (sep # seps) (v # vs) = to_decimal (unat v) @ sep # joined seps vs"
| "joined [] (v # vs) = to_decimal (unat v)"

lemma scan_uints_joined:
  assumes "vs \<noteq> []" and "length vs \<le> length seps + 1" and "\<forall>c\<in>set seps. \<not> is_digit c"
  shows "scan_uints seps (joined seps vs) = Some vs"
  using assms
proof (induction seps vs rule: joined.induct)
  case (2 seps v)
  then show ?case using scan_uint_decimal [of "[]" v] by (subst scan_uints.simps) (simp split: list.splits)
next
  case (3 sep seps v u us)
  then show ?case using scan_uint_decimal [of "sep # joined seps (u # us)" v] by (subst scan_uints.simps) simp
qed simp_all

text \<open>An address that is printed with its port is read back.\<close>

lemma scan_printed_address:
  "scan_ip_address (joined ''...:'' [a, b, c, d, ucast port]) default_port =
     Some (Some (joined ''...'' [a, b, c, d], port))"
proof -
  have "CHR '':'' \<notin> set (to_decimal n)" for n using to_decimal_digits [of n] by (auto simp: is_digit_def)
  then have "\<forall>x\<in>set (joined ''...'' [a, b, c, d]). x \<noteq> CHR '':''" by auto
  moreover have "joined ''...:'' [a, b, c, d, ucast port] = joined ''...'' [a, b, c, d] @ CHR '':'' # to_decimal (unat (ucast port :: u32))" by simp
  ultimately have ip: "takeWhile (\<lambda>x. x \<noteq> CHR '':'') (joined ''...:'' [a, b, c, d, ucast port]) = joined ''...'' [a, b, c, d]"
    by (simp add: takeWhile_append)
  have "scan_uints ''...:'' (joined ''...:'' [a, b, c, d, ucast port]) = Some [a, b, c, d, ucast port]"
    by (rule scan_uints_joined) (simp_all add: is_digit_def)
  then show ?thesis using ip by (simp add: scan_ip_address_def ucast_through)
qed

section \<open>The events a callback gets\<close>

text \<open>
  A reader does the same whatever its callback does, as long as the callback returns. So the reader with a callback that keeps a list of the events
  says which events any other callback gets.
\<close>

definition keep_event :: "Event \<Rightarrow> Event list \<Rightarrow> Event list option" where
  "keep_event ev evs = Some (evs @ [ev])"

definition with_client :: "'d \<Rightarrow> ('s, 'c) ProtocolReader \<Rightarrow> ('s, 'd) ProtocolReader" where
  "with_client c r = \<lparr>rd_register = rd_register r, rd_endianness = rd_endianness r, rd_stream = rd_stream r, rd_client = c\<rparr>"

lemma with_client_simps [simp]:
  "rd_register (with_client c r) = rd_register r" "rd_endianness (with_client c r) = rd_endianness r"
  "rd_stream (with_client c r) = rd_stream r" "rd_client (with_client c r) = c"
  "(with_client c r)\<lparr>rd_stream := s\<rparr> = with_client c (r\<lparr>rd_stream := s\<rparr>)"
  "(with_client c r)\<lparr>rd_endianness := e\<rparr> = with_client c (r\<lparr>rd_endianness := e\<rparr>)"
  "(with_client c r)\<lparr>rd_register := reg, rd_client := d\<rparr> = with_client d (r\<lparr>rd_register := reg\<rparr>)"
  by (simp_all add: with_client_def)

lemma with_client_client: "with_client d (r\<lparr>rd_register := reg, rd_client := c\<rparr>) = with_client d (r\<lparr>rd_register := reg\<rparr>)"
  by (simp add: with_client_def)

lemma call_callbacks_kept:
  assumes "call_callbacks keep_event ev r = Some r'"
  shows "rd_client r' = rd_client r @ [ev]"
    and "call_callbacks f ev (with_client c r) = do { c \<leftarrow> f ev c; Some (with_client c r') }"
  using assms by (auto simp: call_callbacks_def keep_event_def bind_eq_Some_conv with_client_client)

lemma read_one_kept:
  assumes "read_one sys strm flat keep_event r = Some (go, r')"
  shows "\<exists>evs. rd_client r' = rd_client r @ evs \<and>
    (\<forall>(f :: Event \<Rightarrow> 'd \<Rightarrow> 'd option) c. read_one sys strm flat f (with_client c r) = do { c \<leftarrow> run_ops f evs c; Some (go, with_client c r') })"
proof -
  from assms obtain k ok base x s where k: "get_klass (rd_register r) WK_EventKlass = Some k"
    and base: "read_fields sys strm (rd_register r) flat (rd_endianness r) (ek_fields k) (new_event (Some (ek_id k))) None (rd_stream r) =
      Some (ok, base, x, s)"
    by (auto simp: read_one_def bind_eq_Some_conv)
  note step = read_one_def k base Let_def
  show ?thesis
  proof (cases ok)
    case False
    with assms show ?thesis by (intro exI [of _ "[]"]) (auto simp: step)
  next
    case ok: True
    with assms obtain kid where kid: "get_number 4 ''klass_id'' base = Some kid" by (auto simp: step bind_eq_Some_conv)
    show ?thesis
    proof (cases "ucast kid = WK_EventKlass")
      case True
      with assms ok kid have "call_callbacks keep_event base (r\<lparr>rd_stream := s\<rparr>) = Some r'" "go"
        by (auto simp: step bind_eq_Some_conv)
      moreover note call_callbacks_kept(1) [OF this(1)]
      moreover have "call_callbacks f base (with_client c (r\<lparr>rd_stream := s\<rparr>)) = do { c \<leftarrow> f base c; Some (with_client c r') }"
        for f :: "Event \<Rightarrow> 'd \<Rightarrow> 'd option" and c by (rule call_callbacks_kept(2) [OF \<open>call_callbacks keep_event base _ = _\<close>])
      ultimately show ?thesis using True ok kid by (intro exI [of _ "[base]"]) (simp add: step)
    next
      case other: False
      with assms ok kid obtain k' ok' ev0 y s' ev where rest: "get_klass (rd_register r) (ucast kid) = Some k'"
        "read_fields sys strm (rd_register r) flat (rd_endianness r) (ek_fields k') (new_event (Some (ek_id k')))
           (if flat then None else Some base) s = Some (ok', ev0, y, s')"
        "(if flat then merge ev0 base else Some ev0) = Some ev"
        by (auto simp: step bind_eq_Some_conv)
      note step' = step kid rest
      show ?thesis
      proof (cases ok')
        case False
        with assms ok other show ?thesis by (intro exI [of _ "[]"]) (auto simp: step')
      next
        case ok': True
        let ?r = "r\<lparr>rd_stream := s'\<rparr>"
        from assms ok ok' other obtain e where e: "(if ucast kid = WK_EndiannessInfoEventKlass
            then do { c \<leftarrow> get_number 1 ''endianness'' ev; Some (endianness_of_code sys c) } else Some (rd_endianness r)) = Some e"
          and call: "call_callbacks keep_event ev (?r\<lparr>rd_endianness := e\<rparr>) = Some r'" "go"
          by (auto simp: step' bind_eq_Some_conv split: if_splits)
        have "call_callbacks f ev (with_client c (?r\<lparr>rd_endianness := e\<rparr>)) = do { c \<leftarrow> f ev c; Some (with_client c r') }"
          for f :: "Event \<Rightarrow> 'd \<Rightarrow> 'd option" and c by (rule call_callbacks_kept(2) [OF call(1)])
        with call_callbacks_kept(1) [OF call(1)] e call(2) ok ok' other show ?thesis
          by (intro exI [of _ "[ev]"]) (auto simp: step' bind_eq_Some_conv split: if_splits)
      qed
    qed
  qed
qed

lemma read_events_kept:
  assumes "read_events sys strm flat keep_event running n r = Some r'"
  shows "\<exists>evs. rd_client r' = rd_client r @ evs \<and>
    (\<forall>(f :: Event \<Rightarrow> 'd \<Rightarrow> 'd option) c. read_events sys strm flat f running n (with_client c r) = do { c \<leftarrow> run_ops f evs c; Some (with_client c r') })"
proof (rule read_events.raw_induct [where P = "\<lambda>y strm' fl cb run n r r'. y = sys \<longrightarrow> strm' = strm \<longrightarrow> fl = flat \<longrightarrow> cb = keep_event \<longrightarrow>
    run = running \<longrightarrow> (\<exists>evs. rd_client r' = rd_client r @ evs \<and>
    (\<forall>(f :: Event \<Rightarrow> 'd \<Rightarrow> 'd option) c. read_events sys strm flat f running n (with_client c r) = do { c \<leftarrow> run_ops f evs c; Some (with_client c r') }))",
    OF _ assms, rule_format], goal_cases)
  case (1 rec y strm' fl cb run n r r')
  show ?case
  proof (cases "running n")
    case False
    with 1(2-7) show ?thesis by (intro exI [of _ "[]"]) (simp add: read_events.simps [of sys strm flat _ running n])
  next
    case True
    with 1(2-7) obtain go r1 where one: "read_one sys strm flat keep_event r = Some (go, r1)"
      and rest: "if go then rec sys strm flat keep_event running (n + 1) r1 = Some r' else r1 = r'"
      by (auto simp: bind_eq_Some_conv split: if_splits)
    from read_one_kept [OF one] obtain evs where evs: "rd_client r1 = rd_client r @ evs"
      "\<forall>(f :: Event \<Rightarrow> 'd \<Rightarrow> 'd option) c.
         read_one sys strm flat f (with_client c r) = do { c \<leftarrow> run_ops f evs c; Some (go, with_client c r1) }" by blast
    show ?thesis
    proof (cases go)
      case False
      with rest evs True show ?thesis
        by (intro exI [of _ evs]) (simp add: read_events.simps [of sys strm flat _ running n])
    next
      case go: True
      with rest have "rec sys strm flat keep_event running (n + 1) r1 = Some r'" by simp
      from 1(1) [OF this] obtain evs' where evs': "rd_client r' = rd_client r1 @ evs'"
        "\<forall>(f :: Event \<Rightarrow> 'd \<Rightarrow> 'd option) c.
           read_events sys strm flat f running (n + 1) (with_client c r1) = do { c \<leftarrow> run_ops f evs' c; Some (with_client c r') }" by blast
      show ?thesis
        using go True evs evs' by (intro exI [of _ "evs @ evs'"]) (simp add: read_events.simps [of sys strm flat _ running n] run_ops_append)
    qed
  qed
qed simp_all

lemma run_reader_kept:
  fixes f :: "Event \<Rightarrow> 'd \<Rightarrow> 'd option"
  assumes "run_reader sys strm flat keep_event running (new_reader s []) = Some (ok, r)"
  shows "run_reader sys strm flat f running (new_reader s c) = do { c \<leftarrow> run_ops f (rd_client r) c; Some (ok, with_client c r) }"
proof -
  have strm: "rd_stream (new_reader s []) = s" "rd_client (new_reader s []) = []" by (simp_all add: new_reader_def)
  from assms obtain s1 r1 s2 where start: "st_start strm s = Some (ok, s1)"
    and read: "(if ok then read_events sys strm flat keep_event running 0 ((new_reader s [])\<lparr>rd_stream := s1\<rparr>)
      else Some ((new_reader s [])\<lparr>rd_stream := s1\<rparr>)) = Some r1"
    and stop: "st_stop strm (rd_stream r1) = Some s2" "r = r1\<lparr>rd_stream := s2\<rparr>"
    by (auto simp: run_reader_def bind_eq_Some_conv Let_def strm)
  show ?thesis
  proof (cases ok)
    case False
    with start read stop show ?thesis by (auto simp: run_reader_def new_reader_def with_client_def)
  next
    case True
    with read have "read_events sys strm flat keep_event running 0 ((new_reader s [])\<lparr>rd_stream := s1\<rparr>) = Some r1" by simp
    from read_events_kept [where 'd = 'd, OF this] obtain evs where "rd_client r1 = evs"
      "\<forall>(f :: Event \<Rightarrow> 'd \<Rightarrow> 'd option) c. read_events sys strm flat f running 0 (with_client c ((new_reader s ([] :: Event list))\<lparr>rd_stream := s1\<rparr>)) =
         do { c \<leftarrow> run_ops f evs c; Some (with_client c r1) }" by (auto simp: strm)
    moreover have "rd_stream (new_reader s c) = s" "(new_reader s c)\<lparr>rd_stream := s1\<rparr> = with_client c ((new_reader s ([] :: Event list))\<lparr>rd_stream := s1\<rparr>)"
      by (simp_all add: new_reader_def with_client_def)
    moreover have "rd_stream (with_client c' r1) = rd_stream r1" "(with_client c' r1)\<lparr>rd_stream := s2\<rparr> = with_client c' (r1\<lparr>rd_stream := s2\<rparr>)"
      for c' :: 'd by (simp_all add: with_client_def)
    ultimately show ?thesis using True start stop by (simp add: run_reader_def Let_def)
  qed
qed

section \<open>A conversion\<close>

definition client_options :: options where
  "client_options =
     [(''format'', \<lparr>oi_help_msg = ''Output format. Supported formats: callgrind chrome-tracing '', oi_is_flag = False, oi_is_mandatory = False\<rparr>),
      (''output'', \<lparr>oi_help_msg = ''Output file'', oi_is_flag = False, oi_is_mandatory = False\<rparr>),
      (''source'', \<lparr>oi_help_msg = ''Data source description (either filename, or server address)'', oi_is_flag = False, oi_is_mandatory = True\<rparr>),
      (''map'', \<lparr>oi_help_msg = ''Comma-separated list of map files'', oi_is_flag = False, oi_is_mandatory = False\<rparr>),
      (''help'', \<lparr>oi_help_msg = ''Print this help'', oi_is_flag = True, oi_is_mandatory = False\<rparr>)]"

lemma client_options_registered:
  "register_client_options \<lparr>cl_registered_options = [], cl_actual_options = m, cl_prefix = pre, cl_app_name = app, cl_cerr = err\<rparr> =
     \<lparr>cl_registered_options = client_options, cl_actual_options = m, cl_prefix = pre, cl_app_name = app, cl_cerr = err\<rparr>"
  by (simp add: register_client_options_def register_option_def client_options_def supported_formats_def init_supported_formats_def)

lemma client_parse:
  assumes "options_ok client_options opts" and "\<forall>es. set (walk es) = set es" and "''source'' \<in> fst ` set opts"
  shows "cl_parse walk (app # option_args ''--'' opts)
      \<lparr>cl_registered_options = client_options, cl_actual_options = Map.empty, cl_prefix = ''--'', cl_app_name = app, cl_cerr = []\<rparr> =
    (True, \<lparr>cl_registered_options = client_options, cl_actual_options = options_given opts, cl_prefix = ''--'', cl_app_name = app, cl_cerr = []\<rparr>)"
proof -
  let ?p = "\<lparr>cl_registered_options = client_options, cl_actual_options = Map.empty, cl_prefix = ''--'', cl_app_name = app, cl_cerr = []\<rparr>"
  have "\<forall>(n, info)\<in>set (cl_registered_options ?p). oi_is_mandatory info \<longrightarrow> n \<in> fst ` set opts"
    using assms(3) by (simp add: client_options_def)
  from cl_parse_options [of ?p opts walk app, OF _ _ assms(2) this] assms(1) show ?thesis by simp
qed

lemma run_ops_chrome:
  "run_ops (conv_process_event env) evs (Chrome c) = map_option Chrome (run_ops (chrome_process_event (env_walk_entries env)) evs c)"
proof (induction evs arbitrary: c)
  case (Cons ev evs)
  have "conv_process_event env ev (Chrome c) = map_option Chrome (chrome_process_event (env_walk_entries env) ev c)"
    by (simp add: conv_process_event_def)
  then show ?case by (cases "chrome_process_event (env_walk_entries env) ev c") (simp_all add: Cons)
qed simp

text \<open>The values of the options, and the names the map files give.\<close>

definition given :: "(string \<times> string option) list \<Rightarrow> string \<Rightarrow> string \<Rightarrow> string" where
  "given opts name default_value = (case options_given opts name of Some v \<Rightarrow> v | None \<Rightarrow> default_value)"

definition maps_loaded :: "client_env \<Rightarrow> string \<Rightarrow> TracepointMap option" where
  "maps_loaded env map_files =
     (if map_files = '''' then Some (cv_tracepoint_map new_converter) else load_maps (env_texts env) map_files (cv_tracepoint_map new_converter))"

lemma client_convert_chrome:
  assumes out: "env_strftime env 128 output_path = Some out" "env_can_open env out"
    and maps: "maps_loaded env map_files = Some m"
    and read: "run_reader (env_machine env) strm True keep_event (env_running env) (new_reader st []) = Some (True, r)"
    and stop: "\<not> st_is_continuous strm" "st_stop strm (rd_stream r) \<noteq> None"
    and evs: "events_ok (0, name_in m) (rd_client r)" "\<forall>ev\<in>set (rd_client r). json_ok ev" "\<forall>es. mset (env_walk_entries env es) = mset es"
  shows "\<exists>res c. client_convert env strm st ''chrome-tracing'' output_path map_files [] = Some res \<and> res_code res = 0 \<and>
    res_converter res = Some (Chrome c) \<and> \<not> ch_is_open c \<and>
    ch_written c = chrome_header @ join_commas (chrome_records (env_walk_entries env) (0, name_in m) (rd_client r)) @ '']}''"
proof -
  define c1 where "c1 = snd (chrome_init (env_can_open env) out new_chrome_converter)"
  have init: "chrome_init (env_can_open env) out new_chrome_converter = (True, c1)"
    and c1: "chrome_wrote c1 []" "cv_tracepoint_map c1 = cv_tracepoint_map new_converter" "cv_mapping_klass_id c1 = 0"
    using out(2) by (simp_all add: c1_def chrome_init_def ch_put_def chrome_wrote_def chrome_header_def new_chrome_converter_def new_converter_def)
  let ?c2 = "c1\<lparr>cv_tracepoint_map := m\<rparr>"
  have c2: "chrome_wrote ?c2 []" "naming_of ?c2 = (0, name_in m)" using c1 by (simp_all add: chrome_wrote_def naming_of_def)
  from chrome_run_ok [OF c2(1), of "rd_client r" "env_walk_entries env"] evs c2(2) obtain c3 where
    run: "run_ops (chrome_process_event (env_walk_entries env)) (rd_client r) ?c2 = Some c3"
    and c3: "chrome_wrote c3 (chrome_records (env_walk_entries env) (0, name_in m) (rd_client r))" by auto
  have reader: "run_reader (env_machine env) strm True (conv_process_event env) (env_running env) (new_reader st (Chrome ?c2)) =
      Some (True, with_client (Chrome c3) r)"
    using run_reader_kept [OF read, of "conv_process_event env" "Chrome ?c2"] run by (simp add: run_ops_chrome)
  let ?cerr = "if map_files = [] then [''map not specified... profiler will use numbers instead of human-readable names''] else []"
  have set_map: "(if map_files = []
      then Some (Chrome c1, [] @ [''map not specified... profiler will use numbers instead of human-readable names''])
      else do { (map_set, converter) \<leftarrow> conv_set_tracepoint_map env map_files (Chrome c1);
                Some (converter, if \<not> map_set then [] @ [''Map could not be set''] else []) }) = Some (Chrome ?c2, ?cerr)"
    using maps c1(2) by (auto simp: maps_loaded_def conv_set_tracepoint_map_def set_tracepoint_map_def split: if_splits)
  have fmt: "map_of init_supported_formats ''chrome-tracing'' = Some (Chrome new_chrome_converter)" by (simp add: init_supported_formats_def)
  have conv: "conv_init env out (Chrome new_chrome_converter) = (True, Chrome c1)" by (simp add: conv_init_def init)
  from stop(2) obtain s where s: "st_stop strm (rd_stream r) = Some s" by blast
  obtain res where "client_convert env strm st ''chrome-tracing'' output_path map_files [] = Some res" "res_code res = 0"
    "res_converter res = Some (Chrome (chrome_stop c3))"
    unfolding client_convert_def create_output_path_def
    using out(1) fmt conv set_map reader stop(1) s by (simp add: reader_stop_def conv_stop_def)
  moreover have "\<not> ch_is_open (chrome_stop c3)" "ch_written (chrome_stop c3) =
      chrome_header @ join_commas (chrome_records (env_walk_entries env) (0, name_in m) (rd_client r)) @ '']}''"
    using c3 by (auto simp: chrome_stop_def ch_put_def chrome_wrote_def)
  ultimately show ?thesis by blast
qed

text \<open>
  The whole client on a file: with the options in any order and with or without a map, it writes the records of the events that the reader finds in
  the file, reports success, and leaves a closed document.
\<close>

lemma client_main_chrome:
  assumes opts: "options_ok client_options opts" "''source'' \<in> fst ` set opts" "''help'' \<notin> fst ` set opts"
    and walk: "\<forall>es. set (env_walk_options env es) = set es" "\<forall>es. mset (env_walk_entries env es) = mset es"
    and format: "given opts ''format'' ''chrome-tracing'' = ''chrome-tracing''"
    and src_file: "env_files env (given opts ''source'' '''') \<noteq> None"
    and out: "env_strftime env 128 (given opts ''output'' ''hawktracer-trace-%d-%m-%Y-%H_%M_%S.httrace'') = Some out" "env_can_open env out"
    and maps: "maps_loaded env (given opts ''map'' '''') = Some m"
    and read: "run_reader (env_machine env) (file_stream (env_files env)) True keep_event (env_running env)
      (new_reader \<lparr>fs_file_name = given opts ''source'' '''', fs_file = None\<rparr> []) = Some (True, r)"
    and evs: "events_ok (0, name_in m) (rd_client r)" "\<forall>ev\<in>set (rd_client r). json_ok ev"
  shows "\<exists>res c. client_main env (app # option_args ''--'' opts) = Some res \<and> res_code res = 0 \<and>
    res_converter res = Some (Chrome c) \<and> \<not> ch_is_open c \<and>
    ch_written c = chrome_header @ join_commas (chrome_records (env_walk_entries env) (0, name_in m) (rd_client r)) @ '']}''"
proof -
  let ?st = "\<lparr>fs_file_name = given opts ''source'' '''', fs_file = None\<rparr>"
  have strm: "\<not> st_is_continuous (file_stream (env_files env))" "st_stop (file_stream (env_files env)) (rd_stream r) \<noteq> None"
    by (simp_all add: file_stream_def fs_stop_def)
  from client_convert_chrome [OF out maps read strm evs walk(2)] obtain res c where
    conv: "client_convert env (file_stream (env_files env)) ?st ''chrome-tracing''
      (given opts ''output'' ''hawktracer-trace-%d-%m-%Y-%H_%M_%S.httrace'') (given opts ''map'' '''') [] = Some res"
    and res: "res_code res = 0" "res_converter res = Some (Chrome c)" "\<not> ch_is_open c"
      "ch_written c = chrome_header @ join_commas (chrome_records (env_walk_entries env) (0, name_in m) (rd_client r)) @ '']}''" by blast
  let ?p = "\<lparr>cl_registered_options = client_options, cl_actual_options = options_given opts, cl_prefix = ''--'', cl_app_name = app, cl_cerr = []\<rparr>"
  have new: "new_command_line_parser ''--'' app =
      Some \<lparr>cl_registered_options = [], cl_actual_options = Map.empty, cl_prefix = ''--'', cl_app_name = app, cl_cerr = []\<rparr>"
    by (simp add: new_command_line_parser_def)
  have "options_given opts ''help'' = None" using opts(3) by (force simp: options_given_def map_of_eq_None_iff)
  then have no_help: "\<not> cl_has_value ''help'' ?p" by (simp add: cl_has_value_def)
  have get: "cl_get_value name d ?p = given opts name d" for name d by (simp add: cl_get_value_def given_def)
  have src: "make_stream_from_string (env_files env) (given opts ''source'' '''') = Some (Some (File_Source (given opts ''source'' '''')), [])"
    using src_file by (simp add: make_stream_from_string_def file_exists_def)
  have "client_main env (app # option_args ''--'' opts) = Some res"
    unfolding client_main_def
    using no_help conv format by (simp add: new client_options_registered client_parse [OF opts(1) walk(1) opts(2)] get src Let_def)
  with res show ?thesis by blast
qed

end
