(* ===== verification/Spec2Isabelle.thy ===== *)
theory Spec2Isabelle
  imports Timeline Stack File_Dump_Listener Trace_Metadata Task_Scheduler Callgrind_Converter Cached_String Tcp_Listener
    Tcp_Client_Stream Startup Client_Main
begin

text \<open>
  HawkTracer records what a program does, with little overhead, and converts the records for viewers. This development models the
  library that is linked to the traced program (\<^verbatim>\<open>lib/\<close>), the parser of the traces (\<^verbatim>\<open>parser/\<close>), the connection to a
  running program (\<^verbatim>\<open>client_utils/\<close>) and the converters (\<^verbatim>\<open>client/\<close>), and proves what they promise each other.

  \<^bold>\<open>How the parts interact.\<close>
  \<^verbatim>\<open>ht_init\<close> registers the classes of events. The program pushes events to a timeline, which serializes them into a buffer and hands full
  buffers to its listeners; the features of a timeline make events of nested calls and announce labels. A listener writes to a
  file or to the clients of a TCP server, and starts with a description of all classes. A reader takes bytes from a file or from a
  connection, learns the classes from the description, and hands events to its callbacks; the converters are such callbacks.

  \<^bold>\<open>Conventions\<close> (theory \<open>Prelude\<close>).
  \<^item> \<^term>\<open>None\<close> is undefined behaviour, a failed assertion, an uncaught exception or a call that never returns. A theorem that says that
    a function gives \<open>Some\<close> says that nothing of this happens.
  \<^item> Error codes are values of \<open>HT_ErrorCode\<close>; every early return of the source is a branch.
  \<^item> Identifiers, times, hashes and bytes are words of their width; \<^verbatim>\<open>size_t\<close> is \<^typ>\<open>nat\<close> with the wrap-around written out.
  \<^item> What the system decides is an input: the refusals of the allocator, the readings of the clock, the results of
    \<^verbatim>\<open>fopen\<close>, \<^verbatim>\<open>send\<close>, \<^verbatim>\<open>recv\<close> and \<^verbatim>\<open>connect\<close>, the byte order, the order of unordered maps, the object representation of
    structures, the contents of uninitialised memory. The theorems hold for all of them.
  \<^item> The state is a record that grows with the components: \<open>rt\<close> (memory, mutexes, clock, identifiers), \<open>lrt\<close> (containers), \<open>reg\<close>
    (registry), \<open>lib\<close> (static variables of the start). What the listeners work on is the component \<open>world\<close>: \<open>file_world\<close> or \<open>tcp_world\<close>.

  \<^bold>\<open>The library.\<close>
  \<^item> \<open>Alloc\<close>: \<^verbatim>\<open>alloc.c\<close> over a heap of live blocks. The locale \<open>allocator\<close> is the contract of \<^verbatim>\<open>alloc.h\<close>, interpreted on the model's
    functions; all proofs about memory rest on it, so they hold for every allocator that a user installs and that keeps the contract.
  \<^item> \<open>Bag\<close>: \<^verbatim>\<open>bag.h\<close>. The locale \<open>growing_array\<close> is interpreted for pointers and for \<^verbatim>\<open>int\<close>; for the larger entries of listeners its
    laws fail, which \<open>Listener_Container\<close> shows.
  \<^item> \<open>Stack\<close> (\<^verbatim>\<open>stack.c\<close>) and \<open>Hash_Map\<close> (\<^verbatim>\<open>hash.h\<close>, \<^verbatim>\<open>hash_map.c\<close>): push and pop, and the table as a refinement of a finite map, with
    the undo of an insertion that runs out of memory. The locale \<open>label_map\<close> is what the string cache needs of the table.
  \<^item> \<open>Base_Types\<close>, \<open>Events\<close>: \<^verbatim>\<open>base_types.h\<close>, \<^verbatim>\<open>mkcreflect.h\<close>, \<^verbatim>\<open>event_macros.h\<close>, \<^verbatim>\<open>events.c\<close>, \<^verbatim>\<open>core_events.h\<close>, \<^verbatim>\<open>event_utils.c\<close>. The generated
    functions are one recursion over the value; serializing writes exactly the bytes that the size function counts.
  \<^item> \<open>Runtime\<close>: \<^verbatim>\<open>mutex.cpp\<close>, \<^verbatim>\<open>event_id_provider.cpp\<close>, \<^verbatim>\<open>monotonic_clock.cpp\<close>, \<^verbatim>\<open>thread.c\<close>.
  \<^item> \<open>Listener_Container\<close>, \<open>Registry\<close>, \<open>Timeline\<close>: \<^verbatim>\<open>timeline_listener.c\<close>, \<^verbatim>\<open>registry.c\<close>, \<^verbatim>\<open>system_info.c\<close>, \<^verbatim>\<open>timeline.c\<close>. Reference counts
    and who frees what; each class is registered once; a new listener is told every class; every event that is pushed arrives at every
    listener once and in order; a creation that fails gives everything back.
  \<^item> \<open>Listener_Buffer\<close>, \<open>File_Dump_Listener\<close>, \<open>Tcp_Listener\<close>: \<^verbatim>\<open>listener_buffer.c\<close>, \<^verbatim>\<open>file_dump_listener.c\<close>, \<^verbatim>\<open>tcp_server.cpp\<close>, \<^verbatim>\<open>tcp_listener.c\<close>. The
    locale \<open>byte_sink\<close> is the flush callback of a buffer, interpreted for the file (\<open>fd\<close>) and for the sockets of the clients (\<open>tcp_sink\<close>).
    Both listeners lose and double no byte; a client of the TCP listener gets whole events only.
  \<^item> \<open>Features\<close>, \<open>Cached_String\<close>: \<^verbatim>\<open>feature_callstack.c\<close>, \<^verbatim>\<open>scoped_tracepoint.c\<close>, \<^verbatim>\<open>feature_cached_string.c\<close>. Nested calls become events with their
    durations; a label is announced once; the memory of a feature is given back.
  \<^item> \<open>Task_Scheduler\<close>: \<^verbatim>\<open>task_scheduler.c\<close>. A tick looks at every task once, although it removes tasks as it goes; every operation is given with its
    footprint on the heap, and from creation to destruction a scheduler gives back all its blocks, but for one with each call that fails to schedule.
  \<^item> \<open>Startup\<close>: \<^verbatim>\<open>init.c\<close>, \<^verbatim>\<open>command_line_parser.c\<close>, \<^verbatim>\<open>global_timeline.cpp\<close>, \<^verbatim>\<open>posix_mapped_tracepoint.c\<close>. The first initialisation establishes the state
    the other theories call initialised; a second one loses it.

  \<^bold>\<open>The parser and the client.\<close>
  \<^item> \<open>Endianness\<close>, \<open>Klass_Register\<close>, \<open>Protocol_Reader\<close>: \<^verbatim>\<open>endianness_convert.hpp\<close>, \<^verbatim>\<open>event_klass.cpp\<close>, \<^verbatim>\<open>event.cpp\<close>, \<^verbatim>\<open>klass_register.cpp\<close>,
    \<^verbatim>\<open>file_stream.cpp\<close>, \<^verbatim>\<open>protocol_reader.cpp\<close>. The locale \<open>byte_stream\<close> is what the reader needs of a stream; its parameter \<open>clear\<close> says which
    bytes the stream can deliver one at a time. It is interpreted for files (every byte) and for connections (bytes below 128).
  \<^item> \<open>Trace_Reading\<close>, \<open>Trace_Metadata\<close>: in that locale, what the reader makes of the bytes of events and of the description
    of classes; reading is the inverse of serializing.
  \<^item> \<open>Tcp_Client_Stream\<close>: \<^verbatim>\<open>tcp_client_stream.cpp\<close>, once with whole turns of the receiving thread and once with every step of both
    threads, the mutex and the condition variable (\<open>tt_step\<close>); the steps simulate the turns. A reader is woken for data, under every
    schedule; it may miss the end of the connection.
  \<^item> \<open>Decimal\<close>, \<open>Tracepoint_Map\<close>, \<open>Call_Graph\<close>, \<open>Converter\<close>, \<open>Callgrind_Converter\<close>: numerals of the standard library, \<^verbatim>\<open>tracepoint_map.cpp\<close>,
    \<^verbatim>\<open>call_graph.cpp\<close>, \<^verbatim>\<open>converter.cpp\<close>, \<^verbatim>\<open>chrome_trace_converter.cpp\<close>, \<^verbatim>\<open>callgrind_converter.cpp\<close>. Map files are read back as they were
    written; the tree of calls accounts for every event; the output has a record for every event.
  \<^item> \<open>Client_Main\<close>: \<^verbatim>\<open>command_line_parser.cpp\<close>, \<^verbatim>\<open>stream_factory.cpp\<close>, \<^verbatim>\<open>client/main.cpp\<close>. Options are read back in any order; an address that is printed
    is scanned as the same address and port; a reader that feeds a converter does what a reader that collects events and the converter
    afterwards would do, so that the client on a file writes the records of exactly the events the reader finds.

  \<^bold>\<open>This theory\<close> composes the parts: a program that traces to a file or to a connected client, and a reader at the other end. The events it
  gets are those that were pushed, with their values, on machines of either byte order.

  \<^bold>\<open>Loops and bounds.\<close> No definition has fuel. A loop that the code bounds is a recursion with a termination proof. A loop that may run for ever (growth of a
  stack, reads of a stream, the tree of calls, the queue of the call graph, the wait for data, the clients of a server) is a partial function into
  \<^typ>\<open>'a option\<close>, and the theorems prove that it returns. The lemmas about the TCP server are for at most eight clients, the room its bag starts
  with, so that dropping a client moves no memory. The bound on the steps of the two threads grows with the data that is on its way.

  \<^bold>\<open>Not modelled.\<close>
  \<^item> Threads other than those of the TCP stream: one thread at a time runs in the library, a mutex that is held
    when it is locked is undefined, and the windows between two critical sections are not explored.
  \<^item> Listener callbacks that call the library again, task callbacks that use their scheduler, failing writes to an open file.
  \<^item> The ownership of the C++ objects of the parser (copies, moves and destructors of events), the lock of their fields, and events with
    floating point fields, on which the parser stops. To take a value of an event with the wrong getter, which reads other bits of a
    union, is undefined here. A class is searched by its name in the order of registration, where the code has an unordered map; names that are
    used twice are not searched in the theorems.
  \<^item> \<^verbatim>\<open>debug_event_listener.cpp\<close>, which prints events, and read errors of an open file, which are not distinguished from its end.
  \<^item> The branches for Windows, the system calls behind mutexes, clocks, threads and sockets, and the samplers of \<^verbatim>\<open>lib/platform\<close>, which read
    numbers from the system.
  \<^item> \<^verbatim>\<open>bindings/\<close>, which calls the interfaces of Python, and the examples, benchmarks, tests, scripts and build files.
\<close>

section \<open>A tracing session\<close>

text \<open>
  A program that dumps its trace to a file: it registers a file dump listener on a timeline, pushes events and flushes as it runs, flushes
  once more and unregisters its listeners, which destroys them.
\<close>

definition trace_session ::
  "nat \<times> nat \<times> nat \<Rightarrow> HT_Endianness \<Rightarrow> (byte list \<Rightarrow> ht_struct) \<Rightarrow> (ht_struct \<Rightarrow> byte list) \<Rightarrow> HT_ListenerBuffer \<Rightarrow>
   'f HT_Timeline \<Rightarrow> string \<Rightarrow> nat \<Rightarrow> timeline_op list \<Rightarrow> ('x file_world_scheme, 's) reg_scheme \<Rightarrow>
   ('x file_world_scheme, 's) reg_scheme option" where
  "trace_session version e object repr junk line filename buffer_size ops s =
     do { (err, p, s) \<leftarrow> ht_file_dump_listener_register version e object repr junk line filename buffer_size s;
          (line, s) \<leftarrow> run_ops (timeline_step e repr) (ops @ [Flush]) (line, s);
          ht_timeline_unregister_all_listeners line s }"

fun pushes :: "timeline_op list \<Rightarrow> ht_struct list" where
  "pushes [] = []"
| "pushes (Push ev # ops) = ev # pushes ops"
| "pushes (Flush # ops) = pushes ops"

lemma pushes_bytes: "concat (map (op_bytes e kl) ops) = concat (map (event_bytes e kl) (pushes ops))"
  by (induction ops rule: pushes.induct) simp_all

text \<open>With one listener, the chunks of the timeline are the calls of its callback.\<close>

lemma broadcast_one:
  "listeners k = [l] \<Longrightarrow> broadcast k ser chunks w = feed (le_callback l) (le_user_data l) ser chunks w"
  by (induction chunks arbitrary: w) (simp_all add: broadcast_def feed_def)

lemma returns_one:
  assumes "listeners k = [l]" and "takes Q (le_callback l) (le_user_data l)"
  shows "listeners_return Q True k"
  using assms by (auto simp: listeners_return_def takes_def)

text \<open>Registering a listener on a timeline with an empty container.\<close>

lemma register_first:
  fixes s :: "('w, 's) reg_scheme"
  assumes line: "timeline_inv line k s" and cont: "container_inv (tl_listeners line) s" and empty: "listeners k = []" "bag_cells (entries k) \<noteq> []"
  obtains k' where "ht_timeline_register_listener_full line cb ud d s = Some (HT_ERR_OK, set_container (tl_listeners line) k' s)"
    and "timeline_inv line k' (set_container (tl_listeners line) k' s)" and "container_inv (tl_listeners line) (set_container (tl_listeners line) k' s)"
    and "listeners k' = [\<lparr>le_callback = cb, le_user_data = ud, le_destroy_cb = d\<rparr>]"
proof -
  let ?c = "tl_listeners line"
  have k: "containers s ?c = Some k" "listener_bag_inv (entries k) (rt_mem s)" using line by (simp_all add: timeline_inv_def timeline_core_def)
  have size: "bag_size (entries k) = 0" using listener_bag_length [OF k(2)] empty(1) by (simp add: listeners_def)
  with empty(2) have room: "bag_size (entries k) < 16" "bag_size (entries k) < length (bag_cells (entries k))" by simp_all
  from container_register_ok [OF cont k(1) room, of cb ud d] obtain k' where
    reg: "ht_timeline_listener_container_register_listener ?c cb ud d s = Some (HT_ERR_OK, set_container ?c k' s)"
    and inv: "container_inv ?c (set_container ?c k' s)" and ls: "listeners k' = listeners k @ [\<lparr>le_callback = cb, le_user_data = ud, le_destroy_cb = d\<rparr>]"
    by blast
  have "listener_bag_inv (entries k') (rt_mem s)" using inv by (auto simp: container_inv_def set_container_def)
  then have "timeline_inv line k' (set_container ?c k' s)"
    using line by (simp add: timeline_inv_def timeline_core_def set_container_def buffer_live_def split: option.splits)
  with reg inv ls empty(1) that show thesis by (simp add: ht_timeline_register_listener_full_def)
qed

text \<open>Unregistering the only listener destroys it.\<close>

lemma unregister_one:
  fixes s :: "('w, 's) reg_scheme"
  assumes line: "timeline_inv line k s" and mtx: "c_mutex k = Some x" "rt_locks s x = Some False"
    and l: "listeners k = [l]" "le_destroy_cb l = Some d" "d (le_user_data l) (world s) = Some w"
  obtains s' where "ht_timeline_unregister_all_listeners line s = Some s'" and "world s' = w" and "rt_locks s' = rt_locks s"
proof -
  let ?c = "tl_listeners line" and ?s = "s\<lparr>rt_locks := (rt_locks s)(x \<mapsto> True)\<rparr>"
  have k: "containers s ?c = Some k" "listener_bag_inv (entries k) (rt_mem s)" "alloc_wf (rt_mem s)"
    using line by (simp_all add: timeline_inv_def timeline_core_def)
  have "destroy_all (listeners k) (world ?s) = Some w" using l by simp
  with container_unregister_all_ok [of ?s ?c k w] k obtain b m where
    un: "container_unregister_all ?c ?s = Some (set_container ?c (k\<lparr>entries := b\<rparr>) (?s\<lparr>world := w, rt_mem := m\<rparr>))" by auto
  have "ht_timeline_unregister_all_listeners line s =
      Some (set_container ?c (k\<lparr>entries := b\<rparr>) (s\<lparr>world := w, rt_mem := m, rt_locks := rt_locks s\<rparr>))"
    using k(1) mtx un
    by (simp add: ht_timeline_unregister_all_listeners_def ht_timeline_listener_container_unregister_all_listeners_def get_container_def
        ht_mutex_lock_def ht_mutex_unlock_def set_container_def fun_upd_idem)
  then show thesis by (rule that) (simp_all add: set_container_def)
qed

text \<open>Pushing the metadata leaves timelines and containers alone.\<close>

lemma registry_frame:
  fixes s :: "('w, 's) reg_scheme"
  assumes "same_registry (s\<lparr>world := w\<rparr>) s1" and "timeline_inv line k s" and "container_inv c s"
  shows "klasses s1 = klasses s" and "rt_locks s1 = rt_locks s" and "timeline_inv line k s1" and "container_inv c s1"
proof -
  from assms(1) obtain w' ids n where s1: "s1 = s\<lparr>world := w', rt_ids := ids, rt_ticks := n\<rparr>"
    unfolding same_registry_def by auto
  show "klasses s1 = klasses s" "rt_locks s1 = rt_locks s" by (simp_all add: s1)
  have "timeline_inv line k (s\<lparr>world := w'\<rparr>)"
    using assms(2) timeline_core_world [of line k s w'] by (simp add: timeline_inv_def split: option.splits)
  then show "timeline_inv line k s1" by (simp add: s1 timeline_inv_clock)
  show "container_inv c s1" using assms(3) by (simp add: s1 container_inv_def mutex_free_def)
qed

text \<open>
  C1. A trace file holds what the program traced, and the client reads it back. Take an initialised library, a timeline with nothing in its
  buffer and no listener, and a file that can be opened. For every sequence of pushes of events that conform to their
  declarations and are no larger than the buffer of the timeline or 128 bytes, and of flushes, the session returns; the file it leaves is the description of the classes followed by the events, and a reader on a machine of either
  byte order that opens this file gets the events of the description and then exactly the events that were pushed, in their order and with
  their values. The stream is closed and the lock of every component is free again.
\<close>

theorem trace_session_roundtrip:
  fixes s :: "('x file_world_scheme, 's) reg_scheme"
  assumes init: "initialised s ks" "describable s" and sys: "trace_event s ks (system_info_event version)"
    and world: "alloc_wf (rt_mem (world s))" "streams (world s) (next_stream (world s)) = None" "buffer_size < SIZE_MODULUS"
    and opened: "fd_listener_open junk filename buffer_size (world s) = Some (HT_ERR_OK, Some l, w)"
    and line: "timeline_inv line k s" "tl_serialize_events line" "pending line = []"
    and cont: "container_inv (tl_listeners line) s" "listeners k = []" "bag_cells (entries k) \<noteq> []"
    and evs: "\<forall>opn\<in>set ops. op_fits (tl_buffer_capacity line) opn" "\<forall>ev\<in>set (pushes ops). trace_event s ks ev"
  shows "\<exists>s' r. trace_session version e object repr junk line filename buffer_size ops s = Some s' \<and>
    written (world s') (next_stream (world s)) = metadata_bytes version e s @ concat (map (event_bytes e (klasses s)) (pushes ops)) \<and>
    streams (world s') = streams (world s) \<and> rt_locks s' = rt_locks s \<and>
    run_reader mach (file_stream [filename \<mapsto> written (world s') (next_stream (world s))]) False (\<lambda>ev log. Some (log @ [ev])) (\<lambda>_. True)
      (new_reader \<lparr>fs_file_name = filename, fs_file = None\<rparr> []) = Some (True, r) \<and>
    rd_client r = metadata_seen version e s @ map (parsed (rd_register r) (klasses s)) (pushes ops)"
proof -
  let ?f = "next_stream (world s)" and ?c = "tl_listeners line"
  let ?cb = "ht_file_dump_listener_callback e object (klasses s)"
  from opened obtain listener x where op: "fd_open l listener ?f x w" "fd_output l w = []" "streams w = (streams (world s))(?f \<mapsto> filename)"
    by (cases rule: fd_listener_open_cases [OF world(1,3,2), of junk filename]) auto
  obtain s1 b where create: "ht_file_dump_listener_create version e object repr junk filename buffer_size s = Some (HT_ERR_OK, Some l, s1)"
    and same: "same_registry (s\<lparr>world := w\<rparr>) s1" and op1: "fd_open l (listener\<lparr>fd_buffer := b\<rparr>) ?f x (world s1)"
    and out1: "fd_output l (world s1) = metadata_bytes version e s" and fr1: "fd_frame l w (world s1)"
    by (rule fd_create_ok [OF init(2) opened op(1,2), of version e object repr])
  note s1 = registry_frame [OF same line(1) cont(1)]
  obtain k' where reg: "ht_timeline_register_listener_full line ?cb l (Some (\<lambda>l. ht_file_dump_listener_destroy (Some l))) s1 =
      Some (HT_ERR_OK, set_container ?c k' s1)"
    and s2: "timeline_inv line k' (set_container ?c k' s1)" "container_inv ?c (set_container ?c k' s1)"
    and k': "listeners k' = [\<lparr>le_callback = ?cb, le_user_data = l, le_destroy_cb = Some (\<lambda>l. ht_file_dump_listener_destroy (Some l))\<rparr>]"
    by (rule register_first [OF s1(3,4) cont(2,3)])
  let ?s2 = "set_container ?c k' s1"
  have w2: "world ?s2 = world s1" "klasses ?s2 = klasses s" "rt_locks ?s2 = rt_locks s" using s1 by (simp_all add: set_container_def)
  have "listeners_return (fd_inv l) True k'" by (rule returns_one [OF k']) (simp add: fd_takes)
  moreover have "fd_inv l (world ?s2)" using op1 w2(1) by (auto simp: fd_inv_def)
  ultimately obtain line' s3 chunks where
    run: "run_ops (timeline_step e repr) (ops @ [Flush]) (line, ?s2) = Some (line', s3)"
      "timeline_inv line' k' s3" "tl_listeners line' = ?c" "rt_locks s3 = rt_locks s"
      "broadcast k' True chunks (world s1) = Some (world s3)" "concat chunks = concat (map (op_bytes e (klasses s)) ops)"
    using timeline_run_flush_ok [OF s2(1) line(2) _ _ evs(1), of "fd_inv l" e repr] w2 line(3) by auto
  have fe: "feed ?cb l True chunks (world s1) = Some (world s3)" using run(5) broadcast_one [OF k'] by simp
  from fd_feed [OF op1 fe] obtain b' where op3: "fd_open l (listener\<lparr>fd_buffer := b'\<rparr>) ?f x (world s3)"
    and out3: "fd_output l (world s3) = metadata_bytes version e s @ concat (map (event_bytes e (klasses s)) (pushes ops))"
    and fr3: "fd_frame l (world s1) (world s3)" using out1 run(6) by (auto simp: pushes_bytes)
  from fd_destroy_ok [OF op3] obtain w4 where d: "ht_file_dump_listener_destroy (Some l) (world s3) = Some w4"
    "written w4 ?f = fd_output l (world s3)" "streams w4 = (streams (world s3))(?f := None)" by auto
  obtain y where y: "c_mutex k' = Some y" "rt_locks s3 y = Some False"
    using s2(2) w2(3) run(4) by (auto simp: container_inv_def mutex_free_def set_container_def)
  obtain s4 where un: "ht_timeline_unregister_all_listeners line' s3 = Some s4" "world s4 = w4" "rt_locks s4 = rt_locks s3"
    by (rule unregister_one [OF run(2) y k', where d = "\<lambda>l. ht_file_dump_listener_destroy (Some l)" and w = w4]) (simp_all add: d(1))
  have session: "trace_session version e object repr junk line filename buffer_size ops s = Some s4"
    using create reg run(1) un(1) s1(1) by (simp add: trace_session_def ht_file_dump_listener_register_def)
  have bytes: "written (world s4) ?f = metadata_bytes version e s @ concat (map (event_bytes e (klasses s)) (pushes ops))"
    using un(2) d(2) out3 by simp
  have str: "streams (world s4) = streams (world s)"
    using un(2) d(3) fr1 fr3 op(3) world(2) by (simp add: fd_frame_def fun_upd_idem)
  have "[filename \<mapsto> written (world s4) ?f] filename =
      Some (metadata_bytes version e s @ concat (map (event_bytes e (klasses s)) (pushes ops)))" using bytes by simp
  from trace_file_read [where files = "[filename \<mapsto> written (world s4) ?f]" and name = filename and e = e and evs = "pushes ops",
      OF init(1) sys evs(2) this, of mach] obtain r where
    "run_reader mach (file_stream [filename \<mapsto> written (world s4) ?f]) False (\<lambda>ev log. Some (log @ [ev])) (\<lambda>_. True)
       (new_reader \<lparr>fs_file_name = filename, fs_file = None\<rparr> []) = Some (True, r)"
    "rd_client r = metadata_seen version e s @ map (parsed (rd_register r) (klasses s)) (pushes ops)" by blast
  then show ?thesis using session bytes str un(3) run(4) by (intro exI [of _ s4] exI [of _ r]) simp
qed

definition session_container :: "'w container" where
  "session_container =
     \<lparr>entries = \<lparr>bag_min_capacity = 16, bag_capacity = 16, bag_size = 0, bag_data = Some 4, bag_cells = replicate 16 None\<rparr>,
      c_mutex = Some 5, c_id = 0, c_refcount = 1\<rparr>"

definition session_of :: "'w \<Rightarrow> ('w, unit) reg_scheme" where
  "session_of w = (core_reg_of w)\<lparr>
     rt_mem := \<lparr>heap_of = \<lparr>blocks = [1 \<mapsto> 128, 2 \<mapsto> 40, 3 \<mapsto> 48, 4 \<mapsto> 384, 5 \<mapsto> 40, 6 \<mapsto> 312, 7 \<mapsto> 32, 8 \<mapsto> 40],
                           next_addr = 9, refusals = []\<rparr>, realloc_fnc = None, user_data = 0\<rparr>,
     rt_locks := [2 \<mapsto> False, 5 \<mapsto> False, 8 \<mapsto> False], containers := [3 \<mapsto> session_container]\<rparr>"

definition session_state :: "(file_world, unit) reg_scheme" where
  "session_state = session_of demo_file_world"

definition session_line :: "unit HT_Timeline" where
  "session_line = new_timeline 6 7 32 3 (Some 8) True"

lemma session_line_inv: "timeline_inv session_line session_container session_state" "container_inv 3 session_state"
  by (simp_all add: timeline_inv_def timeline_core_def session_line_def session_state_def session_of_def new_timeline_def buffer_live_def
      live_def alloc_wf_def heap_ok_def listener_bag_inv_def session_container_def filled_def bag_block_def container_inv_def mutex_free_def)

lemma session_opened:
  "\<exists>w. fd_listener_open demo_listener_buffer ''trace.htdump'' 64 (world session_state) = Some (HT_ERR_OK, Some 1, w)"
  by (simp add: session_state_def session_of_def core_reg_of_def demo_reg_of_def demo_file_world_def fd_listener_open_def ht_alloc_def malloc_def libc_refuses_def
      mem_init_def fopen_def ht_mutex_create_def ht_listener_buffer_init_def demo_listener_buffer_def sizeof_HT_FileDumpListener_def
      sizeof_HT_Mutex_def PTRDIFF_MAX_def)

lemma session_names:
  "\<forall>(k, ds)\<in>set core_decls. strlen k \<le> 100 \<and> (\<forall>d\<in>set ds. strlen (fd_c_type d) + strlen (fd_field_name d) \<le> 1000)"
  by (simp add: core_decls_def HT_EndiannessInfoEvent_decl_def HT_Event_decl_def HT_EventKlassInfoEvent_decl_def
      HT_EventKlassFieldInfoEvent_decl_def HT_CallstackBaseEvent_decl_def HT_CallstackIntEvent_decl_def HT_CallstackStringEvent_decl_def
      HT_StringMappingEvent_decl_def HT_SystemInfoEvent_decl_def base_decl_def integer_decl_def string_decl_def strlen_def)

lemma session_describable: "describable (session_of w)"
proof -
  have list: "bag_list (event_klass_register (session_of w)) = map fst core_decls"
    by (simp add: session_of_def core_reg_of_def bag_list_def contents_def core_decls_def)
  have ti: "type_info (klasses (session_of w) k) = Some (mkcreflect_type_info k ds)" if "(k, ds) \<in> set core_decls" for k ds
    using core_reg_info [OF that] by (simp add: session_of_def)
  have ready: "klass_ready (klasses (session_of w)) k" if "(k, ds) \<in> set core_decls" for k ds
    by (simp add: klass_ready_def ti [OF that] mkcreflect_type_info_def)
  have "get_size ev \<le> 4096" if "(k, ds) \<in> set core_decls" "ev \<in> set (klass_templates (klasses (session_of w)) k)" for k ds ev
    using bspec [OF session_names that(1)] that(2)
    by (auto simp: klass_templates_def ti [OF that(1)] klass_info_template_def field_info_template_def mkcreflect_type_info_def
        mkcreflect_field_info_def strlen_def dest!: set_zip_leftD)
  then have sizes: "\<forall>ev\<in>set (registry_templates (session_of w)). get_size ev \<le> 4096"
    unfolding registry_templates_def list by auto
  have "filled 9 (bag_cells (event_klass_register (session_of w)))"
    by (simp add: filled_iff_contents contents_def session_of_def core_reg_of_def core_decls_def)
  moreover have "\<exists>n. (16::nat) = 8 * 2 ^ n" by (rule exI [of _ 1]) simp
  ultimately have "bag_inv sizeof_void_ptr (event_klass_register (session_of w)) (rt_mem (session_of w))"
    by (simp add: bag_inv_def session_of_def core_reg_of_def live_def sizeof_void_ptr_def PTRDIFF_MAX_def core_decls_def)
  with sizes show ?thesis unfolding describable_def list using ready
    by (auto simp: REGISTRY_LISTENER_BUFF_SIZE_def) (simp_all add: session_of_def core_reg_of_def demo_reg_of_def mutex_free_def live_def)
qed

lemma session_initialised: "initialised (session_of w) other_klasses"
proof -
  have same: "registered (session_of w) = registered (core_reg_of w)" "klasses (session_of w) = klasses (core_reg_of w)"
    by (simp_all add: session_of_def registered_def)
  show ?thesis using core_reg_initialised [of w] unfolding initialised_def klass_ids_ok_def same .
qed

lemma session_trace_event: "trace_event (session_of w) other_klasses ev = trace_event (core_reg_of w) other_klasses ev"
  by (simp add: trace_event_def session_of_def)

theorem trace_session_roundtrip_witness:
  "\<exists>s' r. trace_session (0, 9, 1) HT_ENDIANNESS_BIG (\<lambda>_. HT_Event [] 0 0) (\<lambda>_. []) demo_listener_buffer session_line ''trace.htdump'' 64
       [Push (HT_Event ''HT_Event'' 30 3), Flush, Push (demo_trace ! 1)] session_state = Some s' \<and>
     run_reader HT_ENDIANNESS_LITTLE (file_stream [''trace.htdump'' \<mapsto> written (world s') 0]) False (\<lambda>ev log. Some (log @ [ev])) (\<lambda>_. True)
       (new_reader \<lparr>fs_file_name = ''trace.htdump'', fs_file = None\<rparr> []) = Some (True, r) \<and>
     rd_client r = metadata_seen (0, 9, 1) HT_ENDIANNESS_BIG session_state @
       map (parsed (rd_register r) (klasses session_state)) [HT_Event ''HT_Event'' 30 3, demo_trace ! 1]"
proof -
  let ?ops = "[Push (HT_Event ''HT_Event'' 30 3), Flush, Push (demo_trace ! 1)]"
  obtain w where opened: "fd_listener_open demo_listener_buffer ''trace.htdump'' 64 (world session_state) = Some (HT_ERR_OK, Some 1, w)"
    using session_opened by blast
  have sys: "trace_event session_state other_klasses (system_info_event (0, 9, 1))"
    unfolding session_state_def session_trace_event by (rule system_info_trace_event) simp
  have world: "alloc_wf (rt_mem (world session_state))" "streams (world session_state) (next_stream (world session_state)) = None"
    "next_stream (world session_state) = 0"
    by (simp_all add: session_state_def session_of_def core_reg_of_def demo_reg_of_def demo_file_world_def alloc_wf_mem_init)
  have line: "tl_serialize_events session_line" "pending session_line = []" "tl_listeners session_line = 3" "tl_buffer_capacity session_line = 32"
    by (simp_all add: session_line_def new_timeline_def pending_def)
  have cont: "container_inv (tl_listeners session_line) session_state" "listeners session_container = []" "bag_cells (entries session_container) \<noteq> []"
    using session_line_inv(2) line(3) by (simp_all add: listeners_def session_container_def bag_list_def)
  have fits: "\<forall>opn\<in>set ?ops. op_fits (tl_buffer_capacity session_line) opn" by (simp add: line(4) demo_trace_def)
  have evs: "\<forall>ev\<in>set (pushes ?ops). trace_event session_state other_klasses ev"
    using demo_trace_events [of demo_file_world] unfolding session_state_def session_trace_event by (simp add: demo_trace_def)
  have size: "(64::nat) < SIZE_MODULUS" by (simp add: SIZE_MODULUS_def)
  from trace_session_roundtrip [OF session_initialised [of demo_file_world, folded session_state_def] session_describable [of demo_file_world, folded session_state_def] sys world(1,2) size opened session_line_inv(1) line(1,2) cont fits evs,
      of HT_ENDIANNESS_BIG "\<lambda>_. HT_Event [] 0 0" "\<lambda>_. []" HT_ENDIANNESS_LITTLE]
  show ?thesis unfolding world(3) pushes.simps by blast
qed

section \<open>A trace over the network\<close>

text \<open>
  A client connects to a program with a TCP listener, whose timelines then hand the listener chunks of events: \<open>evss\<close> has
  the events of each chunk.
\<close>

definition chunk_bytes :: "HT_Endianness \<Rightarrow> (klass_ref \<Rightarrow> HT_EventKlass) \<Rightarrow> ht_struct list \<Rightarrow> byte list" where
  "chunk_bytes e kl evs = concat (map (event_bytes e kl) evs)"

definition tcp_session ::
  "nat \<times> nat \<times> nat \<Rightarrow> HT_Endianness \<Rightarrow> (byte list \<Rightarrow> ht_struct) \<Rightarrow> (ht_struct \<Rightarrow> byte list) \<Rightarrow>
   (nat \<Rightarrow> int \<Rightarrow> nat \<Rightarrow> 'x tcp_world_scheme \<Rightarrow> 'x tcp_world_scheme option) \<Rightarrow> int \<Rightarrow> addr \<Rightarrow> addr \<Rightarrow> ht_struct list list \<Rightarrow>
   ('x tcp_world_scheme, 's) reg_scheme \<Rightarrow> ('x tcp_world_scheme, 's) reg_scheme option" where
  "tcp_session version e object repr user_callback fd a l evss s =
     do { s \<leftarrow> ht_tcp_server_run_turn version e repr user_callback fd a s;
          w \<leftarrow> feed (ht_tcp_listener_callback e object (klasses s)) l True (map (chunk_bytes e (klasses s)) evss) (world s);
          Some (s\<lparr>world := w\<rparr>) }"

lemma concat_chunks: "concat (map (chunk_bytes e kl) evss) = chunk_bytes e kl (concat evss)"
  by (induction evss) (simp_all add: chunk_bytes_def)

lemma chunk_bytes_append: "chunk_bytes e kl (xs @ ys) = chunk_bytes e kl xs @ chunk_bytes e kl ys"
  by (simp add: chunk_bytes_def)

lemma tcp_session_sends:
  fixes s :: "('x tcp_world_scheme, 's) reg_scheme"
  assumes "describable s" and acc: "tcp_accepts fd l listener a x y (world s)" "net_sent (world s) fd = []"
    and buf: "lb_pending (tcp_buffer listener) = chunk_bytes e (klasses s) evs0"
  obtains s' n where "tcp_session version e object repr user_callback fd a l evss s = Some s'" and "n \<le> length evss"
    and "net_sent (world s') fd = metadata_bytes version e s @
      chunk_bytes e (klasses s) (if n = 0 then [] else evs0 @ concat (take n evss))"
proof -
  from tcp_connect_ok [OF assms(1) acc(1), of version e repr user_callback] acc(2) obtain s1 where
    conn: "ht_tcp_server_run_turn version e repr user_callback fd a s = Some s1" "klasses s1 = klasses s"
      "net_sent (world s1) fd = metadata_bytes version e s"
    and op: "tcp_open fd l (listener\<lparr>tcp_last_client_sock_fd := fd\<rparr>) a x y (world s1)" by auto
  from tcp_feed_ok [OF op, of e object "klasses s" "map (chunk_bytes e (klasses s)) evss"] obtain w b n where
    run: "feed (ht_tcp_listener_callback e object (klasses s)) l True (map (chunk_bytes e (klasses s)) evss) (world s1) = Some w"
    and n: "n \<le> length (map (chunk_bytes e (klasses s)) evss)"
      "if n = 0 then net_sent w fd = net_sent (world s1) fd \<and>
         lb_pending b = lb_pending (tcp_buffer (listener\<lparr>tcp_last_client_sock_fd := fd\<rparr>)) @ concat (map (chunk_bytes e (klasses s)) evss)
       else net_sent w fd = net_sent (world s1) fd @ lb_pending (tcp_buffer (listener\<lparr>tcp_last_client_sock_fd := fd\<rparr>)) @
           concat (take n (map (chunk_bytes e (klasses s)) evss)) \<and> lb_pending b = concat (drop n (map (chunk_bytes e (klasses s)) evss))"
    by blast
  have "net_sent w fd = metadata_bytes version e s @ chunk_bytes e (klasses s) (if n = 0 then [] else evs0 @ concat (take n evss))"
    using n(2) conn(3) buf by (auto simp: take_map concat_chunks chunk_bytes_append split: if_splits) (simp add: chunk_bytes_def)
  with that [of "s1\<lparr>world := w\<rparr>" n] conn run n(1) show thesis by (simp add: tcp_session_def)
qed

text \<open>
  C2. A client that is connected to the traced program gets a trace it can read. Take an initialised library with a TCP listener whose
  buffer holds whole events, and a client whose socket takes data, in whatever pieces; the other clients may fail
  and be dropped. When the client connects and the listener is then called with any chunks of events, every step returns. The
  client has then been sent the description of the classes followed by whole events only: what was in the buffer and the first \<open>n\<close> chunks, or none.
  When the connection ends, a reader over it, on a machine of either byte order, that may have tried to connect before, gets exactly
  these events in their order and with their values, however the network cuts the bytes into pieces and however
  far the receiving thread runs ahead, provided the strings of the events and the names of the classes are ASCII and the end of the connection is
  not missed.
\<close>

theorem tcp_session_roundtrip:
  fixes s :: "('x tcp_world_scheme, 's) reg_scheme"
  assumes init: "initialised s ks" "describable s" and sys: "trace_event s ks (system_info_event version)"
    and acc: "tcp_accepts fd l listener a x y (world s)" "net_sent (world s) fd = []"
    and buf: "lb_pending (tcp_buffer listener) = chunk_bytes e (klasses s) evs0"
    and evs: "\<forall>ev\<in>set (evs0 @ concat evss). trace_event s ks ev"
    and ascii: "\<forall>ev\<in>set (klass_events s @ evs0 @ concat evss). clear_event ascii ev"
  shows "\<exists>s' n evs. tcp_session version e object repr user_callback fd a l evss s = Some s' \<and> n \<le> length evss \<and>
    evs = (if n = 0 then [] else evs0 @ concat (take n evss)) \<and>
    net_sent (world s') fd = metadata_bytes version e s @ chunk_bytes e (klasses s) evs \<and>
    (\<forall>incoming sock k waits attempts ahead busy ip port mach.
       delivered incoming = Some (net_sent (world s') fd) \<longrightarrow> 0 \<le> sock \<longrightarrow> waits \<or> k = 0 \<longrightarrow>
       (\<exists>r. run_reader mach tcp_client_stream False (\<lambda>ev log. Some (log @ [ev])) (\<lambda>_. True)
              (new_reader (new_tcp_client_stream sock (replicate k None @ Some incoming # attempts) ahead False busy ip port waits) []) =
              Some (True, r) \<and>
            rd_client r = metadata_seen version e s @ map (parsed (rd_register r) (klasses s)) evs))"
proof -
  obtain s' n where session: "tcp_session version e object repr user_callback fd a l evss s = Some s'" "n \<le> length evss"
    and sent: "net_sent (world s') fd = metadata_bytes version e s @
      chunk_bytes e (klasses s) (if n = 0 then [] else evs0 @ concat (take n evss))"
    by (rule tcp_session_sends [OF init(2) acc buf])
  let ?evs = "if n = 0 then [] else evs0 @ concat (take n evss)"
  have sub: "set ?evs \<subseteq> set (evs0 @ concat evss)" by (auto dest: in_set_takeD)
  then have evs': "\<forall>ev\<in>set ?evs. trace_event s ks ev" and ascii': "\<forall>ev\<in>set (klass_events s @ ?evs). clear_event ascii ev"
    using evs ascii by (auto simp del: set_append set_concat) (auto split: if_splits)
  have read: "\<exists>r. run_reader mach tcp_client_stream False (\<lambda>ev log. Some (log @ [ev])) (\<lambda>_. True)
        (new_reader (new_tcp_client_stream sock (replicate k None @ Some incoming # attempts) ahead False busy ip port waits) []) = Some (True, r) \<and>
      rd_client r = metadata_seen version e s @ map (parsed (rd_register r) (klasses s)) ?evs"
    if "delivered incoming = Some (net_sent (world s') fd)" "0 \<le> sock" "waits \<or> k = 0" for incoming sock k waits attempts ahead busy ip port mach
    using tcp_trace_read [OF init(1) sys evs' ascii' _ that(2,3), of incoming e] that(1) sent by (simp add: chunk_bytes_def)
  show ?thesis using session sent read by (intro exI [of _ s'] exI [of _ n] exI [of _ ?evs]) blast
qed

definition session_tcp_listener :: HT_TCPListener where
  "session_tcp_listener =
     \<lparr>tcp_push_action_mutex = Some 3, tcp_buffer = \<lparr>lb_data = Some 2, lb_cells = replicate 16 None, lb_max_size = 16, lb_usage = 0\<rparr>,
      tcp_tcp_server = Some 4, tcp_last_client_sock_fd = 0, tcp_was_flushed = False, tcp_client_connected_callback = None,
      tcp_client_connected_user_data = 0\<rparr>"

definition session_tcp_server :: HT_TCPServer where
  "session_tcp_server =
     \<lparr>srv_accept_client_thread = Some 7,
      srv_client_sock_fd = \<lparr>bag_min_capacity = 8, bag_capacity = 8, bag_size = 1, bag_data = Some 5, bag_cells = Some 5 # replicate 7 None\<rparr>,
      srv_client_mutex = Some 6, srv_server_sock_fd = 4, srv_client_connected_ud = Some 1\<rparr>"

text \<open>The client 5 is broken; the client 6 takes three bytes, one byte, and then everything.\<close>

definition session_tcp_world :: tcp_world where
  "session_tcp_world =
     \<lparr>rt_mem = \<lparr>heap_of = \<lparr>blocks = [1 \<mapsto> 72, 2 \<mapsto> 16, 3 \<mapsto> 40, 4 \<mapsto> 80, 5 \<mapsto> 32, 6 \<mapsto> 40, 7 \<mapsto> 8], next_addr = 8, refusals = []\<rparr>,
                realloc_fnc = None, user_data = 0\<rparr>,
      rt_locks = [3 \<mapsto> False, 6 \<mapsto> False], rt_ids = (\<lambda>_. 0), rt_clock = of_nat, rt_ticks = 0, rt_last_thread = 0,
      net_sent = (\<lambda>_. []), net_sends = (\<lambda>fd. if fd = 5 then [- 1] else [3, 1]), net_setup = (4, True, True, True),
      tcp_servers = [4 \<mapsto> session_tcp_server], tcp_listeners = [1 \<mapsto> session_tcp_listener]\<rparr>"

lemma session_tcp_accepts: "tcp_accepts 6 1 session_tcp_listener 4 3 6 session_tcp_world"
  by (simp add: tcp_accepts_def session_tcp_world_def session_tcp_listener_def session_tcp_server_def lb_inv_def lb_live_def live_def filled_def
      SIZE_MODULUS_def steady_def ht_tcp_server_is_running_def clients_ok_def bag_inv_def sizeof_int_def sizeof_void_ptr_def PTRDIFF_MAX_def
      alloc_wf_def heap_ok_def bag_list_def contents_def filled_iff_contents)

lemma clear_set_header [simp]: "clear_event clear (set_header t i ev) = clear_event clear ev"
  by (induction ev rule: plain_event.induct) simp_all

lemma clear_stamp: "\<forall>ev\<in>set evs. clear_event clear ev \<Longrightarrow> \<forall>ev\<in>set (stamp clk t i evs). clear_event clear ev"
  by (induction clk t i evs rule: stamp.induct) simp_all

lemma session_ascii: "\<forall>ev\<in>set (klass_events (session_of w)). clear_event ascii ev"
proof -
  have list: "bag_list (event_klass_register (session_of w)) = map fst core_decls"
    by (simp add: session_of_def core_reg_of_def bag_list_def contents_def core_decls_def)
  have ti: "type_info (klasses (session_of w) k) = Some (mkcreflect_type_info k ds)" if "(k, ds) \<in> set core_decls" for k ds
    using core_reg_info [OF that] by (simp add: session_of_def)
  have names: "\<forall>(k, ds)\<in>set core_decls. clear_string ascii k \<and> (\<forall>d\<in>set ds. clear_string ascii (fd_c_type d) \<and> clear_string ascii (fd_field_name d))"
    by (simp add: core_decls_def HT_EndiannessInfoEvent_decl_def HT_Event_decl_def HT_EventKlassInfoEvent_decl_def
        HT_EventKlassFieldInfoEvent_decl_def HT_CallstackBaseEvent_decl_def HT_CallstackIntEvent_decl_def HT_CallstackStringEvent_decl_def
        HT_StringMappingEvent_decl_def HT_SystemInfoEvent_decl_def base_decl_def integer_decl_def string_decl_def clear_string_def ascii_def
        byte_of_char_def)
  have "clear_event ascii ev" if "(k, ds) \<in> set core_decls" "ev \<in> set (klass_templates (klasses (session_of w)) k)" for k ds ev
    using bspec [OF names that(1)] that(2)
    by (auto simp: klass_templates_def ti [OF that(1)] klass_info_template_def field_info_template_def mkcreflect_type_info_def
        mkcreflect_field_info_def dest!: set_zip_leftD)
  then have "\<forall>ev\<in>set (registry_templates (session_of w)). clear_event ascii ev"
    unfolding registry_templates_def list by auto
  then show ?thesis unfolding klass_events_def by (rule clear_stamp)
qed

theorem tcp_session_roundtrip_witness:
  "\<exists>s' n evs. tcp_session (0, 9, 1) HT_ENDIANNESS_BIG (\<lambda>_. HT_Event [] 0 0) (\<lambda>_. []) (\<lambda>cb fd ud w. Some w) 6 4 1
       [[demo_trace ! 0, demo_trace ! 1], [demo_trace ! 2]] (session_of session_tcp_world) = Some s' \<and> n \<le> 2 \<and>
     evs = (if n = 0 then [] else concat (take n [[demo_trace ! 0, demo_trace ! 1], [demo_trace ! 2]])) \<and>
     (\<forall>incoming sock k waits attempts ahead busy ip port mach.
       delivered incoming = Some (net_sent (world s') 6) \<longrightarrow> 0 \<le> sock \<longrightarrow> waits \<or> k = 0 \<longrightarrow>
       (\<exists>r. run_reader mach tcp_client_stream False (\<lambda>ev log. Some (log @ [ev])) (\<lambda>_. True)
              (new_reader (new_tcp_client_stream sock (replicate k None @ Some incoming # attempts) ahead False busy ip port waits) []) =
              Some (True, r) \<and>
            rd_client r = metadata_seen (0, 9, 1) HT_ENDIANNESS_BIG (session_of session_tcp_world) @
              map (parsed (rd_register r) (klasses (session_of session_tcp_world))) evs))"
proof -
  let ?s = "session_of session_tcp_world" and ?evss = "[[demo_trace ! 0, demo_trace ! 1], [demo_trace ! 2]]"
  have world: "world ?s = session_tcp_world" by (simp add: session_of_def core_reg_of_def demo_reg_of_def)
  have sys: "trace_event ?s other_klasses (system_info_event (0, 9, 1))"
    unfolding session_trace_event by (rule system_info_trace_event) simp
  have acc: "tcp_accepts 6 1 session_tcp_listener 4 3 6 (world ?s)" "net_sent (world ?s) 6 = []"
    unfolding world using session_tcp_accepts by (simp_all add: session_tcp_world_def)
  have buf: "lb_pending (tcp_buffer session_tcp_listener) = chunk_bytes HT_ENDIANNESS_BIG (klasses ?s) []"
    by (simp add: session_tcp_listener_def lb_pending_def chunk_bytes_def)
  have evs: "\<forall>ev\<in>set ([] @ concat ?evss). trace_event ?s other_klasses ev"
    using demo_trace_events [of session_tcp_world] unfolding session_trace_event by (simp add: demo_trace_def)
  have ascii: "\<forall>ev\<in>set (klass_events ?s @ [] @ concat ?evss). clear_event ascii ev"
    using session_ascii [of session_tcp_world] by (simp add: demo_trace_def clear_string_def ascii_def byte_of_char_def ball_Un)
  from tcp_session_roundtrip [OF session_initialised session_describable sys acc buf evs ascii, of "\<lambda>_. HT_Event [] 0 0" "\<lambda>_. []" "\<lambda>cb fd ud w. Some w"]
  show ?thesis by (simp only: append_Nil list.size One_nat_def add_Suc_right add_0_right numeral_2_eq_2) blast
qed

end
